(* ===== verification/Tdb_Prelude.thy ===== *)
theory Tdb_Prelude
  imports Main "HOL-Library.Word"
begin

text \<open>
  Shared ground of the development: the names of the C integer types, the status codes of
  \<^verbatim>\<open>include/transactiondb.h\<close>, byte slices and in-place patches of byte arrays (what
  \<^verbatim>\<open>memcpy\<close> into the middle of a page does), the C string routines the engine calls,
  and the generic list and word lemmas the component theories use.
\<close>

unbundle bit_operations_syntax

type_synonym byte = "8 word"
type_synonym u16 = "16 word"
type_synonym u32 = "32 word"
type_synonym u64 = "64 word"
type_synonym bytes = "8 word list"
type_synonym pgno = "32 word"
type_synonym rowid = "64 word"
type_synonym txnid = "64 word"

named_theorems tdb_bytes \<open>slices and patches of byte arrays\<close>
named_theorems tdb_codec \<open>decoding what an encoder wrote\<close>

section \<open>Status codes\<close>

datatype tdb_status =
  TDB_OK | TDB_ERROR | TDB_BUSY | TDB_LOCKED | TDB_NOMEM | TDB_READONLY | TDB_IOERR
| TDB_CORRUPT | TDB_NOTFOUND | TDB_FULL | TDB_CONSTRAINT | TDB_MISMATCH | TDB_MISUSE
| TDB_RANGE | TDB_ABORT | TDB_UNSUPPORTED | TDB_DONE | TDB_ROW

section \<open>Slices and patches\<close>

text \<open>
  \<open>slice off n xs\<close> is the \<open>n\<close> bytes at offset \<open>off\<close>; \<open>patch off ys xs\<close> overwrites
  the bytes from \<open>off\<close> on with \<open>ys\<close>. Both are used inside the array only, which is
  what the side conditions \<open>off + n \<le> length xs\<close> of the lemmas say.
\<close>

definition slice :: "nat \<Rightarrow> nat \<Rightarrow> 'a list \<Rightarrow> 'a list" where
  "slice off n xs = take n (drop off xs)"

definition patch :: "nat \<Rightarrow> 'a list \<Rightarrow> 'a list \<Rightarrow> 'a list" where
  "patch off ys xs = take off xs @ ys @ drop (off + length ys) xs"

lemma length_slice [tdb_bytes, simp]: "off + n \<le> length xs \<Longrightarrow> length (slice off n xs) = n"
  by (simp add: slice_def)

lemma length_patch [tdb_bytes, simp]:
  "off + length ys \<le> length xs \<Longrightarrow> length (patch off ys xs) = length xs"
  by (simp add: patch_def)

lemma slice_0 [simp]: "slice 0 n xs = take n xs"
  by (simp add: slice_def)

lemma slice_nth [tdb_bytes]:
  "off + n \<le> length xs \<Longrightarrow> i < n \<Longrightarrow> slice off n xs ! i = xs ! (off + i)"
  by (simp add: slice_def)

lemma patch_nth [tdb_bytes]:
  assumes "off + length ys \<le> length xs" and "i < length xs"
  shows "patch off ys xs ! i =
    (if off \<le> i \<and> i < off + length ys then ys ! (i - off) else xs ! i)"
  using assms by (auto simp: patch_def nth_append min_def)

lemma slice_patch_same [tdb_bytes]:
  assumes "off + length ys \<le> length xs"
  shows "slice off (length ys) (patch off ys xs) = ys"
  using assms by (simp add: slice_def patch_def)

lemma slice_patch_before [tdb_bytes]:
  assumes "off + length ys \<le> length xs" and "a + n \<le> off"
  shows "slice a n (patch off ys xs) = slice a n xs"
  using assms by (intro nth_equalityI) (auto simp: slice_nth patch_nth)

lemma slice_patch_after [tdb_bytes]:
  assumes "off + length ys \<le> length xs" and "off + length ys \<le> a" and "a + n \<le> length xs"
  shows "slice a n (patch off ys xs) = slice a n xs"
  using assms by (intro nth_equalityI) (auto simp: slice_nth patch_nth)

lemma patch_Nil [simp]: "patch off [] xs = xs"
  by (simp add: patch_def)

lemma slice_append_left [simp]: "off + n \<le> length xs \<Longrightarrow> slice off n (xs @ ys) = slice off n xs"
  by (simp add: slice_def)

lemma slice_append_right [simp]: "slice (length xs) (length ys) (xs @ ys @ zs) = ys"
  by (simp add: slice_def)

lemma patch_append_end: "patch (length xs) ys xs = xs @ ys"
  by (simp add: patch_def)

section \<open>C strings\<close>

text \<open>
  \<open>tolower\<close>, \<open>toupper\<close>, \<open>isspace\<close>, \<open>isalpha\<close>, \<open>isdigit\<close> and \<open>isxdigit\<close>
  in the \<^verbatim>\<open>C\<close> locale. Strings are lists of characters without the terminating NUL;
  \<open>strncasecmp\<close> is used by the engine for its sign only.
\<close>

definition c_tolower :: "nat \<Rightarrow> nat" where
  "c_tolower c = (if 65 \<le> c \<and> c \<le> 90 then c + 32 else c)"

definition c_toupper :: "nat \<Rightarrow> nat" where
  "c_toupper c = (if 97 \<le> c \<and> c \<le> 122 then c - 32 else c)"

definition c_isspace :: "nat \<Rightarrow> bool" where
  "c_isspace c \<longleftrightarrow> c = 32 \<or> (9 \<le> c \<and> c \<le> 13)"

definition c_isdigit :: "nat \<Rightarrow> bool" where
  "c_isdigit c \<longleftrightarrow> 48 \<le> c \<and> c \<le> 57"

definition c_isalpha :: "nat \<Rightarrow> bool" where
  "c_isalpha c \<longleftrightarrow> (65 \<le> c \<and> c \<le> 90) \<or> (97 \<le> c \<and> c \<le> 122)"

definition c_isalnum :: "nat \<Rightarrow> bool" where
  "c_isalnum c \<longleftrightarrow> c_isalpha c \<or> c_isdigit c"

definition c_isxdigit :: "nat \<Rightarrow> bool" where
  "c_isxdigit c \<longleftrightarrow> c_isdigit c \<or> (65 \<le> c \<and> c \<le> 70) \<or> (97 \<le> c \<and> c \<le> 102)"

text \<open>Case-insensitive equality (\<^verbatim>\<open>strcasecmp(a, b) == 0\<close>) of two strings.\<close>

definition str_ci :: "string \<Rightarrow> nat list" where
  "str_ci s = map (c_tolower \<circ> of_char) s"

definition c_strcaseeq :: "string \<Rightarrow> string \<Rightarrow> bool" where
  "c_strcaseeq a b \<longleftrightarrow> str_ci a = str_ci b"

lemma c_strcaseeq_refl [simp]: "c_strcaseeq a a"
  by (simp add: c_strcaseeq_def)

lemma c_strcaseeq_sym: "c_strcaseeq a b \<Longrightarrow> c_strcaseeq b a"
  by (simp add: c_strcaseeq_def)

lemma c_strcaseeq_trans: "c_strcaseeq a b \<Longrightarrow> c_strcaseeq b c \<Longrightarrow> c_strcaseeq a c"
  by (simp add: c_strcaseeq_def)

text \<open>
  \<^verbatim>\<open>memcmp\<close> as a three-way comparison of two arrays of the same length: the sign of the
  first differing byte pair.
\<close>

fun c_memcmp :: "bytes \<Rightarrow> bytes \<Rightarrow> int" where
  "c_memcmp (a # as) (b # bs) = (if a < b then -1 else if b < a then 1 else c_memcmp as bs)"
| "c_memcmp _ _ = 0"

lemma c_memcmp_self [simp]: "c_memcmp a a = 0"
  by (induction a) auto

lemma c_memcmp_eq_0: "length a = length b \<Longrightarrow> c_memcmp a b = 0 \<longleftrightarrow> a = b"
  by (induction a b rule: c_memcmp.induct) auto

lemma c_memcmp_sym: "c_memcmp b a = - c_memcmp a b"
  by (induction a b rule: c_memcmp.induct) auto

lemma c_memcmp_range: "c_memcmp a b \<in> {-1, 0, 1}"
  by (induction a b rule: c_memcmp.induct) auto

lemma c_memcmp_append_same: "length a = length b \<Longrightarrow>
    c_memcmp (a @ xs) (b @ ys) = (if a = b then c_memcmp xs ys else c_memcmp a b)"
  by (induction a b rule: c_memcmp.induct) auto

lemma c_memcmp_trans:
  "length a = length b \<Longrightarrow> length b = length c \<Longrightarrow> c_memcmp a b \<le> 0 \<Longrightarrow> c_memcmp b c \<le> 0 \<Longrightarrow>
   c_memcmp a c \<le> 0"
proof (induction a arbitrary: b c)
  case Nil
  then show ?case by simp
next
  case (Cons x xs)
  then obtain y ys z zs where bc: "b = y # ys" "c = z # zs"
    by (metis length_Suc_conv)
  with Cons.prems Cons.IH [of ys zs] show ?case
    by (auto split: if_splits)
qed

section \<open>Words and lists\<close>

lemma unat_drop_bit_div: "unat (drop_bit n (w :: 'a :: len word)) = unat w div 2 ^ n"
  by (subst unat_drop_bit_eq) (rule drop_bit_eq_div)

lemma unat_less_2p: "unat (w :: 'a :: len word) < 2 ^ LENGTH('a)"
  by (rule unsigned_less)

lemma bit_128_iff: "bit (128 :: int) n \<longleftrightarrow> n = 7"
proof -
  have "(128 :: int) = 2 ^ 7" by simp
  then show ?thesis by (simp only: bit_exp_iff) auto
qed

lemma bit_127_iff: "bit (127 :: int) n \<longleftrightarrow> n < 7"
proof -
  have "(127 :: int) = mask 7" by (simp add: mask_numeral)
  then show ?thesis by (simp only: bit_mask_iff) auto
qed

lemma bit_255_iff: "bit (255 :: int) n \<longleftrightarrow> n < 8"
proof -
  have "(255 :: int) = mask 8" by (simp add: mask_numeral)
  then show ?thesis by (simp only: bit_mask_iff) auto
qed

lemma bit_16777215_iff: "bit (16777215 :: int) n \<longleftrightarrow> n < 24"
proof -
  have "(16777215 :: int) = mask 24" by (simp add: mask_numeral)
  then show ?thesis by (simp only: bit_mask_iff) auto
qed

lemmas bit_const_iff = bit_128_iff bit_127_iff bit_255_iff bit_16777215_iff

lemma take_drop_nth_split:
  "i < length xs \<Longrightarrow> xs = take i xs @ xs ! i # drop (Suc i) xs"
  by (rule id_take_nth_drop)

lemma list_all_drop: "list_all P xs \<Longrightarrow> list_all P (drop n xs)"
  by (auto simp: list_all_iff dest: in_set_dropD)

lemma list_all_take: "list_all P xs \<Longrightarrow> list_all P (take n xs)"
  by (auto simp: list_all_iff dest: in_set_takeD)

end
