(* ===== verification/Tdb_Util.thy ===== *)
theory Tdb_Util
  imports Tdb_Prelude
begin

text \<open>
  \<^verbatim>\<open>src/common/tdb_util.c\<close>: variable-length integers, big-endian integers, the CRC32C
  checksum and the FNV-1a hash. A routine that writes through a pointer returns the bytes it
  wrote; the C return value of \<open>tdb_put_varint\<close> is the length of that list. A read returns
  \<open>None\<close> where the C function returns 0.
\<close>

section \<open>Variable-length integers\<close>

function tdb_varint_len :: "u64 \<Rightarrow> nat" where
  "tdb_varint_len v = (if 0x80 \<le> v then Suc (tdb_varint_len (drop_bit 7 v)) else 1)"
  by pat_completeness auto
termination
proof (relation "measure unat")
  fix v :: u64
  assume "0x80 \<le> v"
  then have "128 \<le> unat v" by (simp add: word_le_nat_alt)
  then have "unat (drop_bit 7 v) < unat v"
    by (simp only: unat_drop_bit_div) simp
  then show "(drop_bit 7 v, v) \<in> measure unat" by (simp only: in_measure)
qed simp

function tdb_put_varint :: "u64 \<Rightarrow> bytes" where
  "tdb_put_varint v =
     (if 0x80 \<le> v then ucast (v OR 0x80) # tdb_put_varint (drop_bit 7 v) else [ucast v])"
  by pat_completeness auto
termination
proof (relation "measure unat")
  fix v :: u64
  assume "0x80 \<le> v"
  then have "128 \<le> unat v" by (simp add: word_le_nat_alt)
  then have "unat (drop_bit 7 v) < unat v"
    by (simp only: unat_drop_bit_div) simp
  then show "(drop_bit 7 v, v) \<in> measure unat" by (simp only: in_measure)
qed simp

declare tdb_varint_len.simps [simp del] tdb_put_varint.simps [simp del]

text \<open>The loop of \<open>tdb_get_varint\<close>: at most \<open>avail\<close> bytes, and at most ten.\<close>

fun get_varint_loop :: "bytes \<Rightarrow> nat \<Rightarrow> nat \<Rightarrow> u64 \<Rightarrow> (nat \<times> u64) option" where
  "get_varint_loop [] i shift result = None"
| "get_varint_loop (b # p) i shift result =
     (if i < 10 then
        (let result' = result OR push_bit shift (ucast (b AND 0x7f)) in
         if b AND 0x80 = 0 then Some (Suc i, result')
         else get_varint_loop p (Suc i) (shift + 7) result')
      else None)"

definition tdb_get_varint :: "bytes \<Rightarrow> nat \<Rightarrow> (nat \<times> u64) option" where
  "tdb_get_varint p avail = get_varint_loop (take avail p) 0 0 0"

lemma varint_len_put: "tdb_varint_len v = length (tdb_put_varint v)"
  by (induction v rule: tdb_varint_len.induct)
     (subst tdb_varint_len.simps, subst tdb_put_varint.simps, simp)

lemma put_varint_nonempty [simp]: "tdb_put_varint v \<noteq> []"
  by (subst tdb_put_varint.simps) simp

lemma put_varint_length_lower: "length (tdb_put_varint v) \<le> n \<Longrightarrow> unat v < 2 ^ (7 * n)"
proof (induction n arbitrary: v)
  case 0
  then show ?case by simp
next
  case (Suc n)
  show ?case
  proof (cases "0x80 \<le> v")
    case True
    then have "length (tdb_put_varint (drop_bit 7 v)) \<le> n" using Suc.prems by (subst (asm) tdb_put_varint.simps) simp
    from Suc.IH [OF this] have "unat v div 128 < 2 ^ (7 * n)" by (simp add: unat_drop_bit_div)
    then show ?thesis by (simp add: power_add div_less_iff_less_mult mult.commute)
  next
    case False
    then have "unat v < 128" by (simp add: word_le_nat_alt)
    also have "\<dots> \<le> 2 ^ (7 * Suc n)" by (simp add: power_add)
    finally show ?thesis .
  qed
qed

lemma put_varint_length_bound:
  "unat v < 2 ^ (7 * n) \<Longrightarrow> 0 < n \<Longrightarrow> length (tdb_put_varint v) \<le> n"
proof (induction n arbitrary: v)
  case 0
  then show ?case by simp
next
  case (Suc n)
  show ?case
  proof (cases "0x80 \<le> v")
    case False
    then show ?thesis by (subst tdb_put_varint.simps) simp
  next
    case True
    then have ge: "128 \<le> unat v" by (simp add: word_le_nat_alt)
    have dv: "unat (drop_bit 7 v) = unat v div 128"
      by (simp only: unat_drop_bit_div) simp
    have lt: "unat v div 128 < 2 ^ (7 * n)"
      using Suc.prems(1) by (simp add: power_add less_mult_imp_div_less mult.commute)
    have "0 < n" using ge lt by (cases n) auto
    with lt dv have "length (tdb_put_varint (drop_bit 7 v)) \<le> n"
      by (intro Suc.IH) simp_all
    with True show ?thesis by (subst tdb_put_varint.simps) simp
  qed
qed

lemma put_varint_length_le_10: "length (tdb_put_varint v) \<le> 10"
proof (rule put_varint_length_bound)
  have "unat v < 2 ^ 64" using unat_less_2p [of v] by simp
  then show "unat v < 2 ^ (7 * 10)" by (rule less_le_trans) simp
qed simp

lemma byte_continues: "(ucast ((v :: u64) OR 0x80) :: byte) AND 0x80 \<noteq> 0"
proof -
  have "bit ((ucast (v OR 0x80) :: byte) AND 0x80) 7"
    by (simp add: bit_simps)
  then show ?thesis by (metis bit_0_eq bot_apply bot_bool_def)
qed

lemma byte_stops:
  fixes v :: u64
  assumes "v < 0x80"
  shows "(ucast v :: byte) AND 0x80 = 0"
proof (rule bit_word_eqI)
  fix n
  assume "n < LENGTH(8)"
  have "unat v < 128" using assms by (simp add: word_less_nat_alt)
  then have "\<not> bit (unat v) 7" by (simp add: bit_iff_odd)
  then have "\<not> bit v 7" by (simp add: bit_unsigned_iff)
  then show "bit ((ucast v :: byte) AND 0x80) n = bit (0 :: byte) n"
    by (auto simp: bit_simps bit_const_iff)
qed

lemma byte_low_bits:
  fixes v :: u64
  shows "(ucast ((ucast (v OR 0x80) :: byte) AND 0x7f) :: u64) = v AND 0x7f"
    and "(ucast ((ucast v :: byte) AND 0x7f) :: u64) = v AND 0x7f"
  by (rule bit_word_eqI, auto simp: bit_simps bit_const_iff)+

lemma push_low_high:
  fixes v :: u64
  shows "push_bit n (v AND 0x7f) OR push_bit (n + 7) (drop_bit 7 v) = push_bit n v"
proof (rule bit_word_eqI)
  fix k
  assume "k < LENGTH(64)"
  show "bit (push_bit n (v AND 0x7f) OR push_bit (n + 7) (drop_bit 7 v)) k = bit (push_bit n v) k"
  proof (cases "n + 7 \<le> k")
    case True
    then have "7 + (k - (n + 7)) = k - n" by simp
    with True show ?thesis by (auto simp: bit_simps bit_const_iff)
  qed (auto simp: bit_simps bit_const_iff)
qed

lemma get_varint_continue: "i < 10 \<Longrightarrow>
    get_varint_loop (ucast (v OR 0x80) # p) i shift r =
    get_varint_loop p (Suc i) (shift + 7) (r OR push_bit shift (v AND 0x7f))"
  by (simp only: get_varint_loop.simps if_True Let_def byte_continues byte_low_bits(1) if_False)

lemma and_7f_self: "(v :: u64) < 0x80 \<Longrightarrow> v AND 0x7f = v"
proof -
  assume "v < 0x80"
  then have "unat v < 2 ^ 7" by (simp add: word_less_nat_alt)
  then have "take_bit 7 (unat v) = unat v" by (simp only: take_bit_nat_eq_self_iff)
  then have "take_bit 7 v = v" by (metis unsigned_take_bit_eq word_unat_eq_iff)
  then show ?thesis by (simp add: take_bit_eq_mask mask_numeral)
qed

lemma get_varint_loop_put:
  "i + length (tdb_put_varint v) \<le> 10 \<Longrightarrow>
   get_varint_loop (tdb_put_varint v @ rest) i shift r =
     Some (i + length (tdb_put_varint v), r OR push_bit shift v)"
proof (induction v arbitrary: i shift r rule: tdb_put_varint.induct)
  case (1 v)
  show ?case
  proof (cases "0x80 \<le> v")
    case False
    then have small: "v < 0x80" by simp
    have "tdb_put_varint v = [ucast v]"
      using False by (subst tdb_put_varint.simps) simp
    with small "1.prems" show ?thesis
      by (simp add: byte_stops byte_low_bits and_7f_self)
  next
    case True
    have step: "tdb_put_varint v = ucast (v OR 0x80) # tdb_put_varint (drop_bit 7 v)"
      using True by (subst tdb_put_varint.simps) simp
    have "get_varint_loop (tdb_put_varint (drop_bit 7 v) @ rest) (Suc i) (shift + 7)
            (r OR push_bit shift (v AND 0x7f)) =
          Some (Suc i + length (tdb_put_varint (drop_bit 7 v)),
            (r OR push_bit shift (v AND 0x7f)) OR push_bit (shift + 7) (drop_bit 7 v))"
      using True "1.prems" by (intro "1.IH") (simp_all add: step)
    with "1.prems" show ?thesis
      by (simp add: step get_varint_continue or.assoc push_low_high
            del: push_bit_and get_varint_loop.simps)
  qed
qed

lemma get_put_varint [tdb_codec]:
  assumes "length (tdb_put_varint v) \<le> avail"
  shows "tdb_get_varint (tdb_put_varint v @ rest) avail = Some (length (tdb_put_varint v), v)"
proof -
  have "take avail (tdb_put_varint v @ rest) =
      tdb_put_varint v @ take (avail - length (tdb_put_varint v)) rest"
    using assms by simp
  then show ?thesis
    using get_varint_loop_put [of 0 v _ 0 0] put_varint_length_le_10 [of v]
    by (simp add: tdb_get_varint_def)
qed

lemma get_varint_loop_bounds:
  "get_varint_loop p i shift r = Some (k, v) \<Longrightarrow> i < k \<and> k \<le> i + length p \<and> k \<le> 10"
  by (induction p i shift r rule: get_varint_loop.induct)
     (auto simp: Let_def split: if_splits)

lemma get_varint_bounds:
  "tdb_get_varint p avail = Some (k, v) \<Longrightarrow> 0 < k \<and> k \<le> 10 \<and> k \<le> avail \<and> k \<le> length p"
  using get_varint_loop_bounds [of "take avail p" 0 0 0 k v] by (auto simp: tdb_get_varint_def)

section \<open>Big-endian integers\<close>

definition tdb_put_u16 :: "u16 \<Rightarrow> bytes" where
  "tdb_put_u16 v = [ucast (drop_bit 8 v), ucast v]"

definition tdb_put_u32 :: "u32 \<Rightarrow> bytes" where
  "tdb_put_u32 v = [ucast (drop_bit 24 v), ucast (drop_bit 16 v), ucast (drop_bit 8 v), ucast v]"

definition tdb_put_u64 :: "u64 \<Rightarrow> bytes" where
  "tdb_put_u64 v = tdb_put_u32 (ucast (drop_bit 32 v)) @ tdb_put_u32 (ucast v)"

text \<open>The readers take the bytes from \<open>p\<close> on; the caller guarantees that they exist.\<close>

definition tdb_get_u16 :: "bytes \<Rightarrow> u16" where
  "tdb_get_u16 p = push_bit 8 (ucast (p ! 0)) OR ucast (p ! 1)"

definition tdb_get_u32 :: "bytes \<Rightarrow> u32" where
  "tdb_get_u32 p = push_bit 24 (ucast (p ! 0)) OR push_bit 16 (ucast (p ! 1)) OR
     push_bit 8 (ucast (p ! 2)) OR ucast (p ! 3)"

definition tdb_get_u64 :: "bytes \<Rightarrow> u64" where
  "tdb_get_u64 p = push_bit 32 (ucast (tdb_get_u32 p)) OR ucast (tdb_get_u32 (drop 4 p))"

lemma length_put_u [simp]:
  "length (tdb_put_u16 v16) = 2" "length (tdb_put_u32 v32) = 4" "length (tdb_put_u64 v64) = 8"
  by (simp_all add: tdb_put_u16_def tdb_put_u32_def tdb_put_u64_def)

lemma get_put_u16 [tdb_codec]: "tdb_get_u16 (tdb_put_u16 v @ rest) = v"
  by (rule bit_word_eqI) (auto simp: tdb_get_u16_def tdb_put_u16_def bit_simps)

lemma u32_split:
  fixes v :: u32
  shows "push_bit 24 (ucast (ucast (drop_bit 24 v) :: byte)) OR
    push_bit 16 (ucast (ucast (drop_bit 16 v) :: byte)) OR
    push_bit 8 (ucast (ucast (drop_bit 8 v) :: byte)) OR ucast (ucast v :: byte) = v"
proof (rule bit_word_eqI)
  fix n
  assume "n < LENGTH(32)"
  then consider "n < 8" | "8 \<le> n" "n < 16" | "16 \<le> n" "n < 24" | "24 \<le> n" "n < 32"
    by fastforce
  then show "bit (push_bit 24 (ucast (ucast (drop_bit 24 v) :: byte)) OR
      push_bit 16 (ucast (ucast (drop_bit 16 v) :: byte)) OR
      push_bit 8 (ucast (ucast (drop_bit 8 v) :: byte)) OR ucast (ucast v :: byte) :: u32) n =
      bit v n"
    by cases (auto simp: bit_simps)
qed

lemma get_put_u32 [tdb_codec]: "tdb_get_u32 (tdb_put_u32 v @ rest) = v"
  by (simp add: tdb_get_u32_def tdb_put_u32_def u32_split)

lemma get_put_u64 [tdb_codec]: "tdb_get_u64 (tdb_put_u64 v @ rest) = v"
proof -
  have "drop 4 (tdb_put_u64 v @ rest) = tdb_put_u32 (ucast v) @ rest"
    by (simp add: tdb_put_u64_def)
  moreover have "tdb_get_u32 (tdb_put_u64 v @ rest) = ucast (drop_bit 32 v)"
    by (simp add: tdb_put_u64_def get_put_u32)
  ultimately have "tdb_get_u64 (tdb_put_u64 v @ rest) =
      push_bit 32 (ucast (ucast (drop_bit 32 v) :: u32)) OR ucast (ucast v :: u32)"
    by (simp add: tdb_get_u64_def get_put_u32)
  also have "\<dots> = v"
    by (rule bit_word_eqI) (auto simp: bit_simps)
  finally show ?thesis .
qed

lemmas get_put_u = get_put_u16 get_put_u32 get_put_u64
lemmas get_put_u_exact [simp] = get_put_u [where rest = "[]", simplified]

text \<open>
  Big-endian encoding makes the byte order of the encodings the numeric order of the
  numbers: table B-trees compare 8-byte rowid keys with \<^verbatim>\<open>memcmp\<close>.
\<close>

lemma unat_ucast_byte: "unat (ucast (drop_bit n (w :: 'a :: len word)) :: byte) = unat w div 2 ^ n mod 256"
  by (simp add: unsigned_ucast_eq take_bit_eq_mod flip: unat_drop_bit_div)

lemma base256_digits:
  fixes A :: nat
  assumes "A < 2 ^ 32"
  shows "A = 16777216 * (A div 2 ^ 24 mod 256) + 65536 * (A div 2 ^ 16 mod 256)
           + 256 * (A div 2 ^ 8 mod 256) + A mod 256"
proof -
  have d1: "A = 256 * (A div 256) + A mod 256" by simp
  have d2: "A div 256 = 256 * (A div 2 ^ 16) + A div 2 ^ 8 mod 256"
    using div_mult_mod_eq [of "A div 256" 256] by (simp flip: div_mult2_eq)
  have d3: "A div 2 ^ 16 = 256 * (A div 2 ^ 24) + A div 2 ^ 16 mod 256"
    using div_mult_mod_eq [of "A div 65536" 256] by (simp flip: div_mult2_eq)
  have "A div 2 ^ 24 < 256" using assms by (simp add: less_mult_imp_div_less)
  then have d4: "A div 2 ^ 24 mod 256 = A div 2 ^ 24" by simp
  show ?thesis using d1 d2 d3 d4 by linarith
qed

lemma memcmp_put_u32:
  "c_memcmp (tdb_put_u32 a) (tdb_put_u32 b) = (if a < b then -1 else if b < a then 1 else 0)"
proof -
  have bound: "unat a < 2 ^ 32" "unat b < 2 ^ 32"
    using unat_less_2p [of a] unat_less_2p [of b] by simp_all
  have byte0: "unat (ucast (w :: u32) :: byte) = unat w mod 256" for w
    using unat_ucast_byte [of 0 w] by simp
  define da0 da1 da2 da3 where "da0 = unat a mod 256" and "da1 = unat a div 2 ^ 8 mod 256"
    and "da2 = unat a div 2 ^ 16 mod 256" and "da3 = unat a div 2 ^ 24 mod 256"
  define db0 db1 db2 db3 where "db0 = unat b mod 256" and "db1 = unat b div 2 ^ 8 mod 256"
    and "db2 = unat b div 2 ^ 16 mod 256" and "db3 = unat b div 2 ^ 24 mod 256"
  note digits = da0_def da1_def da2_def da3_def db0_def db1_def db2_def db3_def
  have small: "da0 < 256" "da1 < 256" "da2 < 256" "da3 < 256"
              "db0 < 256" "db1 < 256" "db2 < 256" "db3 < 256"
    by (simp_all add: digits)
  have a: "unat a = 16777216 * da3 + 65536 * da2 + 256 * da1 + da0"
    unfolding digits by (rule base256_digits [OF bound(1)])
  have b: "unat b = 16777216 * db3 + 65536 * db2 + 256 * db1 + db0"
    unfolding digits by (rule base256_digits [OF bound(2)])
  have cmp: "c_memcmp (tdb_put_u32 a) (tdb_put_u32 b) =
     (if da3 < db3 then -1 else if db3 < da3 then 1 else
      if da2 < db2 then -1 else if db2 < da2 then 1 else
      if da1 < db1 then -1 else if db1 < da1 then 1 else
      if da0 < db0 then -1 else if db0 < da0 then 1 else 0)"
    by (simp only: tdb_put_u32_def c_memcmp.simps word_less_nat_alt byte0 unat_drop_bit_div digits)
  show ?thesis
    unfolding cmp word_less_nat_alt a b using small by auto
qed

lemma put_u32_inject: "tdb_put_u32 a = tdb_put_u32 b \<longleftrightarrow> a = b"
  by (metis get_put_u_exact(2))

lemma memcmp_put_u64:
  "c_memcmp (tdb_put_u64 a) (tdb_put_u64 b) = (if a < b then -1 else if b < a then 1 else 0)"
proof -
  define ah al bh bl :: u32 where "ah = ucast (drop_bit 32 a)" and "al = ucast a"
    and "bh = ucast (drop_bit 32 b)" and "bl = ucast b"
  have parts: "unat w = 4294967296 * unat (ucast (drop_bit 32 w) :: u32) + unat (ucast w :: u32)"
    for w :: u64
  proof -
    have "unat w < 2 ^ 64" using unat_less_2p [of w] by simp
    then have "unat w div 4294967296 < 4294967296"
      by (simp add: less_mult_imp_div_less)
    then show ?thesis
      by (simp add: unsigned_ucast_eq take_bit_eq_mod unat_drop_bit_div)
  qed
  have a: "unat a = 4294967296 * unat ah + unat al"
    unfolding ah_def al_def by (rule parts)
  have b: "unat b = 4294967296 * unat bh + unat bl"
    unfolding bh_def bl_def by (rule parts)
  have low: "unat al < 4294967296" "unat bl < 4294967296"
    using unat_less_2p [of al] unat_less_2p [of bl] by simp_all
  have "c_memcmp (tdb_put_u64 a) (tdb_put_u64 b) =
    (if ah = bh then c_memcmp (tdb_put_u32 al) (tdb_put_u32 bl)
     else c_memcmp (tdb_put_u32 ah) (tdb_put_u32 bh))"
    by (simp add: tdb_put_u64_def c_memcmp_append_same put_u32_inject ah_def al_def bh_def bl_def)
  then show ?thesis
    using low by (auto simp: memcmp_put_u32 word_less_nat_alt word_unat_eq_iff a b)
qed

section \<open>CRC32C\<close>

text \<open>
  \<open>crc_bit\<close> is one round of the inner loop of \<open>tdb_crc32c_init\<close>; the table holds eight
  rounds for each byte. The C code fills the table on first use; its contents never change.
\<close>

definition crc_bit :: "u32 \<Rightarrow> u32" where
  "crc_bit crc = (if crc AND 1 \<noteq> 0 then drop_bit 1 crc XOR 0x82F63B78 else drop_bit 1 crc)"

definition tdb_crc32c_table :: "u32 list" where
  "tdb_crc32c_table = map (\<lambda>i. (crc_bit ^^ 8) (word_of_nat i)) [0..<256]"

definition crc_byte :: "u32 \<Rightarrow> byte \<Rightarrow> u32" where
  "crc_byte crc b =
     tdb_crc32c_table ! unat ((crc XOR ucast b) AND 0xff) XOR drop_bit 8 crc"

definition tdb_crc32c :: "u32 \<Rightarrow> bytes \<Rightarrow> u32" where
  "tdb_crc32c seed data = NOT (foldl crc_byte (NOT seed) data)"

lemma crc32c_Nil [simp]: "tdb_crc32c seed [] = seed"
  by (simp add: tdb_crc32c_def)

lemma crc32c_append: "tdb_crc32c seed (xs @ ys) = tdb_crc32c (tdb_crc32c seed xs) ys"
  by (simp add: tdb_crc32c_def)

text \<open>The bit-at-a-time definition of the checksum, without the table.\<close>

definition crc32c_bitwise :: "u32 \<Rightarrow> bytes \<Rightarrow> u32" where
  "crc32c_bitwise seed data =
     NOT (foldl (\<lambda>crc b. (crc_bit ^^ 8) (crc XOR ucast b)) (NOT seed) data)"

lemma crc_bit_alt:
  "crc_bit w = (if bit w 0 then drop_bit 1 w XOR 0x82F63B78 else drop_bit 1 w)"
  by (simp add: crc_bit_def and_one_eq bit_0 odd_iff_mod_2_eq_one)

lemma crc_bit_xor: "crc_bit (a XOR b) = crc_bit a XOR crc_bit b"
  by (cases "bit a 0"; cases "bit b 0")
     (simp_all add: crc_bit_alt bit_xor_iff ac_simps)

lemma crc_bits_xor: "(crc_bit ^^ n) (a XOR b) = (crc_bit ^^ n) a XOR (crc_bit ^^ n) b"
  by (induction n) (simp_all add: crc_bit_xor)

lemma crc_bit_even: "\<not> bit w 0 \<Longrightarrow> crc_bit w = drop_bit 1 w"
  by (simp add: crc_bit_alt)

lemma crc_bits_high: "(\<And>i. i < n \<Longrightarrow> \<not> bit w i) \<Longrightarrow> (crc_bit ^^ n) w = drop_bit n w"
proof (induction n arbitrary: w)
  case 0
  then show ?case by simp
next
  case (Suc n)
  have "(crc_bit ^^ Suc n) w = (crc_bit ^^ n) (crc_bit w)"
    by (simp add: funpow_swap1)
  also have "\<dots> = (crc_bit ^^ n) (drop_bit 1 w)"
    using Suc.prems [of 0] by (simp add: crc_bit_even)
  also have "\<dots> = drop_bit n (drop_bit 1 w)"
    using Suc.prems by (intro Suc.IH) (auto simp: bit_simps)
  finally show ?case by simp
qed

lemma crc_byte_bitwise: "crc_byte crc b = (crc_bit ^^ 8) (crc XOR ucast b)"
proof -
  let ?x = "crc XOR ucast b"
  let ?lo = "?x AND 0xff"
  have split: "?x = ?lo XOR (?x AND NOT 0xff)"
    by (rule bit_word_eqI) (auto simp: bit_simps)
  have "unat ?lo \<le> unat (0xff :: u32)"
    using word_and_le1 word_le_nat_alt by blast
  then have lo: "unat ?lo < 256" by simp
  then have table: "tdb_crc32c_table ! unat ?lo = (crc_bit ^^ 8) ?lo"
    by (simp add: tdb_crc32c_table_def)
  have "(crc_bit ^^ 8) (?x AND NOT 0xff) = drop_bit 8 (?x AND NOT 0xff)"
    by (rule crc_bits_high) (auto simp: bit_simps bit_const_iff)
  also have "\<dots> = drop_bit 8 crc"
    by (rule bit_word_eqI) (auto simp: bit_simps bit_const_iff dest: bit_imp_le_length)
  finally have hi: "(crc_bit ^^ 8) (?x AND NOT 0xff) = drop_bit 8 crc" .
  have "(crc_bit ^^ 8) ?x = (crc_bit ^^ 8) ?lo XOR (crc_bit ^^ 8) (?x AND NOT 0xff)"
    by (subst split) (rule crc_bits_xor)
  with table hi show ?thesis by (simp only: crc_byte_def)
qed

section \<open>FNV-1a\<close>

definition tdb_fnv1a :: "bytes \<Rightarrow> u64" where
  "tdb_fnv1a data = foldl (\<lambda>h b. (h XOR ucast b) * 1099511628211) 1469598103934665603 data"

section \<open>Properties\<close>

text \<open>
  C32: \<open>tdb_get_varint\<close> reads back every 64-bit number that \<open>tdb_put_varint\<close> wrote, whatever
  bytes follow, and reports the number of bytes written, which is \<open>tdb_varint_len\<close>. It lies
  between 1 and 10, and the tenth byte is needed exactly for the numbers from \<open>2 ^ 63\<close> on.
\<close>

theorem varint_roundtrip:
  "tdb_get_varint (tdb_put_varint v @ rest) (length (tdb_put_varint v @ rest)) =
     Some (tdb_varint_len v, v) \<and>
   1 \<le> tdb_varint_len v \<and> tdb_varint_len v \<le> 10 \<and> (tdb_varint_len v = 10 \<longleftrightarrow> 2 ^ 63 \<le> v)"
proof -
  have "length (tdb_put_varint v) \<le> 9 \<longleftrightarrow> unat v < 2 ^ 63"
    using put_varint_length_bound [of v 9] put_varint_length_lower [of v 9] by auto
  then have "tdb_varint_len v \<le> 9 \<longleftrightarrow> \<not> 2 ^ 63 \<le> v" by (auto simp: varint_len_put word_le_nat_alt)
  then show ?thesis
    using put_varint_length_le_10 [of v] by (auto simp: get_put_varint varint_len_put Suc_le_eq)
qed

text \<open>
  C33: The table-driven CRC32C equals the bit-at-a-time definition with the reflected
  polynomial 0x82F63B78, for every seed and every input; and the checksum of a
  concatenation is the checksum of the second part seeded with that of the first, which the
  WAL uses to chain frame header and page.
\<close>

theorem crc32c_table_correct:
  "tdb_crc32c seed (xs @ ys) = crc32c_bitwise (crc32c_bitwise seed xs) ys"
proof -
  have "tdb_crc32c s zs = crc32c_bitwise s zs" for s zs
    by (simp add: tdb_crc32c_def crc32c_bitwise_def crc_byte_bitwise [abs_def])
  then show ?thesis using crc32c_append [of seed xs ys] by simp
qed

text \<open>
  The byte order (\<^verbatim>\<open>memcmp\<close>) of two 8-byte big-endian rowid keys is the numeric order of
  the rowids, and distinct rowids have distinct keys.
\<close>

theorem rowid_key_order:
  "(c_memcmp (tdb_put_u64 a) (tdb_put_u64 b) < 0 \<longleftrightarrow> a < b) \<and>
   (tdb_put_u64 a = tdb_put_u64 b \<longleftrightarrow> a = b)"
proof -
  have "tdb_put_u64 a = tdb_put_u64 b \<longleftrightarrow> a = b"
    by (metis get_put_u_exact(3))
  then show ?thesis by (simp add: memcmp_put_u64)
qed

end
