(* ===== verification/Tdb_Buf.thy ===== *)
theory Tdb_Buf
  imports Tdb_Util
begin

text \<open>
  \<^verbatim>\<open>src/common/tdb_buf.c\<close>: the growable byte buffer. \<open>data\<close> holds the \<open>len\<close> bytes
  written so far and \<open>cap\<close> the size of the allocation; sizes are natural numbers (the
  doubling loop is the C one for totals up to \<open>2 ^ 63\<close> bytes). Whether an allocation of a
  given size succeeds is the argument \<open>ok\<close>, the environment of \<^verbatim>\<open>realloc\<close>; a failing
  one is \<open>TDB_NOMEM\<close>.
\<close>

record tdb_buf =
  data :: bytes
  cap :: nat

definition buf_len :: "tdb_buf \<Rightarrow> nat" where
  "buf_len b = length (data b)"

definition tdb_buf_init :: tdb_buf where
  "tdb_buf_init = \<lparr>data = [], cap = 0\<rparr>"

definition tdb_buf_reset :: "tdb_buf \<Rightarrow> tdb_buf" where
  "tdb_buf_reset b = b\<lparr>data := []\<rparr>"

text \<open>The loop \<^verbatim>\<open>while (cap < b->len + need) cap *= 2\<close>; it starts from a positive capacity.\<close>

function grow_cap :: "nat \<Rightarrow> nat \<Rightarrow> nat" where
  "grow_cap c need = (if 0 < c \<and> c < need then grow_cap (c * 2) need else c)"
  by pat_completeness auto
termination
  by (relation "measure (\<lambda>(c, need). need - c)") auto

declare grow_cap.simps [simp del]

definition tdb_buf_reserve :: "(nat \<Rightarrow> bool) \<Rightarrow> tdb_buf \<Rightarrow> nat \<Rightarrow> tdb_status \<times> tdb_buf" where
  "tdb_buf_reserve ok b need =
     (if buf_len b + need \<le> cap b then (TDB_OK, b)
      else
        (let c = grow_cap (if cap b \<noteq> 0 then cap b else 64) (buf_len b + need) in
         if ok c then (TDB_OK, b\<lparr>cap := c\<rparr>) else (TDB_NOMEM, b)))"

definition tdb_buf_append :: "(nat \<Rightarrow> bool) \<Rightarrow> tdb_buf \<Rightarrow> bytes \<Rightarrow> tdb_status \<times> tdb_buf" where
  "tdb_buf_append ok b p =
     (case tdb_buf_reserve ok b (length p) of
        (TDB_OK, b') \<Rightarrow> (TDB_OK, b'\<lparr>data := data b' @ p\<rparr>)
      | (rc, b') \<Rightarrow> (rc, b'))"

definition tdb_buf_putc :: "(nat \<Rightarrow> bool) \<Rightarrow> tdb_buf \<Rightarrow> byte \<Rightarrow> tdb_status \<times> tdb_buf" where
  "tdb_buf_putc ok b c =
     (case tdb_buf_reserve ok b 1 of
        (TDB_OK, b') \<Rightarrow> (TDB_OK, b'\<lparr>data := data b' @ [c]\<rparr>)
      | (rc, b') \<Rightarrow> (rc, b'))"

definition tdb_buf_put_varint :: "(nat \<Rightarrow> bool) \<Rightarrow> tdb_buf \<Rightarrow> u64 \<Rightarrow> tdb_status \<times> tdb_buf" where
  "tdb_buf_put_varint ok b v =
     (case tdb_buf_reserve ok b 10 of
        (TDB_OK, b') \<Rightarrow> (TDB_OK, b'\<lparr>data := data b' @ tdb_put_varint v\<rparr>)
      | (rc, b') \<Rightarrow> (rc, b'))"

text \<open>The buffer never holds more bytes than were allocated.\<close>

definition buf_ok :: "tdb_buf \<Rightarrow> bool" where
  "buf_ok b \<longleftrightarrow> length (data b) \<le> cap b"

lemma grow_cap_ge: "0 < c \<Longrightarrow> need \<le> grow_cap c need \<and> c \<le> grow_cap c need"
proof (induction c need rule: grow_cap.induct)
  case (1 c need)
  show ?case
  proof (cases "c < need")
    case True
    with 1 have "need \<le> grow_cap (c * 2) need \<and> c * 2 \<le> grow_cap (c * 2) need" by simp
    with True "1.prems" show ?thesis by (simp add: grow_cap.simps [of c need])
  next
    case False
    then show ?thesis by (simp add: grow_cap.simps [of c need])
  qed
qed

lemma grow_cap_le: "0 < c \<Longrightarrow> grow_cap c need \<le> max c (2 * need)"
proof (induction c need rule: grow_cap.induct)
  case (1 c need)
  show ?case
  proof (cases "c < need")
    case True
    with 1 have "grow_cap (c * 2) need \<le> max (c * 2) (2 * need)" by simp
    with True "1.prems" show ?thesis by (auto simp: grow_cap.simps [of c need])
  next
    case False
    then show ?thesis by (simp add: grow_cap.simps [of c need])
  qed
qed

lemma buf_reserve_cases:
  obtains b' where "tdb_buf_reserve ok b need = (TDB_OK, b')" "data b' = data b"
      "buf_len b + need \<le> cap b'" "cap b \<le> cap b'"
  | "tdb_buf_reserve ok b need = (TDB_NOMEM, b)"
proof -
  let ?c0 = "if cap b \<noteq> 0 then cap b else 64"
  have "0 < ?c0" by simp
  note ge = grow_cap_ge [OF this, of "buf_len b + need"]
  have "cap b \<le> ?c0" by simp
  show thesis
  proof (cases "buf_len b + need \<le> cap b")
    case True
    then show thesis using that(1) [of b] by (simp add: tdb_buf_reserve_def)
  next
    case False
    with ge that show thesis
      by (cases "ok (grow_cap ?c0 (buf_len b + need))") (simp_all add: tdb_buf_reserve_def Let_def)
  qed
qed

lemma buf_append_cases:
  obtains b' where "tdb_buf_append ok b p = (TDB_OK, b')" "data b' = data b @ p"
      "length (data b') \<le> cap b'"
  | "tdb_buf_append ok b p = (TDB_NOMEM, b)"
proof (rule buf_reserve_cases [of ok b "length p"])
  fix b'
  assume "tdb_buf_reserve ok b (length p) = (TDB_OK, b')" "data b' = data b"
    "buf_len b + length p \<le> cap b'"
  then show thesis
    using that(1) by (simp add: tdb_buf_append_def buf_len_def)
next
  assume "tdb_buf_reserve ok b (length p) = (TDB_NOMEM, b)"
  then show thesis using that(2) by (simp add: tdb_buf_append_def)
qed

lemma buf_putc_cases:
  obtains b' where "tdb_buf_putc ok b c = (TDB_OK, b')" "data b' = data b @ [c]"
      "length (data b') \<le> cap b'"
  | "tdb_buf_putc ok b c = (TDB_NOMEM, b)"
proof (rule buf_reserve_cases [of ok b 1])
  fix b'
  assume "tdb_buf_reserve ok b 1 = (TDB_OK, b')" "data b' = data b"
    "buf_len b + 1 \<le> cap b'"
  then show thesis
    using that(1) by (simp add: tdb_buf_putc_def buf_len_def)
next
  assume "tdb_buf_reserve ok b 1 = (TDB_NOMEM, b)"
  then show thesis using that(2) by (simp add: tdb_buf_putc_def)
qed

lemma buf_put_varint_cases:
  obtains b' where "tdb_buf_put_varint ok b v = (TDB_OK, b')" "data b' = data b @ tdb_put_varint v"
      "length (data b') \<le> cap b'"
  | "tdb_buf_put_varint ok b v = (TDB_NOMEM, b)"
proof (rule buf_reserve_cases [of ok b 10])
  fix b'
  assume "tdb_buf_reserve ok b 10 = (TDB_OK, b')" "data b' = data b" "buf_len b + 10 \<le> cap b'"
  then show thesis
    using that(1) put_varint_length_le_10 [of v] by (simp add: tdb_buf_put_varint_def buf_len_def)
next
  assume "tdb_buf_reserve ok b 10 = (TDB_NOMEM, b)"
  then show thesis using that(2) by (simp add: tdb_buf_put_varint_def)
qed

end
