(* ===== verification/Tdb_File.thy ===== *)
theory Tdb_File
  imports Tdb_Buf
begin

text \<open>
  \<^verbatim>\<open>src/storage/tdb_file.c\<close>: the in-memory VFS. A file handle is its allocated buffer (whose
  length is the capacity) and its size; the argument \<open>ok\<close> says which allocation sizes
  succeed, so a failing write (\<open>TDB_NOMEM\<close>) can happen. The operating-system back ends make
  the same promises through system calls, which are not modelled; the locale \<open>vfs_file\<close> states
  what the WAL and the pager rely on, and the in-memory VFS is shown to provide it.
\<close>

record mem_handle =
  mdata :: bytes
  msize :: nat

definition mem_open :: mem_handle where
  "mem_open = \<lparr>mdata = [], msize = 0\<rparr>"

definition mem_grow :: "(nat \<Rightarrow> bool) \<Rightarrow> mem_handle \<Rightarrow> nat \<Rightarrow> tdb_status \<times> mem_handle" where
  "mem_grow ok h need =
     (let hcap = length (mdata h) in
      if need \<le> hcap then (TDB_OK, h)
      else
        (let c = grow_cap (if hcap \<noteq> 0 then hcap else 4096) need in
         if \<not> ok c then (TDB_NOMEM, h)
         else (TDB_OK, h\<lparr>mdata := mdata h @ replicate (c - hcap) 0\<rparr>)))"

definition mem_read :: "mem_handle \<Rightarrow> nat \<Rightarrow> nat \<Rightarrow> bytes" where
  "mem_read h n off =
     (if msize h \<le> off then replicate n 0
      else
        (let avail = msize h - off; copy = (if avail < n then avail else n) in
         slice off copy (mdata h) @ (if copy < n then replicate (n - copy) 0 else [])))"

definition mem_write :: "(nat \<Rightarrow> bool) \<Rightarrow> mem_handle \<Rightarrow> bytes \<Rightarrow> nat \<Rightarrow> tdb_status \<times> mem_handle" where
  "mem_write ok h buf off =
     (case mem_grow ok h (off + length buf) of
        (TDB_OK, h1) \<Rightarrow>
          (let h2 = h1\<lparr>mdata := patch off buf (mdata h1)\<rparr> in
           (TDB_OK, if msize h2 < off + length buf then h2\<lparr>msize := off + length buf\<rparr> else h2))
      | (rc, h1) \<Rightarrow> (rc, h1))"

definition mem_truncate :: "mem_handle \<Rightarrow> nat \<Rightarrow> mem_handle" where
  "mem_truncate h n = (if n < msize h then h\<lparr>msize := n\<rparr> else h)"

definition mem_filesize :: "mem_handle \<Rightarrow> nat" where
  "mem_filesize h = msize h"

section \<open>Files as byte strings\<close>

definition mem_ok :: "mem_handle \<Rightarrow> bool" where
  "mem_ok h \<longleftrightarrow> msize h \<le> length (mdata h)"

definition fcontent :: "mem_handle \<Rightarrow> bytes" where
  "fcontent h = take (msize h) (mdata h)"

text \<open>Reading a byte string at an offset, with zeros past its end.\<close>

definition zread :: "bytes \<Rightarrow> nat \<Rightarrow> nat \<Rightarrow> bytes" where
  "zread c n off = take n (drop off c @ replicate n 0)"

lemma length_zread [simp]: "length (zread c n off) = n"
  by (simp add: zread_def)

lemma zread_in: "off + n \<le> length c \<Longrightarrow> zread c n off = slice off n c"
  by (simp add: zread_def slice_def)

lemma length_fcontent [simp]: "mem_ok h \<Longrightarrow> length (fcontent h) = msize h"
  by (simp add: mem_ok_def fcontent_def)

lemma mem_read_zread:
  assumes "mem_ok h"
  shows "mem_read h n off = zread (fcontent h) n off"
proof (cases "msize h \<le> off")
  case True
  then show ?thesis by (simp add: mem_read_def zread_def fcontent_def)
next
  case False
  with assms show ?thesis
    by (auto simp: mem_read_def zread_def fcontent_def slice_def Let_def mem_ok_def drop_take min_def)
qed

lemma mem_grow_cases:
  obtains h1 where "mem_grow ok h need = (TDB_OK, h1)" "msize h1 = msize h" "need \<le> length (mdata h1)"
      "mem_ok h \<Longrightarrow> mem_ok h1" "take (length (mdata h)) (mdata h1) = mdata h"
      "drop (length (mdata h)) (mdata h1) = replicate (length (mdata h1) - length (mdata h)) 0"
  | "mem_grow ok h need = (TDB_NOMEM, h)"
proof -
  let ?c0 = "if length (mdata h) \<noteq> 0 then length (mdata h) else 4096"
  have ge: "need \<le> grow_cap ?c0 need" "?c0 \<le> grow_cap ?c0 need"
    using grow_cap_ge [of ?c0 need] by (simp_all split: if_splits)
  show thesis
  proof (cases "need \<le> length (mdata h)")
    case True
    then show thesis using that(1) [of h] by (simp add: mem_grow_def Let_def)
  next
    case False
    show thesis
    proof (cases "ok (grow_cap ?c0 need)")
      case True
      with False ge that(1) show thesis by (simp add: mem_grow_def Let_def mem_ok_def)
    next
      case no: False
      with False that(2) show thesis by (simp add: mem_grow_def Let_def)
    qed
  qed
qed

lemma take_patch:
  assumes "off \<le> s" "s \<le> length d" "off + length b \<le> length d"
  shows "take (max s (off + length b)) (patch off b d) = patch off b (take s d)"
proof -
  have "min off (length d) = off" "min off s = off" using assms by simp_all
  then show ?thesis using assms by (auto simp: patch_def drop_take max_def)
qed

lemma mem_write_cases:
  assumes "mem_ok h" "off \<le> msize h"
  obtains h1 where "mem_write ok h buf off = (TDB_OK, h1)" "mem_ok h1"
      "fcontent h1 = patch off buf (fcontent h)"
  | "mem_write ok h buf off = (TDB_NOMEM, h)"
proof (rule mem_grow_cases [of ok h "off + length buf"])
  fix h1
  assume h1: "mem_grow ok h (off + length buf) = (TDB_OK, h1)" "msize h1 = msize h"
    "off + length buf \<le> length (mdata h1)" "mem_ok h \<Longrightarrow> mem_ok h1"
    "take (length (mdata h)) (mdata h1) = mdata h"
  define h2 where "h2 = h1\<lparr>mdata := patch off buf (mdata h1), msize := max (msize h) (off + length buf)\<rparr>"
  have w: "mem_write ok h buf off = (TDB_OK, h2)"
    using h1(1,2) by (auto simp: mem_write_def Let_def h2_def max_def)
  have ok2: "mem_ok h2" using h1(2,3,4) assms(1) by (simp add: mem_ok_def h2_def)
  have pre: "take (msize h) (mdata h1) = fcontent h"
    using h1(5) assms(1) by (metis fcontent_def mem_ok_def min.absorb1 take_take)
  have "fcontent h2 = patch off buf (take (msize h) (mdata h1))"
    using take_patch [of off "msize h" "mdata h1" buf] assms h1
    by (simp add: fcontent_def h2_def mem_ok_def)
  with w ok2 pre show thesis using that(1) by simp
next
  assume "mem_grow ok h (off + length buf) = (TDB_NOMEM, h)"
  then show thesis using that(2) by (simp add: mem_write_def)
qed

text \<open>
  A file that was never truncated holds zeros in the allocated space past its size, so a write
  past the end leaves a hole of zeros; \<open>zbyte\<close> is the byte a reader sees at a position.
\<close>

definition zbyte :: "bytes \<Rightarrow> nat \<Rightarrow> byte" where
  "zbyte c i = (if i < length c then c ! i else 0)"

definition mem_clean :: "mem_handle \<Rightarrow> bool" where
  "mem_clean h \<longleftrightarrow> mem_ok h \<and> list_all (\<lambda>b. b = 0) (drop (msize h) (mdata h))"

lemma zread_zbyte: "zread c n off = map (\<lambda>i. zbyte c (off + i)) [0..<n]"
  by (rule nth_equalityI) (auto simp: zread_def zbyte_def nth_append)

lemma list_all_drop_nth: "list_all P (drop m d) \<longleftrightarrow> (\<forall>i. m \<le> i \<and> i < length d \<longrightarrow> P (d ! i))"
proof
  assume all: "list_all P (drop m d)"
  show "\<forall>i. m \<le> i \<and> i < length d \<longrightarrow> P (d ! i)"
  proof (intro allI impI)
    fix i
    assume i: "m \<le> i \<and> i < length d"
    then have "drop m d ! (i - m) \<in> set (drop m d)" by (intro nth_mem) auto
    with all i show "P (d ! i)" by (simp add: list_all_iff)
  qed
qed (auto simp: list_all_length)

lemma mem_clean_iff: "mem_clean h \<longleftrightarrow> mem_ok h \<and> (\<forall>i. msize h \<le> i \<longrightarrow> zbyte (mdata h) i = 0)"
  by (auto simp: mem_clean_def list_all_drop_nth zbyte_def)

lemma clean_zbyte: "mem_clean h \<Longrightarrow> zbyte (fcontent h) i = zbyte (mdata h) i"
  by (cases "i < msize h") (auto simp: mem_clean_iff zbyte_def fcontent_def mem_ok_def)

lemma zbyte_grow:
  assumes "take n d1 = d" "length d = n" "drop n d1 = replicate k 0"
  shows "zbyte d1 i = zbyte d i"
proof -
  have "d1 = d @ replicate k 0" using assms by (metis append_take_drop_id)
  then show ?thesis by (auto simp: zbyte_def nth_append)
qed

lemma mem_write_clean:
  assumes clean: "mem_clean h" and w: "mem_write ok h buf off = (TDB_OK, h')"
  shows "mem_clean h'"
    and "zbyte (fcontent h') i = (if off \<le> i \<and> i < off + length buf then buf ! (i - off) else zbyte (fcontent h) i)"
proof -
  obtain h1 where h1: "mem_grow ok h (off + length buf) = (TDB_OK, h1)" "msize h1 = msize h"
    "off + length buf \<le> length (mdata h1)" "mem_ok h1" "\<And>i. zbyte (mdata h1) i = zbyte (mdata h) i"
    using w clean
    by (rule_tac mem_grow_cases [of ok h "off + length buf"])
       (auto simp: mem_write_def mem_clean_def intro: zbyte_grow)
  have h': "h' = h1\<lparr>mdata := patch off buf (mdata h1), msize := max (msize h) (off + length buf)\<rparr>"
    using w h1(1,2) by (auto simp: mem_write_def Let_def max_def split: if_splits)
  have z: "zbyte (mdata h') j = (if off \<le> j \<and> j < off + length buf then buf ! (j - off) else zbyte (mdata h1) j)" for j
    using h1(3) by (auto simp: h' zbyte_def patch_nth)
  show clean': "mem_clean h'"
    using clean h1 z by (auto simp: mem_clean_iff h' mem_ok_def)
  show "zbyte (fcontent h') i = (if off \<le> i \<and> i < off + length buf then buf ! (i - off) else zbyte (fcontent h) i)"
    using z h1(5) by (simp add: clean_zbyte [OF clean'] clean_zbyte [OF clean])
qed

section \<open>The contract of a VFS file\<close>

locale vfs_file =
  fixes valid :: "'h \<Rightarrow> bool"
    and content :: "'h \<Rightarrow> bytes"
    and fread :: "'h \<Rightarrow> nat \<Rightarrow> nat \<Rightarrow> bytes"
    and fwrite :: "(nat \<Rightarrow> bool) \<Rightarrow> 'h \<Rightarrow> bytes \<Rightarrow> nat \<Rightarrow> tdb_status \<times> 'h"
    and ftrunc :: "'h \<Rightarrow> nat \<Rightarrow> 'h"
  assumes fread_content: "valid h \<Longrightarrow> fread h n off = zread (content h) n off"
    and fwrite_content: "valid h \<Longrightarrow> off \<le> length (content h) \<Longrightarrow> fwrite ok h buf off = (rc, h') \<Longrightarrow>
      rc = TDB_OK \<and> valid h' \<and> content h' = patch off buf (content h) \<or> rc = TDB_NOMEM \<and> h' = h"
    and ftrunc_content: "valid h \<Longrightarrow> valid (ftrunc h n) \<and> content (ftrunc h n) = take n (content h)"
begin

lemma fwrite_ok:
  assumes "valid h" "off \<le> length (content h)" "fwrite ok h buf off = (TDB_OK, h')"
  shows "valid h'" "content h' = patch off buf (content h)"
  using fwrite_content [OF assms] by auto

lemma fwrite_fails:
  assumes "valid h" "off \<le> length (content h)" "fwrite ok h buf off = (rc, h')" "rc \<noteq> TDB_OK"
  shows "rc = TDB_NOMEM" "h' = h"
  using fwrite_content [OF assms(1-3)] assms(4) by auto

lemma read_after_write:
  assumes "valid h" "off \<le> length (content h)" "fwrite ok h buf off = (TDB_OK, h')"
  shows "fread h' (length buf) off = buf"
  using assms fwrite_ok [OF assms]
  by (simp add: fread_content zread_def patch_def)

lemma read_unaffected:
  assumes "valid h" "off \<le> length (content h)" "fwrite ok h buf off = (TDB_OK, h')"
    and "a + n \<le> off \<or> off + length buf \<le> a"
  shows "fread h' n a = fread h n a"
proof -
  have "zbyte (patch off buf (content h)) i = zbyte (content h) i" if "i < off \<or> off + length buf \<le> i" for i
    using that assms(2) by (auto simp: zbyte_def patch_def nth_append)
  then show ?thesis
    using assms(4) fwrite_ok [OF assms(1-3)] assms(1)
    by (auto simp: fread_content zread_zbyte)
qed

end

interpretation mf: vfs_file mem_ok fcontent mem_read mem_write mem_truncate
proof
  fix h n off ok buf rc h'
  show "mem_ok h \<Longrightarrow> mem_read h n off = zread (fcontent h) n off" by (rule mem_read_zread)
  show "rc = TDB_OK \<and> mem_ok h' \<and> fcontent h' = patch off buf (fcontent h) \<or> rc = TDB_NOMEM \<and> h' = h"
    if "mem_ok h" "off \<le> length (fcontent h)" "mem_write ok h buf off = (rc, h')"
    using that by (rule_tac mem_write_cases [of h off ok buf]) auto
  show "mem_ok (mem_truncate h n) \<and> fcontent (mem_truncate h n) = take n (fcontent h)" if "mem_ok h"
    using that by (auto simp: mem_truncate_def mem_ok_def fcontent_def min_def)
qed

section \<open>Properties\<close>

text \<open>
  The in-memory file is a byte string: after a successful write at an offset within the
  file, reading the range gives the bytes written, every range disjoint from it reads as
  before, and the size covers the range; a failed write changes nothing.
\<close>

theorem file_read_after_write:
  assumes "mem_ok h" "off \<le> mem_filesize h"
  shows "case mem_write ok h buf off of
           (TDB_OK, h') \<Rightarrow>
             mem_read h' (length buf) off = buf \<and>
             (a + n \<le> off \<or> off + length buf \<le> a \<longrightarrow> mem_read h' n a = mem_read h n a) \<and>
             mem_filesize h' = max (mem_filesize h) (off + length buf)
         | (rc, h') \<Rightarrow> rc = TDB_NOMEM \<and> h' = h"
proof -
  have off: "off \<le> length (fcontent h)" using assms by (simp add: mem_filesize_def)
  obtain rc h' where w: "mem_write ok h buf off = (rc, h')" by force
  show ?thesis
  proof (cases "rc = TDB_OK")
    case True
    note w' = w [unfolded True]
    have "msize h' = max (msize h) (off + length buf)"
      using w' by (auto simp: mem_write_def mem_grow_def Let_def max_def split: if_splits)
    with mf.read_after_write [OF assms(1) off w'] mf.read_unaffected [OF assms(1) off w', of a n] w'
    show ?thesis by (simp add: mem_filesize_def)
  next
    case False
    with mf.fwrite_fails [OF assms(1) off w] w show ?thesis by (cases rc) simp_all
  qed
qed

theorem file_read_after_write_witness:
  "case mem_write (\<lambda>_. True) mem_open [1, 2, 3] 0 of
     (TDB_OK, h') \<Rightarrow> mem_read h' 3 0 = [1, 2, 3] | _ \<Rightarrow> False"
proof -
  have "mem_ok mem_open" "(0 :: nat) \<le> mem_filesize mem_open" by (simp_all add: mem_ok_def mem_open_def)
  from file_read_after_write [OF this, where ok = "\<lambda>_. True" and buf = "[1, 2, 3]"] show ?thesis
    by (auto simp: mem_write_def mem_grow_def Let_def mem_open_def numeral_3_eq_3)
qed

text \<open>
  Truncating does not clear: after truncating the in-memory file and writing past its new
  end, the hole shows the bytes from before the truncation instead of zeros.
\<close>

theorem file_truncate_exposes_stale_bytes:
  "let h1 = snd (mem_write (\<lambda>_. True) mem_open [7, 8, 9] 0);
       h2 = mem_truncate h1 0;
       h3 = snd (mem_write (\<lambda>_. True) h2 [5] 2)
   in mem_read h2 3 0 = [0, 0, 0] \<and> mem_read h3 3 0 = [7, 8, 5]"
  by (simp add: mem_write_def mem_grow_def mem_open_def mem_truncate_def mem_read_def Let_def
      patch_def slice_def grow_cap.simps numeral_3_eq_3)

end
