(* ===== verification/Tdb_Compress.thy ===== *)
theory Tdb_Compress
  imports Tdb_Prelude
begin

text \<open>
  \<^verbatim>\<open>src/storage/tdb_compress.c\<close>: the page codec. A build without Zstandard copies; a build with
  it calls the library, which is a parameter here: \<open>Some lib\<close> is a build with the library
  \<open>lib\<close>, \<open>None\<close> a build without. The pointer checks of the C functions have no counterpart.
\<close>

record zstd_lib =
  ZSTD_compressBound :: "nat \<Rightarrow> nat"
  ZSTD_compress :: "bytes \<Rightarrow> nat \<Rightarrow> bytes option"
  ZSTD_decompress :: "bytes \<Rightarrow> nat \<Rightarrow> bytes option"

type_synonym zbuild = "zstd_lib option"

definition TDB_COMP_NONE :: byte where
  "TDB_COMP_NONE = 0"

definition TDB_COMP_ZSTD :: byte where
  "TDB_COMP_ZSTD = 1"

definition tdb_compress_codec :: "zbuild \<Rightarrow> byte" where
  "tdb_compress_codec z = (case z of Some _ \<Rightarrow> TDB_COMP_ZSTD | None \<Rightarrow> TDB_COMP_NONE)"

definition tdb_compress_bound :: "zbuild \<Rightarrow> nat \<Rightarrow> nat" where
  "tdb_compress_bound z n = (case z of Some lib \<Rightarrow> ZSTD_compressBound lib n | None \<Rightarrow> n)"

definition tdb_compress :: "zbuild \<Rightarrow> bytes \<Rightarrow> nat \<Rightarrow> tdb_status \<times> bytes" where
  "tdb_compress z src dst_n =
     (case z of
        Some lib \<Rightarrow> (case ZSTD_compress lib src dst_n of None \<Rightarrow> (TDB_ERROR, []) | Some r \<Rightarrow> (TDB_OK, r))
      | None \<Rightarrow> if dst_n < length src then (TDB_NOMEM, []) else (TDB_OK, src))"

definition tdb_decompress :: "zbuild \<Rightarrow> bytes \<Rightarrow> nat \<Rightarrow> tdb_status \<times> bytes" where
  "tdb_decompress z src dst_n =
     (case z of
        Some lib \<Rightarrow> (case ZSTD_decompress lib src dst_n of None \<Rightarrow> (TDB_ERROR, []) | Some r \<Rightarrow> (TDB_OK, r))
      | None \<Rightarrow> if dst_n < length src then (TDB_NOMEM, []) else (TDB_OK, src))"

text \<open>
  What the WAL relies on, a documented property of the library: decompressing, into a buffer
  of the original size, what compression produced gives the original bytes.
\<close>

definition zstd_lossless :: "zstd_lib \<Rightarrow> bool" where
  "zstd_lossless lib \<longleftrightarrow>
     (\<forall>src n r. ZSTD_compress lib src n = Some r \<longrightarrow> ZSTD_decompress lib r (length src) = Some src)"

definition codec_ok :: "zbuild \<Rightarrow> bool" where
  "codec_ok z \<longleftrightarrow> (case z of Some lib \<Rightarrow> zstd_lossless lib | None \<Rightarrow> True)"

locale page_codec =
  fixes compress :: "bytes \<Rightarrow> nat \<Rightarrow> tdb_status \<times> bytes"
    and decompress :: "bytes \<Rightarrow> nat \<Rightarrow> tdb_status \<times> bytes"
  assumes lossless: "compress src n = (TDB_OK, r) \<Longrightarrow> decompress r (length src) = (TDB_OK, src)"
begin

lemma compress_inject:
  "compress a n = (TDB_OK, r) \<Longrightarrow> compress b m = (TDB_OK, r) \<Longrightarrow> length a = length b \<Longrightarrow> a = b"
  by (metis lossless prod.inject)

end

lemma codec_lossless:
  assumes "codec_ok z"
  shows "page_codec (tdb_compress z) (tdb_decompress z)"
  using assms
  by unfold_locales
     (auto simp: codec_ok_def zstd_lossless_def tdb_compress_def tdb_decompress_def
       split: option.splits if_splits)

interpretation copy_codec: page_codec "tdb_compress None" "tdb_decompress None"
  by (rule codec_lossless) (simp add: codec_ok_def)

end
