(* ===== verification/Tdb_Wal.thy ===== *)
theory Tdb_Wal
  imports Tdb_File Tdb_Compress
begin

text \<open>
  \<^verbatim>\<open>src/storage/tdb_wal.c\<close>: the write-ahead log. The state is the C struct, with the file as an
  in-memory VFS file; \<open>wmap\<close> and \<open>offsets\<close> are the two growing arrays with their capacities
  (page map doubling is the C one for page numbers below \<open>2 ^ 31\<close>), \<open>z\<close> is the compression
  build and \<open>ok\<close> says which allocations succeed. Both frame layouts are modelled: version 1
  with fixed-size frames, version 2 with a size and codec prefix.
\<close>

section \<open>State and file layout\<close>

record tdb_wal =
  wfile :: mem_handle
  wpage_size :: nat
  frame_stride :: nat
  wversion :: u32
  salt1 :: u32
  salt2 :: u32
  ckpt_seq :: u32
  nframe :: nat
  wdb_size :: u32
  wmap :: "nat \<Rightarrow> nat"
  map_cap :: nat
  offsets :: "nat \<Rightarrow> nat"
  offsets_cap :: nat
  end_off :: nat

definition TDB_WAL_MAGIC :: u32 where
  "TDB_WAL_MAGIC = 0x7764424B"

abbreviation "TDB_WAL_HDR_SIZE \<equiv> 32 :: nat"
abbreviation "TDB_WAL_FRAME_HDR_SIZE \<equiv> 24 :: nat"
abbreviation "TDB_WAL_V2_PAYLOAD_HDR \<equiv> 5 :: nat"
abbreviation "TDB_WAL_VERSION_V1 \<equiv> 1 :: u32"
abbreviation "TDB_WAL_VERSION_V2 \<equiv> 2 :: u32"

definition offsets_ensure :: "(nat \<Rightarrow> bool) \<Rightarrow> tdb_wal \<Rightarrow> nat \<Rightarrow> tdb_status \<times> tdb_wal" where
  "offsets_ensure ok w want =
     (if want \<le> offsets_cap w then (TDB_OK, w)
      else
        (let c = grow_cap (if offsets_cap w \<noteq> 0 then offsets_cap w else 64) want in
         if \<not> ok (8 * c) then (TDB_NOMEM, w) else (TDB_OK, w\<lparr>offsets_cap := c\<rparr>)))"

definition frame_offset :: "tdb_wal \<Rightarrow> nat \<Rightarrow> nat" where
  "frame_offset w idx =
     (if wversion w = TDB_WAL_VERSION_V2 \<and> offsets_cap w \<noteq> 0 then offsets w idx
      else TDB_WAL_HDR_SIZE + idx * frame_stride w)"

definition frame_checksum :: "u32 \<Rightarrow> bytes \<Rightarrow> bytes \<Rightarrow> u32 \<times> u32" where
  "frame_checksum seed hdr16 page =
     (tdb_crc32c (tdb_crc32c seed hdr16) page, tdb_crc32c (tdb_crc32c 0 hdr16) page)"

definition map_ensure :: "(nat \<Rightarrow> bool) \<Rightarrow> tdb_wal \<Rightarrow> nat \<Rightarrow> tdb_status \<times> tdb_wal" where
  "map_ensure ok w pgno =
     (if pgno < map_cap w then (TDB_OK, w)
      else
        (let c = grow_cap (if map_cap w \<noteq> 0 then map_cap w else 64) (Suc pgno) in
         if \<not> ok (8 * c) then (TDB_NOMEM, w)
         else (TDB_OK, w\<lparr>wmap := (\<lambda>i. if i < map_cap w then wmap w i else 0), map_cap := c\<rparr>)))"

definition wal_header :: "tdb_wal \<Rightarrow> bytes" where
  "wal_header w =
     (let h = tdb_put_u32 TDB_WAL_MAGIC @ tdb_put_u32 (wversion w) @
              tdb_put_u32 (word_of_nat (wpage_size w)) @ tdb_put_u32 (ckpt_seq w) @
              tdb_put_u32 (salt1 w) @ tdb_put_u32 (salt2 w)
      in h @ tdb_put_u32 (tdb_crc32c (salt1 w) h) @ tdb_put_u32 (tdb_crc32c 0 h))"

definition write_header :: "(nat \<Rightarrow> bool) \<Rightarrow> tdb_wal \<Rightarrow> tdb_status \<times> tdb_wal" where
  "write_header ok w =
     (case mem_write ok (wfile w) (wal_header w) 0 of (rc, f) \<Rightarrow> (rc, w\<lparr>wfile := f\<rparr>))"

section \<open>Recovery\<close>

text \<open>
  One round of the recovery loop at offset \<open>off\<close> with the rolling checksum so far: \<open>None\<close> is a
  \<^verbatim>\<open>break\<close>; otherwise the new rolling checksum, the commit size in the frame and the offset
  of the next frame.
\<close>

definition recover_frame :: "zbuild \<Rightarrow> tdb_wal \<Rightarrow> nat \<Rightarrow> u32 \<Rightarrow> (u32 \<times> u32 \<times> nat) option" where
  "recover_frame z w off rolling =
     (let fsize = mem_filesize (wfile w);
          fhdr = mem_read (wfile w) TDB_WAL_FRAME_HDR_SIZE off;
          v2 = (wversion w = TDB_WAL_VERSION_V2);
          pfx = mem_read (wfile w) TDB_WAL_V2_PAYLOAD_HDR (off + TDB_WAL_FRAME_HDR_SIZE);
          phys = (if v2 then unat (tdb_get_u32 pfx) else wpage_size w);
          codec = (if v2 then pfx ! 4 else TDB_COMP_NONE);
          payload_off = off + TDB_WAL_FRAME_HDR_SIZE + (if v2 then TDB_WAL_V2_PAYLOAD_HDR else 0)
      in
      if v2 \<and> (fsize < off + TDB_WAL_FRAME_HDR_SIZE + TDB_WAL_V2_PAYLOAD_HDR \<or>
                wpage_size w < phys \<or> fsize < payload_off + phys) then None
      else if \<not> v2 \<and> fsize < off + TDB_WAL_FRAME_HDR_SIZE + wpage_size w then None
      else
        (let scratch = mem_read (wfile w) phys payload_off;
             page = (if v2 \<and> codec \<noteq> TDB_COMP_NONE then
                       (case tdb_decompress z scratch (wpage_size w) of
                          (rc, out) \<Rightarrow>
                            if rc \<noteq> TDB_OK \<or> length out \<noteq> wpage_size w then None else Some out)
                     else Some (scratch @ replicate (wpage_size w - phys) 0))
         in
         case page of
           None \<Rightarrow> None
         | Some pg \<Rightarrow>
             (let s1 = tdb_get_u32 (drop 8 fhdr); s2 = tdb_get_u32 (drop 12 fhdr);
                  (c1, c2) = frame_checksum rolling (take 16 fhdr) pg
              in
              if s1 \<noteq> salt1 w \<or> s2 \<noteq> salt2 w then None
              else if c1 \<noteq> tdb_get_u32 (drop 16 fhdr) \<or> c2 \<noteq> tdb_get_u32 (drop 20 fhdr) then None
              else Some (c1, tdb_get_u32 (drop 4 fhdr), payload_off + phys))))"

lemma recover_frame_progress: "recover_frame z w off rolling = Some (c1, dbsz, off') \<Longrightarrow> off < off'"
  by (auto simp: recover_frame_def Let_def split: if_splits option.splits prod.splits)

text \<open>The loop variables of \<open>recover\<close>.\<close>

record rec_state =
  r_idx :: nat
  r_off :: nat
  r_committed :: nat
  r_dbsize :: u32
  r_end :: nat
  r_rolling :: u32

text \<open>Recording a frame's start offset (version 2 only), and the update of the loop variables.\<close>

definition recover_note :: "(nat \<Rightarrow> bool) \<Rightarrow> tdb_wal \<Rightarrow> nat \<Rightarrow> nat \<Rightarrow> tdb_status \<times> tdb_wal" where
  "recover_note ok w idx off =
     (if wversion w = TDB_WAL_VERSION_V2 then
        (case offsets_ensure ok w (idx + 1) of
           (rc, w1) \<Rightarrow>
             if rc \<noteq> TDB_OK then (TDB_NOMEM, w1)
             else (TDB_OK, w1\<lparr>offsets := (offsets w1)(idx := off)\<rparr>))
      else (TDB_OK, w))"

definition rec_advance :: "rec_state \<Rightarrow> u32 \<Rightarrow> u32 \<Rightarrow> nat \<Rightarrow> rec_state" where
  "rec_advance s c1 dbsz off' =
     (let s1 = s\<lparr>r_rolling := c1, r_idx := r_idx s + 1, r_off := off'\<rparr> in
      if dbsz \<noteq> 0 then s1\<lparr>r_committed := r_idx s1, r_dbsize := dbsz, r_end := off'\<rparr> else s1)"

function recover_loop ::
  "(nat \<Rightarrow> bool) \<Rightarrow> zbuild \<Rightarrow> tdb_wal \<Rightarrow> rec_state \<Rightarrow> tdb_status \<times> tdb_wal \<times> rec_state" where
  "recover_loop ok z w s =
     (if r_off s + TDB_WAL_FRAME_HDR_SIZE \<le> mem_filesize (wfile w) then
        (case recover_frame z w (r_off s) (r_rolling s) of
           None \<Rightarrow> (TDB_OK, w, s)
         | Some (c1, dbsz, off') \<Rightarrow>
             (case recover_note ok w (r_idx s) (r_off s) of
                (rc, w1) \<Rightarrow>
                  if rc \<noteq> TDB_OK then (rc, w1, s)
                  else recover_loop ok z w1 (rec_advance s c1 dbsz off')))
      else (TDB_OK, w, s))"
  by pat_completeness auto

lemma offsets_ensure_frame:
  "offsets_ensure ok w n = (rc, w1) \<Longrightarrow> \<exists>c. w1 = w\<lparr>offsets_cap := c\<rparr> \<and> offsets_cap w \<le> c \<and> (rc = TDB_OK \<longrightarrow> n \<le> c)"
  using grow_cap_ge [of "if offsets_cap w \<noteq> 0 then offsets_cap w else 64" n]
  by (cases w) (auto simp: offsets_ensure_def Let_def split: if_splits)

lemma recover_note_frame:
  "recover_note ok w idx off = (rc, w1) \<Longrightarrow> \<exists>f c. w1 = w\<lparr>offsets := f, offsets_cap := c\<rparr> \<and> offsets_cap w \<le> c"
  using offsets_ensure_frame [of ok w "idx + 1"]
  by (cases w) (auto simp: recover_note_def split: if_splits prod.splits)

lemma rec_advance_off [simp]: "r_off (rec_advance s c1 dbsz off') = off'"
  by (simp add: rec_advance_def Let_def)

termination recover_loop
proof (relation "measure (\<lambda>(ok, z, w, s). mem_filesize (wfile w) - r_off s)", goal_cases)
  case 1
  then show ?case by simp
next
  case (2 ok z w s y c1 y' dbsz off' rc w1)
  from recover_note_frame 2(5) [symmetric] have "wfile w1 = wfile w" by fastforce
  moreover have "r_off s < off'"
    using 2(2-4) by (intro recover_frame_progress [of z w "r_off s" "r_rolling s" c1 dbsz]) simp
  ultimately show ?case using 2(1) by simp
qed

declare recover_loop.simps [simp del]

text \<open>The loop that rebuilds the page map from the first \<open>n\<close> frames, starting at frame \<open>i\<close>.\<close>

fun rebuild_map :: "(nat \<Rightarrow> bool) \<Rightarrow> tdb_wal \<Rightarrow> nat \<Rightarrow> nat \<Rightarrow> tdb_status \<times> tdb_wal" where
  "rebuild_map ok w i 0 = (TDB_OK, w)"
| "rebuild_map ok w i (Suc n) =
     (let pgno = unat (tdb_get_u32 (mem_read (wfile w) TDB_WAL_FRAME_HDR_SIZE (frame_offset w i))) in
      case map_ensure ok w pgno of
        (rc, w1) \<Rightarrow>
          if rc \<noteq> TDB_OK then (TDB_NOMEM, w1)
          else rebuild_map ok (w1\<lparr>wmap := (wmap w1)(pgno := i + 1)\<rparr>) (Suc i) n)"

definition recover :: "(nat \<Rightarrow> bool) \<Rightarrow> zbuild \<Rightarrow> tdb_wal \<Rightarrow> tdb_status \<times> tdb_wal" where
  "recover ok z w =
     (let hdr = mem_read (wfile w) TDB_WAL_HDR_SIZE 0;
          ver = tdb_get_u32 (drop 4 hdr);
          ps = tdb_get_u32 (drop 8 hdr)
      in
      if mem_filesize (wfile w) < TDB_WAL_HDR_SIZE then (TDB_OK, w)
      else if tdb_get_u32 hdr \<noteq> TDB_WAL_MAGIC then (TDB_OK, w)
      else if ver \<noteq> TDB_WAL_VERSION_V1 \<and> ver \<noteq> TDB_WAL_VERSION_V2 then (TDB_OK, w)
      else if unat ps \<noteq> wpage_size w then (TDB_OK, w)
      else
        (let w0 = w\<lparr>wversion := ver, salt1 := tdb_get_u32 (drop 16 hdr),
                    salt2 := tdb_get_u32 (drop 20 hdr), ckpt_seq := tdb_get_u32 (drop 12 hdr)\<rparr> in
         if \<not> (ok (wpage_size w) \<and> ok (wpage_size w + 64)) then (TDB_NOMEM, w0)
         else
           (case recover_loop ok z w0
                   \<lparr>r_idx = 0, r_off = TDB_WAL_HDR_SIZE, r_committed = 0, r_dbsize = 0,
                    r_end = TDB_WAL_HDR_SIZE, r_rolling = salt1 w0\<rparr> of
              (rc, w1, s) \<Rightarrow>
                if rc \<noteq> TDB_OK then (rc, w1)
                else
                  (case rebuild_map ok (w1\<lparr>wmap := (\<lambda>_. 0)\<rparr>) 0 (r_committed s) of
                     (rc2, w2) \<Rightarrow>
                       if rc2 \<noteq> TDB_OK then (rc2, w2)
                       else (TDB_OK, w2\<lparr>nframe := r_committed s, wdb_size := r_dbsize s,
                                        end_off := r_end s\<rparr>)))))"

definition tdb_wal_open :: "(nat \<Rightarrow> bool) \<Rightarrow> zbuild \<Rightarrow> mem_handle \<Rightarrow> nat \<Rightarrow> tdb_status \<times> tdb_wal" where
  "tdb_wal_open ok z wal_file page_size =
     (let w = \<lparr>wfile = wal_file, wpage_size = page_size,
               frame_stride = TDB_WAL_FRAME_HDR_SIZE + page_size,
               wversion = (if tdb_compress_codec z \<noteq> TDB_COMP_NONE then TDB_WAL_VERSION_V2
                           else TDB_WAL_VERSION_V1),
               salt1 = ucast (tdb_fnv1a (rev (tdb_put_u32 (word_of_nat page_size)))) XOR 0x9E3779B9,
               salt2 = 0x1234567, ckpt_seq = 0, nframe = 0, wdb_size = 0, wmap = (\<lambda>_. 0),
               map_cap = 0, offsets = (\<lambda>_. 0), offsets_cap = 0, end_off = TDB_WAL_HDR_SIZE\<rparr>
      in
      case recover ok z w of
        (rc, w1) \<Rightarrow>
          if rc \<noteq> TDB_OK then (rc, w1)
          else if nframe w1 = 0 then
            (case write_header ok w1 of
               (rc2, w2) \<Rightarrow>
                 if rc2 \<noteq> TDB_OK then (rc2, w2) else (TDB_OK, w2\<lparr>end_off := TDB_WAL_HDR_SIZE\<rparr>))
          else (TDB_OK, w1))"

section \<open>Reading, appending, checkpointing\<close>

text \<open>The status and the page image, \<open>None\<close> when the page is not in the log.\<close>

definition tdb_wal_read_page :: "(nat \<Rightarrow> bool) \<Rightarrow> zbuild \<Rightarrow> tdb_wal \<Rightarrow> nat \<Rightarrow> tdb_status \<times> bytes option" where
  "tdb_wal_read_page ok z w pgno =
     (if map_cap w \<le> pgno \<or> wmap w pgno = 0 then (TDB_OK, None)
      else
        (let idx = wmap w pgno - 1; off = frame_offset w idx + TDB_WAL_FRAME_HDR_SIZE in
         if nframe w \<le> idx then (TDB_OK, None)
         else if wversion w = TDB_WAL_VERSION_V2 then
           (let pfx = mem_read (wfile w) TDB_WAL_V2_PAYLOAD_HDR off;
                phys = unat (tdb_get_u32 pfx); codec = pfx ! 4;
                buf = mem_read (wfile w) phys (off + TDB_WAL_V2_PAYLOAD_HDR)
            in
            if codec = TDB_COMP_NONE then (TDB_OK, Some (buf @ replicate (wpage_size w - phys) 0))
            else if \<not> ok phys then (TDB_NOMEM, None)
            else
              (case tdb_decompress z buf (wpage_size w) of
                 (rc, out) \<Rightarrow>
                   if rc \<noteq> TDB_OK then (rc, None)
                   else if length out \<noteq> wpage_size w then (TDB_CORRUPT, None)
                   else (TDB_OK, Some out)))
         else (TDB_OK, Some (mem_read (wfile w) (wpage_size w) off))))"

text \<open>The stored form of a page image: its bytes and codec id (the compression step of the append).\<close>

definition append_payload :: "zbuild \<Rightarrow> tdb_wal \<Rightarrow> bytes \<Rightarrow> bytes \<times> byte" where
  "append_payload z w page =
     (if wversion w = TDB_WAL_VERSION_V2 \<and> tdb_compress_codec z \<noteq> TDB_COMP_NONE then
        (case tdb_compress z page (tdb_compress_bound z (wpage_size w)) of
           (rc, c) \<Rightarrow>
             if rc = TDB_OK \<and> length c < wpage_size w then (c, tdb_compress_codec z)
             else (page, TDB_COMP_NONE))
      else (page, TDB_COMP_NONE))"

definition append_seed :: "tdb_wal \<Rightarrow> u32" where
  "append_seed w =
     (if nframe w = 0 then salt1 w
      else tdb_get_u32 (drop 16 (mem_read (wfile w) TDB_WAL_FRAME_HDR_SIZE (frame_offset w (nframe w - 1)))))"

definition frame_hdr16 :: "tdb_wal \<Rightarrow> u32 \<Rightarrow> u32 \<Rightarrow> bytes" where
  "frame_hdr16 w pgno dbsz =
     tdb_put_u32 pgno @ tdb_put_u32 dbsz @ tdb_put_u32 (salt1 w) @ tdb_put_u32 (salt2 w)"

text \<open>The bookkeeping at the end of the append: offsets, tail, page map, frame count.\<close>

definition append_finish ::
  "(nat \<Rightarrow> bool) \<Rightarrow> tdb_wal \<Rightarrow> nat \<Rightarrow> nat \<Rightarrow> u32 \<Rightarrow> bool \<Rightarrow> u32 \<Rightarrow> tdb_status \<times> tdb_wal" where
  "append_finish ok w off tail pgno is_commit dbsz =
     (let idx = nframe w in
      case (if wversion w = TDB_WAL_VERSION_V2 then
              (case offsets_ensure ok w (idx + 1) of
                 (rc, w1) \<Rightarrow>
                   if rc \<noteq> TDB_OK then (TDB_NOMEM, w1)
                   else (TDB_OK, w1\<lparr>offsets := (offsets w1)(idx := off), end_off := tail\<rparr>))
            else (TDB_OK, w\<lparr>end_off := tail\<rparr>)) of
        (rc, w1) \<Rightarrow>
          if rc \<noteq> TDB_OK then (rc, w1)
          else
            (case map_ensure ok w1 (unat pgno) of
               (rc, w2) \<Rightarrow>
                 if rc \<noteq> TDB_OK then (TDB_NOMEM, w2)
                 else
                   (let w3 = w2\<lparr>wmap := (wmap w2)(unat pgno := idx + 1), nframe := idx + 1\<rparr> in
                    (TDB_OK, if is_commit then w3\<lparr>wdb_size := dbsz\<rparr> else w3))))"

text \<open>
  The file writes of an append: frame header, prefix (version 2), payload. The compression
  buffer is allocated between the first two.
\<close>

definition append_io ::
  "(nat \<Rightarrow> bool) \<Rightarrow> mem_handle \<Rightarrow> nat \<Rightarrow> bytes \<Rightarrow> bool \<Rightarrow> bool \<Rightarrow> bytes \<Rightarrow> bytes \<Rightarrow> tdb_status \<times> mem_handle" where
  "append_io ok h off fhdr cbuf_ok v2 pfx stored =
     (case mem_write ok h fhdr off of
        (rc, f1) \<Rightarrow>
          if rc \<noteq> TDB_OK then (rc, f1)
          else if \<not> cbuf_ok then (TDB_NOMEM, f1)
          else
            (case (if v2 then mem_write ok f1 pfx (off + TDB_WAL_FRAME_HDR_SIZE) else (TDB_OK, f1)) of
               (rc, f2) \<Rightarrow>
                 if rc \<noteq> TDB_OK then (rc, f2)
                 else mem_write ok f2 stored (off + TDB_WAL_FRAME_HDR_SIZE + length pfx)))"

definition tdb_wal_append ::
  "(nat \<Rightarrow> bool) \<Rightarrow> zbuild \<Rightarrow> tdb_wal \<Rightarrow> u32 \<Rightarrow> bytes \<Rightarrow> bool \<Rightarrow> u32 \<Rightarrow> tdb_status \<times> tdb_wal" where
  "tdb_wal_append ok z w pgno page is_commit dbsz =
     (let v2 = (wversion w = TDB_WAL_VERSION_V2);
          hdr16 = frame_hdr16 w pgno (if is_commit then dbsz else 0);
          sums = frame_checksum (append_seed w) hdr16 page;
          fhdr = hdr16 @ tdb_put_u32 (fst sums) @ tdb_put_u32 (snd sums);
          off = (if v2 then end_off w else frame_offset w (nframe w));
          stored = fst (append_payload z w page);
          codec = snd (append_payload z w page);
          cbuf_ok = (v2 \<and> tdb_compress_codec z \<noteq> TDB_COMP_NONE \<longrightarrow> ok (tdb_compress_bound z (wpage_size w)));
          pfx = (if v2 then tdb_put_u32 (word_of_nat (length stored)) @ [codec] else [])
      in
      case append_io ok (wfile w) off fhdr cbuf_ok v2 pfx stored of
        (rc, f) \<Rightarrow>
          if rc \<noteq> TDB_OK then (rc, w\<lparr>wfile := f\<rparr>)
          else append_finish ok (w\<lparr>wfile := f\<rparr>) off
                 (off + TDB_WAL_FRAME_HDR_SIZE + length pfx + length stored) pgno is_commit dbsz)"

text \<open>
  The copy loop of the checkpoint over page numbers \<open>p\<close>, \<open>n\<close> of them left. The file offset
  \<^verbatim>\<open>(p - 1) * page_size\<close> is computed on 32-bit page numbers.
\<close>

fun ckpt_loop :: "(nat \<Rightarrow> bool) \<Rightarrow> zbuild \<Rightarrow> tdb_wal \<Rightarrow> mem_handle \<Rightarrow> nat \<Rightarrow> nat \<Rightarrow> tdb_status \<times> mem_handle" where
  "ckpt_loop ok z w db p 0 = (TDB_OK, db)"
| "ckpt_loop ok z w db p (Suc n) =
     (if wmap w p = 0 \<or> nframe w < wmap w p then ckpt_loop ok z w db (Suc p) n
      else
        (case tdb_wal_read_page ok z w p of
           (rc, r) \<Rightarrow>
             if rc \<noteq> TDB_OK then (rc, db)
             else
               (case r of
                  None \<Rightarrow> ckpt_loop ok z w db (Suc p) n
                | Some page \<Rightarrow>
                    (case mem_write ok db page ((p + 2 ^ 32 - 1) mod 2 ^ 32 * wpage_size w) of
                       (rc, db1) \<Rightarrow> if rc \<noteq> TDB_OK then (rc, db1) else ckpt_loop ok z w db1 (Suc p) n))))"

definition tdb_wal_checkpoint ::
  "(nat \<Rightarrow> bool) \<Rightarrow> zbuild \<Rightarrow> tdb_wal \<Rightarrow> mem_handle \<Rightarrow> tdb_status \<times> tdb_wal \<times> mem_handle" where
  "tdb_wal_checkpoint ok z w db =
     (if \<not> ok (wpage_size w) then (TDB_NOMEM, w, db)
      else
        (case ckpt_loop ok z w db 0 (map_cap w) of
           (rc, db1) \<Rightarrow>
             if rc \<noteq> TDB_OK then (rc, w, db1)
             else
               (let w1 = w\<lparr>ckpt_seq := ckpt_seq w + 1, salt1 := salt1 w + 0x9E3779B9,
                           salt2 := salt2 w XOR 0xA5A5A5A5, nframe := 0, wmap := (\<lambda>_. 0),
                           wfile := mem_truncate (wfile w) 0\<rparr> in
                case write_header ok w1 of
                  (rc, w2) \<Rightarrow>
                    if rc \<noteq> TDB_OK then (rc, w2, db1)
                    else (TDB_OK, w2\<lparr>end_off := TDB_WAL_HDR_SIZE\<rparr>, db1))))"

end
