(* ===== verification/Tdb_Wal_Log.thy ===== *)
theory Tdb_Wal_Log
  imports Tdb_Wal
begin

text \<open>
  The log as a sequence of frames: what the bytes of a WAL file mean, and that appending,
  reading, recovering and checkpointing implement operations on that sequence. The
  representation \<open>wal_rep\<close> relates the state of \<open>Tdb_Wal\<close> to a list of frames; a page's
  content is that of its last frame, and a crash keeps the frames up to the last commit.
\<close>

section \<open>Frames\<close>

record wframe =
  f_pgno :: u32
  f_page :: bytes
  f_dbsz :: u32

definition frame_ok :: "tdb_wal \<Rightarrow> wframe \<Rightarrow> bool" where
  "frame_ok w f \<longleftrightarrow> length (f_page f) = wpage_size w"

definition frame_sums :: "tdb_wal \<Rightarrow> u32 \<Rightarrow> wframe \<Rightarrow> u32 \<times> u32" where
  "frame_sums w seed f = frame_checksum seed (frame_hdr16 w (f_pgno f) (f_dbsz f)) (f_page f)"

definition frame_prefix :: "zbuild \<Rightarrow> tdb_wal \<Rightarrow> wframe \<Rightarrow> bytes" where
  "frame_prefix z w f =
     (if wversion w = TDB_WAL_VERSION_V2
      then (case append_payload z w (f_page f) of
              (stored, codec) \<Rightarrow> tdb_put_u32 (word_of_nat (length stored)) @ [codec])
      else [])"

definition frame_stored :: "zbuild \<Rightarrow> tdb_wal \<Rightarrow> wframe \<Rightarrow> bytes" where
  "frame_stored z w f = fst (append_payload z w (f_page f))"

definition frame_fhdr :: "tdb_wal \<Rightarrow> u32 \<Rightarrow> wframe \<Rightarrow> bytes" where
  "frame_fhdr w seed f =
     frame_hdr16 w (f_pgno f) (f_dbsz f) @ tdb_put_u32 (fst (frame_sums w seed f)) @
     tdb_put_u32 (snd (frame_sums w seed f))"

definition frame_bytes :: "zbuild \<Rightarrow> tdb_wal \<Rightarrow> u32 \<Rightarrow> wframe \<Rightarrow> bytes" where
  "frame_bytes z w seed f = frame_fhdr w seed f @ frame_prefix z w f @ frame_stored z w f"

definition frame_len :: "zbuild \<Rightarrow> tdb_wal \<Rightarrow> wframe \<Rightarrow> nat" where
  "frame_len z w f =
     TDB_WAL_FRAME_HDR_SIZE + (if wversion w = TDB_WAL_VERSION_V2 then TDB_WAL_V2_PAYLOAD_HDR else 0) +
     length (frame_stored z w f)"

fun log_bytes :: "zbuild \<Rightarrow> tdb_wal \<Rightarrow> u32 \<Rightarrow> wframe list \<Rightarrow> bytes" where
  "log_bytes z w seed [] = []"
| "log_bytes z w seed (f # fs) = frame_bytes z w seed f @ log_bytes z w (fst (frame_sums w seed f)) fs"

definition log_seed :: "tdb_wal \<Rightarrow> u32 \<Rightarrow> wframe list \<Rightarrow> u32" where
  "log_seed w seed fs = foldl (\<lambda>s f. fst (frame_sums w s f)) seed fs"

definition log_len :: "zbuild \<Rightarrow> tdb_wal \<Rightarrow> wframe list \<Rightarrow> nat" where
  "log_len z w fs = sum_list (map (frame_len z w) fs)"

text \<open>Everything about frames depends on the state only through version, page size and salts.\<close>

definition wal_cfg :: "tdb_wal \<Rightarrow> u32 \<times> nat \<times> u32 \<times> u32" where
  "wal_cfg w = (wversion w, wpage_size w, salt1 w, salt2 w)"

lemma cfg_cong:
  assumes "wal_cfg w = wal_cfg w'"
  shows "frame_ok w = frame_ok w'" "frame_sums w = frame_sums w'" "frame_bytes z w = frame_bytes z w'"
    "frame_len z w = frame_len z w'" "log_bytes z w = log_bytes z w'" "log_seed w = log_seed w'"
    "log_len z w = log_len z w'"
proof -
  have hdr: "frame_hdr16 w = frame_hdr16 w'" and pay: "append_payload z w = append_payload z w'"
    and ver: "wversion w = wversion w'" and ps: "wpage_size w = wpage_size w'"
    using assms by (auto simp: wal_cfg_def frame_hdr16_def append_payload_def fun_eq_iff)
  show 1: "frame_ok w = frame_ok w'" using ps by (simp add: frame_ok_def fun_eq_iff)
  show 2: "frame_sums w = frame_sums w'" using hdr by (simp add: frame_sums_def fun_eq_iff)
  show 3: "frame_bytes z w = frame_bytes z w'"
    using hdr pay ver 2
    by (simp add: frame_bytes_def frame_fhdr_def frame_prefix_def frame_stored_def fun_eq_iff)
  show 4: "frame_len z w = frame_len z w'" using pay ver by (simp add: frame_len_def frame_stored_def fun_eq_iff)
  have "log_bytes z w seed fs = log_bytes z w' seed fs" for seed fs
    by (induction fs arbitrary: seed) (simp_all add: 2 3)
  then show "log_bytes z w = log_bytes z w'" by (simp add: fun_eq_iff)
  show "log_seed w = log_seed w'" by (simp add: log_seed_def 2 fun_eq_iff)
  show "log_len z w = log_len z w'" by (simp add: log_len_def 4 fun_eq_iff)
qed

lemma length_frame_hdr16 [simp]: "length (frame_hdr16 w p d) = 16"
  by (simp add: frame_hdr16_def)

lemma length_frame_fhdr [simp]: "length (frame_fhdr w seed f) = 24"
  by (simp add: frame_fhdr_def)

lemma length_frame_bytes [simp]: "length (frame_bytes z w seed f) = frame_len z w f"
  by (simp add: frame_bytes_def frame_len_def frame_prefix_def split: prod.splits)

lemma length_log_bytes [simp]: "length (log_bytes z w seed fs) = log_len z w fs"
  by (induction fs arbitrary: seed) (simp_all add: log_len_def)

lemma log_bytes_append: "log_bytes z w seed (fs @ gs) = log_bytes z w seed fs @ log_bytes z w (log_seed w seed fs) gs"
  by (induction fs arbitrary: seed) (simp_all add: log_seed_def)

lemma log_seed_append: "log_seed w seed (fs @ gs) = log_seed w (log_seed w seed fs) gs"
  by (simp add: log_seed_def)

lemma log_len_Nil [simp]: "log_len z w [] = 0"
  by (simp add: log_len_def)

lemma log_len_append: "log_len z w (fs @ gs) = log_len z w fs + log_len z w gs"
  by (simp add: log_len_def)

lemma frame_len_ge: "24 \<le> frame_len z w f"
  by (simp add: frame_len_def)

text \<open>The decoded fields of a frame header.\<close>

lemma fhdr_fields:
  "take 16 (frame_fhdr w seed f) = frame_hdr16 w (f_pgno f) (f_dbsz f)"
  "tdb_get_u32 (frame_fhdr w seed f) = f_pgno f"
  "tdb_get_u32 (drop 4 (frame_fhdr w seed f)) = f_dbsz f"
  "tdb_get_u32 (drop 8 (frame_fhdr w seed f)) = salt1 w"
  "tdb_get_u32 (drop 12 (frame_fhdr w seed f)) = salt2 w"
  "tdb_get_u32 (drop 16 (frame_fhdr w seed f)) = fst (frame_sums w seed f)"
  "tdb_get_u32 (drop 20 (frame_fhdr w seed f)) = snd (frame_sums w seed f)"
  by (simp_all add: frame_fhdr_def frame_hdr16_def get_put_u)

lemma mem_read_at:
  assumes "mem_ok h" "fcontent h = pre @ xs @ post" "off = length pre" "n = length xs"
  shows "mem_read h n off = xs"
  using assms by (simp add: mem_read_zread zread_def)

text \<open>Reading back the stored form of a page.\<close>

definition unpack :: "zbuild \<Rightarrow> nat \<Rightarrow> bytes \<Rightarrow> byte \<Rightarrow> bytes option" where
  "unpack z ps stored codec =
     (if codec \<noteq> TDB_COMP_NONE then
        (case tdb_decompress z stored ps of
           (rc, out) \<Rightarrow> if rc \<noteq> TDB_OK \<or> length out \<noteq> ps then None else Some out)
      else Some (stored @ replicate (ps - length stored) 0))"

lemma unpack_payload:
  assumes "codec_ok z" "length page = wpage_size w" "append_payload z w page = (stored, codec)"
  shows "unpack z (wpage_size w) stored codec = Some page" "length stored \<le> wpage_size w"
    "wversion w \<noteq> TDB_WAL_VERSION_V2 \<Longrightarrow> stored = page \<and> codec = TDB_COMP_NONE"
proof -
  from assms(3) consider "stored = page" "codec = TDB_COMP_NONE"
    | "tdb_compress z page (tdb_compress_bound z (wpage_size w)) = (TDB_OK, stored)"
        "length stored < wpage_size w" "wversion w = TDB_WAL_VERSION_V2" "codec \<noteq> TDB_COMP_NONE"
    by (auto simp: append_payload_def split: if_splits prod.splits)
  then show "unpack z (wpage_size w) stored codec = Some page"
  proof cases
    case 1
    then show ?thesis using assms(2) by (simp add: unpack_def)
  next
    case 2
    then have "tdb_decompress z stored (length page) = (TDB_OK, page)"
      using codec_lossless [OF assms(1)] page_codec.lossless by blast
    then show ?thesis
      using assms(2) 2 by (auto simp: unpack_def)
  qed
  show "length stored \<le> wpage_size w"
    "wversion w \<noteq> TDB_WAL_VERSION_V2 \<Longrightarrow> stored = page \<and> codec = TDB_COMP_NONE"
    using assms(2,3) by (auto simp: append_payload_def split: if_splits prod.splits)
qed

text \<open>
  One round of recovery on a well-formed frame reads it back.
\<close>

lemma recover_frame_v1:
  assumes "wversion w \<noteq> TDB_WAL_VERSION_V2"
  shows "recover_frame z w off rolling =
    (if msize (wfile w) < off + 24 + wpage_size w then None
     else
       (let fhdr = mem_read (wfile w) 24 off; pg = mem_read (wfile w) (wpage_size w) (off + 24);
            cs = frame_checksum rolling (take 16 fhdr) pg in
        if tdb_get_u32 (drop 8 fhdr) \<noteq> salt1 w \<or> tdb_get_u32 (drop 12 fhdr) \<noteq> salt2 w then None
        else if fst cs \<noteq> tdb_get_u32 (drop 16 fhdr) \<or> snd cs \<noteq> tdb_get_u32 (drop 20 fhdr) then None
        else Some (fst cs, tdb_get_u32 (drop 4 fhdr), off + 24 + wpage_size w)))"
  using assms by (simp add: recover_frame_def Let_def mem_filesize_def split_def)

lemma recover_frame_v2:
  assumes "wversion w = TDB_WAL_VERSION_V2" "mem_ok (wfile w)"
  shows "recover_frame z w off rolling =
    (let fhdr = mem_read (wfile w) 24 off; pfx = mem_read (wfile w) 5 (off + 24);
         phys = unat (tdb_get_u32 pfx) in
     if msize (wfile w) < off + 29 \<or> wpage_size w < phys \<or> msize (wfile w) < off + 29 + phys then None
     else
       (case unpack z (wpage_size w) (mem_read (wfile w) phys (off + 29)) (pfx ! 4) of
          None \<Rightarrow> None
        | Some pg \<Rightarrow>
            (let cs = frame_checksum rolling (take 16 fhdr) pg in
             if tdb_get_u32 (drop 8 fhdr) \<noteq> salt1 w \<or> tdb_get_u32 (drop 12 fhdr) \<noteq> salt2 w then None
             else if fst cs \<noteq> tdb_get_u32 (drop 16 fhdr) \<or> snd cs \<noteq> tdb_get_u32 (drop 20 fhdr) then None
             else Some (fst cs, tdb_get_u32 (drop 4 fhdr), off + 29 + phys))))"
proof -
  have len: "length (mem_read (wfile w) n k) = n" for n k by (simp add: mem_read_zread [OF assms(2)])
  show ?thesis
    using assms by (simp add: recover_frame_def unpack_def Let_def mem_filesize_def split_def len add.assoc)
qed

lemma recover_frame_good:
  assumes "mem_ok (wfile w)" "codec_ok z" "frame_ok w f" "wpage_size w < 2 ^ 32"
    and content: "fcontent (wfile w) = pre @ frame_bytes z w seed f @ post" and off: "off = length pre"
  shows "recover_frame z w off seed =
    Some (fst (frame_sums w seed f), f_dbsz f, off + frame_len z w f)"
proof -
  obtain stored codec where pay: "append_payload z w (f_page f) = (stored, codec)" by force
  note unp = unpack_payload [OF assms(2) _ pay] assms(3) [unfolded frame_ok_def]
  have size: "msize (wfile w) = off + frame_len z w f + length post"
    using arg_cong [OF content, of length] assms(1) by (simp add: off)
  have fhdr: "mem_read (wfile w) 24 off = frame_fhdr w seed f"
    by (rule mem_read_at [OF assms(1), of pre _ "frame_prefix z w f @ frame_stored z w f @ post"])
       (simp_all add: content off frame_bytes_def)
  show ?thesis
  proof (cases "wversion w = TDB_WAL_VERSION_V2")
    case False
    then have st: "frame_prefix z w f = []" "frame_stored z w f = f_page f"
      using unp pay by (simp_all add: frame_prefix_def frame_stored_def)
    have "mem_read (wfile w) (wpage_size w) (off + 24) = f_page f"
      by (rule mem_read_at [OF assms(1), of "pre @ frame_fhdr w seed f" _ post])
         (simp_all add: content off frame_bytes_def st unp)
    with False unp(4) show ?thesis
      by (simp add: recover_frame_v1 size frame_len_def st fhdr fhdr_fields frame_sums_def Let_def)
  next
    case True
    have small: "unat (word_of_nat (length stored) :: u32) = length stored"
      using unp assms(4) by (simp add: unat_of_nat)
    have st: "frame_prefix z w f = tdb_put_u32 (word_of_nat (length stored)) @ [codec]"
      "frame_stored z w f = stored"
      using True pay by (simp_all add: frame_prefix_def frame_stored_def)
    have pfx: "mem_read (wfile w) 5 (off + 24) = frame_prefix z w f"
      by (rule mem_read_at [OF assms(1), of "pre @ frame_fhdr w seed f" _ "stored @ post"])
         (simp_all add: content off frame_bytes_def st)
    have pl: "mem_read (wfile w) (length stored) (off + 29) = stored"
      by (rule mem_read_at [OF assms(1), of "pre @ frame_fhdr w seed f @ frame_prefix z w f" _ post])
         (simp_all add: content off frame_bytes_def st)
    have "tdb_get_u32 (frame_prefix z w f) = word_of_nat (length stored)" "frame_prefix z w f ! 4 = codec"
      by (simp_all add: st get_put_u nth_append)
    with True unp small show ?thesis
      by (simp add: recover_frame_v2 [OF True assms(1)] size frame_len_def st(2) fhdr fhdr_fields pfx pl
          frame_sums_def Let_def)
  qed
qed

section \<open>Recovery finds the committed prefix\<close>

definition committed :: "wframe list \<Rightarrow> wframe list" where
  "committed fs = rev (dropWhile (\<lambda>f. f_dbsz f = 0) (rev fs))"

lemma committed_simps [simp]:
  "committed [] = []"
  "committed (fs @ [f]) = (if f_dbsz f \<noteq> 0 then fs @ [f] else committed fs)"
  by (simp_all add: committed_def)

lemma committed_prefix: "\<exists>rest. fs = committed fs @ rest \<and> list_all (\<lambda>f. f_dbsz f = 0) rest"
proof (intro exI conjI)
  show "fs = committed fs @ rev (takeWhile (\<lambda>f. f_dbsz f = 0) (rev fs))"
    by (simp add: committed_def flip: rev_append)
  show "list_all (\<lambda>f. f_dbsz f = 0) (rev (takeWhile (\<lambda>f. f_dbsz f = 0) (rev fs)))"
    by (auto simp: list_all_iff dest: set_takeWhileD)
qed

lemma committed_last: "committed fs \<noteq> [] \<Longrightarrow> f_dbsz (last (committed fs)) \<noteq> 0"
  by (induction fs rule: rev_induct) (auto split: if_splits)

lemma committed_committed [simp]: "committed (committed fs) = committed fs"
  by (induction fs rule: rev_induct) simp_all

definition log_db_size :: "wframe list \<Rightarrow> u32" where
  "log_db_size fs = (if committed fs = [] then 0 else f_dbsz (last (committed fs)))"

definition rec_frames :: "zbuild \<Rightarrow> tdb_wal \<Rightarrow> rec_state \<Rightarrow> wframe list \<Rightarrow> rec_state" where
  "rec_frames z w s fs =
     foldl (\<lambda>s f. rec_advance s (fst (frame_sums w (r_rolling s) f)) (f_dbsz f) (r_off s + frame_len z w f)) s fs"

definition rec_init :: "tdb_wal \<Rightarrow> rec_state" where
  "rec_init w = \<lparr>r_idx = 0, r_off = TDB_WAL_HDR_SIZE, r_committed = 0, r_dbsize = 0,
                 r_end = TDB_WAL_HDR_SIZE, r_rolling = salt1 w\<rparr>"

lemma rec_advance_sel [simp]:
  "r_idx (rec_advance s c d off) = r_idx s + 1" "r_rolling (rec_advance s c d off) = c"
  "r_committed (rec_advance s c d off) = (if d \<noteq> 0 then r_idx s + 1 else r_committed s)"
  "r_dbsize (rec_advance s c d off) = (if d \<noteq> 0 then d else r_dbsize s)"
  "r_end (rec_advance s c d off) = (if d \<noteq> 0 then off else r_end s)"
  by (simp_all add: rec_advance_def Let_def)

lemma rec_frames_init:
  "r_idx (rec_frames z w (rec_init w) fs) = length fs"
  "r_off (rec_frames z w (rec_init w) fs) = 32 + log_len z w fs"
  "r_rolling (rec_frames z w (rec_init w) fs) = log_seed w (salt1 w) fs"
  "r_committed (rec_frames z w (rec_init w) fs) = length (committed fs)"
  "r_dbsize (rec_frames z w (rec_init w) fs) = log_db_size fs"
  "r_end (rec_frames z w (rec_init w) fs) = 32 + log_len z w (committed fs)"
  by (induction fs rule: rev_induct)
     (simp_all add: rec_frames_def rec_init_def log_len_def log_seed_def log_db_size_def)

text \<open>Recovery stops at \<open>off\<close>: no room for a frame header, or the frame there is not valid.\<close>

definition log_stops :: "zbuild \<Rightarrow> tdb_wal \<Rightarrow> nat \<Rightarrow> u32 \<Rightarrow> bool" where
  "log_stops z w off seed \<longleftrightarrow> msize (wfile w) < off + 24 \<or> recover_frame z w off seed = None"

lemma recover_frame_offsets [simp]: "recover_frame z (w\<lparr>offsets := f, offsets_cap := c\<rparr>) = recover_frame z w"
  by (intro ext, cases w) (simp only: recover_frame_def tdb_wal.simps)

lemma cfg_offsets [simp]: "wal_cfg (w\<lparr>offsets := f, offsets_cap := c\<rparr>) = wal_cfg w"
  by (simp add: wal_cfg_def)

lemmas cfg_offsets_simps [simp] = cfg_cong [OF cfg_offsets]

text \<open>
  The offsets recorded for \<open>fs\<close> starting with index \<open>i0\<close> at \<open>off0\<close>.
\<close>

definition offsets_rec :: "zbuild \<Rightarrow> tdb_wal \<Rightarrow> nat \<Rightarrow> nat \<Rightarrow> wframe list \<Rightarrow> bool" where
  "offsets_rec z w i0 off0 fs \<longleftrightarrow>
     wversion w = TDB_WAL_VERSION_V2 \<longrightarrow>
       (\<forall>i < length fs. offsets w (i0 + i) = off0 + log_len z w (take i fs)) \<and>
       (fs \<noteq> [] \<longrightarrow> offsets_cap w \<noteq> 0)"

lemma recover_loop_log:
  assumes "mem_ok (wfile w)" "codec_ok z" "list_all (frame_ok w) fs" "wpage_size w < 2 ^ 32"
    and "fcontent (wfile w) = pre @ log_bytes z w (r_rolling s) fs @ junk" "r_off s = length pre"
    and "log_stops z w (r_off s + log_len z w fs) (log_seed w (r_rolling s) fs)"
    and "recover_loop ok z w s = (TDB_OK, w', s')"
  shows "s' = rec_frames z w s fs \<and>
    (\<exists>f c. w' = w\<lparr>offsets := f, offsets_cap := c\<rparr> \<and> offsets_cap w \<le> c \<and>
      (\<forall>i < r_idx s. f i = offsets w i)) \<and>
    offsets_rec z w' (r_idx s) (r_off s) fs"
  using assms
proof (induction fs arbitrary: w s pre)
  case Nil
  then have "w' = w" "s' = s"
    by (auto simp: recover_loop.simps [of ok z w s] log_stops_def log_seed_def log_len_def mem_filesize_def
        split: if_splits)
  moreover have "\<exists>f c. w = w\<lparr>offsets := f, offsets_cap := c\<rparr> \<and> offsets_cap w \<le> c \<and> (\<forall>i < r_idx s. f i = offsets w i)"
    by (intro exI [of _ "offsets w"] exI [of _ "offsets_cap w"]) simp
  ultimately show ?case by (simp add: rec_frames_def offsets_rec_def)
next
  case (Cons f fs)
  have rf: "recover_frame z w (r_off s) (r_rolling s) =
      Some (fst (frame_sums w (r_rolling s) f), f_dbsz f, r_off s + frame_len z w f)"
    by (rule recover_frame_good [where post = "log_bytes z w (fst (frame_sums w (r_rolling s) f)) fs @ junk"])
       (use Cons.prems in \<open>simp_all\<close>)
  have fits: "r_off s + 24 \<le> mem_filesize (wfile w)"
    using arg_cong [OF Cons.prems(5), of length] Cons.prems(1,6) frame_len_ge [of z w f]
    by (simp add: mem_filesize_def log_len_def)
  obtain rc w1 where note1: "recover_note ok w (r_idx s) (r_off s) = (rc, w1)" by force
  let ?s1 = "rec_advance s (fst (frame_sums w (r_rolling s) f)) (f_dbsz f) (r_off s + frame_len z w f)"
  have loop: "rc = TDB_OK" "recover_loop ok z w1 ?s1 = (TDB_OK, w', s')"
    using Cons.prems(8) rf fits note1 by (auto simp: recover_loop.simps [of ok z w s] split: if_splits)
  obtain g c where w1: "w1 = w\<lparr>offsets := g, offsets_cap := c\<rparr>" and c: "offsets_cap w \<le> c"
    using recover_note_frame [OF note1] by blast
  have g: "wversion w = TDB_WAL_VERSION_V2 \<longrightarrow> g (r_idx s) = r_off s \<and> c \<noteq> 0" "\<forall>i < r_idx s. g i = offsets w i"
    using note1 loop(1) offsets_ensure_frame [of ok w "r_idx s + 1"]
    by (cases w; auto simp: w1 recover_note_def split: if_splits prod.splits)+
  have IH: "s' = rec_frames z w1 ?s1 fs \<and>
    (\<exists>f c. w' = w1\<lparr>offsets := f, offsets_cap := c\<rparr> \<and> offsets_cap w1 \<le> c \<and> (\<forall>i < r_idx ?s1. f i = offsets w1 i)) \<and>
    offsets_rec z w' (r_idx ?s1) (r_off ?s1) fs"
    using Cons.prems loop(2)
    by (intro Cons.IH [where pre = "pre @ frame_bytes z w (r_rolling s) f"])
       (simp_all add: w1 log_stops_def log_seed_def log_len_def add.assoc)
  have frames: "rec_frames z w1 ?s1 fs = rec_frames z w s (f # fs)"
    by (simp add: rec_frames_def w1)
  from IH obtain h d where w': "w' = w\<lparr>offsets := h, offsets_cap := d\<rparr>" "\<forall>i \<le> r_idx s. h i = g i" "c \<le> d"
    by (auto simp: w1 less_Suc_eq_le)
  have "offsets_rec z w' (r_idx s) (r_off s) (f # fs)"
    unfolding offsets_rec_def
  proof (intro impI conjI allI)
    assume v2: "wversion w' = TDB_WAL_VERSION_V2"
    with IH have rest: "\<forall>i < length fs. offsets w' (Suc (r_idx s) + i) = r_off s + frame_len z w f + log_len z w (take i fs)"
      by (simp add: offsets_rec_def w')
    fix i
    assume "i < length (f # fs)"
    with v2 rest w' g show "offsets w' (r_idx s + i) = r_off s + log_len z w' (take i (f # fs))"
      by (cases i) (simp_all add: log_len_def add.assoc)
  next
    assume "wversion w' = TDB_WAL_VERSION_V2"
    with g w' show "offsets_cap w' \<noteq> 0" by simp
  qed
  moreover have "\<exists>f c. w' = w\<lparr>offsets := f, offsets_cap := c\<rparr> \<and> offsets_cap w \<le> c \<and> (\<forall>i < r_idx s. f i = offsets w i)"
    by (intro exI [of _ h] exI [of _ d]) (use w' c g(2) in auto)
  ultimately show ?case using IH frames by simp
qed

section \<open>The page map and the contents of the log\<close>

text \<open>The latest image of each page in a sequence of frames, and the map slot that finds it.\<close>

definition latest :: "wframe list \<Rightarrow> nat \<Rightarrow> bytes option" where
  "latest fs = foldl (\<lambda>m f. m(unat (f_pgno f) \<mapsto> f_page f)) Map.empty fs"

definition slot_of :: "wframe list \<Rightarrow> nat \<Rightarrow> nat" where
  "slot_of fs = snd (foldl (\<lambda>(i, m) f. (Suc i, m(unat (f_pgno f) := Suc i))) (0, \<lambda>_. 0) fs)"

lemma latest_simps [simp]:
  "latest [] = Map.empty" "latest (fs @ [f]) = (latest fs)(unat (f_pgno f) \<mapsto> f_page f)"
  by (simp_all add: latest_def)

lemma slot_of_simps [simp]:
  "slot_of [] = (\<lambda>_. 0)" "slot_of (fs @ [f]) = (slot_of fs)(unat (f_pgno f) := Suc (length fs))"
proof -
  have "fst (foldl (\<lambda>(i, m) f. (Suc i, m(unat (f_pgno f) := Suc i))) (i, m0) fs) = i + length fs" for i m0
    by (induction fs arbitrary: i m0) simp_all
  from this [of 0 "\<lambda>_. 0"] show "slot_of (fs @ [f]) = (slot_of fs)(unat (f_pgno f) := Suc (length fs))"
    by (simp add: slot_of_def split_def)
qed (simp add: slot_of_def)

lemma slot_of_le: "slot_of fs p \<le> length fs"
  by (induction fs rule: rev_induct) (simp_all add: le_SucI)

lemma slot_latest:
  "latest fs p = (if slot_of fs p = 0 then None else Some (f_page (fs ! (slot_of fs p - 1))))"
proof (induction fs rule: rev_induct)
  case (snoc f fs)
  have "slot_of fs p - 1 < length fs" if "slot_of fs p \<noteq> 0" using that slot_of_le [of fs p] by simp
  with snoc show ?case by (simp add: nth_append)
qed simp

lemma latest_dom: "latest fs p = None \<longleftrightarrow> p \<notin> (\<lambda>f. unat (f_pgno f)) ` set fs"
  by (induction fs rule: rev_induct) auto

text \<open>
  The representation: the file is the header, the frames and possibly left-over bytes; the
  index structures describe exactly these frames.
\<close>

definition wal_index :: "zbuild \<Rightarrow> tdb_wal \<Rightarrow> wframe list \<Rightarrow> bool" where
  "wal_index z w fs \<longleftrightarrow>
     offsets_rec z w 0 32 fs \<and> wmap w = slot_of fs \<and>
     (\<forall>p. slot_of fs p \<noteq> 0 \<longrightarrow> p < map_cap w)"

definition wal_base :: "zbuild \<Rightarrow> tdb_wal \<Rightarrow> bool" where
  "wal_base z w \<longleftrightarrow>
     mem_ok (wfile w) \<and> wpage_size w < 2 ^ 32 \<and> frame_stride w = 24 + wpage_size w \<and>
     (wversion w = TDB_WAL_VERSION_V1 \<or> wversion w = TDB_WAL_VERSION_V2)"

definition wal_rep :: "zbuild \<Rightarrow> tdb_wal \<Rightarrow> wframe list \<Rightarrow> bool" where
  "wal_rep z w fs \<longleftrightarrow>
     wal_base z w \<and> list_all (frame_ok w) fs \<and> nframe w = length fs \<and>
     end_off w = 32 + log_len z w fs \<and> wal_index z w fs \<and>
     (\<exists>junk. fcontent (wfile w) = wal_header w @ log_bytes z w (salt1 w) fs @ junk)"

lemma length_wal_header [simp]: "length (wal_header w) = 32"
  by (simp add: wal_header_def Let_def)

lemma v1_frame_len:
  assumes "wversion w = TDB_WAL_VERSION_V1" "frame_ok w f"
  shows "frame_len z w f = 24 + wpage_size w"
  using assms by (simp add: frame_len_def frame_stored_def append_payload_def frame_ok_def)

lemma v1_log_len:
  assumes "wversion w = TDB_WAL_VERSION_V1" "list_all (frame_ok w) fs"
  shows "log_len z w fs = length fs * (24 + wpage_size w)"
  using assms(2) by (induction fs) (simp_all add: log_len_def v1_frame_len [OF assms(1)])

lemma frame_offset_rec:
  assumes "wal_base z w" "list_all (frame_ok w) fs" "offsets_rec z w 0 32 fs" "i < length fs"
  shows "frame_offset w i = 32 + log_len z w (take i fs)"
proof (cases "wversion w = TDB_WAL_VERSION_V2")
  case True
  with assms(3,4) show ?thesis by (auto simp: frame_offset_def offsets_rec_def)
next
  case False
  with assms(1) have v1: "wversion w = TDB_WAL_VERSION_V1" by (simp add: wal_base_def)
  moreover have "list_all (frame_ok w) (take i fs)" using assms(2) by (auto simp: list_all_iff dest: in_set_takeD)
  ultimately show ?thesis
    using assms(1,4) False v1_log_len [of w "take i fs" z] by (simp add: frame_offset_def wal_base_def)
qed

text \<open>Reading at the start of frame \<open>i\<close>.\<close>

lemma log_bytes_nth:
  assumes "i < length fs"
  shows "log_bytes z w seed fs =
    log_bytes z w seed (take i fs) @ frame_bytes z w (log_seed w seed (take i fs)) (fs ! i) @
    log_bytes z w (log_seed w seed (take (Suc i) fs)) (drop (Suc i) fs)"
proof -
  have "fs = take i fs @ fs ! i # drop (Suc i) fs" using assms by (rule id_take_nth_drop)
  moreover have "log_seed w seed (take (Suc i) fs) = fst (frame_sums w (log_seed w seed (take i fs)) (fs ! i))"
    using assms by (simp add: take_Suc_conv_app_nth log_seed_append) (simp add: log_seed_def)
  ultimately show ?thesis by (metis log_bytes.simps(2) log_bytes_append append_assoc)
qed

lemma read_frame_header:
  assumes "mem_ok (wfile w)" "fcontent (wfile w) = hdr @ log_bytes z w seed fs @ junk" "length hdr = 32"
    and "i < length fs"
  shows "mem_read (wfile w) 24 (32 + log_len z w (take i fs)) =
    frame_fhdr w (log_seed w seed (take i fs)) (fs ! i)"
  using log_bytes_nth [OF assms(4), of z w seed]
  by (intro mem_read_at [OF assms(1), where pre = "hdr @ log_bytes z w seed (take i fs)"])
     (simp_all add: assms frame_bytes_def)

lemma map_ensure_frame:
  assumes "map_ensure ok w p = (TDB_OK, w1)" "\<And>q. wmap w q \<noteq> 0 \<Longrightarrow> q < map_cap w"
  shows "\<exists>c. w1 = w\<lparr>map_cap := c\<rparr> \<and> map_cap w \<le> c \<and> p < c"
proof (cases "p < map_cap w")
  case True
  with assms(1) show ?thesis by (intro exI [of _ "map_cap w"]) (simp add: map_ensure_def)
next
  case False
  let ?c = "grow_cap (if map_cap w \<noteq> 0 then map_cap w else 64) (Suc p)"
  have "(\<lambda>i. if i < map_cap w then wmap w i else 0) = wmap w" using assms(2) by fastforce
  then have "w1 = w\<lparr>map_cap := ?c\<rparr>"
    using assms(1) False by (cases w) (auto simp: map_ensure_def Let_def split: if_splits)
  moreover have "map_cap w \<le> ?c" "p < ?c"
    using grow_cap_ge [of "if map_cap w \<noteq> 0 then map_cap w else 64" "Suc p"] by (auto split: if_splits)
  ultimately show ?thesis by blast
qed

lemma rebuild_map_log:
  assumes "mem_ok (wfile w)" "\<And>i. i < length fs \<Longrightarrow> frame_offset w i = 32 + log_len z w (take i fs)"
    and "fcontent (wfile w) = hdr @ log_bytes z w seed fs @ junk" "length hdr = 32"
    and "wmap w = slot_of (take i fs)" "\<And>p. wmap w p \<noteq> 0 \<Longrightarrow> p < map_cap w"
    and "i + n \<le> length fs" "rebuild_map ok w i n = (TDB_OK, w')"
  shows "\<exists>c. w' = w\<lparr>wmap := slot_of (take (i + n) fs), map_cap := c\<rparr> \<and>
    (\<forall>p. slot_of (take (i + n) fs) p \<noteq> 0 \<longrightarrow> p < c)"
  using assms
proof (induction n arbitrary: w i)
  case 0
  then show ?case by (intro exI [of _ "map_cap w"]) (cases w, auto)
next
  case (Suc n)
  have i: "i < length fs" using Suc.prems(7) by simp
  let ?p = "unat (f_pgno (fs ! i))"
  have pg: "unat (tdb_get_u32 (mem_read (wfile w) 24 (frame_offset w i))) = ?p"
    using read_frame_header [OF Suc.prems(1,3,4) i] Suc.prems(2) [OF i] by (simp add: fhdr_fields)
  obtain rc w1 where me: "map_ensure ok w ?p = (rc, w1)" by force
  have rc: "rc = TDB_OK" and next_step: "rebuild_map ok (w1\<lparr>wmap := (wmap w1)(?p := i + 1)\<rparr>) (Suc i) n = (TDB_OK, w')"
    using Suc.prems(8) pg me by (auto simp: Let_def split: if_splits)
  from map_ensure_frame [OF me [unfolded rc] Suc.prems(6)] obtain c
    where w1: "w1 = w\<lparr>map_cap := c\<rparr>" and c: "map_cap w \<le> c" "?p < c" by blast
  define w2 where "w2 = w1\<lparr>wmap := (wmap w1)(?p := i + 1)\<rparr>"
  have slot: "wmap w2 = slot_of (take (Suc i) fs)"
    using i Suc.prems(5) by (simp add: w2_def w1 take_Suc_conv_app_nth)
  have cfg: "wal_cfg w2 = wal_cfg w" by (simp add: w2_def w1 wal_cfg_def)
  have fo: "frame_offset w2 j = frame_offset w j" for j by (simp add: w2_def w1 frame_offset_def)
  have "\<exists>c. w' = w2\<lparr>wmap := slot_of (take (Suc i + n) fs), map_cap := c\<rparr> \<and>
    (\<forall>p. slot_of (take (Suc i + n) fs) p \<noteq> 0 \<longrightarrow> p < c)"
  proof (rule Suc.IH)
    show "\<And>p. wmap w2 p \<noteq> 0 \<Longrightarrow> p < map_cap w2"
      using Suc.prems(6) c by (fastforce simp: w2_def w1 split: if_splits)
    show "rebuild_map ok w2 (Suc i) n = (TDB_OK, w')" using next_step by (simp add: w2_def)
    show "fcontent (wfile w2) = hdr @ log_bytes z w2 seed fs @ junk"
      using Suc.prems(3) cfg_cong(5) [OF cfg] by (simp add: w2_def w1)
    show "frame_offset w2 i = 32 + log_len z w2 (take i fs)" if "i < length fs" for i
      using that Suc.prems(2) fo cfg_cong(7) [OF cfg] by simp
  qed (use Suc.prems slot in \<open>simp_all add: w2_def w1\<close>)
  then show ?case by (auto simp: w2_def w1)
qed

section \<open>Opening a log\<close>

lemma wal_header_fields:
  "take 4 (wal_header w) = tdb_put_u32 TDB_WAL_MAGIC" "tdb_get_u32 (wal_header w) = TDB_WAL_MAGIC"
  "tdb_get_u32 (drop 4 (wal_header w)) = wversion w"
  "tdb_get_u32 (drop 8 (wal_header w)) = word_of_nat (wpage_size w)"
  "tdb_get_u32 (drop 12 (wal_header w)) = ckpt_seq w"
  "tdb_get_u32 (drop 16 (wal_header w)) = salt1 w" "tdb_get_u32 (drop 20 (wal_header w)) = salt2 w"
  by (simp_all add: wal_header_def Let_def get_put_u)

lemma recover_frame_cong:
  assumes "wal_cfg w = wal_cfg w'" "wfile w = wfile w'"
  shows "recover_frame z w off seed = recover_frame z w' off seed"
proof -
  have "wversion w = wversion w'" "wpage_size w = wpage_size w'" "salt1 w = salt1 w'" "salt2 w = salt2 w'"
    using assms(1) by (simp_all add: wal_cfg_def)
  then show ?thesis using assms(2) by (simp only: recover_frame_def)
qed

lemma log_stops_cong:
  "wal_cfg w = wal_cfg w' \<Longrightarrow> wfile w = wfile w' \<Longrightarrow> log_stops z w off seed = log_stops z w' off seed"
  by (simp add: log_stops_def recover_frame_cong [of w w'])

lemma take_committed: "take (length (committed fs)) fs = committed fs"
  using committed_prefix [of fs] by (metis append_eq_conv_conj)

lemma offsets_rec_committed: "offsets_rec z w i off fs \<Longrightarrow> offsets_rec z w i off (committed fs)"
proof -
  obtain rest where fs: "fs = committed fs @ rest" using committed_prefix by blast
  have "take i (committed fs) = take i fs" if "i < length (committed fs)" for i
    using that by (subst (2) fs) simp
  moreover have "length (committed fs) \<le> length fs" by (subst (2) fs) simp
  moreover have "committed fs \<noteq> [] \<Longrightarrow> fs \<noteq> []" by (auto simp: committed_def)
  ultimately show "offsets_rec z w i off fs \<Longrightarrow> offsets_rec z w i off (committed fs)"
    by (auto simp: offsets_rec_def)
qed

text \<open>
  \<open>w\<close> is any state whose configuration the file's header describes, \<open>w0\<close> the fresh struct and
  \<open>v\<close> the struct after the header was read.
\<close>

definition header_read :: "tdb_wal \<Rightarrow> tdb_wal \<Rightarrow> tdb_wal" where
  "header_read w0 w =
     w0\<lparr>wversion := wversion w, salt1 := salt1 w, salt2 := salt2 w, ckpt_seq := ckpt_seq w\<rparr>"

lemma recover_header:
  assumes base: "wal_base z w"
    and content: "fcontent (wfile w) = wal_header w @ rest"
    and w0: "wfile w0 = wfile w" "wpage_size w0 = wpage_size w"
    and rec: "recover ok z w0 = (TDB_OK, w')"
  obtains w1 s w2 where "recover_loop ok z (header_read w0 w) (rec_init w) = (TDB_OK, w1, s)"
    "rebuild_map ok (w1\<lparr>wmap := (\<lambda>_. 0)\<rparr>) 0 (r_committed s) = (TDB_OK, w2)"
    "w' = w2\<lparr>nframe := r_committed s, wdb_size := r_dbsize s, end_off := r_end s\<rparr>"
proof -
  have mem: "mem_ok (wfile w)" and ps: "wpage_size w < 2 ^ 32" and ver: "wversion w = 1 \<or> wversion w = 2"
    using base by (simp_all add: wal_base_def)
  have size: "mem_filesize (wfile w) = 32 + length rest"
    using arg_cong [OF content, of length] mem by (simp add: mem_filesize_def)
  have hdr: "mem_read (wfile w) 32 0 = wal_header w"
    by (rule mem_read_at [OF mem, of "[]"]) (simp_all add: content)
  have "unat (word_of_nat (wpage_size w) :: u32) = wpage_size w" using ps by (simp add: unat_of_nat)
  with rec size ver that show thesis
    by (auto simp: recover_def Let_def w0 hdr wal_header_fields rec_init_def header_read_def
        split: prod.splits if_splits)
qed

lemma recover_loop_result:
  assumes "codec_ok z" and base: "wal_base z w" and frames: "list_all (frame_ok w) fs"
    and content: "fcontent (wfile w) = wal_header w @ log_bytes z w (salt1 w) fs @ junk"
    and stop: "log_stops z w (32 + log_len z w fs) (log_seed w (salt1 w) fs)"
    and v: "wal_cfg v = wal_cfg w" "wfile v = wfile w"
    and loop: "recover_loop ok z v (rec_init w) = (TDB_OK, w1, s)"
  shows "s = rec_frames z w (rec_init w) fs" "\<exists>f c. w1 = v\<lparr>offsets := f, offsets_cap := c\<rparr>"
    "offsets_rec z w1 0 32 fs"
proof -
  note cong = cfg_cong [OF v(1)]
  have ps: "wpage_size v = wpage_size w" using v(1) by (simp add: wal_cfg_def)
  have r: "s = rec_frames z v (rec_init w) fs \<and>
    (\<exists>f c. w1 = v\<lparr>offsets := f, offsets_cap := c\<rparr> \<and> offsets_cap v \<le> c \<and> (\<forall>i < r_idx (rec_init w). f i = offsets v i)) \<and>
    offsets_rec z w1 (r_idx (rec_init w)) (r_off (rec_init w)) fs"
    by (rule recover_loop_log [where pre = "wal_header w" and junk = junk])
       (use assms log_stops_cong [OF v] in \<open>simp_all add: cong ps wal_base_def rec_init_def\<close>)
  then show "s = rec_frames z w (rec_init w) fs" by (simp add: rec_frames_def cong)
  show "\<exists>f c. w1 = v\<lparr>offsets := f, offsets_cap := c\<rparr>" "offsets_rec z w1 0 32 fs"
    using r by (auto simp: rec_init_def)
qed

lemma wal_rep_committed:
  assumes base: "wal_base z w'" and frames: "list_all (frame_ok w') fs"
    and content: "fcontent (wfile w') = wal_header w' @ log_bytes z w' (salt1 w') fs @ junk"
    and offs: "offsets_rec z w' 0 32 fs"
    and idx: "nframe w' = length (committed fs)" "end_off w' = 32 + log_len z w' (committed fs)"
      "wmap w' = slot_of (committed fs)" "\<forall>p. slot_of (committed fs) p \<noteq> 0 \<longrightarrow> p < map_cap w'"
  shows "wal_rep z w' (committed fs)"
proof -
  obtain rest where fs: "fs = committed fs @ rest" using committed_prefix by blast
  have "list_all (frame_ok w') (committed fs)" using frames by (subst (asm) fs) simp
  moreover have "\<exists>junk. fcontent (wfile w') = wal_header w' @ log_bytes z w' (salt1 w') (committed fs) @ junk"
    using content by (subst (asm) fs) (simp add: log_bytes_append)
  ultimately show ?thesis
    using base idx offsets_rec_committed [OF offs] by (simp add: wal_rep_def wal_index_def)
qed

lemma recover_log:
  assumes "codec_ok z" and base: "wal_base z w" and frames: "list_all (frame_ok w) fs"
    and content: "fcontent (wfile w) = wal_header w @ log_bytes z w (salt1 w) fs @ junk"
    and stop: "log_stops z w (32 + log_len z w fs) (log_seed w (salt1 w) fs)"
    and w0: "wfile w0 = wfile w" "wpage_size w0 = wpage_size w" "frame_stride w0 = frame_stride w"
    and rec: "recover ok z w0 = (TDB_OK, w')"
  shows "wal_rep z w' (committed fs) \<and> wdb_size w' = log_db_size fs \<and> wal_cfg w' = wal_cfg w \<and>
    ckpt_seq w' = ckpt_seq w \<and> wfile w' = wfile w"
proof -
  from recover_header [OF base content w0(1,2) rec] obtain w1 s w2
    where loop: "recover_loop ok z (header_read w0 w) (rec_init w) = (TDB_OK, w1, s)"
      and reb: "rebuild_map ok (w1\<lparr>wmap := (\<lambda>_. 0)\<rparr>) 0 (r_committed s) = (TDB_OK, w2)"
      and w': "w' = w2\<lparr>nframe := r_committed s, wdb_size := r_dbsize s, end_off := r_end s\<rparr>" .
  have "wal_cfg (header_read w0 w) = wal_cfg w" "wfile (header_read w0 w) = wfile w"
    by (simp_all add: header_read_def wal_cfg_def w0)
  note res = recover_loop_result [OF assms(1) base frames content stop this loop]
  from res(2) obtain f c where w1: "w1 = (header_read w0 w)\<lparr>offsets := f, offsets_cap := c\<rparr>" by blast
  note sf = rec_frames_init(4-6) [of z w fs, folded res(1)]
  define u where "u = w1\<lparr>wmap := (\<lambda>_. 0)\<rparr>"
  have u: "wal_cfg u = wal_cfg w" "wfile u = wfile w" "wal_base z u" "ckpt_seq u = ckpt_seq w"
    using base by (simp_all add: u_def w1 header_read_def wal_cfg_def wal_base_def w0)
  note ucong = cfg_cong [OF u(1)]
  have uoffs: "offsets_rec z u 0 32 fs"
    using res(3) cfg_cong(7) [of w1 u z] by (simp add: offsets_rec_def u_def wal_cfg_def)
  have "\<exists>c. w2 = u\<lparr>wmap := slot_of (take (0 + r_committed s) fs), map_cap := c\<rparr> \<and>
    (\<forall>p. slot_of (take (0 + r_committed s) fs) p \<noteq> 0 \<longrightarrow> p < c)"
  proof (rule rebuild_map_log [where hdr = "wal_header w" and junk = junk])
    show "frame_offset u i = 32 + log_len z u (take i fs)" if "i < length fs" for i
      by (rule frame_offset_rec [OF u(3) _ uoffs that]) (use frames ucong in simp)
    show "0 + r_committed s \<le> length fs"
      using sf(1) take_committed [of fs] by (metis add_0 length_take min.cobounded1)
  qed (use base content reb u ucong in \<open>simp_all add: u_def wal_base_def\<close>)
  then obtain d where w2: "w2 = u\<lparr>wmap := slot_of (committed fs), map_cap := d\<rparr>"
    and d: "\<forall>p. slot_of (committed fs) p \<noteq> 0 \<longrightarrow> p < d"
    by (auto simp: sf take_committed)
  have cfg': "wal_cfg w' = wal_cfg w" using u(1) by (simp add: w' w2 wal_cfg_def)
  note cong' = cfg_cong [OF cfg']
  have hdr': "wal_header w' = wal_header w" "salt1 w' = salt1 w"
    using cfg' u(4) by (simp_all add: wal_header_def wal_cfg_def w' w2)
  have "wal_rep z w' (committed fs)"
  proof (rule wal_rep_committed [where junk = junk])
    show "offsets_rec z w' 0 32 fs"
      using uoffs cong'(7) ucong(7) by (simp add: offsets_rec_def w' w2)
  qed (use u frames content hdr' cong' sf d in \<open>simp_all add: w' w2 wal_base_def\<close>)
  then show ?thesis using cfg' u sf by (simp add: w' w2)
qed

lemma write_header_same:
  assumes "mem_ok (wfile w)" "fcontent (wfile w) = wal_header w @ rest" "write_header ok w = (TDB_OK, w')"
  shows "\<exists>f. w' = w\<lparr>wfile := f\<rparr> \<and> mem_ok f \<and> fcontent f = fcontent (wfile w)"
proof -
  obtain rc f where wr: "mem_write ok (wfile w) (wal_header w) 0 = (rc, f)" by force
  with assms(3) have "rc = TDB_OK" "w' = w\<lparr>wfile := f\<rparr>" by (auto simp: write_header_def)
  with mf.fwrite_ok [OF assms(1) _ wr [unfolded \<open>rc = TDB_OK\<close>]] assms(2) show ?thesis
    by (auto simp: patch_def)
qed

lemma wal_open_log:
  assumes "codec_ok z" and base: "wal_base z w" and frames: "list_all (frame_ok w) fs"
    and content: "fcontent (wfile w) = wal_header w @ log_bytes z w (salt1 w) fs @ junk"
    and stop: "log_stops z w (32 + log_len z w fs) (log_seed w (salt1 w) fs)"
    and opened: "tdb_wal_open ok z (wfile w) (wpage_size w) = (TDB_OK, w')"
  shows "wal_rep z w' (committed fs) \<and> wdb_size w' = log_db_size fs \<and> wal_cfg w' = wal_cfg w"
proof -
  define w0 where "w0 = \<lparr>wfile = wfile w, wpage_size = wpage_size w,
     frame_stride = TDB_WAL_FRAME_HDR_SIZE + wpage_size w,
     wversion = (if tdb_compress_codec z \<noteq> TDB_COMP_NONE then TDB_WAL_VERSION_V2 else TDB_WAL_VERSION_V1),
     salt1 = ucast (tdb_fnv1a (rev (tdb_put_u32 (word_of_nat (wpage_size w))))) XOR 0x9E3779B9,
     salt2 = 0x1234567, ckpt_seq = 0, nframe = 0, wdb_size = 0, wmap = (\<lambda>_. 0),
     map_cap = 0, offsets = (\<lambda>_. 0), offsets_cap = 0, end_off = TDB_WAL_HDR_SIZE\<rparr>"
  obtain rc w1 where rec: "recover ok z w0 = (rc, w1)" by force
  have rc: "rc = TDB_OK"
    using opened rec by (auto simp: tdb_wal_open_def w0_def [symmetric] Let_def split: if_splits)
  have "wfile w0 = wfile w" "wpage_size w0 = wpage_size w" "frame_stride w0 = frame_stride w"
    using base by (simp_all add: w0_def wal_base_def)
  note r = recover_log [OF assms(1) base frames content stop this rec [unfolded rc]]
  have hdr: "fcontent (wfile w1) = wal_header w1 @ log_bytes z w1 (salt1 w1) (committed fs) @ drop (32 + log_len z w1 (committed fs)) (fcontent (wfile w1))"
    and mem1: "mem_ok (wfile w1)"
    using r by (auto simp: wal_rep_def wal_base_def)
  show ?thesis
  proof (cases "nframe w1 = 0")
    case False
    then have "w' = w1" using opened rec rc by (auto simp: tdb_wal_open_def w0_def [symmetric] Let_def)
    then show ?thesis using r by blast
  next
    case True
    then have nil: "committed fs = []" using r by (simp add: wal_rep_def)
    obtain w2 where w2: "write_header ok w1 = (TDB_OK, w2)" "w' = w2\<lparr>end_off := 32\<rparr>"
      using opened rec rc True by (auto simp: tdb_wal_open_def w0_def [symmetric] Let_def split: prod.splits if_splits)
    from write_header_same [OF mem1 hdr w2(1)] obtain f
      where f: "w2 = w1\<lparr>wfile := f\<rparr>" "mem_ok f" "fcontent f = fcontent (wfile w1)" by blast
    then have w': "w' = w1\<lparr>wfile := f, end_off := 32\<rparr>" using w2(2) by simp
    have cfg: "wal_cfg w' = wal_cfg w1" by (simp add: w' wal_cfg_def)
    have "wal_header w' = wal_header w1" by (simp add: w' wal_header_def)
    then have "wal_rep z w' []"
      using r f nil cfg_cong [OF cfg]
      by (auto simp: w' wal_rep_def wal_base_def wal_index_def offsets_rec_def)
    then show ?thesis using r cfg nil by (simp add: w')
  qed
qed

section \<open>Reading a page\<close>

lemma wal_read_page:
  assumes rep: "wal_rep z w fs" and codec: "codec_ok z" and ok: "\<And>n. n \<le> wpage_size w \<Longrightarrow> ok n"
  shows "tdb_wal_read_page ok z w p = (TDB_OK, latest fs p)"
proof (cases "slot_of fs p")
  case 0
  then show ?thesis using rep by (simp add: tdb_wal_read_page_def wal_rep_def wal_index_def slot_latest)
next
  case (Suc i)
  then have i: "i < length fs" using slot_of_le [of fs p] by simp
  let ?off = "32 + log_len z w (take i fs)" and ?f = "fs ! i" and ?seed = "log_seed w (salt1 w) (take i fs)"
  have fo: "frame_offset w i = ?off"
    using rep i by (intro frame_offset_rec) (auto simp: wal_rep_def wal_index_def)
  have mem: "mem_ok (wfile w)" and fok: "length (f_page ?f) = wpage_size w" and ps: "wpage_size w < 2 ^ 32"
    using rep i by (auto simp: wal_rep_def wal_base_def frame_ok_def list_all_length)
  obtain post where content: "fcontent (wfile w) =
    (wal_header w @ log_bytes z w (salt1 w) (take i fs)) @ frame_bytes z w ?seed ?f @ post"
    using rep log_bytes_nth [OF i, of z w "salt1 w"] by (auto simp: wal_rep_def)
  have cap: "p < map_cap w" "wmap w p = Suc i" "i < nframe w"
    using rep i Suc by (auto simp: wal_rep_def wal_index_def)
  obtain stored codec where pay: "append_payload z w (f_page ?f) = (stored, codec)" by force
  note unp = unpack_payload [OF codec fok pay]
  have "latest fs p = Some (f_page ?f)" using Suc by (simp add: slot_latest)
  moreover have "tdb_wal_read_page ok z w p = (TDB_OK, Some (f_page ?f))"
  proof (cases "wversion w = TDB_WAL_VERSION_V2")
    case False
    have "mem_read (wfile w) (wpage_size w) (frame_offset w i + 24) = f_page ?f"
      by (rule mem_read_at [OF mem, where pre = "wal_header w @ log_bytes z w (salt1 w) (take i fs) @ frame_fhdr w ?seed ?f"])
         (use False unp pay fo in \<open>simp_all add: content frame_bytes_def frame_prefix_def frame_stored_def fok\<close>)
    with False cap show ?thesis by (simp add: tdb_wal_read_page_def Let_def)
  next
    case True
    have small: "unat (word_of_nat (length stored) :: u32) = length stored"
      using unp ps by (simp add: unat_of_nat)
    have st: "frame_prefix z w ?f = tdb_put_u32 (word_of_nat (length stored)) @ [codec]" "frame_stored z w ?f = stored"
      using True pay by (simp_all add: frame_prefix_def frame_stored_def)
    have pfx: "mem_read (wfile w) 5 (frame_offset w i + 24) = frame_prefix z w ?f"
      by (rule mem_read_at [OF mem, where pre = "wal_header w @ log_bytes z w (salt1 w) (take i fs) @ frame_fhdr w ?seed ?f"])
         (simp_all add: content frame_bytes_def st fo)
    have pl: "mem_read (wfile w) (length stored) (29 + frame_offset w i) = stored"
      by (rule mem_read_at [OF mem, where pre = "wal_header w @ log_bytes z w (salt1 w) (take i fs) @ frame_fhdr w ?seed ?f @ frame_prefix z w ?f"])
         (simp_all add: content frame_bytes_def st fo)
    have pf: "tdb_get_u32 (frame_prefix z w ?f) = word_of_nat (length stored)" "frame_prefix z w ?f ! 4 = codec"
      by (simp_all add: st get_put_u nth_append)
    show ?thesis
      using True cap unp ok [OF unp(2)]
      by (auto simp: tdb_wal_read_page_def Let_def pfx pf pl small unpack_def split: if_splits prod.splits)
  qed
  ultimately show ?thesis by simp
qed

section \<open>Appending a frame\<close>

lemma append_seed_log:
  assumes rep: "wal_rep z w fs"
  shows "append_seed w = log_seed w (salt1 w) fs"
proof (cases fs rule: rev_cases)
  case Nil
  then show ?thesis using rep by (simp add: append_seed_def wal_rep_def log_seed_def)
next
  case (snoc gs f)
  then have i: "length gs < length fs" by simp
  have n: "nframe w = Suc (length gs)" using rep snoc by (simp add: wal_rep_def)
  have "frame_offset w (length gs) = 32 + log_len z w (take (length gs) fs)"
    using rep i by (intro frame_offset_rec) (auto simp: wal_rep_def wal_index_def)
  moreover obtain junk where "fcontent (wfile w) = wal_header w @ log_bytes z w (salt1 w) fs @ junk"
    using rep by (auto simp: wal_rep_def)
  then have "mem_read (wfile w) 24 (32 + log_len z w (take (length gs) fs)) =
      frame_fhdr w (log_seed w (salt1 w) (take (length gs) fs)) (fs ! length gs)"
    using rep i by (intro read_frame_header) (auto simp: wal_rep_def wal_base_def)
  ultimately show ?thesis
    using n snoc by (simp add: append_seed_def fhdr_fields log_seed_append) (simp add: log_seed_def)
qed

lemma append_offset:
  assumes rep: "wal_rep z w fs"
  shows "(if wversion w = TDB_WAL_VERSION_V2 then end_off w else frame_offset w (nframe w)) = 32 + log_len z w fs"
proof (cases "wversion w = TDB_WAL_VERSION_V2")
  case True
  then show ?thesis using rep by (simp add: wal_rep_def)
next
  case False
  with rep v1_log_len [of w fs z] show ?thesis
    by (auto simp: wal_rep_def wal_base_def frame_offset_def)
qed

text \<open>The three writes of an append put the frame at the tail, over whatever was left there.\<close>

lemma patch_tail:
  "patch (length a) b (a @ junk) = a @ b @ drop (length b) junk"
  by (simp add: patch_def)

lemma write_tail:
  assumes "mem_ok h" "fcontent h = a @ junk" "mem_write ok h b (length a) = (TDB_OK, h')"
  shows "mem_ok h'" "fcontent h' = a @ b @ drop (length b) junk"
proof -
  have "length a \<le> length (fcontent h)" by (simp add: assms(2))
  from mf.fwrite_ok [OF assms(1) this assms(3)] show "mem_ok h'" "fcontent h' = a @ b @ drop (length b) junk"
    by (simp_all add: assms(2) patch_tail)
qed

lemma append_io_ok:
  assumes "mem_ok h" "fcontent h = a @ junk" "off = length a" "length fhdr = 24" "\<not> v2 \<longrightarrow> pfx = []"
    and io: "append_io ok h off fhdr cbuf_ok v2 pfx stored = (TDB_OK, h')"
  shows "mem_ok h'" "\<exists>junk'. fcontent h' = a @ fhdr @ pfx @ stored @ junk'"
proof -
  obtain f1 where f1: "mem_write ok h fhdr (length a) = (TDB_OK, f1)"
    using io assms(3) by (auto simp: append_io_def split: prod.splits if_splits)
  note t1 = write_tail [OF assms(1,2) f1]
  obtain f2 where f2: "(if v2 then mem_write ok f1 pfx (length (a @ fhdr)) else (TDB_OK, f1)) = (TDB_OK, f2)"
    and f3: "mem_write ok f2 stored (length (a @ fhdr @ pfx)) = (TDB_OK, h')"
    using io f1 assms(3,4) by (auto simp: append_io_def add.assoc split: prod.splits if_splits)
  have t2: "mem_ok f2 \<and> (\<exists>junk2. fcontent f2 = (a @ fhdr @ pfx) @ junk2)"
  proof (cases v2)
    case True
    with f2 have "mem_write ok f1 pfx (length (a @ fhdr)) = (TDB_OK, f2)" by simp
    from write_tail [OF t1(1) _ this, of "drop (length fhdr) junk"] t1(2) show ?thesis by auto
  next
    case False
    with f2 t1 assms(5) show ?thesis by simp
  qed
  then obtain junk2 where "fcontent f2 = (a @ fhdr @ pfx) @ junk2" by blast
  from write_tail [OF conjunct1 [OF t2] this f3]
  show "mem_ok h'" "\<exists>junk'. fcontent h' = a @ fhdr @ pfx @ stored @ junk'" by auto
qed

lemma wal_append_writes:
  assumes rep: "wal_rep z w fs" and app: "tdb_wal_append ok z w pgno page is_commit dbsz = (TDB_OK, w')"
    and f: "f = \<lparr>f_pgno = pgno, f_page = page, f_dbsz = (if is_commit then dbsz else 0)\<rparr>"
  obtains h junk where "mem_ok h"
    "fcontent h = wal_header w @ log_bytes z w (salt1 w) (fs @ [f]) @ junk"
    "append_finish ok (w\<lparr>wfile := h\<rparr>) (32 + log_len z w fs) (32 + log_len z w (fs @ [f])) pgno is_commit dbsz = (TDB_OK, w')"
proof -
  obtain junk where content: "fcontent (wfile w) = (wal_header w @ log_bytes z w (salt1 w) fs) @ junk" and mem: "mem_ok (wfile w)"
    using rep by (auto simp: wal_rep_def wal_base_def)
  let ?seed = "log_seed w (salt1 w) fs" and ?off = "32 + log_len z w fs" and ?v2 = "wversion w = TDB_WAL_VERSION_V2"
  have parts: "(if ?v2 then tdb_put_u32 (word_of_nat (length (frame_stored z w f))) @
        [snd (append_payload z w page)] else []) = frame_prefix z w f"
      "fst (append_payload z w page) = frame_stored z w f"
    by (simp_all add: frame_prefix_def frame_stored_def f split: prod.split)
  have hdr: "frame_hdr16 w pgno (if is_commit then dbsz else 0) @
      tdb_put_u32 (fst (frame_checksum ?seed (frame_hdr16 w pgno (if is_commit then dbsz else 0)) page)) @
      tdb_put_u32 (snd (frame_checksum ?seed (frame_hdr16 w pgno (if is_commit then dbsz else 0)) page)) =
      frame_fhdr w ?seed f"
    by (simp add: frame_fhdr_def frame_sums_def f)
  have len: "?off + 24 + length (frame_prefix z w f) + length (frame_stored z w f) = 32 + log_len z w (fs @ [f])"
    using length_frame_bytes [of z w ?seed f] by (simp add: frame_bytes_def log_len_append log_len_def)
  obtain h cb where io: "append_io ok (wfile w) ?off (frame_fhdr w ?seed f) cb ?v2 (frame_prefix z w f) (frame_stored z w f) = (TDB_OK, h)"
    and fin: "append_finish ok (w\<lparr>wfile := h\<rparr>) ?off (32 + log_len z w (fs @ [f])) pgno is_commit dbsz = (TDB_OK, w')"
    using app unfolding tdb_wal_append_def Let_def append_offset [OF rep] append_seed_log [OF rep] parts(2) parts(1) hdr len
    by (auto split: prod.splits if_splits)
  have "mem_ok h" "\<exists>junk'. fcontent h = (wal_header w @ log_bytes z w (salt1 w) fs) @ frame_fhdr w ?seed f @
      frame_prefix z w f @ frame_stored z w f @ junk'"
    by (rule append_io_ok [OF mem content _ _ _ io]; simp add: frame_prefix_def)+
  with fin that show thesis by (auto simp: log_bytes_append frame_bytes_def)
qed

lemma append_finish_frame:
  assumes "append_finish ok w off tail pgno is_commit dbsz = (TDB_OK, w')"
    and map: "\<And>q. wmap w q \<noteq> 0 \<Longrightarrow> q < map_cap w"
  obtains g c d where
    "w' = w\<lparr>offsets := g, offsets_cap := c, end_off := tail, wmap := (wmap w)(unat pgno := nframe w + 1),
             map_cap := d, nframe := nframe w + 1, wdb_size := (if is_commit then dbsz else wdb_size w)\<rparr>"
    "wversion w = TDB_WAL_VERSION_V2 \<Longrightarrow> g = (offsets w)(nframe w := off) \<and> c \<noteq> 0"
    "map_cap w \<le> d" "unat pgno < d"
proof -
  define r where "r = (if wversion w = TDB_WAL_VERSION_V2 then
              (case offsets_ensure ok w (nframe w + 1) of
                 (rc, w1) \<Rightarrow>
                   if rc \<noteq> TDB_OK then (TDB_NOMEM, w1)
                   else (TDB_OK, w1\<lparr>offsets := (offsets w1)(nframe w := off), end_off := tail\<rparr>))
            else (TDB_OK, w\<lparr>end_off := tail\<rparr>))"
  obtain rc w1 where r: "r = (rc, w1)" by force
  obtain rc2 w2 where m: "map_ensure ok w1 (unat pgno) = (rc2, w2)" by force
  from assms(1) r m have rc: "rc = TDB_OK" "rc2 = TDB_OK"
    and w': "w' = (let w3 = w2\<lparr>wmap := (wmap w2)(unat pgno := nframe w + 1), nframe := nframe w + 1\<rparr>
                   in if is_commit then w3\<lparr>wdb_size := dbsz\<rparr> else w3)"
    by (auto simp: append_finish_def Let_def r_def [symmetric] split: if_splits)
  obtain g c where w1: "w1 = w\<lparr>offsets := g, offsets_cap := c, end_off := tail\<rparr>"
    "wversion w = TDB_WAL_VERSION_V2 \<Longrightarrow> g = (offsets w)(nframe w := off) \<and> c \<noteq> 0"
  proof (cases "wversion w = TDB_WAL_VERSION_V2")
    case True
    obtain rc0 w0 where e: "offsets_ensure ok w (nframe w + 1) = (rc0, w0)" by force
    with r rc True have "rc0 = TDB_OK" "w1 = w0\<lparr>offsets := (offsets w0)(nframe w := off), end_off := tail\<rparr>"
      by (auto simp: r_def split: if_splits)
    moreover from offsets_ensure_frame [OF e] obtain c where "w0 = w\<lparr>offsets_cap := c\<rparr>" "rc0 = TDB_OK \<longrightarrow> nframe w + 1 \<le> c"
      by blast
    ultimately show thesis using that [of c "(offsets w)(nframe w := off)"] by (cases w) simp
  next
    case False
    with r that [of "offsets_cap w" "offsets w"] show thesis by (cases w) (simp add: r_def)
  qed
  have "\<And>q. wmap w1 q \<noteq> 0 \<Longrightarrow> q < map_cap w1" using map by (simp add: w1)
  from map_ensure_frame [OF m [unfolded rc] this] obtain d
    where w2: "w2 = w1\<lparr>map_cap := d\<rparr>" "map_cap w \<le> d" "unat pgno < d" by (auto simp: w1)
  show thesis
    using that [of d c g] w1 w2 by (cases w) (auto simp: w' Let_def)
qed

text \<open>Appending implements appending to the sequence of frames.\<close>

lemma wal_append_rep:
  assumes rep: "wal_rep z w fs" and app: "tdb_wal_append ok z w pgno page is_commit dbsz = (TDB_OK, w')"
    and len: "length page = wpage_size w"
  shows "wal_rep z w' (fs @ [\<lparr>f_pgno = pgno, f_page = page, f_dbsz = (if is_commit then dbsz else 0)\<rparr>])"
    and "wal_cfg w' = wal_cfg w" "wdb_size w' = (if is_commit then dbsz else wdb_size w)"
proof -
  define f where "f = \<lparr>f_pgno = pgno, f_page = page, f_dbsz = (if is_commit then dbsz else 0)\<rparr>"
  from wal_append_writes [OF rep app f_def] obtain h junk where h: "mem_ok h"
    "fcontent h = wal_header w @ log_bytes z w (salt1 w) (fs @ [f]) @ junk"
    and fin: "append_finish ok (w\<lparr>wfile := h\<rparr>) (32 + log_len z w fs) (32 + log_len z w (fs @ [f]))
      pgno is_commit dbsz = (TDB_OK, w')" .
  have idx: "wal_index z w fs" "nframe w = length fs" "wal_base z w" "list_all (frame_ok w) fs"
    using rep by (simp_all add: wal_rep_def)
  then have map: "\<And>q. wmap (w\<lparr>wfile := h\<rparr>) q \<noteq> 0 \<Longrightarrow> q < map_cap (w\<lparr>wfile := h\<rparr>)" by (simp add: wal_index_def)
  obtain g c d where
    w': "w' = w\<lparr>wfile := h, offsets := g, offsets_cap := c, end_off := 32 + log_len z w (fs @ [f]),
      wmap := (wmap w)(unat pgno := length fs + 1), map_cap := d, nframe := length fs + 1,
      wdb_size := (if is_commit then dbsz else wdb_size w)\<rparr>"
    and g: "wversion w = TDB_WAL_VERSION_V2 \<Longrightarrow> g = (offsets w)(length fs := 32 + log_len z w fs) \<and> c \<noteq> 0"
    and d: "map_cap w \<le> d" "unat pgno < d"
    by (rule append_finish_frame [OF fin map]) (auto simp: idx(2) cong: if_cong)
  show cfg: "wal_cfg w' = wal_cfg w" by (simp add: w' wal_cfg_def)
  show "wdb_size w' = (if is_commit then dbsz else wdb_size w)" by (simp add: w')
  note cong = cfg_cong [OF cfg]
  have sel: "offsets w' = g" "offsets_cap w' = c" "wversion w' = wversion w" "wfile w' = h" "map_cap w' = d"
    "wmap w' = (wmap w)(unat pgno := length fs + 1)" "nframe w' = length fs + 1" "salt1 w' = salt1 w"
    "end_off w' = 32 + log_len z w (fs @ [f])" "wpage_size w' = wpage_size w" "frame_stride w' = frame_stride w"
    by (simp_all add: w')
  have offs: "offsets_rec z w' 0 32 (fs @ [f])"
    using g idx(1) by (auto simp: offsets_rec_def wal_index_def sel cong less_Suc_eq)
  have "wal_header w' = wal_header w" by (simp add: w' wal_header_def)
  moreover have "wal_index z w' (fs @ [f])"
    using offs idx d by (auto simp: wal_index_def sel f_def split: if_splits intro: less_le_trans)
  moreover have "wal_base z w'" using idx(3) h(1) by (simp add: sel wal_base_def)
  ultimately show "wal_rep z w' (fs @ [\<lparr>f_pgno = pgno, f_page = page, f_dbsz = (if is_commit then dbsz else 0)\<rparr>])"
    unfolding f_def [symmetric]
    using h idx len by (auto simp: wal_rep_def sel cong frame_ok_def f_def)
qed

section \<open>Crashes\<close>

text \<open>The frames that lie wholly within the first \<open>k\<close> bytes after the header.\<close>

fun whole_frames :: "zbuild \<Rightarrow> tdb_wal \<Rightarrow> nat \<Rightarrow> wframe list \<Rightarrow> wframe list" where
  "whole_frames z w k [] = []"
| "whole_frames z w k (f # fs) =
     (if frame_len z w f \<le> k then f # whole_frames z w (k - frame_len z w f) fs else [])"

lemma whole_frames_split:
  "\<exists>rest m. fs = whole_frames z w k fs @ rest \<and>
     take k (log_bytes z w seed fs) = log_bytes z w seed (whole_frames z w k fs) @
       take m (log_bytes z w (log_seed w seed (whole_frames z w k fs)) rest) \<and>
     (rest \<noteq> [] \<longrightarrow> m < frame_len z w (hd rest))"
proof (induction fs arbitrary: k seed)
  case Nil
  then show ?case by simp
next
  case (Cons f fs)
  show ?case
  proof (cases "frame_len z w f \<le> k")
    case False
    then show ?thesis by (intro exI [of _ "f # fs"] exI [of _ k]) (simp add: log_seed_def)
  next
    case True
    from Cons.IH [of "k - frame_len z w f" "fst (frame_sums w seed f)"] obtain rest m where
      "fs = whole_frames z w (k - frame_len z w f) fs @ rest \<and>
       take (k - frame_len z w f) (log_bytes z w (fst (frame_sums w seed f)) fs) =
         log_bytes z w (fst (frame_sums w seed f)) (whole_frames z w (k - frame_len z w f) fs) @
         take m (log_bytes z w (log_seed w (fst (frame_sums w seed f)) (whole_frames z w (k - frame_len z w f) fs)) rest) \<and>
       (rest \<noteq> [] \<longrightarrow> m < frame_len z w (hd rest))" by blast
    with True show ?thesis by (intro exI [of _ rest] exI [of _ m]) (simp add: log_seed_def)
  qed
qed

text \<open>A frame that is cut short ends recovery.\<close>

lemma cut_frame_stops:
  assumes "mem_ok (wfile w)" "codec_ok z" "frame_ok w f" "wpage_size w < 2 ^ 32"
    and "wversion w = TDB_WAL_VERSION_V1 \<or> wversion w = TDB_WAL_VERSION_V2"
    and content: "fcontent (wfile w) = pre @ take m (frame_bytes z w seed f @ tl0)" and off: "off = length pre"
    and m: "m < frame_len z w f"
  shows "log_stops z w off seed"
proof -
  have size: "msize (wfile w) = off + m"
    using arg_cong [OF content, of length] assms(1) m by (simp add: off)
  show ?thesis
  proof (cases "wversion w = TDB_WAL_VERSION_V2")
    case False
    with assms(5) have "frame_len z w f = 24 + wpage_size w" using v1_frame_len assms(3) by blast
    with m size False show ?thesis by (simp add: log_stops_def recover_frame_v1)
  next
    case True
    obtain stored codec where pay: "append_payload z w (f_page f) = (stored, codec)" by force
    have len: "frame_len z w f = 29 + length stored" using True pay by (simp add: frame_len_def frame_stored_def)
    have st: "frame_prefix z w f = tdb_put_u32 (word_of_nat (length stored)) @ [codec]"
      using True pay by (simp add: frame_prefix_def)
    have "unat (word_of_nat (length stored) :: u32) = length stored"
      using unpack_payload(2) [OF assms(2) _ pay] assms(3,4) by (simp add: frame_ok_def unat_of_nat)
    moreover have "mem_read (wfile w) 5 (off + 24) = frame_prefix z w f" if "29 \<le> m"
    proof (rule mem_read_at [OF assms(1), where pre = "pre @ frame_fhdr w seed f" and post = "take (m - 29) (stored @ tl0)"])
      have "take m (frame_bytes z w seed f @ tl0) = frame_fhdr w seed f @ frame_prefix z w f @ take (m - 29) (stored @ tl0)"
        using that pay by (simp add: frame_bytes_def st frame_stored_def take_Cons')
      then show "fcontent (wfile w) = (pre @ frame_fhdr w seed f) @ frame_prefix z w f @ take (m - 29) (stored @ tl0)"
        by (simp add: content)
    qed (simp_all add: off st)
    ultimately show ?thesis
      using m size by (auto simp: log_stops_def recover_frame_v2 [OF True assms(1)] Let_def len st get_put_u)
  qed
qed

lemma crash_stops:
  assumes "wal_base z w" "codec_ok z" "list_all (frame_ok w) fs"
    and content: "fcontent (wfile w) = wal_header w @ take k (log_bytes z w (salt1 w) fs)"
  shows "log_stops z w (32 + log_len z w (whole_frames z w k fs)) (log_seed w (salt1 w) (whole_frames z w k fs))"
    and "\<exists>junk. fcontent (wfile w) = wal_header w @ log_bytes z w (salt1 w) (whole_frames z w k fs) @ junk"
proof -
  obtain rest m where r: "fs = whole_frames z w k fs @ rest"
    "take k (log_bytes z w (salt1 w) fs) = log_bytes z w (salt1 w) (whole_frames z w k fs) @
       take m (log_bytes z w (log_seed w (salt1 w) (whole_frames z w k fs)) rest)"
    "rest \<noteq> [] \<longrightarrow> m < frame_len z w (hd rest)"
    using whole_frames_split by blast
  let ?pre = "wal_header w @ log_bytes z w (salt1 w) (whole_frames z w k fs)"
  show "log_stops z w (32 + log_len z w (whole_frames z w k fs)) (log_seed w (salt1 w) (whole_frames z w k fs))"
  proof (cases rest)
    case Nil
    then have "msize (wfile w) = 32 + log_len z w (whole_frames z w k fs)"
      using arg_cong [OF content [unfolded r(2)], of length] assms(1) by (simp add: wal_base_def)
    then show ?thesis by (simp add: log_stops_def)
  next
    case (Cons f gs)
    have "f \<in> set fs" by (subst r(1)) (simp add: Cons)
    then have "frame_ok w f" using assms(3) by (simp add: list_all_iff)
    then show ?thesis
      using assms(1,2) content r Cons
      by (intro cut_frame_stops [where pre = ?pre and f = f and m = m]) (auto simp: wal_base_def)
  qed
  show "\<exists>junk. fcontent (wfile w) = wal_header w @ log_bytes z w (salt1 w) (whole_frames z w k fs) @ junk"
    using content r(2) by simp
qed

section \<open>Runs of the log\<close>

text \<open>When every allocation succeeds, so does every operation.\<close>

abbreviation all_ok :: "nat \<Rightarrow> bool" where
  "all_ok \<equiv> \<lambda>_. True"

lemma mem_write_succeeds: "fst (mem_write all_ok h b off) = TDB_OK"
  by (simp add: mem_write_def mem_grow_def Let_def split: prod.splits if_splits)

lemma ensure_succeeds:
  "fst (offsets_ensure all_ok w n) = TDB_OK" "fst (map_ensure all_ok w n) = TDB_OK"
  "fst (recover_note all_ok w i off) = TDB_OK"
  by (simp_all add: offsets_ensure_def map_ensure_def recover_note_def Let_def split: prod.splits)

lemma recover_loop_succeeds: "fst (recover_loop all_ok z w s) = TDB_OK"
proof (induction all_ok z w s rule: recover_loop.induct)
  case (1 z w s)
  show ?case
    using 1 ensure_succeeds(3) [of w "r_idx s" "r_off s"]
    by (subst recover_loop.simps) (auto split: option.splits prod.splits)
qed

lemma rebuild_map_succeeds: "fst (rebuild_map all_ok w i n) = TDB_OK"
proof (induction n arbitrary: w i)
  case (Suc n)
  let ?p = "unat (tdb_get_u32 (mem_read (wfile w) 24 (frame_offset w i)))"
  show ?case
    using ensure_succeeds(2) [of w ?p] Suc.IH by (auto simp: Let_def split: prod.splits)
qed simp

lemma write_header_succeeds: "fst (write_header all_ok w) = TDB_OK"
  using mem_write_succeeds by (simp add: write_header_def split: prod.splits) (metis fst_conv)

lemma recover_succeeds: "fst (recover all_ok z w) = TDB_OK"
proof -
  have loop: "recover_loop all_ok z v s = (rc, v', s') \<Longrightarrow> rc = TDB_OK" for v s rc v' s'
    using recover_loop_succeeds [of z v s] by simp
  have map: "rebuild_map all_ok v i n = (rc, v') \<Longrightarrow> rc = TDB_OK" for v i n rc v'
    using rebuild_map_succeeds [of v i n] by simp
  show ?thesis
    by (auto simp: recover_def Let_def split: prod.splits dest: loop map)
qed

lemma wal_open_succeeds: "fst (tdb_wal_open all_ok z h ps) = TDB_OK"
proof -
  have rec: "recover all_ok z v = (rc, v') \<Longrightarrow> rc = TDB_OK" for v rc v'
    using recover_succeeds [of z v] by simp
  have wr: "write_header all_ok v = (rc, v') \<Longrightarrow> rc = TDB_OK" for v rc v'
    using write_header_succeeds [of v] by simp
  show ?thesis
    by (auto simp: tdb_wal_open_def Let_def split: prod.splits dest: rec wr)
qed

lemma append_succeeds: "fst (tdb_wal_append all_ok z w pgno page is_commit dbsz) = TDB_OK"
proof -
  have wr: "mem_write all_ok h b off = (rc, h') \<Longrightarrow> rc = TDB_OK" for h b off rc h'
    using mem_write_succeeds [of h b off] by simp
  have io: "append_io all_ok h off fhdr True v2 pfx stored = (rc, h') \<Longrightarrow> rc = TDB_OK" for h off fhdr v2 pfx stored rc h'
    by (auto simp: append_io_def split: prod.splits if_splits dest: wr)
  have en: "offsets_ensure all_ok v n = (rc, v') \<Longrightarrow> rc = TDB_OK" "map_ensure all_ok v n = (rc, v') \<Longrightarrow> rc = TDB_OK"
    for v n rc v'
    using ensure_succeeds [of v n] by simp_all
  have fin: "fst (append_finish all_ok v off tail p c d) = TDB_OK" for v off tail p c d
    by (auto simp: append_finish_def Let_def split: prod.splits if_splits dest: en)
  show ?thesis
    using fin by (auto simp: tdb_wal_append_def Let_def split: prod.splits dest: io)
qed

text \<open>A sequence of appends, and the frames it adds.\<close>

type_synonym wal_op = "u32 \<times> bytes \<times> bool \<times> u32"

fun wal_appends :: "(nat \<Rightarrow> bool) \<Rightarrow> zbuild \<Rightarrow> tdb_wal \<Rightarrow> wal_op list \<Rightarrow> tdb_status \<times> tdb_wal" where
  "wal_appends ok z w [] = (TDB_OK, w)"
| "wal_appends ok z w ((pgno, page, is_commit, dbsz) # ops) =
     (case tdb_wal_append ok z w pgno page is_commit dbsz of
        (rc, w1) \<Rightarrow> if rc \<noteq> TDB_OK then (rc, w1) else wal_appends ok z w1 ops)"

fun op_frame :: "wal_op \<Rightarrow> wframe" where
  "op_frame (pgno, page, is_commit, dbsz) =
     \<lparr>f_pgno = pgno, f_page = page, f_dbsz = (if is_commit then dbsz else 0)\<rparr>"

lemma wal_appends_rep:
  assumes "wal_rep z w fs" "list_all (\<lambda>(p, page, c, d). length page = wpage_size w) ops"
    and "wal_appends ok z w ops = (TDB_OK, w')"
  shows "wal_rep z w' (fs @ map op_frame ops) \<and> wal_cfg w' = wal_cfg w"
  using assms
proof (induction ops arbitrary: w fs)
  case (Cons op ops)
  obtain p page c d where op: "op = (p, page, c, d)" by (cases op) auto
  obtain w1 where w1: "tdb_wal_append ok z w p page c d = (TDB_OK, w1)" "wal_appends ok z w1 ops = (TDB_OK, w')"
    using Cons.prems(3) by (auto simp: op split: prod.splits if_splits)
  have len: "length page = wpage_size w" using Cons.prems(2) by (simp add: op)
  note ap = wal_append_rep [OF Cons.prems(1) w1(1) len]
  have "wpage_size w1 = wpage_size w" using ap(2) by (simp add: wal_cfg_def)
  with Cons.IH [OF ap(1) _ w1(2)] Cons.prems(2) ap(2) show ?case by (simp add: op)
qed simp

lemma wal_appends_succeeds: "fst (wal_appends all_ok z w ops) = TDB_OK"
proof (induction ops arbitrary: w)
  case (Cons op ops)
  obtain p page c d where "op = (p, page, c, d)" by (cases op) auto
  with Cons append_succeeds [of z w p page c d] show ?case by (auto split: prod.splits)
qed simp

text \<open>A fresh log: opened on an empty file.\<close>

lemma wal_open_empty:
  assumes "ps < 2 ^ 32"
  shows "wal_rep z (snd (tdb_wal_open all_ok z mem_open ps)) [] \<and>
    wpage_size (snd (tdb_wal_open all_ok z mem_open ps)) = ps"
proof -
  define w0 where "w0 = \<lparr>wfile = mem_open, wpage_size = ps, frame_stride = TDB_WAL_FRAME_HDR_SIZE + ps,
     wversion = (if tdb_compress_codec z \<noteq> TDB_COMP_NONE then TDB_WAL_VERSION_V2 else TDB_WAL_VERSION_V1),
     salt1 = ucast (tdb_fnv1a (rev (tdb_put_u32 (word_of_nat ps)))) XOR 0x9E3779B9,
     salt2 = 0x1234567, ckpt_seq = 0, nframe = 0, wdb_size = 0, wmap = (\<lambda>_. 0),
     map_cap = 0, offsets = (\<lambda>_. 0), offsets_cap = 0, end_off = TDB_WAL_HDR_SIZE\<rparr>"
  obtain f where wr: "mem_write all_ok mem_open (wal_header w0) 0 = (TDB_OK, f)"
    using mem_write_succeeds [of mem_open "wal_header w0" 0] by (metis prod.collapse)
  have "recover all_ok z w0 = (TDB_OK, w0)"
    by (simp add: recover_def w0_def mem_open_def mem_filesize_def Let_def)
  with wr have "tdb_wal_open all_ok z mem_open ps = (TDB_OK, w0\<lparr>wfile := f\<rparr>)"
    by (simp add: tdb_wal_open_def w0_def [symmetric] write_header_def) (simp add: w0_def)
  moreover have "mem_ok f" "fcontent f = wal_header w0"
    using mf.fwrite_ok [OF _ _ wr] by (simp_all add: mem_ok_def mem_open_def fcontent_def patch_def)
  moreover have "wal_header (w0\<lparr>wfile := f\<rparr>) = wal_header w0" by (simp add: wal_header_def)
  ultimately show ?thesis
    using assms by (simp add: wal_rep_def wal_base_def wal_index_def offsets_rec_def) (simp add: w0_def)
qed

definition wal_run :: "zbuild \<Rightarrow> nat \<Rightarrow> wal_op list \<Rightarrow> tdb_wal" where
  "wal_run z ps ops = snd (wal_appends all_ok z (snd (tdb_wal_open all_ok z mem_open ps)) ops)"

definition ops_ok :: "nat \<Rightarrow> wal_op list \<Rightarrow> bool" where
  "ops_ok ps ops \<longleftrightarrow> ps < 2 ^ 32 \<and> list_all (\<lambda>(p, page, c, d). length page = ps) ops"

lemma wal_run_rep:
  assumes "ops_ok ps ops"
  shows "wal_rep z (wal_run z ps ops) (map op_frame ops)" "wpage_size (wal_run z ps ops) = ps"
proof -
  let ?w = "snd (tdb_wal_open all_ok z mem_open ps)"
  have w: "wal_rep z ?w []" "wpage_size ?w = ps" using wal_open_empty assms by (simp_all add: ops_ok_def)
  have "wal_appends all_ok z ?w ops = (TDB_OK, wal_run z ps ops)"
    using wal_appends_succeeds [of z ?w ops] by (metis prod.collapse wal_run_def)
  from wal_appends_rep [OF w(1) _ this] assms w(2)
  show "wal_rep z (wal_run z ps ops) (map op_frame ops)" "wpage_size (wal_run z ps ops) = ps"
    by (simp_all add: ops_ok_def wal_cfg_def)
qed

lemma crash_open:
  assumes rep: "wal_rep z w fs" and codec: "codec_ok z" and h: "mem_ok h" "fcontent h = take (32 + k) (fcontent (wfile w))"
    and k: "k \<le> log_len z w fs"
  shows "fst (tdb_wal_open all_ok z h (wpage_size w)) = TDB_OK"
    and "wal_rep z (snd (tdb_wal_open all_ok z h (wpage_size w))) (committed (whole_frames z w k fs))"
    and "wdb_size (snd (tdb_wal_open all_ok z h (wpage_size w))) = log_db_size (whole_frames z w k fs)"
    and "wal_cfg (snd (tdb_wal_open all_ok z h (wpage_size w))) = wal_cfg w"
proof -
  show 1: "fst (tdb_wal_open all_ok z h (wpage_size w)) = TDB_OK" by (rule wal_open_succeeds)
  define v where "v = w\<lparr>wfile := h\<rparr>"
  have cfg: "wal_cfg v = wal_cfg w" by (simp add: v_def wal_cfg_def)
  note cong = cfg_cong [OF cfg]
  have base: "wal_base z v" and frames: "list_all (frame_ok v) fs"
    using rep h(1) by (simp_all add: cong wal_rep_def) (simp add: v_def wal_base_def)
  obtain junk where "fcontent (wfile w) = wal_header w @ log_bytes z w (salt1 w) fs @ junk"
    using rep by (auto simp: wal_rep_def)
  then have content: "fcontent (wfile v) = wal_header v @ take k (log_bytes z v (salt1 v) fs)"
    using h(2) k by (simp add: v_def cong [unfolded v_def]) (simp add: wal_header_def)
  have "whole_frames z v j gs = whole_frames z w j gs" for j gs
    by (induction gs arbitrary: j) (simp_all add: cong)
  note wf = this [of k fs]
  note cs = crash_stops [OF base codec frames content]
  obtain junk' where content': "fcontent (wfile v) = wal_header v @ log_bytes z v (salt1 v) (whole_frames z v k fs) @ junk'"
    using cs(2) by blast
  have frames': "list_all (frame_ok v) (whole_frames z v k fs)"
    using frames whole_frames_split [of fs z v k "salt1 v"] by (metis list_all_append)
  obtain w' where o: "tdb_wal_open all_ok z (wfile v) (wpage_size v) = (TDB_OK, w')"
    using 1 by (metis prod.collapse wal_open_succeeds)
  from wal_open_log [OF codec base frames' content' cs(1) o] o
  show "wal_rep z (snd (tdb_wal_open all_ok z h (wpage_size w))) (committed (whole_frames z w k fs))"
    "wdb_size (snd (tdb_wal_open all_ok z h (wpage_size w))) = log_db_size (whole_frames z w k fs)"
    "wal_cfg (snd (tdb_wal_open all_ok z h (wpage_size w))) = wal_cfg w"
    by (simp_all add: wf [symmetric] cfg) (simp_all add: v_def)
qed

lemma whole_frames_append:
  "log_len z w gs \<le> k \<Longrightarrow> whole_frames z w k (gs @ fs) = gs @ whole_frames z w (k - log_len z w gs) fs"
  by (induction gs arbitrary: k) (auto simp: log_len_def)

lemma whole_frames_all: "log_len z w fs \<le> k \<Longrightarrow> whole_frames z w k fs = fs"
  using whole_frames_append [of z w fs k "[]"] by simp

lemma whole_frames_prefix: "\<exists>rest. fs = whole_frames z w k fs @ rest"
  using whole_frames_split by blast

lemma whole_frames_cut: "k < log_len z w fs \<Longrightarrow> length (whole_frames z w k fs) < length fs"
  by (induction fs arbitrary: k) (auto simp: log_len_def)

lemma committed_append_plain: "list_all (\<lambda>f. f_dbsz f = 0) xs \<Longrightarrow> committed (gs @ xs) = committed gs"
  by (induction xs rule: rev_induct) (simp_all flip: append_assoc)

text \<open>A batch whose last frame is its only commit frame survives as a whole or not at all.\<close>

lemma committed_cut_batch:
  assumes "committed gs = gs" "list_all (\<lambda>f. f_dbsz f = 0) bs" "f_dbsz c \<noteq> 0" "log_len z w gs \<le> k"
  shows "committed (whole_frames z w k (gs @ bs @ [c])) =
    (if k < log_len z w (gs @ bs @ [c]) then gs else gs @ bs @ [c])"
proof (cases "k < log_len z w (gs @ bs @ [c])")
  case False
  then show ?thesis using assms(3) whole_frames_all [of z w "gs @ bs @ [c]" k] by (simp flip: append_assoc)
next
  case True
  let ?x = "whole_frames z w (k - log_len z w gs) (bs @ [c])"
  have "length ?x < length (bs @ [c])"
    using True assms(4) by (intro whole_frames_cut) (simp add: log_len_append)
  moreover obtain rest where "bs @ [c] = ?x @ rest" using whole_frames_prefix by blast
  ultimately have "?x = take (length ?x) (bs @ [c])" "length ?x \<le> length bs"
    by (metis append_eq_conv_conj, simp)
  then have "?x = take (length ?x) bs" by simp
  then have "list_all (\<lambda>f. f_dbsz f = 0) ?x" using assms(2) by (metis list_all_take)
  then show ?thesis
    using True assms by (simp add: whole_frames_append committed_append_plain)
qed

end
