(* ===== verification/Tdb_Ckpt.thy ===== *)
theory Tdb_Ckpt
  imports Tdb_Wal_Log
begin

text \<open>
  The checkpoint: copying the log into the database file keeps what a reader sees, and the
  properties of the log as a whole.
\<close>

section \<open>Pages of the database file\<close>

definition db_page :: "bytes \<Rightarrow> nat \<Rightarrow> nat \<Rightarrow> bytes" where
  "db_page c ps p = zread c ps ((p - 1) * ps)"

lemma page_ranges_disjoint:
  fixes p q ps :: nat
  assumes "1 \<le> p" "1 \<le> q" "p \<noteq> q" "i < ps"
  shows "\<not> ((p - 1) * ps \<le> (q - 1) * ps + i \<and> (q - 1) * ps + i < (p - 1) * ps + ps)"
proof -
  obtain a b where ab: "p = Suc a" "q = Suc b" using assms(1,2) by (metis Suc_le_D One_nat_def)
  with assms(3) consider "a < b" | "b < a" by force
  then show ?thesis
  proof cases
    case 1
    then have "a * ps + ps \<le> b * ps" using mult_le_mono1 [of "Suc a" b ps] by simp
    then show ?thesis by (simp add: ab)
  next
    case 2
    then have "b * ps + ps \<le> a * ps" using mult_le_mono1 [of "Suc b" a ps] by simp
    with assms(4) show ?thesis by (simp add: ab)
  qed
qed

lemma db_page_write:
  assumes "mem_clean db" "mem_write ok db page ((p - 1) * ps) = (TDB_OK, db')" "length page = ps"
    and "1 \<le> p" "1 \<le> q"
  shows "mem_clean db'" "db_page (fcontent db') ps q = (if q = p then page else db_page (fcontent db) ps q)"
proof -
  note w = mem_write_clean [OF assms(1,2)]
  show "mem_clean db'" by (rule w(1))
  show "db_page (fcontent db') ps q = (if q = p then page else db_page (fcontent db) ps q)"
  proof (cases "q = p")
    case True
    then show ?thesis
      by (auto simp: db_page_def zread_zbyte w(2) assms(3) intro!: nth_equalityI)
  next
    case False
    then show ?thesis
      using page_ranges_disjoint [OF assms(4,5), of _ ps] by (auto simp: db_page_def zread_zbyte w(2) assms(3))
  qed
qed

text \<open>What a reader of page \<open>p\<close> sees: the log first, then the database file.\<close>

definition logged_page :: "wframe list \<Rightarrow> bytes \<Rightarrow> nat \<Rightarrow> nat \<Rightarrow> bytes" where
  "logged_page fs c ps p = (case latest fs p of Some page \<Rightarrow> page | None \<Rightarrow> db_page c ps p)"

lemma latest_Some:
  assumes "latest fs p = Some page"
  shows "\<exists>f \<in> set fs. p = unat (f_pgno f) \<and> page = f_page f"
  using assms by (induction fs rule: rev_induct) (auto split: if_splits)

lemma ckpt_loop_copies:
  assumes rep: "wal_rep z w fs" and codec: "codec_ok z" and clean: "mem_clean db"
    and pos: "list_all (\<lambda>f. f_pgno f \<noteq> 0) fs"
    and loop: "ckpt_loop all_ok z w db p n = (rc, db')"
  shows "rc = TDB_OK \<and> mem_clean db' \<and>
    (\<forall>q \<ge> 1. db_page (fcontent db') (wpage_size w) q =
      (if p \<le> q \<and> q < p + n then logged_page fs (fcontent db) (wpage_size w) q
       else db_page (fcontent db) (wpage_size w) q))"
  using clean loop
proof (induction n arbitrary: p db)
  case 0
  then show ?case by auto
next
  case (Suc n)
  let ?ps = "wpage_size w"
  have read: "tdb_wal_read_page all_ok z w p = (TDB_OK, latest fs p)"
    by (rule wal_read_page [OF rep codec]) simp
  have slot: "wmap w p = slot_of fs p" "nframe w = length fs" using rep by (simp_all add: wal_rep_def wal_index_def)
  show ?case
  proof (cases "latest fs p")
    case None
    then have "slot_of fs p = 0" using slot_latest [of fs p] by (simp split: if_splits)
    then have "ckpt_loop all_ok z w db (Suc p) n = (rc, db')" using Suc.prems(2) slot by simp
    from Suc.IH [OF Suc.prems(1) this] None show ?thesis
      by (auto simp: logged_page_def le_Suc_eq Suc_le_eq)
  next
    case (Some page)
    then have s: "slot_of fs p \<noteq> 0" using slot_latest [of fs p] by (simp split: if_splits)
    from latest_Some [OF Some] obtain f where f: "f \<in> set fs" "p = unat (f_pgno f)" "page = f_page f" by blast
    have p: "1 \<le> p" "p < 2 ^ 32" "length page = ?ps"
      using f pos rep unat_less_2p [of "f_pgno f"]
      by (auto simp: list_all_iff wal_rep_def frame_ok_def Suc_le_eq unat_gt_0)
    obtain a where "p = Suc a" using p(1) by (cases p) simp_all
    then have off: "(4294967295 + p) mod 4294967296 = p - Suc 0" using p(2) by simp
    obtain rc1 db1 where wr: "mem_write all_ok db page ((p - 1) * ?ps) = (rc1, db1)" by force
    have rc1: "rc1 = TDB_OK" using mem_write_succeeds [of db page "(p - 1) * ?ps"] wr by simp
    have "ckpt_loop all_ok z w db1 (Suc p) n = (rc, db')"
      using Suc.prems(2) slot s slot_of_le [of fs p] read Some wr rc1 off by simp
    note IH = Suc.IH [OF _ this]
    note w1 = db_page_write [OF Suc.prems(1) wr [unfolded rc1] p(3) p(1)]
    show ?thesis
      using IH [OF w1(1) [of 1]] w1(2) Some
      by (auto simp: logged_page_def le_Suc_eq Suc_le_eq split: option.splits)
  qed
qed

lemma checkpoint_effect:
  assumes rep: "wal_rep z w fs" and codec: "codec_ok z" and clean: "mem_clean db"
    and pos: "list_all (\<lambda>f. f_pgno f \<noteq> 0) fs"
    and ckpt: "tdb_wal_checkpoint all_ok z w db = (rc, w', db')"
  shows "rc = TDB_OK" "wal_rep z w' []" "mem_clean db'" "wpage_size w' = wpage_size w" "wdb_size w' = wdb_size w"
    "1 \<le> q \<Longrightarrow> db_page (fcontent db') (wpage_size w) q = logged_page fs (fcontent db) (wpage_size w) q"
proof -
  obtain rc1 db1 where loop: "ckpt_loop all_ok z w db 0 (map_cap w) = (rc1, db1)" by force
  note l = ckpt_loop_copies [OF rep codec clean pos loop]
  define w1 where "w1 = w\<lparr>ckpt_seq := ckpt_seq w + 1, salt1 := salt1 w + 0x9E3779B9,
    salt2 := salt2 w XOR 0xA5A5A5A5, nframe := 0, wmap := (\<lambda>_. 0), wfile := mem_truncate (wfile w) 0\<rparr>"
  obtain f where wr: "mem_write all_ok (wfile w1) (wal_header w1) 0 = (TDB_OK, f)"
    using mem_write_succeeds by (metis prod.collapse)
  have res: "rc = TDB_OK" "w' = w1\<lparr>wfile := f, end_off := 32\<rparr>" "db' = db1"
    using ckpt loop l wr
    by (auto simp: tdb_wal_checkpoint_def w1_def [symmetric] write_header_def Let_def split: prod.splits if_splits)
  have base: "wal_base z w" using rep by (simp add: wal_rep_def)
  have tr: "mem_ok (wfile w1) \<and> fcontent (wfile w1) = []"
    using mf.ftrunc_content [of "wfile w" 0] base by (simp add: w1_def wal_base_def)
  have f: "mem_ok f" "fcontent f = wal_header w1" using mf.fwrite_ok [OF _ _ wr] tr by (simp_all add: patch_def)
  have hdr: "wal_header w' = wal_header w1" by (simp add: res(2) wal_header_def)
  show "rc = TDB_OK" by (rule res(1))
  show "mem_clean db'" using l res(3) by blast
  show "wpage_size w' = wpage_size w" "wdb_size w' = wdb_size w" by (simp_all add: res(2) w1_def)
  have "wal_base z w'" using base f(1) by (simp add: res(2) w1_def wal_base_def)
  moreover have "wal_index z w' []" by (simp add: wal_index_def offsets_rec_def) (simp add: res(2) w1_def)
  ultimately show "wal_rep z w' []"
    using f(2) hdr by (simp add: wal_rep_def) (simp add: res(2) w1_def)
  show "db_page (fcontent db') (wpage_size w) q = logged_page fs (fcontent db) (wpage_size w) q" if "1 \<le> q"
  proof (cases "q < map_cap w")
    case True
    then show ?thesis using l that res(3) by simp
  next
    case False
    then have "slot_of fs q = 0" using rep by (auto simp: wal_rep_def wal_index_def)
    then show ?thesis using l that res(3) False by (simp add: logged_page_def slot_latest)
  qed
qed

section \<open>Properties\<close>

text \<open>
  A concrete compression library for the witnesses: it drops trailing zero bytes.
\<close>

definition zstrip_lib :: zstd_lib where
  "zstrip_lib =
     \<lparr>ZSTD_compressBound = (\<lambda>n. n),
      ZSTD_compress = (\<lambda>src n. let r = rev (dropWhile (\<lambda>b. b = 0) (rev src)) in if length r \<le> n then Some r else None),
      ZSTD_decompress = (\<lambda>r n. if length r \<le> n then Some (r @ replicate (n - length r) 0) else None)\<rparr>"

lemma strip_zeros: "rev (dropWhile (\<lambda>b. b = 0) (rev src)) @ replicate (length (takeWhile (\<lambda>b. b = 0) (rev src))) 0 = src"
proof -
  have "takeWhile (\<lambda>b. b = 0) (rev src) = replicate (length (takeWhile (\<lambda>b. b = 0) (rev src))) 0"
    by (intro replicate_eqI) (auto dest: set_takeWhileD)
  then have "rev (takeWhile (\<lambda>b. b = 0) (rev src)) = replicate (length (takeWhile (\<lambda>b. b = 0) (rev src))) 0"
    by (metis rev_replicate)
  moreover have "rev (dropWhile (\<lambda>b. b = 0) (rev src)) @ rev (takeWhile (\<lambda>b. b = 0) (rev src)) = src"
    by (simp flip: rev_append)
  ultimately show ?thesis by simp
qed

lemma zstrip_codec: "codec_ok (Some zstrip_lib)"
proof -
  have "length (takeWhile (\<lambda>b. b = 0) (rev src)) + length (dropWhile (\<lambda>b. b = 0) (rev src)) = length src" for src :: bytes
    by (metis length_append length_rev takeWhile_dropWhile_id)
  then have "length src - length (dropWhile (\<lambda>b. b = 0) (rev src)) = length (takeWhile (\<lambda>b. b = 0) (rev src))"
    "length (dropWhile (\<lambda>b. b = 0) (rev src)) \<le> length src" for src :: bytes
    by (metis add_diff_cancel_right', metis le_add2)
  then show ?thesis
    using strip_zeros by (auto simp: codec_ok_def zstd_lossless_def zstrip_lib_def Let_def split: if_splits)
qed

text \<open>
  C14: After any sequence of appends to a fresh log that ends with a commit frame, reading a page
  gives its most recent committed image, or nothing if it was never logged, in both frame formats
  and with any lossless compression library, and the frame count is that of the committed frames.
  While frames after the last commit frame are in the log they are served too, so logs with such a tail
  are excluded.
\<close>

theorem wal_read_latest:
  assumes "codec_ok z" "ops_ok ps ops" "committed (map op_frame ops) = map op_frame ops"
  shows "tdb_wal_read_page all_ok z (wal_run z ps ops) p = (TDB_OK, latest (committed (map op_frame ops)) p) \<and>
    nframe (wal_run z ps ops) = length (committed (map op_frame ops))"
proof -
  note rep = wal_run_rep(1) [OF assms(2), of z]
  show ?thesis
    using wal_read_page [OF rep assms(1), of all_ok p] rep assms(3)
    by (simp add: wal_rep_def)
qed

theorem wal_read_latest_witness:
  "let w = wal_run (Some zstrip_lib) 4 [(2, [1, 2, 0, 0], False, 0), (3, [7, 7, 7, 7], True, 3), (2, [9, 0, 0, 0], True, 3)]
   in tdb_wal_read_page all_ok (Some zstrip_lib) w 2 = (TDB_OK, Some [9, 0, 0, 0]) \<and>
      tdb_wal_read_page all_ok (Some zstrip_lib) w 5 = (TDB_OK, None) \<and> nframe w = 3"
proof -
  have ops: "ops_ok 4 [(2, [1, 2, 0, 0], False, 0), (3, [7, 7, 7, 7], True, 3), (2, [9, 0, 0, 0], True, 3)]"
    by (simp add: ops_ok_def)
  show ?thesis
    using wal_read_latest [OF zstrip_codec ops, of 2] wal_read_latest [OF zstrip_codec ops, of 5]
    by (simp add: latest_def committed_def)
qed

text \<open>
  C1: Crash recovery is atomic and durable. A log holds committed transactions \<open>old\<close> followed by
  a commit batch: frames \<open>bs\<close> and a final commit frame. If a crash cuts the log file at any
  byte from the end of \<open>old\<close> on, opening the file again succeeds, and every page reads as after
  the whole batch if the batch was written completely, and as before it otherwise; the database
  size follows in the same way.
\<close>

theorem wal_crash_atomic:
  assumes "codec_ok z" "ops_ok ps (old @ bs @ [c])"
    and "committed (map op_frame old) = map op_frame old"
    and "list_all (\<lambda>f. f_dbsz f = 0) (map op_frame bs)" "f_dbsz (op_frame c) \<noteq> 0"
    and "w = wal_run z ps (old @ bs @ [c])"
    and "log_len z w (map op_frame old) \<le> k" "k \<le> log_len z w (map op_frame (old @ bs @ [c]))"
    and "mem_ok h" "fcontent h = take (32 + k) (fcontent (wfile w))"
  shows "case tdb_wal_open all_ok z h ps of (rc, w') \<Rightarrow>
    (let survived = (if k < log_len z w (map op_frame (old @ bs @ [c])) then old else old @ bs @ [c])
     in rc = TDB_OK \<and> tdb_wal_read_page all_ok z w' p = (TDB_OK, latest (map op_frame survived) p) \<and>
        wdb_size w' = log_db_size (map op_frame survived))"
proof -
  let ?fs = "map op_frame old @ map op_frame bs @ [op_frame c]"
  let ?sv = "if k < log_len z w ?fs then map op_frame old else ?fs"
  have rep: "wal_rep z w ?fs" and ps: "wpage_size w = ps"
    using wal_run_rep [OF assms(2), of z] assms(6) by simp_all
  have k: "log_len z w (map op_frame old) \<le> k" "k \<le> log_len z w ?fs" using assms(7,8) by simp_all
  note o = crash_open [OF rep assms(1,9,10) k(2), unfolded ps]
  have cm: "committed (whole_frames z w k ?fs) = ?sv"
    by (rule committed_cut_batch [OF assms(3-5) k(1)])
  have db: "log_db_size (whole_frames z w k ?fs) = log_db_size ?sv"
    using cm committed_committed [of "whole_frames z w k ?fs"] by (simp add: log_db_size_def)
  have "tdb_wal_read_page all_ok z (snd (tdb_wal_open all_ok z h ps)) p = (TDB_OK, latest ?sv p)"
    by (rule wal_read_page [OF o(2) [unfolded cm] assms(1)]) simp
  with o(1,3) db show ?thesis by (auto simp: split_def Let_def)
qed

theorem wal_crash_atomic_witness:
  "let z = Some zstrip_lib; old = [(1, [1, 0, 0, 0], True, 1)]; c = (1, [3, 0, 0, 0], True, 2);
       w = wal_run z 4 (old @ [(2, [2, 2, 2, 2], False, 0)] @ [c]);
       n = 32 + log_len z w (map op_frame (old @ [(2, [2, 2, 2, 2], False, 0)] @ [c])) - 1;
       d = take n (fcontent (wfile w));
       (rc, w') = tdb_wal_open all_ok z \<lparr>mdata = d, msize = length d\<rparr> 4
   in rc = TDB_OK \<and> tdb_wal_read_page all_ok z w' 1 = (TDB_OK, Some [1, 0, 0, 0]) \<and>
      tdb_wal_read_page all_ok z w' 2 = (TDB_OK, None) \<and> wdb_size w' = 1"
proof -
  define z old c where "z = Some zstrip_lib" and "old = [(1 :: u32, [1, 0, 0, 0] :: bytes, True, 1 :: u32)]"
    and "c = (1 :: u32, [3, 0, 0, 0] :: bytes, True, 2 :: u32)"
  let ?bs = "[(2 :: u32, [2, 2, 2, 2] :: bytes, False, 0 :: u32)]"
  define w where "w = wal_run z 4 (old @ ?bs @ [c])"
  define k where "k = log_len z w (map op_frame (old @ ?bs @ [c])) - 1"
  define h where "h = \<lparr>mdata = take (32 + k) (fcontent (wfile w)), msize = length (take (32 + k) (fcontent (wfile w)))\<rparr>"
  have ops: "ops_ok 4 (old @ ?bs @ [c])" by (simp add: ops_ok_def old_def c_def)
  have pos: "24 \<le> frame_len z w (op_frame c)" by (rule frame_len_ge)
  then have k: "log_len z w (map op_frame old) \<le> k" "k < log_len z w (map op_frame (old @ ?bs @ [c]))"
    by (auto simp: k_def log_len_def)
  have h: "mem_ok h" "fcontent h = take (32 + k) (fcontent (wfile w))"
    by (simp_all only: h_def mem_ok_def fcontent_def [of "\<lparr>mdata = _, msize = _\<rparr>"] mem_handle.simps take_all order_refl)
  have r: "case tdb_wal_open all_ok z h 4 of (rc, w') \<Rightarrow>
      (let survived = (if k < log_len z w (map op_frame (old @ ?bs @ [c])) then old else old @ ?bs @ [c])
       in rc = TDB_OK \<and> tdb_wal_read_page all_ok z w' p = (TDB_OK, latest (map op_frame survived) p) \<and>
          wdb_size w' = log_db_size (map op_frame survived))" for p
    by (rule wal_crash_atomic [OF _ ops _ _ _ w_def k(1) less_imp_le [OF k(2)] h])
       (simp_all add: z_def zstrip_codec old_def c_def committed_def)
  have n: "32 + log_len z w (map op_frame (old @ ?bs @ [c])) - 1 = 32 + k"
    using pos by (simp add: k_def log_len_def)
  show ?thesis
    unfolding Let_def z_def [symmetric] old_def [symmetric] c_def [symmetric] w_def [symmetric] n h_def [symmetric]
    using r [of 1] r [of 2] k(2)
    by (auto simp: Let_def old_def latest_def log_db_size_def committed_def split: prod.splits)
qed

text \<open>
  C12: A checkpoint of a log that ends with a commit frame changes nothing for readers: afterwards
  the log is empty and every page of the database file holds what a reader saw before, the latest
  committed image or else the old page. Frames after the last commit frame would be copied too, so
  logs with such a tail are excluded.
\<close>

theorem wal_checkpoint_preserves:
  assumes "codec_ok z" "ops_ok ps ops" "committed (map op_frame ops) = map op_frame ops" "mem_clean db" "1 \<le> q"
    and "list_all (\<lambda>(pgno, _). pgno \<noteq> 0) ops"
  shows "case tdb_wal_checkpoint all_ok z (wal_run z ps ops) db of (rc, w', db') \<Rightarrow>
    rc = TDB_OK \<and> tdb_wal_read_page all_ok z w' q = (TDB_OK, None) \<and> nframe w' = 0 \<and>
    tdb_wal_read_page all_ok z (wal_run z ps ops) q = (TDB_OK, latest (committed (map op_frame ops)) q) \<and>
    mem_read db' ps ((q - 1) * ps) =
      (case latest (committed (map op_frame ops)) q of Some page \<Rightarrow> page | None \<Rightarrow> mem_read db ps ((q - 1) * ps))"
proof -
  obtain rc w' db' where ck: "tdb_wal_checkpoint all_ok z (wal_run z ps ops) db = (rc, w', db')" by (metis prod.collapse)
  have pos: "list_all (\<lambda>f. f_pgno f \<noteq> 0) (map op_frame ops)" using assms(6) by (auto simp: list_all_iff)
  note run = wal_run_rep [OF assms(2), of z]
  note e = checkpoint_effect [OF run(1) assms(1,4) pos ck]
  have "mem_ok db" "mem_ok db'" using assms(4) e(3) by (simp_all add: mem_clean_def)
  moreover have "nframe w' = 0" using e(2) by (simp add: wal_rep_def)
  ultimately show ?thesis
    using e(6) [OF assms(5)] wal_read_page [OF e(2) assms(1), of all_ok q] e(1) wal_read_page [OF run(1) assms(1), of all_ok q]
    by (simp add: ck assms(3) mem_read_zread run(2) db_page_def logged_page_def split: option.splits)
qed

theorem wal_checkpoint_preserves_witness:
  "case tdb_wal_checkpoint all_ok None (wal_run None 4 [(2, [1, 2, 3, 4], True, 2)]) mem_open of (rc, w', db') \<Rightarrow>
     rc = TDB_OK \<and> mem_read db' 4 4 = [1, 2, 3, 4]"
proof -
  have a: "codec_ok None" "ops_ok 4 [(2, [1, 2, 3, 4], True, 2)]"
    "committed (map op_frame [(2, [1, 2, 3, 4], True, 2)]) = map op_frame [(2, [1, 2, 3, 4], True, 2)]" "mem_clean mem_open" "1 \<le> (2 :: nat)"
    "list_all (\<lambda>(pgno :: u32, _). pgno \<noteq> 0) [(2, [1, 2, 3, 4] :: bytes, True, 2 :: u32)]"
    by (simp_all add: codec_ok_def ops_ok_def mem_clean_def mem_ok_def mem_open_def committed_def)
  from wal_checkpoint_preserves [OF a] show ?thesis by (auto simp: committed_def latest_def split: prod.splits)
qed

end
