(* ===== verification/Tdb_Pager.thy ===== *)
theory Tdb_Pager
  imports Tdb_Ckpt
begin

text \<open>
  \<^verbatim>\<open>src/storage/tdb_pager.c\<close>: header codec, page cache, free list, transactions, savepoints,
  vacuum, open and close. The state is the C struct over two in-memory VFS files: the bucket
  array is a function from bucket numbers to chains, the LRU list is the list of page numbers
  from the most recent one on. A page pointer is the page's number: every operation that follows
  a pointer finds the cache entry of that number. As in \<open>Tdb_Wal\<close>, \<open>z\<close> is the compression build
  and \<open>ok\<close> says which allocations succeed; the C code does not check the allocations of a
  savepoint, which are taken to succeed.
\<close>

section \<open>State\<close>

record tdb_dbhdr =
  h_page_size :: u32
  h_change_counter :: u32
  h_db_size :: u32
  h_freelist_head :: u32
  h_freelist_count :: u32
  h_catalog_root :: u32
  h_schema_cookie :: u32
  h_text_encoding :: u32
  h_max_txnid :: u64
  h_reserved_per_page :: u32

record tdb_page =
  pg_no :: u32
  pg_data :: bytes
  pg_dirty :: bool
  pg_refs :: nat

record pager_sp =
  sp_hdr :: tdb_dbhdr
  sp_imgs :: "(u32 \<times> bytes) list"

record tdb_pager =
  pfile :: mem_handle
  pwal :: tdb_wal
  preadonly :: bool
  in_txn :: bool
  page_size :: nat
  phdr :: tdb_dbhdr
  hdr_dirty :: bool
  buckets :: "nat \<Rightarrow> tdb_page list"
  ncached :: nat
  lru :: "u32 list"
  psps :: "pager_sp list"

definition TDB_CACHE_BUCKETS :: nat where
  "TDB_CACHE_BUCKETS = 1024"

definition TDB_CACHE_SOFT_MAX :: nat where
  "TDB_CACHE_SOFT_MAX = 2048"

abbreviation "TDB_HEADER_SIZE \<equiv> 100 :: nat"
abbreviation "TDB_CATALOG_PGNO \<equiv> 1 :: u32"

section \<open>Header codec\<close>

text \<open>The magic with its terminating NUL, \<^verbatim>\<open>sizeof(TDB_MAGIC)\<close> bytes.\<close>

definition TDB_MAGIC :: bytes where
  "TDB_MAGIC = map of_char ''TransactionDB'' @ [0]"

definition hdr_parse :: "bytes \<Rightarrow> tdb_dbhdr" where
  "hdr_parse b =
     \<lparr>h_page_size = (let ps = ucast (tdb_get_u16 (drop 16 b)) in if ps = 0 then 65536 else ps),
      h_change_counter = tdb_get_u32 (drop 24 b),
      h_db_size = tdb_get_u32 (drop 28 b),
      h_freelist_head = tdb_get_u32 (drop 32 b),
      h_freelist_count = tdb_get_u32 (drop 36 b),
      h_catalog_root = tdb_get_u32 (drop 40 b),
      h_schema_cookie = tdb_get_u32 (drop 44 b),
      h_text_encoding = tdb_get_u32 (drop 48 b),
      h_max_txnid = tdb_get_u64 (drop 52 b),
      h_reserved_per_page = tdb_get_u32 (drop 60 b)\<rparr>"

text \<open>The 96 bytes the checksum covers, field after field, and then the checksum.\<close>

definition hdr_body :: "tdb_dbhdr \<Rightarrow> bytes" where
  "hdr_body h =
     TDB_MAGIC @ [0, 0] @
     tdb_put_u16 (if 65536 \<le> h_page_size h then 0 else ucast (h_page_size h)) @ [1, 1] @
     tdb_put_u32 1 @ tdb_put_u32 (h_change_counter h) @ tdb_put_u32 (h_db_size h) @
     tdb_put_u32 (h_freelist_head h) @ tdb_put_u32 (h_freelist_count h) @
     tdb_put_u32 (h_catalog_root h) @ tdb_put_u32 (h_schema_cookie h) @
     tdb_put_u32 (h_text_encoding h) @ tdb_put_u64 (h_max_txnid h) @
     tdb_put_u32 (h_reserved_per_page h) @ replicate 32 0"

definition hdr_serialize :: "tdb_dbhdr \<Rightarrow> bytes" where
  "hdr_serialize h = hdr_body h @ tdb_put_u32 (tdb_crc32c 0 (hdr_body h))"

definition has_magic :: "bytes \<Rightarrow> bool" where
  "has_magic b \<longleftrightarrow> take (length TDB_MAGIC) b = TDB_MAGIC"

section \<open>Cache\<close>

definition bucket_of :: "u32 \<Rightarrow> nat" where
  "bucket_of pgno = unat pgno mod TDB_CACHE_BUCKETS"

definition lru_unlink :: "tdb_pager \<Rightarrow> u32 \<Rightarrow> tdb_pager" where
  "lru_unlink p q = p\<lparr>lru := remove1 q (lru p)\<rparr>"

definition lru_push_front :: "tdb_pager \<Rightarrow> u32 \<Rightarrow> tdb_pager" where
  "lru_push_front p q = p\<lparr>lru := q # lru p\<rparr>"

fun chain_page :: "tdb_page list \<Rightarrow> u32 \<Rightarrow> tdb_page option" where
  "chain_page [] q = None"
| "chain_page (pg # pgs) q = (if pg_no pg = q then Some pg else chain_page pgs q)"

definition cache_lookup :: "tdb_pager \<Rightarrow> u32 \<Rightarrow> tdb_page option" where
  "cache_lookup p q = chain_page (buckets p (bucket_of q)) q"

text \<open>A store through the pointer to a cached page.\<close>

definition page_upd :: "tdb_pager \<Rightarrow> u32 \<Rightarrow> (tdb_page \<Rightarrow> tdb_page) \<Rightarrow> tdb_pager" where
  "page_upd p q f =
     p\<lparr>buckets := (buckets p)(bucket_of q :=
         map (\<lambda>pg. if pg_no pg = q then f pg else pg) (buckets p (bucket_of q)))\<rparr>"

fun chain_drop :: "tdb_page list \<Rightarrow> u32 \<Rightarrow> tdb_page list" where
  "chain_drop [] q = []"
| "chain_drop (pg # pgs) q = (if pg_no pg = q then pgs else pg # chain_drop pgs q)"

definition cache_remove :: "tdb_pager \<Rightarrow> u32 \<Rightarrow> tdb_pager" where
  "cache_remove p q =
     (let p1 = lru_unlink (p\<lparr>buckets := (buckets p)(bucket_of q := chain_drop (buckets p (bucket_of q)) q)\<rparr>) q
      in p1\<lparr>ncached := ncached p1 - 1\<rparr>)"

text \<open>The walk of \<^verbatim>\<open>cache_trim\<close> from the tail; the argument lists the LRU pages still to visit.\<close>

fun trim_loop :: "tdb_pager \<Rightarrow> u32 list \<Rightarrow> tdb_pager" where
  "trim_loop p [] = p"
| "trim_loop p (q # qs) =
     (if TDB_CACHE_SOFT_MAX < ncached p then
        (case cache_lookup p q of
           Some pg \<Rightarrow> trim_loop (if pg_refs pg = 0 \<and> \<not> pg_dirty pg then cache_remove p q else p) qs
         | None \<Rightarrow> trim_loop p qs)
      else p)"

definition cache_trim :: "tdb_pager \<Rightarrow> tdb_pager" where
  "cache_trim p = trim_loop p (rev (lru p))"

definition read_page_image :: "(nat \<Rightarrow> bool) \<Rightarrow> zbuild \<Rightarrow> tdb_pager \<Rightarrow> u32 \<Rightarrow> tdb_status \<times> bytes" where
  "read_page_image ok z p q =
     (case tdb_wal_read_page ok z (pwal p) (unat q) of
        (rc, r) \<Rightarrow>
          if rc \<noteq> TDB_OK then (rc, [])
          else
            (case r of
               Some img \<Rightarrow> (TDB_OK, img)
             | None \<Rightarrow> (TDB_OK, mem_read (pfile p) (page_size p) (unat (q - 1) * page_size p))))"

text \<open>The page struct takes 48 bytes.\<close>

definition page_new :: "(nat \<Rightarrow> bool) \<Rightarrow> tdb_pager \<Rightarrow> u32 \<Rightarrow> tdb_pager option" where
  "page_new ok p q =
     (if \<not> ok 48 \<or> \<not> ok (page_size p) then None
      else
        (let pg = \<lparr>pg_no = q, pg_data = replicate (page_size p) 0, pg_dirty = False, pg_refs = 0\<rparr>;
             p1 = p\<lparr>buckets := (buckets p)(bucket_of q := pg # buckets p (bucket_of q))\<rparr>;
             p2 = lru_push_front p1 q
         in Some (p2\<lparr>ncached := ncached p2 + 1\<rparr>)))"

definition tdb_pager_get :: "(nat \<Rightarrow> bool) \<Rightarrow> zbuild \<Rightarrow> tdb_pager \<Rightarrow> u32 \<Rightarrow> tdb_status \<times> tdb_pager" where
  "tdb_pager_get ok z p q =
     (if q = 0 then (TDB_MISUSE, p)
      else
        (case cache_lookup p q of
           Some _ \<Rightarrow>
             (TDB_OK, page_upd (lru_push_front (lru_unlink p q) q) q (\<lambda>pg. pg\<lparr>pg_refs := pg_refs pg + 1\<rparr>))
         | None \<Rightarrow>
             (case page_new ok p q of
                None \<Rightarrow> (TDB_NOMEM, p)
              | Some p1 \<Rightarrow>
                  (case read_page_image ok z p1 q of
                     (rc, img) \<Rightarrow>
                       if rc \<noteq> TDB_OK then (rc, cache_remove p1 q)
                       else (TDB_OK, cache_trim (page_upd p1 q (\<lambda>pg. pg\<lparr>pg_data := img, pg_refs := 1\<rparr>)))))))"

definition tdb_pager_unref :: "tdb_pager \<Rightarrow> u32 \<Rightarrow> tdb_pager" where
  "tdb_pager_unref p q = page_upd p q (\<lambda>pg. if 0 < pg_refs pg then pg\<lparr>pg_refs := pg_refs pg - 1\<rparr> else pg)"

definition tdb_pager_write :: "tdb_pager \<Rightarrow> u32 \<Rightarrow> tdb_status \<times> tdb_pager" where
  "tdb_pager_write p q =
     (if preadonly p then (TDB_READONLY, p) else (TDB_OK, page_upd p q (\<lambda>pg. pg\<lparr>pg_dirty := True\<rparr>)))"

text \<open>What a caller reads and writes through \<^verbatim>\<open>pg->data\<close>.\<close>

definition page_data :: "tdb_pager \<Rightarrow> u32 \<Rightarrow> bytes" where
  "page_data p q = (case cache_lookup p q of Some pg \<Rightarrow> pg_data pg | None \<Rightarrow> [])"

definition page_put :: "tdb_pager \<Rightarrow> u32 \<Rightarrow> nat \<Rightarrow> bytes \<Rightarrow> tdb_pager" where
  "page_put p q off b = page_upd p q (\<lambda>pg. pg\<lparr>pg_data := patch off b (pg_data pg)\<rparr>)"

definition tdb_pager_set_max_txnid :: "tdb_pager \<Rightarrow> u64 \<Rightarrow> tdb_pager" where
  "tdb_pager_set_max_txnid p v = p\<lparr>phdr := (phdr p)\<lparr>h_max_txnid := v\<rparr>, hdr_dirty := True\<rparr>"

definition tdb_pager_set_schema_cookie :: "tdb_pager \<Rightarrow> u32 \<Rightarrow> tdb_pager" where
  "tdb_pager_set_schema_cookie p v = p\<lparr>phdr := (phdr p)\<lparr>h_schema_cookie := v\<rparr>, hdr_dirty := True\<rparr>"

definition tdb_pager_set_catalog_root :: "tdb_pager \<Rightarrow> u32 \<Rightarrow> tdb_pager" where
  "tdb_pager_set_catalog_root p v = p\<lparr>phdr := (phdr p)\<lparr>h_catalog_root := v\<rparr>, hdr_dirty := True\<rparr>"

section \<open>Free list\<close>

text \<open>
  The first part of an allocation: take a page off the free list, \<open>0\<close> when it is empty. A leaf
  entry is at \<^verbatim>\<open>TDB_FL_LEAVES + idx * 4u\<close>, computed on 32 bits.
\<close>

definition leaf_off :: "u32 \<Rightarrow> nat" where
  "leaf_off idx = 9 + unat (idx * 4)"

definition alloc_pop :: "(nat \<Rightarrow> bool) \<Rightarrow> zbuild \<Rightarrow> tdb_pager \<Rightarrow> tdb_status \<times> u32 \<times> tdb_pager" where
  "alloc_pop ok z p =
     (let head = h_freelist_head (phdr p) in
      if head = 0 then (TDB_OK, 0, p)
      else
        (case tdb_pager_get ok z p head of
           (rc, p1) \<Rightarrow>
             if rc \<noteq> TDB_OK then (rc, 0, p1)
             else
               (let d = page_data p1 head; leaf_count = tdb_get_u32 (drop 5 d);
                    res =
                      (if 0 < leaf_count then
                         (tdb_get_u32 (drop (leaf_off (leaf_count - 1)) d),
                          tdb_pager_unref (snd (tdb_pager_write
                            (page_put p1 head 5 (tdb_put_u32 (leaf_count - 1))) head)) head)
                       else
                         (head,
                          tdb_pager_unref
                            (p1\<lparr>phdr := (phdr p1)\<lparr>h_freelist_head := tdb_get_u32 (drop 1 d)\<rparr>\<rparr>) head))
                in
                case res of
                  (q, p2) \<Rightarrow>
                    (TDB_OK, q,
                     p2\<lparr>phdr := (phdr p2)\<lparr>h_freelist_count := h_freelist_count (phdr p2) - 1\<rparr>, hdr_dirty := True\<rparr>))))"

text \<open>The second part: a page number from the end of the file unless one was found, then a fresh page.\<close>

definition alloc_fresh :: "(nat \<Rightarrow> bool) \<Rightarrow> tdb_pager \<Rightarrow> u32 \<Rightarrow> tdb_status \<times> u32 \<times> tdb_pager" where
  "alloc_fresh ok p q0 =
     (let q = (if q0 = 0 then h_db_size (phdr p) + 1 else q0);
          p1 = (if q0 = 0 then p\<lparr>phdr := (phdr p)\<lparr>h_db_size := q\<rparr>, hdr_dirty := True\<rparr> else p);
          p2 = (case cache_lookup p1 q of Some _ \<Rightarrow> cache_remove p1 q | None \<Rightarrow> p1)
      in
      case page_new ok p2 q of
        None \<Rightarrow> (TDB_NOMEM, 0, p2)
      | Some p3 \<Rightarrow> (TDB_OK, q, page_upd p3 q (\<lambda>pg. pg\<lparr>pg_refs := 1, pg_dirty := True\<rparr>)))"

definition tdb_pager_alloc :: "(nat \<Rightarrow> bool) \<Rightarrow> zbuild \<Rightarrow> tdb_pager \<Rightarrow> tdb_status \<times> u32 \<times> tdb_pager" where
  "tdb_pager_alloc ok z p =
     (if preadonly p then (TDB_READONLY, 0, p)
      else
        (case alloc_pop ok z p of
           (rc, q, p1) \<Rightarrow> if rc \<noteq> TDB_OK then (rc, 0, p1) else alloc_fresh ok p1 q))"

definition per_trunk :: "tdb_pager \<Rightarrow> u32" where
  "per_trunk p = (word_of_nat (page_size p) - 9) div 4"

definition free_trunk :: "(nat \<Rightarrow> bool) \<Rightarrow> zbuild \<Rightarrow> tdb_pager \<Rightarrow> u32 \<Rightarrow> tdb_status \<times> tdb_pager" where
  "free_trunk ok z p q =
     (case tdb_pager_get ok z p q of
        (rc, p1) \<Rightarrow>
          if rc \<noteq> TDB_OK then (rc, p1)
          else
            (let d = [0xFE] @ tdb_put_u32 (h_freelist_head (phdr p1)) @ tdb_put_u32 0 @ replicate (page_size p1 - 9) 0;
                 p2 = tdb_pager_unref (snd (tdb_pager_write (page_put p1 q 0 d) q)) q
             in (TDB_OK,
                 p2\<lparr>phdr := (phdr p2)\<lparr>h_freelist_head := q, h_freelist_count := h_freelist_count (phdr p2) + 1\<rparr>,
                    hdr_dirty := True\<rparr>)))"

definition tdb_pager_free :: "(nat \<Rightarrow> bool) \<Rightarrow> zbuild \<Rightarrow> tdb_pager \<Rightarrow> u32 \<Rightarrow> tdb_status \<times> tdb_pager" where
  "tdb_pager_free ok z p q =
     (let head = h_freelist_head (phdr p) in
      if preadonly p then (TDB_READONLY, p)
      else if q = 0 \<or> q = TDB_CATALOG_PGNO then (TDB_MISUSE, p)
      else if head \<noteq> 0 then
        (case tdb_pager_get ok z p head of
           (rc, p1) \<Rightarrow>
             if rc \<noteq> TDB_OK then (rc, p1)
             else
               (let leaf_count = tdb_get_u32 (drop 5 (page_data p1 head)) in
                if leaf_count < per_trunk p then
                  (let p2 = page_put (page_put p1 head (leaf_off leaf_count) (tdb_put_u32 q)) head 5 (tdb_put_u32 (leaf_count + 1));
                       p3 = tdb_pager_unref (snd (tdb_pager_write p2 head)) head
                   in (TDB_OK,
                       p3\<lparr>phdr := (phdr p3)\<lparr>h_freelist_count := h_freelist_count (phdr p3) + 1\<rparr>, hdr_dirty := True\<rparr>))
                else free_trunk ok z (tdb_pager_unref p1 head) q))
      else free_trunk ok z p q)"

section \<open>Transactions\<close>

definition tdb_pager_begin :: "tdb_pager \<Rightarrow> tdb_status \<times> tdb_pager" where
  "tdb_pager_begin p = (if preadonly p then (TDB_READONLY, p) else (TDB_OK, p\<lparr>in_txn := True\<rparr>))"

definition sp_clear_all :: "tdb_pager \<Rightarrow> tdb_pager" where
  "sp_clear_all p = p\<lparr>psps := []\<rparr>"

definition flush_header :: "(nat \<Rightarrow> bool) \<Rightarrow> zbuild \<Rightarrow> tdb_pager \<Rightarrow> tdb_status \<times> tdb_pager" where
  "flush_header ok z p =
     (case tdb_pager_get ok z p TDB_CATALOG_PGNO of
        (rc, p1) \<Rightarrow>
          if rc \<noteq> TDB_OK then (rc, p1)
          else
            (let h = (phdr p1)\<lparr>h_change_counter := h_change_counter (phdr p1) + 1\<rparr>;
                 p2 = page_put (p1\<lparr>phdr := h\<rparr>) TDB_CATALOG_PGNO 0 (hdr_serialize h);
                 p3 = page_upd p2 TDB_CATALOG_PGNO (\<lambda>pg. pg\<lparr>pg_dirty := True\<rparr>)
             in (TDB_OK, (tdb_pager_unref p3 TDB_CATALOG_PGNO)\<lparr>hdr_dirty := False\<rparr>)))"

text \<open>All cached pages in the order of the bucket array, and those a commit collects.\<close>

definition cache_pages :: "tdb_pager \<Rightarrow> tdb_page list" where
  "cache_pages p = concat (map (buckets p) [0..<TDB_CACHE_BUCKETS])"

definition dirty_pages :: "tdb_pager \<Rightarrow> tdb_page list" where
  "dirty_pages p = filter pg_dirty (cache_pages p)"

definition collect_dirty :: "tdb_pager \<Rightarrow> tdb_page list" where
  "collect_dirty p = take (TDB_CACHE_SOFT_MAX + 64) (dirty_pages p)"

fun commit_append :: "(nat \<Rightarrow> bool) \<Rightarrow> zbuild \<Rightarrow> tdb_wal \<Rightarrow> u32 \<Rightarrow> tdb_page list \<Rightarrow> tdb_status \<times> tdb_wal" where
  "commit_append ok z w dbsz [] = (TDB_OK, w)"
| "commit_append ok z w dbsz (pg # pgs) =
     (let is_commit = (pgs = []) in
      case tdb_wal_append ok z w (pg_no pg) (pg_data pg) is_commit (if is_commit then dbsz else 0) of
        (rc, w1) \<Rightarrow> if rc \<noteq> TDB_OK then (rc, w1) else commit_append ok z w1 dbsz pgs)"

definition tdb_pager_checkpoint :: "(nat \<Rightarrow> bool) \<Rightarrow> zbuild \<Rightarrow> tdb_pager \<Rightarrow> tdb_status \<times> tdb_pager" where
  "tdb_pager_checkpoint ok z p =
     (if preadonly p then (TDB_OK, p)
      else if nframe (pwal p) = 0 then (TDB_OK, p)
      else
        (case tdb_wal_checkpoint ok z (pwal p) (pfile p) of
           (rc, w, db) \<Rightarrow> (rc, p\<lparr>pwal := w, pfile := db\<rparr>)))"

definition clear_dirty :: "tdb_pager \<Rightarrow> tdb_page list \<Rightarrow> tdb_pager" where
  "clear_dirty p pgs = foldl (\<lambda>p pg. page_upd p (pg_no pg) (\<lambda>pg. pg\<lparr>pg_dirty := False\<rparr>)) p pgs"

definition tdb_pager_commit :: "(nat \<Rightarrow> bool) \<Rightarrow> zbuild \<Rightarrow> tdb_pager \<Rightarrow> tdb_status \<times> tdb_pager" where
  "tdb_pager_commit ok z p =
     (if preadonly p then (TDB_READONLY, p)
      else
        (case flush_header ok z p of
           (rc, p1) \<Rightarrow>
             if rc \<noteq> TDB_OK then (rc, p1)
             else
               (let dirty = collect_dirty p1 in
                case commit_append ok z (pwal p1) (h_db_size (phdr p1)) dirty of
                  (rc, w) \<Rightarrow>
                    if rc \<noteq> TDB_OK then (rc, p1\<lparr>pwal := w\<rparr>)
                    else
                      (let p2 = clear_dirty (p1\<lparr>pwal := w\<rparr>) dirty;
                           p3 = sp_clear_all (p2\<lparr>in_txn := False\<rparr>)
                       in (TDB_OK,
                           if 1000 < nframe (pwal p3) then snd (tdb_pager_checkpoint ok z p3) else p3)))))"

definition evict_pages :: "tdb_pager \<Rightarrow> tdb_page list \<Rightarrow> tdb_pager" where
  "evict_pages p pgs = foldl (\<lambda>p pg. cache_remove p (pg_no pg)) p pgs"

definition tdb_pager_rollback :: "(nat \<Rightarrow> bool) \<Rightarrow> zbuild \<Rightarrow> tdb_pager \<Rightarrow> tdb_status \<times> tdb_pager" where
  "tdb_pager_rollback ok z p =
     (let p1 = evict_pages p (dirty_pages p);
          p2 = (if ok (page_size p1) then
                  (case read_page_image ok z p1 TDB_CATALOG_PGNO of
                     (rc, full) \<Rightarrow>
                       if rc = TDB_OK \<and> has_magic full then p1\<lparr>phdr := hdr_parse full\<rparr> else p1)
                else p1)
      in (TDB_OK, sp_clear_all (p2\<lparr>hdr_dirty := False, in_txn := False\<rparr>)))"

section \<open>Savepoints\<close>

text \<open>The level of the new savepoint, \<open>-1\<close> on a read-only pager.\<close>

definition tdb_pager_savepoint :: "tdb_pager \<Rightarrow> int \<times> tdb_pager" where
  "tdb_pager_savepoint p =
     (if preadonly p then (-1, p)
      else
        (let sp = \<lparr>sp_hdr = phdr p, sp_imgs = map (\<lambda>pg. (pg_no pg, pg_data pg)) (dirty_pages p)\<rparr>
         in (int (length (psps p)), p\<lparr>psps := psps p @ [sp]\<rparr>)))"

definition tdb_pager_savepoint_release :: "tdb_pager \<Rightarrow> int \<Rightarrow> tdb_status \<times> tdb_pager" where
  "tdb_pager_savepoint_release p level =
     (if level < 0 \<or> int (length (psps p)) \<le> level then (TDB_MISUSE, p)
      else (TDB_OK, p\<lparr>psps := take (nat level) (psps p)\<rparr>))"

definition sp_restore :: "pager_sp \<Rightarrow> tdb_pager \<Rightarrow> tdb_page \<Rightarrow> tdb_pager" where
  "sp_restore sp p pg =
     (case map_of (sp_imgs sp) (pg_no pg) of
        Some d \<Rightarrow> page_upd p (pg_no pg) (\<lambda>pg. pg\<lparr>pg_data := d\<rparr>)
      | None \<Rightarrow> cache_remove p (pg_no pg))"

definition tdb_pager_savepoint_rollback :: "tdb_pager \<Rightarrow> int \<Rightarrow> tdb_status \<times> tdb_pager" where
  "tdb_pager_savepoint_rollback p level =
     (if level < 0 \<or> int (length (psps p)) \<le> level then (TDB_MISUSE, p)
      else
        (let sp = psps p ! nat level;
             p1 = p\<lparr>psps := take (Suc (nat level)) (psps p)\<rparr>;
             p2 = foldl (sp_restore sp) p1 (collect_dirty p1)
         in (TDB_OK, p2\<lparr>phdr := sp_hdr sp, hdr_dirty := True\<rparr>)))"

section \<open>Vacuum\<close>

definition evict_above :: "tdb_pager \<Rightarrow> u32 \<Rightarrow> tdb_pager" where
  "evict_above p maxkeep = evict_pages p (filter (\<lambda>pg. maxkeep < pg_no pg \<and> pg_refs pg = 0) (cache_pages p))"

text \<open>
  The walk over the trunks marks the free pages up to \<open>dbsize\<close>; the mark array is the list of
  marked pages. A cycle of trunks makes the C loop run forever: the walk has fuel, and \<open>None\<close>
  means that it ran out.
\<close>

fun trunk_leaves :: "bytes \<Rightarrow> u32 \<Rightarrow> nat \<Rightarrow> u32 list" where
  "trunk_leaves d i 0 = []"
| "trunk_leaves d i (Suc n) = tdb_get_u32 (drop (leaf_off i) d) # trunk_leaves d (i + 1) n"

fun mark_free ::
  "nat \<Rightarrow> (nat \<Rightarrow> bool) \<Rightarrow> zbuild \<Rightarrow> tdb_pager \<Rightarrow> u32 \<Rightarrow> u32 \<Rightarrow> u32 list \<Rightarrow> (tdb_status \<times> u32 list \<times> tdb_pager) option" where
  "mark_free 0 ok z p dbsize trunk marks = None"
| "mark_free (Suc fuel) ok z p dbsize trunk marks =
     (if trunk = 0 then Some (TDB_OK, marks, p)
      else
        (case tdb_pager_get ok z p trunk of
           (rc, p1) \<Rightarrow>
             if rc \<noteq> TDB_OK then Some (rc, marks, p1)
             else
               (let d = page_data p1 trunk; lc = tdb_get_u32 (drop 5 d);
                    found = filter (\<lambda>q. q \<le> dbsize) (trunk # trunk_leaves d 0 (unat lc))
                in mark_free fuel ok z (tdb_pager_unref p1 trunk) dbsize (tdb_get_u32 (drop 1 d)) (marks @ found))))"

fun shrink_size :: "u32 list \<Rightarrow> nat \<Rightarrow> nat" where
  "shrink_size marks 0 = 0"
| "shrink_size marks (Suc n) =
     (if 2 \<le> Suc n \<and> word_of_nat (Suc n) \<in> set marks then shrink_size marks n else Suc n)"

fun free_all :: "(nat \<Rightarrow> bool) \<Rightarrow> zbuild \<Rightarrow> tdb_pager \<Rightarrow> u32 list \<Rightarrow> tdb_status \<times> tdb_pager" where
  "free_all ok z p [] = (TDB_OK, p)"
| "free_all ok z p (q # qs) =
     (case tdb_pager_free ok z p q of (rc, p1) \<Rightarrow> if rc \<noteq> TDB_OK then (rc, p1) else free_all ok z p1 qs)"

text \<open>The part after the walk: rebuild the free list below the new size, commit, checkpoint, truncate.\<close>

definition vacuum_shrink ::
  "(nat \<Rightarrow> bool) \<Rightarrow> zbuild \<Rightarrow> tdb_pager \<Rightarrow> u32 list \<Rightarrow> nat \<Rightarrow> tdb_status \<times> tdb_pager" where
  "vacuum_shrink ok z p marks newsize =
     (let kept = filter (\<lambda>q. q \<in> set marks) (map word_of_nat [2..<Suc newsize]);
          p1 = p\<lparr>phdr := (phdr p)\<lparr>h_freelist_head := 0, h_freelist_count := 0\<rparr>, hdr_dirty := True\<rparr>
      in
      case free_all ok z p1 kept of
        (rc, p2) \<Rightarrow>
          if rc \<noteq> TDB_OK then (rc, snd (tdb_pager_rollback ok z p2))
          else
            (case tdb_pager_commit ok z
                    (p2\<lparr>phdr := (phdr p2)\<lparr>h_db_size := word_of_nat newsize\<rparr>, hdr_dirty := True\<rparr>) of
               (rc, p3) \<Rightarrow>
                 if rc \<noteq> TDB_OK then (rc, p3)
                 else
                   (case tdb_pager_checkpoint ok z p3 of
                      (rc, p4) \<Rightarrow>
                        if rc \<noteq> TDB_OK then (rc, p4)
                        else
                          (let p5 = evict_above p4 (word_of_nat newsize) in
                           (TDB_OK, p5\<lparr>pfile := mem_truncate (pfile p5) (newsize * page_size p5)\<rparr>)))))"

definition tdb_pager_vacuum :: "nat \<Rightarrow> (nat \<Rightarrow> bool) \<Rightarrow> zbuild \<Rightarrow> tdb_pager \<Rightarrow> (tdb_status \<times> tdb_pager) option" where
  "tdb_pager_vacuum fuel ok z p =
     (if preadonly p then Some (TDB_READONLY, p)
      else if in_txn p then Some (TDB_MISUSE, p)
      else if h_db_size (phdr p) \<le> 1 \<or> h_freelist_count (phdr p) = 0 then Some (TDB_OK, p)
      else
        (case tdb_pager_checkpoint ok z p of
           (rc, p1) \<Rightarrow>
             if rc \<noteq> TDB_OK then Some (rc, p1)
             else
               (let p2 = snd (tdb_pager_begin p1); dbsize = h_db_size (phdr p2) in
                if \<not> ok (unat dbsize + 1) then Some (TDB_NOMEM, snd (tdb_pager_rollback ok z p2))
                else
                  (case mark_free fuel ok z p2 dbsize (h_freelist_head (phdr p2)) [] of
                     None \<Rightarrow> None
                   | Some (rc, marks, p3) \<Rightarrow>
                       if rc \<noteq> TDB_OK then Some (rc, snd (tdb_pager_rollback ok z p3))
                       else
                         (let newsize = shrink_size marks (unat dbsize) in
                          if newsize = unat dbsize then Some (TDB_OK, snd (tdb_pager_rollback ok z p3))
                          else Some (vacuum_shrink ok z p3 marks newsize))))))"

section \<open>Open and close\<close>

text \<open>
  Opening takes the two opened files: the database file and the log file. The header is probed
  in the database file, then the page size in the log header, then the header in the log. On an
  error the result is the status and the two files as they are left.
\<close>

definition new_hdr :: "nat \<Rightarrow> tdb_dbhdr" where
  "new_hdr ps =
     \<lparr>h_page_size = word_of_nat ps, h_change_counter = 0, h_db_size = 1, h_freelist_head = 0,
      h_freelist_count = 0, h_catalog_root = 0, h_schema_cookie = 0, h_text_encoding = 1,
      h_max_txnid = 0, h_reserved_per_page = 0\<rparr>"

definition probe_hdr :: "mem_handle \<Rightarrow> tdb_dbhdr option" where
  "probe_hdr db =
     (if TDB_HEADER_SIZE \<le> mem_filesize db \<and> has_magic (mem_read db TDB_HEADER_SIZE 0)
      then Some (hdr_parse (mem_read db TDB_HEADER_SIZE 0)) else None)"

definition probe_page_size :: "mem_handle \<Rightarrow> mem_handle \<Rightarrow> nat" where
  "probe_page_size db wlf =
     (case probe_hdr db of
        Some h \<Rightarrow> unat (h_page_size h)
      | None \<Rightarrow>
          (let wh = mem_read wlf TDB_WAL_HDR_SIZE 0 in
           if TDB_WAL_HDR_SIZE \<le> mem_filesize wlf \<and> tdb_get_u32 wh = TDB_WAL_MAGIC
           then unat (tdb_get_u32 (drop 8 wh)) else 4096))"

definition tdb_pager_close :: "(nat \<Rightarrow> bool) \<Rightarrow> zbuild \<Rightarrow> tdb_pager \<Rightarrow> mem_handle \<times> mem_handle" where
  "tdb_pager_close ok z p =
     (let p1 = (if preadonly p then p else snd (tdb_pager_checkpoint ok z p)) in (pfile p1, wfile (pwal p1)))"

definition pager_on :: "bool \<Rightarrow> mem_handle \<Rightarrow> tdb_wal \<Rightarrow> nat \<Rightarrow> tdb_dbhdr \<Rightarrow> tdb_pager" where
  "pager_on ro db w ps h =
     \<lparr>pfile = db, pwal = w, preadonly = ro, in_txn = False, page_size = ps, phdr = h, hdr_dirty = False,
      buckets = (\<lambda>_. []), ncached = 0, lru = [], psps = []\<rparr>"

definition tdb_pager_open ::
  "(nat \<Rightarrow> bool) \<Rightarrow> zbuild \<Rightarrow> bool \<Rightarrow> mem_handle \<Rightarrow> mem_handle \<Rightarrow> (tdb_status \<times> mem_handle \<times> mem_handle) + tdb_pager" where
  "tdb_pager_open ok z ro db wlf =
     (let ps = probe_page_size db wlf in
      case tdb_wal_open ok z wlf ps of
        (rc, w) \<Rightarrow>
          if rc \<noteq> TDB_OK then Inl (rc, db, wfile w)
          else if probe_hdr db = None \<and> \<not> ok ps then
            Inl (TDB_NOMEM, tdb_pager_close ok z (pager_on ro db w ps (new_hdr ps)))
          else
            (let have_hdr =
               (case probe_hdr db of
                  Some h \<Rightarrow> Some h
                | None \<Rightarrow>
                    (case tdb_wal_read_page ok z w (unat TDB_CATALOG_PGNO) of
                       (rc, r) \<Rightarrow>
                         if rc \<noteq> TDB_OK then None
                         else
                           (case r of
                              Some full \<Rightarrow> if has_magic full then Some (hdr_parse full) else None
                            | None \<Rightarrow> None)))
             in
             case have_hdr of
               Some h \<Rightarrow>
                 Inr (pager_on ro db w ps (if wdb_size w \<noteq> 0 then h\<lparr>h_db_size := wdb_size w\<rparr> else h))
             | None \<Rightarrow>
                 (let p = pager_on ro db w ps (new_hdr ps) in
                  if ro then Inr p
                  else
                    (case tdb_pager_commit ok z (snd (tdb_pager_begin p)) of
                       (rc, p2) \<Rightarrow> if rc \<noteq> TDB_OK then Inl (rc, tdb_pager_close ok z p2) else Inr p2))))"

end
