(* ===== verification/Tdb_Pager_View.thy ===== *)
theory Tdb_Pager_View
  imports Tdb_Pager
begin

text \<open>
  What a client of the pager sees: the header codec is a round trip; \<open>disk\<close> is the durable image
  of a page (log, then file), \<open>view\<close> is what reading the page through the cache gives, and
  \<open>pager_inv\<close> is the invariant that ties the cache to the durable images. Every cache operation
  is shown to keep it, with its exact effect on the view.
\<close>

section \<open>Header codec\<close>

lemma length_hdr_body [simp]: "length (hdr_body h) = 96"
  by (simp add: hdr_body_def TDB_MAGIC_def)

lemma length_hdr_serialize [simp]: "length (hdr_serialize h) = 100"
  by (simp add: hdr_serialize_def)

lemma has_magic_serialize [simp]: "has_magic (hdr_serialize h @ rest)"
  by (simp add: has_magic_def hdr_serialize_def hdr_body_def)

lemma hdr_size_field:
  fixes ps :: u32
  assumes "0 < ps" "ps \<le> 65536"
  shows "(let s = ucast (if 65536 \<le> ps then 0 else ucast ps :: u16) in if s = 0 then 65536 else s) = ps"
proof (cases "65536 \<le> ps")
  case True
  with assms show ?thesis by (simp add: Let_def)
next
  case False
  then have "unat ps < 2 ^ 16" by (simp add: word_le_nat_alt)
  then have "(ucast (ucast ps :: u16) :: u32) = ps"
    by (simp add: word_unat_eq_iff unsigned_ucast_eq take_bit_eq_mod unat_mod_distrib)
  with False assms show ?thesis by (simp add: Let_def)
qed

lemma hdr_parse_serialize:
  assumes "0 < h_page_size h" "h_page_size h \<le> 65536"
  shows "hdr_parse (hdr_serialize h @ rest) = h"
proof -
  have "hdr_parse (hdr_serialize h @ rest) = h\<lparr>h_page_size :=
      (let s = ucast (if 65536 \<le> h_page_size h then 0 else ucast (h_page_size h) :: u16) in if s = 0 then 65536 else s)\<rparr>"
    by (simp add: hdr_parse_def hdr_serialize_def hdr_body_def TDB_MAGIC_def get_put_u)
  then show ?thesis using hdr_size_field [OF assms] by simp
qed

section \<open>Chains\<close>

lemma chain_page_map:
  assumes "\<And>pg. pg_no (f pg) = pg_no pg"
  shows "chain_page (map (\<lambda>pg. if pg_no pg = q then f pg else pg) c) r =
    (if r = q then map_option f (chain_page c r) else chain_page c r)"
  using assms by (induction c) auto

lemma chain_page_in: "chain_page c q = Some pg \<Longrightarrow> pg \<in> set c \<and> pg_no pg = q"
  by (induction c) (auto split: if_splits)

lemma chain_page_None: "chain_page c q = None \<longleftrightarrow> q \<notin> pg_no ` set c"
  by (induction c) auto

lemma chain_page_iff: "distinct (map pg_no c) \<Longrightarrow> chain_page c q = Some pg \<longleftrightarrow> pg \<in> set c \<and> pg_no pg = q"
  by (induction c) (auto simp: image_iff)

lemma chain_drop_set: "set (chain_drop c q) \<subseteq> set c"
  by (induction c) auto

lemma chain_drop_no: "map pg_no (chain_drop c q) = remove1 q (map pg_no c)"
  by (induction c) auto

lemma chain_page_drop: "distinct (map pg_no c) \<Longrightarrow> chain_page (chain_drop c q) r = (if r = q then None else chain_page c r)"
  by (induction c) (auto simp: chain_page_None image_iff)

section \<open>The fields an operation leaves alone\<close>

definition rest :: "tdb_pager \<Rightarrow> mem_handle \<times> tdb_wal \<times> bool \<times> bool \<times> nat \<times> tdb_dbhdr \<times> bool \<times> pager_sp list" where
  "rest p = (pfile p, pwal p, preadonly p, in_txn p, page_size p, phdr p, hdr_dirty p, psps p)"

lemma rest_simps [simp]:
  "rest (lru_unlink p q) = rest p" "rest (lru_push_front p q) = rest p" "rest (page_upd p q f) = rest p"
  "rest (cache_remove p q) = rest p"
  by (simp_all add: rest_def lru_unlink_def lru_push_front_def page_upd_def cache_remove_def Let_def)

lemma rest_page_new: "page_new ok p q = Some p1 \<Longrightarrow> rest p1 = rest p"
  by (auto simp: rest_def page_new_def lru_push_front_def Let_def split: if_splits)

lemma rest_sel:
  assumes "rest p' = rest p"
  shows "pfile p' = pfile p" "pwal p' = pwal p" "preadonly p' = preadonly p" "in_txn p' = in_txn p"
    "page_size p' = page_size p" "phdr p' = phdr p" "hdr_dirty p' = hdr_dirty p" "psps p' = psps p"
  using assms by (simp_all add: rest_def)

lemma upd_sel [simp]:
  "pfile (page_upd p q f) = pfile p" "pwal (page_upd p q f) = pwal p" "preadonly (page_upd p q f) = preadonly p"
  "page_size (page_upd p q f) = page_size p" "phdr (page_upd p q f) = phdr p" "psps (page_upd p q f) = psps p"
  "lru (page_upd p q f) = lru p" "ncached (page_upd p q f) = ncached p"
  by (simp_all add: page_upd_def)

lemma remove_sel [simp]:
  "pfile (cache_remove p q) = pfile p" "pwal (cache_remove p q) = pwal p" "preadonly (cache_remove p q) = preadonly p"
  "page_size (cache_remove p q) = page_size p" "phdr (cache_remove p q) = phdr p" "psps (cache_remove p q) = psps p"
  "lru (cache_remove p q) = remove1 q (lru p)" "ncached (cache_remove p q) = ncached p - 1"
  by (simp_all add: cache_remove_def lru_unlink_def Let_def)

section \<open>The cache\<close>

definition cache_ok :: "tdb_pager \<Rightarrow> bool" where
  "cache_ok p \<longleftrightarrow>
     (\<forall>b. distinct (map pg_no (buckets p b)) \<and> (\<forall>pg \<in> set (buckets p b). bucket_of (pg_no pg) = b)) \<and>
     distinct (lru p) \<and> (\<forall>q. q \<in> set (lru p) \<longleftrightarrow> cache_lookup p q \<noteq> None) \<and> ncached p = length (lru p)"

lemma cache_okD:
  assumes "cache_ok p"
  shows "distinct (map pg_no (buckets p b))" "pg \<in> set (buckets p b) \<Longrightarrow> bucket_of (pg_no pg) = b"
    "distinct (lru p)" "q \<in> set (lru p) \<longleftrightarrow> cache_lookup p q \<noteq> None" "ncached p = length (lru p)"
  using assms by (auto simp: cache_ok_def)

lemma lookup_fields [simp]:
  "cache_lookup (p\<lparr>phdr := h\<rparr>) r = cache_lookup p r" "cache_lookup (p\<lparr>hdr_dirty := d\<rparr>) r = cache_lookup p r"
  "cache_lookup (p\<lparr>pwal := w\<rparr>) r = cache_lookup p r" "cache_lookup (p\<lparr>pfile := f\<rparr>) r = cache_lookup p r"
  "cache_lookup (p\<lparr>psps := s\<rparr>) r = cache_lookup p r" "cache_lookup (p\<lparr>in_txn := b\<rparr>) r = cache_lookup p r"
  "cache_lookup (lru_unlink p q) r = cache_lookup p r" "cache_lookup (lru_push_front p q) r = cache_lookup p r"
  by (simp_all add: cache_lookup_def lru_unlink_def lru_push_front_def)

lemma cache_ok_fields [simp]:
  "cache_ok (p\<lparr>phdr := h\<rparr>) = cache_ok p" "cache_ok (p\<lparr>hdr_dirty := d\<rparr>) = cache_ok p"
  "cache_ok (p\<lparr>pwal := w\<rparr>) = cache_ok p" "cache_ok (p\<lparr>pfile := f\<rparr>) = cache_ok p"
  "cache_ok (p\<lparr>psps := s\<rparr>) = cache_ok p" "cache_ok (p\<lparr>in_txn := b\<rparr>) = cache_ok p"
  by (simp_all add: cache_ok_def)

lemma lookup_no: "cache_lookup p q = Some pg \<Longrightarrow> pg_no pg = q"
  by (auto simp: cache_lookup_def dest: chain_page_in)

lemma lookup_upd:
  assumes "\<And>pg. pg_no (f pg) = pg_no pg"
  shows "cache_lookup (page_upd p q f) r = (if r = q then map_option f (cache_lookup p r) else cache_lookup p r)"
  by (simp add: cache_lookup_def page_upd_def chain_page_map [of f, OF assms])

lemma cache_ok_upd:
  assumes "\<And>pg. pg_no (f pg) = pg_no pg" and ok: "cache_ok p"
  shows "cache_ok (page_upd p q f)"
proof -
  let ?g = "\<lambda>pg. if pg_no pg = q then f pg else pg"
  have g: "pg_no (?g pg) = pg_no pg" for pg using assms(1) by simp
  then have no: "map pg_no (map ?g c) = map pg_no c" "pg_no ` ?g ` A = pg_no ` A" for c A
    by (simp_all only: map_map image_image o_def g)
  have b: "buckets (page_upd p q f) b = (if b = bucket_of q then map ?g (buckets p b) else buckets p b)" for b
    by (simp add: page_upd_def)
  have d: "distinct (map pg_no (buckets (page_upd p q f) b))" for b
    unfolding b by (simp only: no cache_okD(1) [OF ok] split: if_split) simp
  have "bucket_of n = b" if "n \<in> pg_no ` set (buckets (page_upd p q f) b)" for n b
    using that cache_okD(2) [OF ok, of _ b] unfolding b by (simp only: set_map no split: if_splits) auto
  then have "\<forall>pg \<in> set (buckets (page_upd p q f) b). bucket_of (pg_no pg) = b" for b by blast
  with d show ?thesis using ok lookup_upd [of f p q, OF assms(1)] by (simp add: cache_ok_def)
qed

lemma upd_absent: "cache_lookup p q = None \<Longrightarrow> page_upd p q f = p"
proof -
  assume "cache_lookup p q = None"
  then have "map (\<lambda>pg. if pg_no pg = q then f pg else pg) (buckets p (bucket_of q)) = buckets p (bucket_of q)"
    by (intro map_idI) (auto simp: cache_lookup_def chain_page_None)
  then show ?thesis by (simp add: page_upd_def)
qed

lemma lookup_remove:
  assumes "cache_ok p"
  shows "cache_lookup (cache_remove p q) r = (if r = q then None else cache_lookup p r)"
  using chain_page_drop [OF cache_okD(1) [OF assms]]
  by (simp add: cache_lookup_def cache_remove_def lru_unlink_def Let_def)

lemma cache_ok_remove:
  assumes ok: "cache_ok p" and "cache_lookup p q \<noteq> None"
  shows "cache_ok (cache_remove p q)"
proof -
  have b: "distinct (map pg_no (buckets (cache_remove p q) b))"
    "\<forall>pg \<in> set (buckets (cache_remove p q) b). bucket_of (pg_no pg) = b" for b
    using cache_okD(1,2) [OF ok] chain_drop_set [of "buckets p b" q]
    by (auto simp: cache_remove_def lru_unlink_def Let_def chain_drop_no)
  have "q \<in> set (lru p)" using assms by (simp add: cache_okD(4))
  then show ?thesis
    using b ok lookup_remove [OF ok, of q] by (simp add: cache_ok_def length_remove1 set_remove1_eq)
qed

lemma lookup_new:
  assumes "page_new ok p q = Some p1"
  shows "cache_lookup p1 r =
    (if r = q then Some \<lparr>pg_no = q, pg_data = replicate (page_size p) 0, pg_dirty = False, pg_refs = 0\<rparr>
     else cache_lookup p r)"
  using assms by (auto simp: page_new_def cache_lookup_def lru_push_front_def Let_def split: if_splits)

lemma cache_ok_new:
  assumes ok: "cache_ok p" and "cache_lookup p q = None" and new: "page_new a p q = Some p1"
  shows "cache_ok p1"
proof -
  have q: "q \<notin> pg_no ` set (buckets p (bucket_of q))" "q \<notin> set (lru p)"
    using assms(2) cache_okD(4) [OF ok, of q] by (simp_all add: cache_lookup_def chain_page_None)
  have l: "lru p1 = q # lru p" "ncached p1 = ncached p + 1"
    "buckets p1 = (buckets p)(bucket_of q := \<lparr>pg_no = q, pg_data = replicate (page_size p) 0, pg_dirty = False, pg_refs = 0\<rparr> #
       buckets p (bucket_of q))"
    using new by (auto simp: page_new_def lru_push_front_def Let_def split: if_splits)
  have "distinct (map pg_no (buckets p1 b))" "\<forall>pg \<in> set (buckets p1 b). bucket_of (pg_no pg) = b" for b
    using cache_okD(1,2) [OF ok] q(1) by (auto simp: l(3))
  then show ?thesis
    using q(2) ok lookup_new [OF new] by (simp add: cache_ok_def l)
qed

lemma cache_ok_touch:
  assumes ok: "cache_ok p" and "cache_lookup p q \<noteq> None"
  shows "cache_ok (lru_push_front (lru_unlink p q) q)"
proof -
  have "q \<in> set (lru p)" using assms by (simp add: cache_okD(4))
  then have "length (lru p) = Suc (length (remove1 q (lru p)))"
    using length_pos_if_in_set [of q "lru p"] by (simp add: length_remove1)
  then show ?thesis
    using ok assms(2) by (auto simp: cache_ok_def lru_push_front_def lru_unlink_def set_remove1_eq cache_lookup_def)
qed

section \<open>Durable images and the view\<close>

definition disk :: "zbuild \<Rightarrow> tdb_pager \<Rightarrow> u32 \<Rightarrow> bytes" where
  "disk z p q = snd (read_page_image all_ok z p q)"

definition view :: "zbuild \<Rightarrow> tdb_pager \<Rightarrow> u32 \<Rightarrow> bytes" where
  "view z p q = (case cache_lookup p q of Some pg \<Rightarrow> pg_data pg | None \<Rightarrow> disk z p q)"

definition is_dirty :: "tdb_pager \<Rightarrow> u32 \<Rightarrow> bool" where
  "is_dirty p q \<longleftrightarrow> (case cache_lookup p q of Some pg \<Rightarrow> pg_dirty pg | None \<Rightarrow> False)"

definition store_rep :: "zbuild \<Rightarrow> tdb_pager \<Rightarrow> wframe list \<Rightarrow> bool" where
  "store_rep z p fs \<longleftrightarrow>
     codec_ok z \<and> wal_rep z (pwal p) fs \<and> list_all (\<lambda>f. f_pgno f \<noteq> 0) fs \<and> mem_clean (pfile p) \<and>
     wpage_size (pwal p) = page_size p \<and> 100 \<le> page_size p"

lemma disk_cong: "pwal p' = pwal p \<Longrightarrow> pfile p' = pfile p \<Longrightarrow> page_size p' = page_size p \<Longrightarrow> disk z p' = disk z p"
  by (simp add: disk_def read_page_image_def fun_eq_iff split: prod.splits option.splits)

lemma disk_rest: "rest p' = rest p \<Longrightarrow> disk z p' = disk z p"
  by (intro disk_cong rest_sel)

lemma disk_fields [simp]:
  "disk z (page_upd p q f) = disk z p" "disk z (cache_remove p q) = disk z p"
  "disk z (p\<lparr>phdr := h\<rparr>) = disk z p" "disk z (p\<lparr>hdr_dirty := d\<rparr>) = disk z p"
  "disk z (p\<lparr>psps := s\<rparr>) = disk z p" "disk z (p\<lparr>in_txn := b\<rparr>) = disk z p"
  by (auto intro!: disk_cong)

lemma read_image_disk:
  assumes "read_page_image ok z p q = (TDB_OK, img)"
  shows "img = disk z p q"
  using assms
  by (auto simp: disk_def read_page_image_def tdb_wal_read_page_def Let_def split: prod.splits option.splits if_splits)

lemma store_read:
  assumes "store_rep z p fs"
  shows "tdb_wal_read_page all_ok z (pwal p) q = (TDB_OK, latest fs q)"
  using assms by (auto simp: store_rep_def intro!: wal_read_page)

lemma unat_pred: "(q :: u32) \<noteq> 0 \<Longrightarrow> unat (q - 1) = unat q - 1"
  by (simp add: unat_minus_one)

lemma disk_logged:
  assumes "store_rep z p fs" "q \<noteq> 0"
  shows "disk z p q = logged_page fs (fcontent (pfile p)) (page_size p) (unat q)"
proof -
  have "mem_ok (pfile p)" using assms(1) by (simp add: store_rep_def mem_clean_def)
  then show ?thesis
    using store_read [OF assms(1), of "unat q"] assms(2)
    by (simp add: disk_def read_page_image_def logged_page_def db_page_def mem_read_zread unat_pred split: option.splits)
qed

lemma length_disk:
  assumes "store_rep z p fs"
  shows "length (disk z p q) = page_size p"
proof (cases "latest fs (unat q)")
  case None
  have "mem_ok (pfile p)" using assms by (simp add: store_rep_def mem_clean_def)
  with None show ?thesis
    using store_read [OF assms, of "unat q"] by (simp add: disk_def read_page_image_def mem_read_zread)
next
  case (Some img)
  then obtain f where "f \<in> set fs" "img = f_page f" using latest_Some by blast
  then have "length img = page_size p" using assms by (auto simp: store_rep_def wal_rep_def list_all_iff frame_ok_def)
  with Some show ?thesis
    using store_read [OF assms, of "unat q"] by (simp add: disk_def read_page_image_def)
qed

text \<open>
  The invariant: every cached page has the page size, a clean one holds the durable image, and
  the pages a savepoint saved are still dirty; an inner savepoint saves all pages of an outer one.
\<close>

definition sps_ok :: "tdb_pager \<Rightarrow> bool" where
  "sps_ok p \<longleftrightarrow>
     (\<forall>sp \<in> set (psps p). \<forall>(q, d) \<in> set (sp_imgs sp). is_dirty p q \<and> length d = page_size p) \<and>
     sorted_wrt (\<lambda>a b. fst ` set (sp_imgs a) \<subseteq> fst ` set (sp_imgs b)) (psps p)"

definition pages_ok :: "zbuild \<Rightarrow> tdb_pager \<Rightarrow> bool" where
  "pages_ok z p \<longleftrightarrow>
     (\<forall>q pg. cache_lookup p q = Some pg \<longrightarrow>
        q \<noteq> 0 \<and> length (pg_data pg) = page_size p \<and> (\<not> pg_dirty pg \<longrightarrow> pg_data pg = disk z p q))"

definition pager_inv :: "zbuild \<Rightarrow> tdb_pager \<Rightarrow> bool" where
  "pager_inv z p \<longleftrightarrow> (\<exists>fs. store_rep z p fs) \<and> cache_ok p \<and> pages_ok z p \<and> sps_ok p"

lemma store_rep_rest: "rest p' = rest p \<Longrightarrow> store_rep z p' fs = store_rep z p fs"
  by (simp add: store_rep_def rest_def)

lemma pages_okD:
  assumes "pages_ok z p" "cache_lookup p q = Some pg"
  shows "q \<noteq> 0" "length (pg_data pg) = page_size p" "\<not> pg_dirty pg \<Longrightarrow> pg_data pg = disk z p q"
  using assms by (auto simp: pages_ok_def)

lemma view_clean: "pages_ok z p \<Longrightarrow> \<not> is_dirty p q \<Longrightarrow> view z p q = disk z p q"
  by (auto simp: view_def is_dirty_def pages_ok_def split: option.splits)

lemma length_view: "pager_inv z p \<Longrightarrow> length (view z p q) = page_size p"
  by (auto simp: view_def pager_inv_def length_disk pages_ok_def split: option.splits)

text \<open>
  \<open>keeps\<close> says that an operation changes nothing a client can see: same view, same dirty pages,
  same header and savepoints.
\<close>

definition keeps :: "zbuild \<Rightarrow> tdb_pager \<Rightarrow> tdb_pager \<Rightarrow> bool" where
  "keeps z p p' \<longleftrightarrow>
     pager_inv z p' \<and> rest p' = rest p \<and> view z p' = view z p \<and> is_dirty p' = is_dirty p"

lemma sps_ok_mono:
  assumes "sps_ok p" "psps p' = psps p" "page_size p' = page_size p" "\<And>q. is_dirty p q \<Longrightarrow> is_dirty p' q"
  shows "sps_ok p'"
  using assms by (fastforce simp: sps_ok_def)

lemma keepsI:
  assumes inv: "pager_inv z p" and "cache_ok p'" "rest p' = rest p"
    and look: "\<And>r. cache_lookup p' r = cache_lookup p r \<or>
      (\<exists>pg pg'. cache_lookup p r = Some pg \<and> cache_lookup p' r = Some pg' \<and> pg_data pg' = pg_data pg \<and> pg_dirty pg' = pg_dirty pg) \<or>
      (cache_lookup p r = None \<and> r \<noteq> 0 \<and>
         (\<exists>pg'. cache_lookup p' r = Some pg' \<and> pg_data pg' = disk z p r \<and> \<not> pg_dirty pg')) \<or>
      (cache_lookup p' r = None \<and> (\<exists>pg. cache_lookup p r = Some pg \<and> \<not> pg_dirty pg))"
  shows "keeps z p p'"
proof -
  note sel = rest_sel [OF assms(3)]
  note dk = disk_rest [OF assms(3)]
  obtain fs where st: "store_rep z p fs" and pages: "pages_ok z p" and sps: "sps_ok p"
    using inv by (auto simp: pager_inv_def)
  have v: "view z p' r = view z p r" and d: "is_dirty p' r = is_dirty p r" for r
    using look [of r] pages by (auto simp: view_def is_dirty_def dk dest: pages_okD(3) split: option.splits)
  have "pages_ok z p'"
    unfolding pages_ok_def
  proof (intro allI impI)
    fix q pg assume pg: "cache_lookup p' q = Some pg"
    show "q \<noteq> 0 \<and> length (pg_data pg) = page_size p' \<and> (\<not> pg_dirty pg \<longrightarrow> pg_data pg = disk z p' q)"
      using look [of q, unfolded pg] pages_okD [OF pages, of q] length_disk [OF st, of q]
      by (elim disjE exE conjE) (auto simp: sel dk dest!: sym [of "Some pg"])
  qed
  moreover have "sps_ok p'" using sps_ok_mono [OF sps sel(8) sel(5)] d by simp
  moreover have "store_rep z p' fs" using st store_rep_rest [OF assms(3)] by simp
  ultimately show ?thesis using assms(2,3) v d by (auto simp: keeps_def pager_inv_def)
qed

lemma keeps_refl: "pager_inv z p \<Longrightarrow> keeps z p p"
  by (simp add: keeps_def)

lemma keeps_trans: "keeps z p p' \<Longrightarrow> keeps z p' p'' \<Longrightarrow> keeps z p p''"
  by (simp add: keeps_def)

section \<open>Fetching and releasing pages\<close>

lemma trim_remove_keeps:
  assumes "pager_inv z p" "cache_lookup p q = Some pg" "\<not> pg_dirty pg"
  shows "keeps z p (cache_remove p q)"
proof -
  have ok: "cache_ok p" using assms(1) by (simp add: pager_inv_def)
  show ?thesis
    by (rule keepsI [OF assms(1)]) (use assms ok in \<open>auto simp: lookup_remove intro: cache_ok_remove\<close>)
qed

lemma trim_loop_keeps:
  assumes "pager_inv z p"
  shows "keeps z p (trim_loop p qs) \<and>
    (\<forall>r pg. cache_lookup p r = Some pg \<longrightarrow> pg_refs pg \<noteq> 0 \<longrightarrow> cache_lookup (trim_loop p qs) r = Some pg)"
  using assms
proof (induction qs arbitrary: p)
  case Nil
  then show ?case by (simp add: keeps_refl)
next
  case (Cons q qs)
  define p1 where "p1 = (case cache_lookup p q of
    Some pg \<Rightarrow> if pg_refs pg = 0 \<and> \<not> pg_dirty pg then cache_remove p q else p | None \<Rightarrow> p)"
  have ok: "cache_ok p" using Cons.prems by (simp add: pager_inv_def)
  have k: "keeps z p p1"
    using Cons.prems trim_remove_keeps [OF Cons.prems] by (auto simp: p1_def keeps_refl split: option.splits)
  have l: "cache_lookup p1 r = Some pg" if "cache_lookup p r = Some pg" "pg_refs pg \<noteq> 0" for r pg
    using that by (auto simp: p1_def lookup_remove [OF ok] split: option.splits)
  have eq: "trim_loop p (q # qs) = (if TDB_CACHE_SOFT_MAX < ncached p then trim_loop p1 qs else p)"
    by (simp add: p1_def split: option.splits)
  have inv1: "pager_inv z p1" using k by (simp add: keeps_def)
  show ?case
    using Cons.IH [OF inv1] keeps_trans [OF k] l Cons.prems keeps_refl unfolding eq by auto
qed

lemma upd_keeps:
  assumes "pager_inv z p" and f: "\<And>pg. pg_no (f pg) = pg_no pg" "\<And>pg. pg_data (f pg) = pg_data pg" "\<And>pg. pg_dirty (f pg) = pg_dirty pg"
  shows "keeps z p (page_upd p q f)"
proof (cases "cache_lookup p q")
  case None
  then show ?thesis using assms(1) by (simp add: upd_absent keeps_refl)
next
  case (Some pg)
  then show ?thesis
    using assms(1) cache_ok_upd [of f p q] f
    by (intro keepsI [OF assms(1)]) (auto simp: pager_inv_def lookup_upd)
qed

lemma unref_keeps: "pager_inv z p \<Longrightarrow> keeps z p (tdb_pager_unref p q)"
  unfolding tdb_pager_unref_def by (rule upd_keeps) auto

text \<open>
  Fetching a page never changes what a client sees, whether or not it succeeds; when it
  succeeds the page is in the cache and pinned, and no pinned page was evicted.
\<close>

lemma get_cached:
  assumes inv: "pager_inv z p" and c: "cache_lookup p q = Some pg"
  defines "p' \<equiv> page_upd (lru_push_front (lru_unlink p q) q) q (\<lambda>pg. pg\<lparr>pg_refs := pg_refs pg + 1\<rparr>)"
  shows "keeps z p p'" "cache_lookup p' r = (if r = q then Some (pg\<lparr>pg_refs := pg_refs pg + 1\<rparr>) else cache_lookup p r)"
proof -
  have "cache_ok (lru_push_front (lru_unlink p q) q)" using inv c by (simp add: pager_inv_def cache_ok_touch)
  then have k: "keeps z p (lru_push_front (lru_unlink p q) q)" by (intro keepsI [OF inv]) auto
  then have "pager_inv z (lru_push_front (lru_unlink p q) q)" by (simp add: keeps_def)
  from keeps_trans [OF k upd_keeps [OF this]] show "keeps z p p'" by (simp add: p'_def)
  show "cache_lookup p' r = (if r = q then Some (pg\<lparr>pg_refs := pg_refs pg + 1\<rparr>) else cache_lookup p r)"
    using c by (simp add: p'_def lookup_upd)
qed

lemma get_loaded:
  assumes inv: "pager_inv z p" and c: "cache_lookup p q = None" "q \<noteq> 0" and new: "page_new ok p q = Some p1"
    and p2: "p2 = page_upd p1 q (\<lambda>pg. pg\<lparr>pg_data := disk z p q, pg_refs := 1\<rparr>)"
  shows "keeps z p p2"
    "cache_lookup p2 r = (if r = q then Some \<lparr>pg_no = q, pg_data = disk z p q, pg_dirty = False, pg_refs = 1\<rparr> else cache_lookup p r)"
proof -
  show l: "cache_lookup p2 r = (if r = q then Some \<lparr>pg_no = q, pg_data = disk z p q, pg_dirty = False, pg_refs = 1\<rparr> else cache_lookup p r)" for r
    by (simp add: p2 lookup_upd lookup_new [OF new])
  have "cache_ok p1" using inv c new by (auto simp: pager_inv_def intro: cache_ok_new)
  then have ok: "cache_ok p2" unfolding p2 by (rule cache_ok_upd [rotated]) simp
  have rest: "rest p2 = rest p" using rest_page_new [OF new] by (simp add: p2)
  show "keeps z p p2" by (rule keepsI [OF inv ok rest]) (simp add: l c)
qed

lemma get_cases:
  assumes "tdb_pager_get ok z p q = (rc, p')"
  obtains (misuse) "q = 0" "rc = TDB_MISUSE" "p' = p"
  | (cached) pg where "q \<noteq> 0" "cache_lookup p q = Some pg" "rc = TDB_OK"
      "p' = page_upd (lru_push_front (lru_unlink p q) q) q (\<lambda>pg. pg\<lparr>pg_refs := pg_refs pg + 1\<rparr>)"
  | (nomem) "q \<noteq> 0" "cache_lookup p q = None" "rc = TDB_NOMEM" "p' = p"
  | (failed) p1 where "q \<noteq> 0" "cache_lookup p q = None" "page_new ok p q = Some p1" "rc \<noteq> TDB_OK" "p' = cache_remove p1 q"
  | (loaded) p1 where "q \<noteq> 0" "cache_lookup p q = None" "page_new ok p q = Some p1" "rc = TDB_OK"
      "p' = cache_trim (page_upd p1 q (\<lambda>pg. pg\<lparr>pg_data := disk z p q, pg_refs := 1\<rparr>))"
proof (cases "q = 0")
  case True
  show thesis by (rule misuse) (use assms True in \<open>simp_all add: tdb_pager_get_def\<close>)
next
  case q: False
  show thesis
  proof (cases "cache_lookup p q")
    case (Some pg)
    show thesis by (rule cached [OF q Some]) (use assms q Some in \<open>simp_all add: tdb_pager_get_def\<close>)
  next
    case None
    show thesis
    proof (cases "page_new ok p q")
      case new: None
      show thesis by (rule nomem [OF q None]) (use assms q None new in \<open>simp_all add: tdb_pager_get_def\<close>)
    next
      case (Some p1)
      obtain rc1 img where rd: "read_page_image ok z p1 q = (rc1, img)" by force
      show thesis
      proof (cases "rc1 = TDB_OK")
        case True
        with read_image_disk [of ok z p1 q img] rd disk_rest [OF rest_page_new [OF Some], of z]
        have img: "img = disk z p q" by simp
        show thesis
          by (rule loaded [OF q None Some])
             (use assms q None Some rd True img in \<open>simp_all add: tdb_pager_get_def\<close>)
      next
        case False
        show thesis
          by (rule failed [OF q None Some])
             (use assms q None Some rd False in \<open>simp_all add: tdb_pager_get_def split: if_splits\<close>)
      qed
    qed
  qed
qed

lemma get_keeps:
  assumes inv: "pager_inv z p" and get: "tdb_pager_get ok z p q = (rc, p')"
  shows "keeps z p p'"
    "rc = TDB_OK \<Longrightarrow> \<exists>pg. cache_lookup p' q = Some pg \<and> pg_refs pg \<noteq> 0"
    "cache_lookup p r = Some pg \<Longrightarrow> pg_refs pg \<noteq> 0 \<Longrightarrow> \<exists>pg'. cache_lookup p' r = Some pg' \<and> pg_refs pg' \<noteq> 0"
proof -
  have "keeps z p p' \<and> (rc = TDB_OK \<longrightarrow> (\<exists>pg. cache_lookup p' q = Some pg \<and> pg_refs pg \<noteq> 0)) \<and>
    (cache_lookup p r = Some pg \<longrightarrow> pg_refs pg \<noteq> 0 \<longrightarrow> (\<exists>pg'. cache_lookup p' r = Some pg' \<and> pg_refs pg' \<noteq> 0))"
    using get
  proof (cases rule: get_cases)
    case misuse
    then show ?thesis using inv by (simp add: keeps_refl)
  next
    case (cached pg)
    then show ?thesis using get_cached [OF inv cached(2)] by auto
  next
    case nomem
    then show ?thesis using inv by (simp add: keeps_refl)
  next
    case (failed p1)
    have ok: "cache_ok p1" using inv failed(2,3) by (auto simp: pager_inv_def intro: cache_ok_new)
    have l: "cache_lookup p' r = cache_lookup p r" for r
      using failed(2) by (simp add: failed(5) lookup_remove [OF ok] lookup_new [OF failed(3)])
    have "cache_ok p'" using ok by (simp add: failed(5) cache_ok_remove lookup_new [OF failed(3)])
    then show ?thesis
      using keepsI [OF inv, of p'] l rest_page_new [OF failed(3)] failed(4) by (auto simp: failed(5))
  next
    case (loaded p1)
    define p2 where "p2 = page_upd p1 q (\<lambda>pg. pg\<lparr>pg_data := disk z p q, pg_refs := 1\<rparr>)"
    have p': "p' = trim_loop p2 (rev (lru p2))" using loaded(5) by (simp add: p2_def cache_trim_def)
    note g = get_loaded [OF inv loaded(2,1,3) p2_def]
    then have "pager_inv z p2" by (simp add: keeps_def)
    note t = trim_loop_keeps [OF this, of "rev (lru p2)", folded p']
    have "\<exists>pg'. cache_lookup p' r = Some pg' \<and> pg_refs pg' \<noteq> 0" if "cache_lookup p r = Some pg" "pg_refs pg \<noteq> 0"
    proof -
      have "cache_lookup p2 r = Some pg" using that(1) g(2) [of r] loaded(2) by auto
      then show ?thesis using t that(2) by blast
    qed
    moreover have "\<exists>pg'. cache_lookup p' q = Some pg' \<and> pg_refs pg' \<noteq> 0" using t g(2) [of q] by auto
    moreover have "keeps z p p'" using keeps_trans [OF g(1)] t by blast
    ultimately show ?thesis by blast
  qed
  then show "keeps z p p'"
    "rc = TDB_OK \<Longrightarrow> \<exists>pg. cache_lookup p' q = Some pg \<and> pg_refs pg \<noteq> 0"
    "cache_lookup p r = Some pg \<Longrightarrow> pg_refs pg \<noteq> 0 \<Longrightarrow> \<exists>pg'. cache_lookup p' r = Some pg' \<and> pg_refs pg' \<noteq> 0"
    by blast+
qed

end
