(* ===== verification/Tdb_Pager_Txn.thy ===== *)
theory Tdb_Pager_Txn
  imports Tdb_Pager_View
begin

text \<open>
  Transactions of the pager: the exact effect of every operation a client may call inside a
  transaction on the view and on the dirty pages, the invariant along any sequence of them, and
  what commit, rollback, savepoints, checkpoint and a crash make of it.
\<close>

section \<open>Modifying pages\<close>

definition edits :: "zbuild \<Rightarrow> tdb_pager \<Rightarrow> u32 \<Rightarrow> bytes \<Rightarrow> tdb_pager \<Rightarrow> bool" where
  "edits z p q d p' \<longleftrightarrow>
     pager_inv z p' \<and> disk z p' = disk z p \<and> view z p' = (view z p)(q := d) \<and> is_dirty p' = (is_dirty p)(q := True) \<and>
     pfile p' = pfile p \<and> pwal p' = pwal p \<and> preadonly p' = preadonly p \<and> page_size p' = page_size p \<and> psps p' = psps p"

lemma editsI:
  assumes inv: "pager_inv z p" and "cache_ok p'"
    and sel: "pfile p' = pfile p" "pwal p' = pwal p" "preadonly p' = preadonly p" "page_size p' = page_size p" "psps p' = psps p"
    and look: "\<And>r. r \<noteq> q \<Longrightarrow> cache_lookup p' r = cache_lookup p r" "cache_lookup p' q = Some pg'"
    and pg': "pg_dirty pg'" "length (pg_data pg') = page_size p" "q \<noteq> 0"
  shows "edits z p q (pg_data pg') p'"
proof -
  obtain fs where st: "store_rep z p fs" and pages: "pages_ok z p" and sps: "sps_ok p"
    using inv by (auto simp: pager_inv_def)
  have dk: "disk z p' = disk z p" by (intro disk_cong sel)
  have lk: "cache_lookup p' r = (if r = q then Some pg' else cache_lookup p r)" for r using look by simp
  have v: "view z p' = (view z p)(q := pg_data pg')" and d: "is_dirty p' = (is_dirty p)(q := True)"
    using pg'(1) by (auto simp: view_def is_dirty_def lk dk fun_eq_iff split: option.splits)
  have "pages_ok z p'" using pages pg' by (auto simp: pages_ok_def lk dk sel split: if_splits)
  moreover have "sps_ok p'" by (rule sps_ok_mono [OF sps]) (simp_all add: sel d)
  moreover have "store_rep z p' fs" using st by (simp add: store_rep_def sel)
  ultimately show ?thesis using assms(2) v d dk sel by (auto simp: edits_def pager_inv_def)
qed

lemma upd_edits:
  assumes inv: "pager_inv z p" and pg: "cache_lookup p q = Some pg"
    and f: "\<And>pg. pg_no (f pg) = pg_no pg" "pg_dirty (f pg)" "length (pg_data (f pg)) = page_size p"
  shows "edits z p q (pg_data (f pg)) (page_upd p q f)"
proof (rule editsI [OF inv])
  show "cache_ok (page_upd p q f)" using inv by (intro cache_ok_upd f(1)) (simp add: pager_inv_def)
  show "q \<noteq> 0" using inv pg by (auto simp: pager_inv_def dest: pages_okD)
qed (use pg f in \<open>simp_all add: lookup_upd\<close>)

lemma upd_upd:
  assumes "\<And>pg. pg_no (f pg) = pg_no pg"
  shows "page_upd (page_upd p q f) q g = page_upd p q (\<lambda>pg. g (f pg))"
proof -
  have "(\<lambda>pg. if pg_no pg = q then g pg else pg) \<circ> (\<lambda>pg. if pg_no pg = q then f pg else pg) =
    (\<lambda>pg. if pg_no pg = q then g (f pg) else pg)"
    using assms by (auto simp: fun_eq_iff)
  then show ?thesis by (simp add: page_upd_def)
qed

lemma put_put: "page_put (page_put p q o1 b1) q o2 b2 = page_upd p q (\<lambda>pg. pg\<lparr>pg_data := patch o2 b2 (patch o1 b1 (pg_data pg))\<rparr>)"
  by (simp add: page_put_def upd_upd)

text \<open>A page that is fetched, patched and marked, the way every writer uses the pager.\<close>

lemma write_edits:
  assumes inv: "pager_inv z p" and pg: "cache_lookup p q = Some pg" and "\<not> preadonly p"
    and "length (g (pg_data pg)) = page_size p"
  shows "edits z p q (g (pg_data pg)) (snd (tdb_pager_write (page_upd p q (\<lambda>pg. pg\<lparr>pg_data := g (pg_data pg)\<rparr>)) q))"
  using upd_edits [OF inv pg, of "\<lambda>pg. pg\<lparr>pg_data := g (pg_data pg), pg_dirty := True\<rparr>"] assms(3,4)
  by (simp add: tdb_pager_write_def upd_upd)

lemma edits_keeps: "edits z p q d p' \<Longrightarrow> keeps z p' p'' \<Longrightarrow> edits z p q d p''"
  using disk_rest [of p'' p' z] by (auto simp: edits_def keeps_def dest: rest_sel)

lemma keeps_edits: "keeps z p p' \<Longrightarrow> edits z p' q d p'' \<Longrightarrow> edits z p q d p''"
  using disk_rest [of p' p z] by (auto simp: edits_def keeps_def dest: rest_sel)

section \<open>The header in memory\<close>

lemma inv_hdr [simp]:
  "pager_inv z (p\<lparr>phdr := h\<rparr>) = pager_inv z p" "pager_inv z (p\<lparr>hdr_dirty := b\<rparr>) = pager_inv z p"
  "pager_inv z (p\<lparr>in_txn := b\<rparr>) = pager_inv z p"
  "view z (p\<lparr>phdr := h\<rparr>) = view z p" "view z (p\<lparr>hdr_dirty := b\<rparr>) = view z p" "view z (p\<lparr>in_txn := b\<rparr>) = view z p"
  "view z (p\<lparr>psps := s\<rparr>) = view z p"
  "is_dirty (p\<lparr>phdr := h\<rparr>) = is_dirty p" "is_dirty (p\<lparr>hdr_dirty := b\<rparr>) = is_dirty p" "is_dirty (p\<lparr>in_txn := b\<rparr>) = is_dirty p"
  "is_dirty (p\<lparr>psps := s\<rparr>) = is_dirty p"
  by (simp_all add: pager_inv_def pages_ok_def sps_ok_def store_rep_def view_def is_dirty_def fun_eq_iff split: option.splits)

lemma edits_hdr [simp]:
  "edits z p q d (p'\<lparr>phdr := h\<rparr>) = edits z p q d p'" "edits z p q d (p'\<lparr>hdr_dirty := b\<rparr>) = edits z p q d p'"
  by (simp_all add: edits_def)

section \<open>Allocation of a fresh page\<close>

definition take_number :: "tdb_pager \<Rightarrow> u32 \<Rightarrow> u32 \<times> tdb_pager" where
  "take_number p q0 =
     (if q0 = 0 then (h_db_size (phdr p) + 1, p\<lparr>phdr := (phdr p)\<lparr>h_db_size := h_db_size (phdr p) + 1\<rparr>, hdr_dirty := True\<rparr>)
      else (q0, p))"

lemma alloc_fresh_edits:
  assumes inv: "pager_inv z p" and al: "alloc_fresh ok p q0 = (TDB_OK, q, p')" and "q \<noteq> 0"
  shows "edits z p q (replicate (page_size p) 0) p'" "q = fst (take_number p q0)" "phdr p' = phdr (snd (take_number p q0))"
proof -
  obtain p1 where t: "take_number p q0 = (q, p1)"
    using al by (auto simp: alloc_fresh_def take_number_def Let_def split: if_splits option.splits)
  have ok: "cache_ok p" using inv by (simp add: pager_inv_def)
  have p1: "pager_inv z p1" "cache_ok p1" "cache_lookup p1 = cache_lookup p" "pfile p1 = pfile p" "pwal p1 = pwal p"
    "preadonly p1 = preadonly p" "page_size p1 = page_size p" "psps p1 = psps p"
    using t inv ok by (auto simp: take_number_def fun_eq_iff split: if_splits)
  define p2 where "p2 = (case cache_lookup p1 q of Some _ \<Rightarrow> cache_remove p1 q | None \<Rightarrow> p1)"
  obtain p3 where new: "page_new ok p2 q = Some p3" and p': "p' = page_upd p3 q (\<lambda>pg. pg\<lparr>pg_refs := 1, pg_dirty := True\<rparr>)"
    using al t by (auto simp: alloc_fresh_def take_number_def p2_def Let_def split: if_splits option.splits)
  have rest2: "rest p2 = rest p1" by (simp add: p2_def split: option.splits)
  have l2: "cache_lookup p2 r = (if r = q then None else cache_lookup p r)" for r
    using p1(2,3) by (auto simp: p2_def lookup_remove split: option.splits)
  have "cache_ok p2" using p1(2) cache_ok_remove [OF p1(2), of q] by (auto simp: p2_def split: option.splits)
  then have "cache_ok p3" using new l2 by (auto intro: cache_ok_new)
  then have ok': "cache_ok p'" unfolding p' by (intro cache_ok_upd) simp_all
  have rest3: "rest p3 = rest p1" using rest_page_new [OF new] rest2 by simp
  note sel = rest_sel [OF rest3]
  have l': "cache_lookup p' r = (if r = q then Some \<lparr>pg_no = q, pg_data = replicate (page_size p) 0, pg_dirty = True, pg_refs = 1\<rparr>
      else cache_lookup p r)" for r
    using l2 rest_sel(5) [OF rest2] p1(7) by (simp add: p' lookup_upd lookup_new [OF new])
  have "edits z p q (pg_data \<lparr>pg_no = q, pg_data = replicate (page_size p) 0, pg_dirty = True, pg_refs = 1\<rparr>) p'"
    by (rule editsI [OF inv ok']) (use l' p1 sel assms(3) in \<open>simp_all add: p'\<close>)
  then show "edits z p q (replicate (page_size p) 0) p'" by simp
  show "q = fst (take_number p q0)" using t by simp
  show "phdr p' = phdr (snd (take_number p q0))" using t sel by (simp add: p')
qed

section \<open>What every operation inside a transaction keeps\<close>

definition evolves :: "zbuild \<Rightarrow> tdb_pager \<Rightarrow> tdb_pager \<Rightarrow> bool" where
  "evolves z p p' \<longleftrightarrow>
     pager_inv z p' \<and> disk z p' = disk z p \<and> pfile p' = pfile p \<and> pwal p' = pwal p \<and> preadonly p' = preadonly p \<and>
     page_size p' = page_size p \<and> psps p' = psps p \<and> (\<forall>r. is_dirty p r \<longrightarrow> is_dirty p' r)"

lemma evolves_refl: "pager_inv z p \<Longrightarrow> evolves z p p"
  by (simp add: evolves_def)

lemma evolves_trans: "evolves z p p' \<Longrightarrow> evolves z p' p'' \<Longrightarrow> evolves z p p''"
  by (simp add: evolves_def)

lemma keeps_evolves: "keeps z p p' \<Longrightarrow> evolves z p p'"
  using disk_rest [of p' p z] by (auto simp: evolves_def keeps_def dest: rest_sel)

lemma edits_evolves: "edits z p q d p' \<Longrightarrow> evolves z p p'"
  by (auto simp: evolves_def edits_def)

lemma evolves_hdr [simp]:
  "evolves z p (p'\<lparr>phdr := h\<rparr>) = evolves z p p'" "evolves z p (p'\<lparr>hdr_dirty := b\<rparr>) = evolves z p p'"
  "evolves z p (p'\<lparr>in_txn := b\<rparr>) = evolves z p p'"
  by (simp_all add: evolves_def)

section \<open>The free list\<close>

lemma cached_view: "cache_lookup p q = Some pg \<Longrightarrow> pg_data pg = view z p q" "cache_lookup p q = Some pg \<Longrightarrow> page_data p q = view z p q"
  by (simp_all add: view_def page_data_def)

lemma get_view:
  assumes inv: "pager_inv z p" and get: "tdb_pager_get ok z p q = (TDB_OK, p1)"
  obtains pg where "keeps z p p1" "pager_inv z p1" "cache_lookup p1 q = Some pg" "pg_data pg = view z p q"
    "page_data p1 q = view z p q" "view z p1 = view z p" "phdr p1 = phdr p" "preadonly p1 = preadonly p"
    "page_size p1 = page_size p" "q \<noteq> 0"
proof -
  note k = get_keeps [OF inv get]
  obtain pg where pg: "cache_lookup p1 q = Some pg" using k(2) by auto
  have inv1: "pager_inv z p1" and v: "view z p1 = view z p" and "rest p1 = rest p" using k(1) by (simp_all add: keeps_def)
  then show thesis
    using that [OF k(1) inv1 pg] pages_okD(1) [of z p1 q pg] pg cached_view [OF pg, of z] rest_sel [of p1 p]
    by (simp add: pager_inv_def)
qed

text \<open>
  Taking a page off the list: nothing to take, an error with nothing changed, the last leaf of
  the first trunk, or the trunk itself.
\<close>

lemma alloc_pop_cases:
  assumes inv: "pager_inv z p" and ro: "\<not> preadonly p" and pop: "alloc_pop ok z p = (rc, q, p')"
  defines "head \<equiv> h_freelist_head (phdr p)"
  defines "d \<equiv> view z p head"
  defines "lc \<equiv> tdb_get_u32 (drop 5 d)"
  obtains (empty) "head = 0" "rc = TDB_OK" "q = 0" "p' = p"
  | (error) "head \<noteq> 0" "rc \<noteq> TDB_OK" "keeps z p p'"
  | (leaf) "head \<noteq> 0" "rc = TDB_OK" "lc \<noteq> 0" "q = tdb_get_u32 (drop (leaf_off (lc - 1)) d)"
      "edits z p head (patch 5 (tdb_put_u32 (lc - 1)) d) p'"
      "phdr p' = (phdr p)\<lparr>h_freelist_count := h_freelist_count (phdr p) - 1\<rparr>"
  | (trunk) "head \<noteq> 0" "rc = TDB_OK" "lc = 0" "q = head" "pager_inv z p'" "evolves z p p'" "view z p' = view z p" "is_dirty p' = is_dirty p"
      "phdr p' = (phdr p)\<lparr>h_freelist_head := tdb_get_u32 (drop 1 d), h_freelist_count := h_freelist_count (phdr p) - 1\<rparr>"
proof (cases "head = 0")
  case True
  show thesis by (rule empty [OF True]) (use pop True in \<open>simp_all add: alloc_pop_def head_def\<close>)
next
  case head: False
  obtain rc1 p1 where get: "tdb_pager_get ok z p head = (rc1, p1)" by force
  show thesis
  proof (cases "rc1 = TDB_OK")
    case False
    show thesis
      by (rule error [OF head])
         (use pop head get False get_keeps(1) [OF inv get] in \<open>simp_all add: alloc_pop_def head_def [symmetric]\<close>)
  next
    case True
    obtain pg where k: "keeps z p p1" "pager_inv z p1" "cache_lookup p1 head = Some pg" "pg_data pg = d"
      "page_data p1 head = d" "view z p1 = view z p" "phdr p1 = phdr p" "preadonly p1 = preadonly p" "page_size p1 = page_size p"
      using get_view [OF inv get [unfolded True]] unfolding d_def by metis
    have ld: "length d = page_size p" "100 \<le> page_size p"
      using length_view [OF inv] inv by (auto simp: d_def pager_inv_def store_rep_def)
    show thesis
    proof (cases "lc = 0")
      case lc: False
      define p2 where "p2 = snd (tdb_pager_write (page_put p1 head 5 (tdb_put_u32 (lc - 1))) head)"
      have e: "edits z p1 head (patch 5 (tdb_put_u32 (lc - 1)) d) p2"
        unfolding p2_def page_put_def
        using write_edits [OF k(2,3), of "patch 5 (tdb_put_u32 (lc - 1))"] ro ld k(4,8,9) by simp
      then have "pager_inv z p2" by (simp add: edits_def)
      with e k(1) have e': "edits z p head (patch 5 (tdb_put_u32 (lc - 1)) d) (tdb_pager_unref p2 head)"
        by (blast intro: edits_keeps keeps_edits unref_keeps)
      have h: "phdr (tdb_pager_unref p2 head) = phdr p"
        using k(7) by (simp add: p2_def tdb_pager_unref_def tdb_pager_write_def page_put_def)
      have "rc = TDB_OK \<and> q = tdb_get_u32 (drop (leaf_off (lc - 1)) d) \<and>
          p' = (tdb_pager_unref p2 head)\<lparr>phdr := (phdr (tdb_pager_unref p2 head))\<lparr>h_freelist_count :=
            h_freelist_count (phdr (tdb_pager_unref p2 head)) - 1\<rparr>, hdr_dirty := True\<rparr>"
        using pop head get True lc k(5)
        by (auto simp: alloc_pop_def head_def [symmetric] Let_def lc_def p2_def word_gt_0)
      then show thesis using e' h by (intro leaf [OF head _ lc]) simp_all
    next
      case lc: True
      define p2 where "p2 = tdb_pager_unref (p1\<lparr>phdr := (phdr p1)\<lparr>h_freelist_head := tdb_get_u32 (drop 1 d)\<rparr>\<rparr>) head"
      have k2: "keeps z (p1\<lparr>phdr := (phdr p1)\<lparr>h_freelist_head := tdb_get_u32 (drop 1 d)\<rparr>\<rparr>) p2"
        unfolding p2_def using k(2) by (intro unref_keeps) simp
      then have v2: "pager_inv z p2" "view z p2 = view z p" "is_dirty p2 = is_dirty p"
        using k(1) by (simp_all add: keeps_def)
      have ev: "evolves z p p2"
        using keeps_evolves [OF k(1)] keeps_evolves [OF k2] by (auto simp: evolves_def)
      have h: "phdr p2 = (phdr p)\<lparr>h_freelist_head := tdb_get_u32 (drop 1 d)\<rparr>"
        using k(7) by (simp add: p2_def tdb_pager_unref_def)
      have "rc = TDB_OK \<and> q = head \<and>
          p' = p2\<lparr>phdr := (phdr p2)\<lparr>h_freelist_count := h_freelist_count (phdr p2) - 1\<rparr>, hdr_dirty := True\<rparr>"
        using pop head get True lc k(5)
        by (auto simp: alloc_pop_def head_def [symmetric] Let_def lc_def p2_def)
      then show thesis using v2 ev h by (intro trunk [OF head _ lc]) simp_all
    qed
  qed
qed

lemma inv_page_size: "pager_inv z p \<Longrightarrow> 100 \<le> page_size p \<and> page_size p < 2 ^ 32"
  by (auto simp: pager_inv_def store_rep_def wal_rep_def wal_base_def)

lemma per_trunk_nat:
  assumes "100 \<le> page_size p" "page_size p < 2 ^ 32"
  shows "unat (per_trunk p) = (page_size p - 9) div 4"
proof -
  have "unat (word_of_nat (page_size p) - 9 :: u32) = page_size p - 9"
    using assms by (subst unat_sub) (simp_all add: word_le_nat_alt unat_of_nat)
  then show ?thesis by (simp add: per_trunk_def unat_div_distrib)
qed

lemma leaf_off_nat:
  assumes "4 * unat i < 2 ^ 32"
  shows "leaf_off i = 9 + 4 * unat i"
  using assms by (simp add: leaf_off_def unat_mult_lem [THEN iffD1] mult.commute [of 4])

lemma leaf_in_page:
  assumes "pager_inv z p" "lc < per_trunk p"
  shows "leaf_off lc = 9 + 4 * unat lc" "leaf_off lc + 4 \<le> page_size p"
proof -
  note ps = inv_page_size [OF assms(1)]
  have "unat lc < (page_size p - 9) div 4" using assms(2) ps by (simp add: word_less_nat_alt per_trunk_nat)
  then have b: "4 * unat lc + 4 \<le> page_size p - 9" by linarith
  then have "4 * unat lc < 2 ^ 32" using ps by linarith
  from leaf_off_nat [OF this] b ps show "leaf_off lc = 9 + 4 * unat lc" "leaf_off lc + 4 \<le> page_size p"
    by linarith+
qed

definition trunk_page :: "nat \<Rightarrow> u32 \<Rightarrow> bytes" where
  "trunk_page ps next = [0xFE] @ tdb_put_u32 next @ tdb_put_u32 0 @ replicate (ps - 9) 0"

lemma free_trunk_cases:
  assumes inv: "pager_inv z p" and ro: "\<not> preadonly p" and fr: "free_trunk ok z p q = (rc, p')"
  obtains (error) "rc \<noteq> TDB_OK" "keeps z p p'"
  | (trunk) "rc = TDB_OK" "q \<noteq> 0" "edits z p q (trunk_page (page_size p) (h_freelist_head (phdr p))) p'"
      "phdr p' = (phdr p)\<lparr>h_freelist_head := q, h_freelist_count := h_freelist_count (phdr p) + 1\<rparr>"
proof -
  obtain rc1 p1 where get: "tdb_pager_get ok z p q = (rc1, p1)" by force
  show thesis
  proof (cases "rc1 = TDB_OK")
    case False
    show thesis by (rule error) (use fr get False get_keeps(1) [OF inv get] in \<open>simp_all add: free_trunk_def\<close>)
  next
    case True
    let ?d = "trunk_page (page_size p) (h_freelist_head (phdr p))"
    obtain pg where k: "keeps z p p1" "pager_inv z p1" "cache_lookup p1 q = Some pg" "pg_data pg = view z p q"
      "phdr p1 = phdr p" "preadonly p1 = preadonly p" "page_size p1 = page_size p" "q \<noteq> 0"
      using get_view [OF inv get [unfolded True]] by metis
    define p2 where "p2 = snd (tdb_pager_write (page_put p1 q 0 ?d) q)"
    have ld: "length ?d = page_size p" using inv_page_size [OF inv] by (simp add: trunk_page_def)
    have "patch 0 ?d (pg_data pg) = ?d"
      using ld length_view [OF inv, of q] k(4) by (simp add: patch_def)
    then have e: "edits z p1 q ?d p2"
      unfolding p2_def page_put_def
      using write_edits [OF k(2,3), of "patch 0 ?d"] ro ld k(6,7) by simp
    then have "pager_inv z p2" by (simp add: edits_def)
    with e k(1) have e': "edits z p q ?d (tdb_pager_unref p2 q)"
      by (blast intro: edits_keeps keeps_edits unref_keeps)
    have h: "phdr (tdb_pager_unref p2 q) = phdr p"
      using k(5) by (simp add: p2_def tdb_pager_unref_def tdb_pager_write_def page_put_def)
    have "rc = TDB_OK \<and> p' = (tdb_pager_unref p2 q)\<lparr>phdr := (phdr (tdb_pager_unref p2 q))\<lparr>h_freelist_head := q,
        h_freelist_count := h_freelist_count (phdr (tdb_pager_unref p2 q)) + 1\<rparr>, hdr_dirty := True\<rparr>"
      using fr get True k(5,7) by (auto simp: free_trunk_def Let_def p2_def trunk_page_def)
    then show thesis using e' h k(8) by (intro trunk) simp_all
  qed
qed

text \<open>Freeing a page: a new leaf of the first trunk, or a new trunk.\<close>

lemma free_cases:
  assumes inv: "pager_inv z p" and fr: "tdb_pager_free ok z p q = (rc, p')"
  defines "head \<equiv> h_freelist_head (phdr p)"
  defines "d \<equiv> view z p head"
  defines "lc \<equiv> tdb_get_u32 (drop 5 d)"
  obtains (error) "rc \<noteq> TDB_OK" "keeps z p p'"
  | (leaf) "rc = TDB_OK" "q \<noteq> 0" "q \<noteq> 1" "head \<noteq> 0" "lc < per_trunk p"
      "edits z p head (patch 5 (tdb_put_u32 (lc + 1)) (patch (leaf_off lc) (tdb_put_u32 q) d)) p'"
      "phdr p' = (phdr p)\<lparr>h_freelist_count := h_freelist_count (phdr p) + 1\<rparr>"
  | (trunk) "rc = TDB_OK" "q \<noteq> 0" "q \<noteq> 1" "head = 0 \<or> \<not> lc < per_trunk p" "edits z p q (trunk_page (page_size p) head) p'"
      "phdr p' = (phdr p)\<lparr>h_freelist_head := q, h_freelist_count := h_freelist_count (phdr p) + 1\<rparr>"
proof (cases "preadonly p \<or> q = 0 \<or> q = 1")
  case True
  then have "rc \<noteq> TDB_OK \<and> p' = p" using fr by (cases "preadonly p") (auto simp: tdb_pager_free_def)
  then show thesis using error keeps_refl [OF inv] by blast
next
  case False
  then have ro: "\<not> preadonly p" and q: "q \<noteq> 0" "q \<noteq> 1" by simp_all
  show thesis
  proof (cases "head = 0")
    case True
    then have ft: "free_trunk ok z p q = (rc, p')" using fr ro q by (simp add: tdb_pager_free_def head_def)
    from inv ro ft show thesis
      by (cases rule: free_trunk_cases) (use True q error trunk in \<open>auto simp: head_def\<close>)
  next
    case head: False
    obtain rc1 p1 where get: "tdb_pager_get ok z p head = (rc1, p1)" by force
    show thesis
    proof (cases "rc1 = TDB_OK")
      case False
      show thesis
        by (rule error)
           (use fr get False ro q head get_keeps(1) [OF inv get] in \<open>simp_all add: tdb_pager_free_def head_def [symmetric]\<close>)
    next
      case True
      obtain pg where k: "keeps z p p1" "pager_inv z p1" "cache_lookup p1 head = Some pg" "pg_data pg = d"
        "page_data p1 head = d" "view z p1 = view z p" "phdr p1 = phdr p" "preadonly p1 = preadonly p" "page_size p1 = page_size p"
        using get_view [OF inv get [unfolded True]] unfolding d_def by metis
      have ld: "length d = page_size p" using length_view [OF inv] by (simp add: d_def)
      show thesis
      proof (cases "lc < per_trunk p")
        case lc: False
        note u = unref_keeps [OF k(2), of head]
        have inv2: "pager_inv z (tdb_pager_unref p1 head)" using u by (simp add: keeps_def)
        have s: "phdr (tdb_pager_unref p1 head) = phdr p" "page_size (tdb_pager_unref p1 head) = page_size p"
          "\<not> preadonly (tdb_pager_unref p1 head)"
          using k(7-9) ro by (simp_all add: tdb_pager_unref_def)
        have ft: "free_trunk ok z (tdb_pager_unref p1 head) q = (rc, p')"
          using fr get True ro q head k(5) lc by (simp add: tdb_pager_free_def head_def [symmetric] lc_def)
        from inv2 s(3) ft show thesis
        proof (cases rule: free_trunk_cases)
          case e: error
          show thesis by (rule error [OF e(1)]) (rule keeps_trans [OF keeps_trans [OF k(1) u] e(2)])
        next
          case n: trunk
          from keeps_edits [OF keeps_trans [OF k(1) u] n(3)] n lc s show thesis
            by (intro trunk) (auto simp: head_def q)
        qed
      next
        case lc: True
        note off = leaf_in_page [OF inv lc]
        let ?g = "\<lambda>b. patch 5 (tdb_put_u32 (lc + 1)) (patch (leaf_off lc) (tdb_put_u32 q) b)"
        define p2 where "p2 = snd (tdb_pager_write
          (page_put (page_put p1 head (leaf_off lc) (tdb_put_u32 q)) head 5 (tdb_put_u32 (lc + 1))) head)"
        have e: "edits z p1 head (?g d) p2"
          unfolding p2_def put_put using write_edits [OF k(2,3), of ?g] ro ld k(4,8,9) off inv_page_size [OF inv] by simp
        then have "pager_inv z p2" by (simp add: edits_def)
        with e k(1) have e': "edits z p head (?g d) (tdb_pager_unref p2 head)"
          by (blast intro: edits_keeps keeps_edits unref_keeps)
        have h: "phdr (tdb_pager_unref p2 head) = phdr p"
          using k(7) by (simp add: p2_def tdb_pager_unref_def tdb_pager_write_def page_put_def)
        have "rc = TDB_OK \<and> p' = (tdb_pager_unref p2 head)\<lparr>phdr := (phdr (tdb_pager_unref p2 head))\<lparr>
            h_freelist_count := h_freelist_count (phdr (tdb_pager_unref p2 head)) + 1\<rparr>, hdr_dirty := True\<rparr>"
          using fr get True ro q head k(5) lc by (auto simp: tdb_pager_free_def head_def [symmetric] Let_def lc_def p2_def)
        then show thesis using e' h q head lc by (intro leaf) simp_all
      qed
    qed
  qed
qed

lemma free_evolves: "pager_inv z p \<Longrightarrow> tdb_pager_free ok z p q = (rc, p') \<Longrightarrow> evolves z p p'"
  by (erule (1) free_cases) (blast intro: keeps_evolves edits_evolves)+

lemma alloc_evolves:
  assumes inv: "pager_inv z p" and al: "tdb_pager_alloc ok z p = (TDB_OK, q, p')" "q \<noteq> 0"
  shows "evolves z p p'"
proof -
  obtain rc q0 p1 where pop: "alloc_pop ok z p = (rc, q0, p1)" by (metis prod.collapse)
  have ro: "\<not> preadonly p" and fresh: "rc = TDB_OK" "alloc_fresh ok p1 q0 = (TDB_OK, q, p')"
    using al pop by (auto simp: tdb_pager_alloc_def split: if_splits)
  have ev: "evolves z p p1"
    by (rule alloc_pop_cases [OF inv ro pop]) (use inv in \<open>auto intro: evolves_refl keeps_evolves edits_evolves\<close>)
  then have "pager_inv z p1" by (simp add: evolves_def)
  from alloc_fresh_edits(1) [OF this fresh(2) al(2)] show ?thesis
    by (rule evolves_trans [OF ev edits_evolves])
qed

section \<open>The cached pages as a list\<close>

lemma bucket_of_less: "bucket_of q < TDB_CACHE_BUCKETS"
  by (simp add: bucket_of_def TDB_CACHE_BUCKETS_def)

lemma in_cache_pages:
  assumes "cache_ok p"
  shows "pg \<in> set (cache_pages p) \<longleftrightarrow> cache_lookup p (pg_no pg) = Some pg"
proof -
  have "pg \<in> set (cache_pages p) \<longleftrightarrow> (\<exists>b < TDB_CACHE_BUCKETS. pg \<in> set (buckets p b))"
    by (auto simp: cache_pages_def)
  also have "\<dots> \<longleftrightarrow> pg \<in> set (buckets p (bucket_of (pg_no pg)))"
    using cache_okD(2) [OF assms] bucket_of_less by metis
  also have "\<dots> \<longleftrightarrow> cache_lookup p (pg_no pg) = Some pg"
    by (simp add: cache_lookup_def chain_page_iff [OF cache_okD(1) [OF assms]])
  finally show ?thesis .
qed

lemma distinct_cache_pages:
  assumes "cache_ok p"
  shows "distinct (map pg_no (cache_pages p))"
proof -
  have "distinct (map pg_no (concat (map (buckets p) [0..<n])))" for n
  proof (induction n)
    case 0
    then show ?case by simp
  next
    case (Suc n)
    have b: "pg_no ` set (buckets p k) \<subseteq> {q. bucket_of q = k}" for k using cache_okD(2) [OF assms] by auto
    have "pg_no ` set (concat (map (buckets p) [0..<n])) \<subseteq> {q. bucket_of q < n}" using b by fastforce
    with b [of n] have "pg_no ` set (concat (map (buckets p) [0..<n])) \<inter> pg_no ` set (buckets p n) = {}" by fastforce
    with Suc cache_okD(1) [OF assms, of n] show ?case by simp
  qed
  then show ?thesis by (simp add: cache_pages_def)
qed

lemma in_dirty_pages:
  assumes "cache_ok p"
  shows "pg \<in> set (dirty_pages p) \<longleftrightarrow> cache_lookup p (pg_no pg) = Some pg \<and> pg_dirty pg"
    "q \<in> pg_no ` set (dirty_pages p) \<longleftrightarrow> is_dirty p q" "distinct (map pg_no (dirty_pages p))"
proof -
  show d: "pg \<in> set (dirty_pages p) \<longleftrightarrow> cache_lookup p (pg_no pg) = Some pg \<and> pg_dirty pg" for pg
    using in_cache_pages [OF assms] by (auto simp: dirty_pages_def)
  show "q \<in> pg_no ` set (dirty_pages p) \<longleftrightarrow> is_dirty p q"
  proof
    assume "q \<in> pg_no ` set (dirty_pages p)"
    then show "is_dirty p q" using d by (auto simp: is_dirty_def)
  next
    assume "is_dirty p q"
    then obtain pg where pg: "cache_lookup p q = Some pg" "pg_dirty pg" by (auto simp: is_dirty_def split: option.splits)
    then have "pg \<in> set (dirty_pages p)" using lookup_no [OF pg(1)] by (simp add: d)
    then show "q \<in> pg_no ` set (dirty_pages p)" using lookup_no [OF pg(1)] by blast
  qed
  show "distinct (map pg_no (dirty_pages p))"
    using distinct_cache_pages [OF assms] by (simp add: dirty_pages_def distinct_map_filter)
qed

lemma dirty_pages_map:
  assumes "cache_ok p"
  shows "map_of (map (\<lambda>pg. (pg_no pg, pg_data pg)) (dirty_pages p)) q = (if is_dirty p q then Some (view z p q) else None)"
proof (cases "is_dirty p q")
  case True
  then obtain pg where pg: "cache_lookup p q = Some pg" "pg_dirty pg" by (auto simp: is_dirty_def split: option.splits)
  then have "pg \<in> set (dirty_pages p)" "pg_no pg = q" using in_dirty_pages(1) [OF assms] lookup_no [OF pg(1)] by auto
  then have "(q, view z p q) \<in> set (map (\<lambda>pg. (pg_no pg, pg_data pg)) (dirty_pages p))"
    using cached_view [OF pg(1), of z] by force
  moreover have "distinct (map fst (map (\<lambda>pg. (pg_no pg, pg_data pg)) (dirty_pages p)))"
    using in_dirty_pages(3) [OF assms] by (simp add: o_def)
  ultimately show ?thesis using True by (simp only: map_of_eq_Some_iff if_True)
next
  case False
  then show ?thesis using in_dirty_pages(2) [OF assms, of q] by (auto simp: map_of_eq_None_iff image_image o_def)
qed

section \<open>Rollback\<close>

lemma evict_lookup:
  assumes "cache_ok p" "distinct (map pg_no pgs)" "\<forall>pg \<in> set pgs. cache_lookup p (pg_no pg) \<noteq> None"
  shows "cache_ok (evict_pages p pgs)" "rest (evict_pages p pgs) = rest p"
    "cache_lookup (evict_pages p pgs) r = (if r \<in> pg_no ` set pgs then None else cache_lookup p r)"
proof -
  have "cache_ok (evict_pages p pgs) \<and> rest (evict_pages p pgs) = rest p \<and>
    (\<forall>r. cache_lookup (evict_pages p pgs) r = (if r \<in> pg_no ` set pgs then None else cache_lookup p r))"
    using assms
  proof (induction pgs arbitrary: p)
    case Nil
    then show ?case by (simp add: evict_pages_def)
  next
    case (Cons pg pgs)
    have eq: "evict_pages p (pg # pgs) = evict_pages (cache_remove p (pg_no pg)) pgs" by (simp add: evict_pages_def)
    have "cache_ok (cache_remove p (pg_no pg))" using Cons.prems by (auto intro: cache_ok_remove)
    moreover have "\<forall>pg' \<in> set pgs. cache_lookup (cache_remove p (pg_no pg)) (pg_no pg') \<noteq> None"
      using Cons.prems by (force simp: lookup_remove image_iff)
    ultimately show ?case
      unfolding eq using Cons.IH Cons.prems by (auto simp: lookup_remove)
  qed
  then show "cache_ok (evict_pages p pgs)" "rest (evict_pages p pgs) = rest p"
    "cache_lookup (evict_pages p pgs) r = (if r \<in> pg_no ` set pgs then None else cache_lookup p r)"
    by blast+
qed

text \<open>After a rollback the view is the durable one, whatever the transaction did.\<close>

lemma rollback_effect:
  assumes inv: "pager_inv z p" and rb: "tdb_pager_rollback ok z p = (rc, p')"
  shows "rc = TDB_OK" "pager_inv z p'" "view z p' = disk z p" "disk z p' = disk z p" "\<not> is_dirty p' q" "psps p' = []"
    "pfile p' = pfile p" "pwal p' = pwal p" "preadonly p' = preadonly p" "page_size p' = page_size p" "\<not> in_txn p'"
    "ok (page_size p) \<Longrightarrow> fst (read_page_image ok z p 1) = TDB_OK \<Longrightarrow> has_magic (disk z p 1) \<Longrightarrow> phdr p' = hdr_parse (disk z p 1)"
proof -
  have cok: "cache_ok p" and pages: "pages_ok z p" using inv by (simp_all add: pager_inv_def)
  define p1 where "p1 = evict_pages p (dirty_pages p)"
  note ev = evict_lookup [OF cok in_dirty_pages(3) [OF cok], folded p1_def]
  have cached: "\<forall>pg \<in> set (dirty_pages p). cache_lookup p (pg_no pg) \<noteq> None"
    using in_dirty_pages(1) [OF cok] by simp
  note e = ev [OF cached]
  have l: "cache_lookup p1 r = (if is_dirty p r then None else cache_lookup p r)" for r
    using e(3) [of r] in_dirty_pages(2) [OF cok] by simp
  note sel = rest_sel [OF e(2)]
  have "\<exists>h. p1\<lparr>hdr_dirty := False, in_txn := False, psps := []\<rparr> = p1\<lparr>phdr := h, hdr_dirty := False, in_txn := False, psps := []\<rparr>"
    by (rule exI [of _ "phdr p1"]) simp
  then have "rc = TDB_OK \<and> (\<exists>h. p' = p1\<lparr>phdr := h, hdr_dirty := False, in_txn := False, psps := []\<rparr>)"
    using rb by (auto simp: tdb_pager_rollback_def sp_clear_all_def Let_def p1_def [symmetric] split: if_splits prod.splits)
  then obtain h where p': "rc = TDB_OK" "p' = p1\<lparr>phdr := h, hdr_dirty := False, in_txn := False, psps := []\<rparr>" by blast
  have dk: "disk z p' = disk z p" by (rule disk_cong) (simp_all add: p' sel)
  have lk: "cache_lookup p' r = (if is_dirty p r then None else cache_lookup p r)" for r by (simp add: p' l)
  obtain fs where st: "store_rep z p fs" using inv by (auto simp: pager_inv_def)
  have "store_rep z p' fs" using st sel by (simp add: store_rep_def p')
  moreover have pages': "pages_ok z p'"
    using pages unfolding pages_ok_def lk dk by (simp add: p' sel split: if_splits)
  moreover have "cache_ok p'" using e(1) by (simp add: p')
  moreover have "sps_ok p'" by (simp add: sps_ok_def p')
  ultimately show inv': "pager_inv z p'" by (auto simp: pager_inv_def)
  show nd: "\<not> is_dirty p' q" for q by (simp add: is_dirty_def lk split: option.splits)
  show "view z p' = disk z p" using view_clean [OF pages' nd] dk by (simp add: fun_eq_iff)
  show "disk z p' = disk z p" by (rule dk)
  show "rc = TDB_OK" by (rule p')
  show "psps p' = []" "pfile p' = pfile p" "pwal p' = pwal p" "preadonly p' = preadonly p" "page_size p' = page_size p" "\<not> in_txn p'"
    by (simp_all add: p' sel)
  show "phdr p' = hdr_parse (disk z p 1)"
    if hyp: "ok (page_size p)" "fst (read_page_image ok z p 1) = TDB_OK" "has_magic (disk z p 1)"
  proof -
    have r: "read_page_image ok z p1 1 = read_page_image ok z p 1"
      using sel by (simp add: read_page_image_def split: prod.splits option.splits)
    obtain img where img: "read_page_image ok z p 1 = (TDB_OK, img)" using hyp(2) by (metis prod.collapse)
    from read_image_disk [OF this] hyp(3) have "has_magic img" "img = disk z p 1" by simp_all
    then show ?thesis
      using rb hyp(1) r img sel by (auto simp: tdb_pager_rollback_def sp_clear_all_def Let_def p1_def [symmetric])
  qed
qed

section \<open>Savepoints\<close>

text \<open>What the pages looked like when a savepoint was opened.\<close>

definition sp_view :: "zbuild \<Rightarrow> tdb_pager \<Rightarrow> pager_sp \<Rightarrow> u32 \<Rightarrow> bytes" where
  "sp_view z p sp q = (case map_of (sp_imgs sp) q of Some d \<Rightarrow> d | None \<Rightarrow> disk z p q)"

lemma sps_okD: "sps_ok p \<Longrightarrow> sp \<in> set (psps p) \<Longrightarrow> (q, d) \<in> set (sp_imgs sp) \<Longrightarrow> is_dirty p q \<and> length d = page_size p"
  by (fastforce simp: sps_ok_def)

lemma savepoint_effect:
  assumes inv: "pager_inv z p" and sp: "tdb_pager_savepoint p = (level, p')" and ro: "\<not> preadonly p"
  shows "level = int (length (psps p))" "pager_inv z p'" "view z p' = view z p" "disk z p' = disk z p"
    "is_dirty p' = is_dirty p" "take (length (psps p)) (psps p') = psps p" "length (psps p') = Suc (length (psps p))"
    "sp_view z p' (psps p' ! nat level) = view z p" "sp_hdr (psps p' ! nat level) = phdr p"
    "pfile p' = pfile p" "pwal p' = pwal p" "preadonly p' = preadonly p" "page_size p' = page_size p"
proof -
  have cok: "cache_ok p" and pages: "pages_ok z p" and sps: "sps_ok p" using inv by (simp_all add: pager_inv_def)
  define s where "s = \<lparr>sp_hdr = phdr p, sp_imgs = map (\<lambda>pg. (pg_no pg, pg_data pg)) (dirty_pages p)\<rparr>"
  have p': "level = int (length (psps p))" "p' = p\<lparr>psps := psps p @ [s]\<rparr>"
    using sp ro by (simp_all add: tdb_pager_savepoint_def Let_def s_def)
  have dom: "fst ` set (sp_imgs s) = {q. is_dirty p q}"
    using in_dirty_pages(2) [OF cok] by (auto simp: s_def image_image)
  have len: "is_dirty p q \<and> length d = page_size p" if "(q, d) \<in> set (sp_imgs s)" for q d
    using that pages by (auto simp: s_def in_dirty_pages(1) [OF cok] is_dirty_def dest: pages_okD)
  have outer: "fst ` set (sp_imgs a) \<subseteq> {q. is_dirty p q}" if "a \<in> set (psps p)" for a
    using that sps_okD [OF sps] by auto
  have "is_dirty p' = is_dirty p" by (simp add: p')
  moreover have "(\<forall>sp \<in> set (psps p'). \<forall>(q, d) \<in> set (sp_imgs sp). is_dirty p q \<and> length d = page_size p)"
    using sps len by (auto simp: sps_ok_def p')
  moreover have "sorted_wrt (\<lambda>a b. fst ` set (sp_imgs a) \<subseteq> fst ` set (sp_imgs b)) (psps p')"
    using sps outer by (simp add: p' sorted_wrt_append sps_ok_def dom)
  ultimately have "sps_ok p'" by (simp add: sps_ok_def p')
  moreover have "pages_ok z p'" using pages by (simp add: pages_ok_def p')
  ultimately show "pager_inv z p'" using inv by (auto simp: pager_inv_def store_rep_def p')
  have "psps p' ! nat level = s" by (simp add: p' nth_append)
  then show "sp_view z p' (psps p' ! nat level) = view z p" "sp_hdr (psps p' ! nat level) = phdr p"
    using dirty_pages_map [OF cok, of _ z] view_clean [OF pages]
    by (simp_all add: sp_view_def s_def p' fun_eq_iff)
qed (use sp ro in \<open>auto simp: tdb_pager_savepoint_def Let_def\<close>)

lemma restore_lookup:
  assumes "cache_ok p" "distinct (map pg_no pgs)" "\<forall>pg \<in> set pgs. cache_lookup p (pg_no pg) \<noteq> None"
  shows "cache_ok (foldl (sp_restore sp) p pgs) \<and> rest (foldl (sp_restore sp) p pgs) = rest p \<and>
    (\<forall>r. cache_lookup (foldl (sp_restore sp) p pgs) r =
      (if r \<in> pg_no ` set pgs then
         (case map_of (sp_imgs sp) r of Some d \<Rightarrow> map_option (\<lambda>pg. pg\<lparr>pg_data := d\<rparr>) (cache_lookup p r) | None \<Rightarrow> None)
       else cache_lookup p r))"
  using assms
proof (induction pgs arbitrary: p)
  case Nil
  then show ?case by simp
next
  case (Cons pg pgs)
  let ?p1 = "sp_restore sp p pg"
  have l: "cache_lookup ?p1 r = (if r = pg_no pg then
      (case map_of (sp_imgs sp) r of Some d \<Rightarrow> map_option (\<lambda>pg. pg\<lparr>pg_data := d\<rparr>) (cache_lookup p r) | None \<Rightarrow> None)
      else cache_lookup p r)" for r
    using Cons.prems(1) by (auto simp: sp_restore_def lookup_upd lookup_remove split: option.splits)
  have ok: "cache_ok ?p1" "rest ?p1 = rest p"
    using Cons.prems by (auto simp: sp_restore_def intro: cache_ok_upd cache_ok_remove split: option.splits)
  have cached: "\<forall>pg' \<in> set pgs. cache_lookup ?p1 (pg_no pg') \<noteq> None"
    using Cons.prems by (force simp: l image_iff)
  have "cache_lookup ?p1 (pg_no x) = cache_lookup p (pg_no x)" if "x \<in> set pgs" for x
  proof -
    have "pg_no x \<noteq> pg_no pg" using that Cons.prems(2) by (metis distinct.simps(2) image_eqI list.set_map list.simps(9))
    then show ?thesis by (simp add: l)
  qed
  then show ?case
    using Cons.IH [OF ok(1) _ cached] Cons.prems ok(2) l by (auto cong: option.case_cong)
qed

text \<open>
  Rolling back to a savepoint restores its view and header, provided the dirty pages fit the
  array the C code collects them in.
\<close>

lemma sp_rollback_effect:
  assumes inv: "pager_inv z p" and rb: "tdb_pager_savepoint_rollback p level = (TDB_OK, p')"
    and few: "length (dirty_pages p) \<le> TDB_CACHE_SOFT_MAX + 64"
  shows "pager_inv z p'" "view z p' = sp_view z p (psps p ! nat level)" "phdr p' = sp_hdr (psps p ! nat level)"
    "disk z p' = disk z p" "psps p' = take (Suc (nat level)) (psps p)"
    "pfile p' = pfile p" "pwal p' = pwal p" "preadonly p' = preadonly p" "page_size p' = page_size p"
proof -
  have cok: "cache_ok p" and pages: "pages_ok z p" and sps: "sps_ok p" using inv by (simp_all add: pager_inv_def)
  define sp where "sp = psps p ! nat level"
  define p1 where "p1 = p\<lparr>psps := take (Suc (nat level)) (psps p)\<rparr>"
  define p2 where "p2 = foldl (sp_restore sp) p1 (dirty_pages p)"
  have level: "0 \<le> level" "nat level < length (psps p)" "\<not> (level < 0 \<or> int (length (psps p)) \<le> level)"
    using rb by (auto simp: tdb_pager_savepoint_rollback_def split: if_splits)
  then have spin: "sp \<in> set (psps p)" by (simp add: sp_def)
  have "collect_dirty p1 = dirty_pages p" using few by (simp add: collect_dirty_def p1_def dirty_pages_def cache_pages_def)
  then have p': "p' = p2\<lparr>phdr := sp_hdr sp, hdr_dirty := True\<rparr>"
    using rb level by (simp add: tdb_pager_savepoint_rollback_def Let_def p1_def sp_def p2_def)
  have "cache_ok p1" using cok by (simp add: p1_def)
  moreover have "\<forall>pg \<in> set (dirty_pages p). cache_lookup p1 (pg_no pg) \<noteq> None"
    using in_dirty_pages(1) [OF cok] by (simp add: p1_def)
  ultimately have r: "cache_ok p2" "rest p2 = rest p1"
    "cache_lookup p2 r = (if is_dirty p r then
       (case map_of (sp_imgs sp) r of Some d \<Rightarrow> map_option (\<lambda>pg. pg\<lparr>pg_data := d\<rparr>) (cache_lookup p r) | None \<Rightarrow> None)
     else cache_lookup p r)" for r
    using restore_lookup [of p1 "dirty_pages p" sp] in_dirty_pages(2,3) [OF cok] by (simp_all add: p2_def p1_def cong: option.case_cong)
  note sel = rest_sel [OF r(2)]
  have sel': "pfile p' = pfile p" "pwal p' = pwal p" "preadonly p' = preadonly p" "page_size p' = page_size p"
    "psps p' = take (Suc (nat level)) (psps p)"
    by (simp_all add: p' sel p1_def)
  have dk: "disk z p' = disk z p" by (rule disk_cong) (simp_all add: sel')
  have lk: "cache_lookup p' r = (if is_dirty p r then
       (case map_of (sp_imgs sp) r of Some d \<Rightarrow> map_option (\<lambda>pg. pg\<lparr>pg_data := d\<rparr>) (cache_lookup p r) | None \<Rightarrow> None)
     else cache_lookup p r)" for r by (simp add: p' r(3))
  have img: "is_dirty p q \<and> length d = page_size p" if "map_of (sp_imgs sp) q = Some d" for q d
    using sps_okD [OF sps spin map_of_SomeD [OF that]] .
  have pages': "pages_ok z p'"
    unfolding pages_ok_def
  proof (intro allI impI)
    fix q pg assume pg: "cache_lookup p' q = Some pg"
    then obtain pg0 where pg0: "cache_lookup p q = Some pg0" "pg_dirty pg = pg_dirty pg0"
      "pg = pg0 \<and> \<not> is_dirty p q \<or> is_dirty p q \<and> map_of (sp_imgs sp) q = Some (pg_data pg)"
      by (auto simp: lk split: if_splits option.splits)
    then show "q \<noteq> 0 \<and> length (pg_data pg) = page_size p' \<and> (\<not> pg_dirty pg \<longrightarrow> pg_data pg = disk z p' q)"
      using pages_okD [OF pages pg0(1)] img by (auto simp: sel' dk is_dirty_def)
  qed
  have dirty': "is_dirty p' q \<longleftrightarrow> map_of (sp_imgs sp) q \<noteq> None" for q
    using img [of q] by (auto simp: is_dirty_def lk split: option.splits)
  show "view z p' = sp_view z p (psps p ! nat level)"
    unfolding sp_def [symmetric]
  proof
    fix q
    show "view z p' q = sp_view z p sp q"
      using view_clean [OF pages', of q] dirty' [of q] img [of q]
      by (cases "map_of (sp_imgs sp) q") (auto simp: sp_view_def dk view_def lk is_dirty_def split: option.splits)
  qed
  have nested: "fst ` set (sp_imgs a) \<subseteq> fst ` set (sp_imgs sp)" if a: "a \<in> set (take (Suc (nat level)) (psps p))" for a
  proof -
    have "sorted_wrt (\<lambda>a b. fst ` set (sp_imgs a) \<subseteq> fst ` set (sp_imgs b)) (psps p)" using sps by (simp add: sps_ok_def)
    moreover obtain i where "i \<le> nat level" "a = psps p ! i"
      using a by (auto simp: in_set_conv_nth less_Suc_eq_le)
    ultimately show ?thesis
      using level unfolding sorted_wrt_iff_nth_less sp_def by (cases "i = nat level") simp_all
  qed
  have "sps_ok p'"
    unfolding sps_ok_def
  proof (intro conjI)
    show "sorted_wrt (\<lambda>a b. fst ` set (sp_imgs a) \<subseteq> fst ` set (sp_imgs b)) (psps p')"
      using sps by (simp add: sel' sps_ok_def sorted_wrt_take)
    show "\<forall>sp\<in>set (psps p'). \<forall>(q, d)\<in>set (sp_imgs sp). is_dirty p' q \<and> length d = page_size p'"
    proof (clarify, intro conjI)
      fix a q d assume a: "a \<in> set (psps p')" "(q, d) \<in> set (sp_imgs a)"
      then have "q \<in> fst ` set (sp_imgs sp)" using nested [of a] by (force simp: sel')
      then show "is_dirty p' q" by (auto simp: dirty' map_of_eq_None_iff)
      show "length d = page_size p'" using sps_okD [OF sps, of a q d] a by (auto simp: sel' dest: in_set_takeD)
    qed
  qed
  moreover have "cache_ok p'" using r(1) by (simp add: p')
  moreover obtain fs where "store_rep z p fs" using inv by (auto simp: pager_inv_def)
  then have "store_rep z p' fs" by (simp add: store_rep_def sel')
  ultimately show "pager_inv z p'" using pages' by (auto simp: pager_inv_def)
  show "disk z p' = disk z p" by (rule dk)
  show "phdr p' = sp_hdr (psps p ! nat level)" by (simp add: p' sp_def)
  show "psps p' = take (Suc (nat level)) (psps p)" "pfile p' = pfile p" "pwal p' = pwal p" "preadonly p' = preadonly p"
    "page_size p' = page_size p" by (rule sel')+
qed

end
