(* ===== verification/Tdb_Pager_Commit.thy ===== *)
theory Tdb_Pager_Commit
  imports Tdb_Pager_Txn
begin

text \<open>
  Commit, checkpoint and crash recovery of the pager, the client's steps inside a transaction,
  and the properties of the pager.
\<close>

section \<open>Appending a commit batch\<close>

fun commit_frames :: "u32 \<Rightarrow> tdb_page list \<Rightarrow> wframe list" where
  "commit_frames dbsz [] = []"
| "commit_frames dbsz (pg # pgs) =
     \<lparr>f_pgno = pg_no pg, f_page = pg_data pg, f_dbsz = (if pgs = [] then dbsz else 0)\<rparr> # commit_frames dbsz pgs"

lemma length_commit_frames [simp]: "length (commit_frames dbsz pgs) = length pgs"
  by (induction pgs) auto

lemma commit_frames_pgno: "map f_pgno (commit_frames dbsz pgs) = map pg_no pgs"
  by (induction pgs) auto

lemma commit_frames_last:
  "pgs \<noteq> [] \<Longrightarrow> commit_frames dbsz pgs = commit_frames 0 (butlast pgs) @
     [\<lparr>f_pgno = pg_no (last pgs), f_page = pg_data (last pgs), f_dbsz = dbsz\<rparr>]"
  by (induction pgs) auto

lemma commit_frames_plain: "list_all (\<lambda>f. f_dbsz f = 0) (commit_frames 0 pgs)"
  by (induction pgs) auto

lemma commit_append_rep:
  assumes "wal_rep z w fs" "\<forall>pg \<in> set pgs. length (pg_data pg) = wpage_size w"
    and "commit_append ok z w dbsz pgs = (TDB_OK, w')"
  shows "wal_rep z w' (fs @ commit_frames dbsz pgs) \<and> wal_cfg w' = wal_cfg w"
  using assms
proof (induction pgs arbitrary: w fs)
  case Nil
  then show ?case by simp
next
  case (Cons pg pgs)
  let ?c = "pgs = []"
  obtain w1 where app: "tdb_wal_append ok z w (pg_no pg) (pg_data pg) ?c (if ?c then dbsz else 0) = (TDB_OK, w1)"
    and nxt: "commit_append ok z w1 dbsz pgs = (TDB_OK, w')"
    using Cons.prems(3) unfolding commit_append.simps Let_def
    by (cases "tdb_wal_append ok z w (pg_no pg) (pg_data pg) ?c (if ?c then dbsz else 0)") (simp split: if_splits)
  note a = wal_append_rep [OF Cons.prems(1) app]
  have r: "wal_rep z w1 (fs @ [\<lparr>f_pgno = pg_no pg, f_page = pg_data pg, f_dbsz = (if ?c then dbsz else 0)\<rparr>])" "wal_cfg w1 = wal_cfg w"
    using a Cons.prems(2) by (auto split: if_splits)
  then have "wpage_size w1 = wpage_size w" by (simp add: wal_cfg_def)
  with Cons.IH [OF r(1) _ nxt] Cons.prems(2) r(2) show ?case by simp
qed

lemma commit_append_succeeds: "fst (commit_append all_ok z w dbsz pgs) = TDB_OK"
proof (induction pgs arbitrary: w)
  case Nil
  then show ?case by simp
next
  case (Cons pg pgs)
  obtain rc w1 where app: "tdb_wal_append all_ok z w (pg_no pg) (pg_data pg) (pgs = []) (if pgs = [] then dbsz else 0) = (rc, w1)"
    by force
  moreover have "rc = TDB_OK" using append_succeeds [of z w "pg_no pg" "pg_data pg" "pgs = []" "if pgs = [] then dbsz else 0"] app by simp
  ultimately show ?case using Cons by simp
qed

lemma latest_append_other: "q \<notin> (\<lambda>f. unat (f_pgno f)) ` set gs \<Longrightarrow> latest (fs @ gs) q = latest fs q"
  by (induction gs rule: rev_induct) (auto simp flip: append_assoc)

lemma latest_commit:
  assumes "distinct (map pg_no pgs)"
  shows "latest (fs @ commit_frames dbsz pgs) (unat q) =
    (case map_of (map (\<lambda>pg. (pg_no pg, pg_data pg)) pgs) q of Some d \<Rightarrow> Some d | None \<Rightarrow> latest fs (unat q))"
  using assms
proof (induction pgs arbitrary: fs)
  case Nil
  then show ?case by simp
next
  case (Cons pg pgs)
  have eq: "fs @ commit_frames dbsz (pg # pgs) =
      (fs @ [\<lparr>f_pgno = pg_no pg, f_page = pg_data pg, f_dbsz = (if pgs = [] then dbsz else 0)\<rparr>]) @ commit_frames dbsz pgs"
    by simp
  have "map_of (map (\<lambda>pg. (pg_no pg, pg_data pg)) pgs) (pg_no pg) = None"
    using Cons.prems by (auto simp: map_of_eq_None_iff image_image o_def)
  then show ?case
    unfolding eq using Cons.IH [of "fs @ [_]"] Cons.prems
    by (auto simp: word_unat_eq_iff [symmetric] split: option.splits)
qed

section \<open>The effect of a commit\<close>

lemma clear_lookup:
  assumes "cache_ok p"
  shows "cache_ok (clear_dirty p pgs) \<and> rest (clear_dirty p pgs) = rest p \<and>
    (\<forall>r. cache_lookup (clear_dirty p pgs) r =
       (if r \<in> pg_no ` set pgs then map_option (\<lambda>pg. pg\<lparr>pg_dirty := False\<rparr>) (cache_lookup p r) else cache_lookup p r))"
  using assms
proof (induction pgs arbitrary: p)
  case Nil
  then show ?case by (simp add: clear_dirty_def)
next
  case (Cons pg pgs)
  let ?p1 = "page_upd p (pg_no pg) (\<lambda>pg. pg\<lparr>pg_dirty := False\<rparr>)"
  have eq: "clear_dirty p (pg # pgs) = clear_dirty ?p1 pgs" by (simp add: clear_dirty_def)
  have ok: "cache_ok ?p1" using Cons.prems by (intro cache_ok_upd) simp_all
  show ?case
    unfolding eq using Cons.IH [OF ok] by (auto simp: lookup_upd option.map_comp o_def)
qed

lemma flush_header_edits:
  assumes inv: "pager_inv z p" and fl: "flush_header ok z p = (TDB_OK, p')"
  defines "h \<equiv> (phdr p)\<lparr>h_change_counter := h_change_counter (phdr p) + 1\<rparr>"
  shows "edits z p 1 (patch 0 (hdr_serialize h) (view z p 1)) p'" "phdr p' = h"
proof -
  obtain rc1 p1 where get: "tdb_pager_get ok z p 1 = (rc1, p1)" by force
  then have rc1: "rc1 = TDB_OK" using fl by (auto simp: flush_header_def split: if_splits)
  obtain pg where k: "keeps z p p1" "pager_inv z p1" "cache_lookup p1 1 = Some pg" "pg_data pg = view z p 1"
    "phdr p1 = phdr p" "page_size p1 = page_size p"
    using get_view [OF inv get [unfolded rc1]] by metis
  let ?f = "\<lambda>pg. pg\<lparr>pg_data := patch 0 (hdr_serialize h) (pg_data pg), pg_dirty := True\<rparr>"
  have "edits z (p1\<lparr>phdr := h\<rparr>) 1 (pg_data (?f pg)) (page_upd (p1\<lparr>phdr := h\<rparr>) 1 ?f)"
    by (rule upd_edits) (use k inv_page_size [OF inv] length_view [OF inv, of 1] in simp_all)
  then have e: "edits z p1 1 (patch 0 (hdr_serialize h) (view z p 1)) (page_upd (p1\<lparr>phdr := h\<rparr>) 1 ?f)"
    using k(4) by (simp add: edits_def)
  then have "pager_inv z (page_upd (p1\<lparr>phdr := h\<rparr>) 1 ?f)" by (simp add: edits_def)
  from unref_keeps [OF this] e k(1)
  have e': "edits z p 1 (patch 0 (hdr_serialize h) (view z p 1)) (tdb_pager_unref (page_upd (p1\<lparr>phdr := h\<rparr>) 1 ?f) 1)"
    by (blast intro: edits_keeps keeps_edits)
  have "p' = (tdb_pager_unref (page_upd (p1\<lparr>phdr := h\<rparr>) 1 ?f) 1)\<lparr>hdr_dirty := False\<rparr>"
    using fl get rc1 k(5) by (simp add: flush_header_def Let_def h_def page_put_def upd_upd)
  with e' show "edits z p 1 (patch 0 (hdr_serialize h) (view z p 1)) p'" "phdr p' = h"
    by (simp_all add: tdb_pager_unref_def)
qed

lemma get_succeeds:
  assumes "pager_inv z p" "q \<noteq> 0"
  shows "fst (tdb_pager_get all_ok z p q) = TDB_OK"
proof -
  obtain fs where st: "store_rep z p fs" using assms(1) by (auto simp: pager_inv_def)
  show ?thesis
  proof (cases "cache_lookup p q")
    case None
    obtain p1 where new: "page_new all_ok p q = Some p1" by (simp add: page_new_def Let_def)
    have "store_rep z p1 fs" using st store_rep_rest [OF rest_page_new [OF new]] by simp
    from store_read [OF this] have "fst (read_page_image all_ok z p1 q) = TDB_OK"
      by (simp add: read_page_image_def split: option.splits)
    then show ?thesis using None new assms(2) by (auto simp: tdb_pager_get_def split: prod.splits)
  qed (use assms(2) in \<open>simp add: tdb_pager_get_def\<close>)
qed

lemma flush_header_succeeds: "pager_inv z p \<Longrightarrow> fst (flush_header all_ok z p) = TDB_OK"
  using get_succeeds [of z p 1] by (auto simp: flush_header_def Let_def split: prod.splits)

lemma dirty_count:
  assumes "cache_ok p"
  shows "length (dirty_pages p) = card {q. is_dirty p q}" "finite {q. is_dirty p q}"
proof -
  have eq: "{q. is_dirty p q} = pg_no ` set (dirty_pages p)" using in_dirty_pages(2) [OF assms] by blast
  show "length (dirty_pages p) = card {q. is_dirty p q}"
    using distinct_card [OF in_dirty_pages(3) [OF assms]] by (simp add: eq)
  show "finite {q. is_dirty p q}" by (simp add: eq)
qed

lemma edits_dirty_count:
  assumes "pager_inv z p" "edits z p q d p'"
  shows "length (dirty_pages p') \<le> Suc (length (dirty_pages p))"
proof -
  have ok: "cache_ok p" "cache_ok p'" using assms by (auto simp: pager_inv_def edits_def)
  have "{r. is_dirty p' r} = insert q {r. is_dirty p r}" using assms(2) by (auto simp: edits_def)
  then show ?thesis using dirty_count [OF ok(1)] dirty_count [OF ok(2)] by (simp add: card_insert_if)
qed

text \<open>
  The state after a batch of dirty pages is in the log and their dirty bits are cleared, before
  any checkpoint.
\<close>

lemma commit_batch:
  assumes inv: "pager_inv z p1" and st: "store_rep z p1 fs" and ds: "set ds \<subseteq> set (dirty_pages p1)" "distinct (map pg_no ds)"
    and app: "commit_append ok z (pwal p1) dbsz ds = (TDB_OK, w)"
    and p3: "p3 = sp_clear_all ((clear_dirty (p1\<lparr>pwal := w\<rparr>) ds)\<lparr>in_txn := False\<rparr>)"
  shows "store_rep z p3 (fs @ commit_frames dbsz ds)" "pager_inv z p3"
    "disk z p3 q = (if q \<in> pg_no ` set ds then view z p1 q else disk z p1 q)" "view z p3 = view z p1"
    "is_dirty p3 q \<longleftrightarrow> is_dirty p1 q \<and> q \<notin> pg_no ` set ds"
    "phdr p3 = phdr p1" "pwal p3 = w" "page_size p3 = page_size p1" "pfile p3 = pfile p1" "preadonly p3 = preadonly p1"
    "wal_cfg w = wal_cfg (pwal p1)"
proof -
  have cok: "cache_ok p1" and pages: "pages_ok z p1" using inv by (simp_all add: pager_inv_def)
  have inds: "cache_lookup p1 (pg_no pg) = Some pg" "pg_dirty pg" if "pg \<in> set ds" for pg
    using that ds(1) in_dirty_pages(1) [OF cok] by auto
  have len: "length (pg_data pg) = page_size p1" "pg_no pg \<noteq> 0" if "pg \<in> set ds" for pg
    using inds(1) [OF that] pages by (auto dest: pages_okD)
  have rep: "wal_rep z w (fs @ commit_frames dbsz ds)" and cfg: "wal_cfg w = wal_cfg (pwal p1)"
    using commit_append_rep [OF _ _ app] st len(1) by (auto simp: store_rep_def)
  have "list_all (\<lambda>q. q \<noteq> 0) (map f_pgno (commit_frames dbsz ds))"
    using len(2) by (auto simp: commit_frames_pgno list_all_iff)
  then have nz: "list_all (\<lambda>f. f_pgno f \<noteq> 0) (commit_frames dbsz ds)" by (simp add: list_all_iff)
  have "cache_ok (p1\<lparr>pwal := w\<rparr>)" using cok by simp
  note cl = clear_lookup [OF this, of ds]
  have lk: "cache_lookup p3 r = (if r \<in> pg_no ` set ds then map_option (\<lambda>pg. pg\<lparr>pg_dirty := False\<rparr>) (cache_lookup p1 r)
      else cache_lookup p1 r)" for r
    using cl by (simp add: p3 sp_clear_all_def)
  have ok3: "cache_ok p3" and r3: "rest (clear_dirty (p1\<lparr>pwal := w\<rparr>) ds) = rest (p1\<lparr>pwal := w\<rparr>)"
    using cl by (simp_all add: p3 sp_clear_all_def)
  have sel: "pfile p3 = pfile p1" "pwal p3 = w" "preadonly p3 = preadonly p1" "page_size p3 = page_size p1" "phdr p3 = phdr p1" "psps p3 = []"
    using rest_sel [OF r3] by (simp_all add: p3 sp_clear_all_def)
  show store: "store_rep z p3 (fs @ commit_frames dbsz ds)"
    using st rep nz cfg by (simp add: store_rep_def sel wal_cfg_def)
  have mo: "map_of (map (\<lambda>pg. (pg_no pg, pg_data pg)) ds) q = (if q \<in> pg_no ` set ds then Some (view z p1 q) else None)" for q
  proof (cases "q \<in> pg_no ` set ds")
    case True
    then obtain pg where pg: "pg \<in> set ds" "q = pg_no pg" by blast
    have "distinct (map fst (map (\<lambda>pg. (pg_no pg, pg_data pg)) ds))" using ds(2) by (simp add: o_def)
    moreover have "(q, view z p1 q) \<in> set (map (\<lambda>pg. (pg_no pg, pg_data pg)) ds)"
      using pg cached_view(1) [OF inds(1) [OF pg(1)], of z] by force
    ultimately show ?thesis using True by (simp only: map_of_eq_Some_iff if_True)
  qed (auto simp: map_of_eq_None_iff image_image o_def)
  show dk: "disk z p3 q = (if q \<in> pg_no ` set ds then view z p1 q else disk z p1 q)" for q
    using store_read [OF store, of "unat q"] store_read [OF st, of "unat q"] latest_commit [OF ds(2), of fs dbsz q] mo [of q]
    by (simp add: disk_def read_page_image_def sel split: option.splits)
  show "view z p3 = view z p1"
    using dk by (auto simp: fun_eq_iff view_def lk split: option.splits)
  have "q \<notin> pg_no ` set ds" if "cache_lookup p1 q = None" for q using inds(1) that by auto
  then have "pages_ok z p3"
    using pages unfolding pages_ok_def lk by (auto simp: sel dk view_def split: if_splits)
  then show "pager_inv z p3" using store ok3 by (auto simp: pager_inv_def sps_ok_def sel)
  show "is_dirty p3 q \<longleftrightarrow> is_dirty p1 q \<and> q \<notin> pg_no ` set ds" by (auto simp: is_dirty_def lk split: option.splits)
  show "wal_cfg w = wal_cfg (pwal p1)" by (rule cfg)
  show "phdr p3 = phdr p1" "pwal p3 = w" "page_size p3 = page_size p1" "pfile p3 = pfile p1" "preadonly p3 = preadonly p1" by (rule sel)+
qed

lemma commit_all:
  assumes inv: "pager_inv z p1" and st: "store_rep z p1 fs" and ds: "ds = dirty_pages p1"
    and app: "commit_append ok z (pwal p1) dbsz ds = (TDB_OK, w)"
    and p3: "p3 = sp_clear_all ((clear_dirty (p1\<lparr>pwal := w\<rparr>) ds)\<lparr>in_txn := False\<rparr>)"
  shows "disk z p3 = view z p1" "\<not> is_dirty p3 q"
proof -
  have cok: "cache_ok p1" and pages: "pages_ok z p1" using inv by (simp_all add: pager_inv_def)
  note b = commit_batch [OF inv st _ _ app p3]
  have d: "set ds \<subseteq> set (dirty_pages p1)" "distinct (map pg_no ds)" "q \<in> pg_no ` set ds \<longleftrightarrow> is_dirty p1 q" for q
    using in_dirty_pages(2,3) [OF cok] by (simp_all add: ds)
  show "disk z p3 = view z p1" using b(3) [OF d(1,2)] d(3) view_clean [OF pages] by (auto simp: fun_eq_iff)
  show "\<not> is_dirty p3 q" using b(5) [OF d(1,2)] d(3) by simp
qed

lemma pager_checkpoint_effect:
  assumes inv: "pager_inv z p" and ck: "tdb_pager_checkpoint all_ok z p = (rc, p')"
  shows "rc = TDB_OK" "pager_inv z p'" "q \<noteq> 0 \<Longrightarrow> disk z p' q = disk z p q" "q \<noteq> 0 \<Longrightarrow> view z p' q = view z p q"
    "cache_lookup p' = cache_lookup p" "phdr p' = phdr p" "page_size p' = page_size p" "psps p' = psps p" "preadonly p' = preadonly p"
    "\<not> preadonly p \<Longrightarrow> nframe (pwal p') = 0"
    "store_rep z p fs \<Longrightarrow> store_rep z p' (if preadonly p then fs else [])"
proof -
  obtain fs0 where st0: "store_rep z p fs0" using inv by (auto simp: pager_inv_def)
  have main: "rc = TDB_OK \<and> (\<forall>q. q \<noteq> 0 \<longrightarrow> disk z p' q = disk z p q) \<and> (\<not> preadonly p \<longrightarrow> nframe (pwal p') = 0) \<and>
      store_rep z p' (if preadonly p then fs else []) \<and> (\<exists>w db. p' = p\<lparr>pwal := w, pfile := db\<rparr>)"
    if st: "store_rep z p fs" for fs
  proof (cases "preadonly p \<or> nframe (pwal p) = 0")
    case True
    then have "rc = TDB_OK \<and> p' = p" using ck by (auto simp: tdb_pager_checkpoint_def split: if_splits)
    moreover have "p = p\<lparr>pwal := pwal p, pfile := pfile p\<rparr>" by simp
    moreover have "fs = []" if "nframe (pwal p) = 0" using that st by (simp add: store_rep_def wal_rep_def)
    ultimately show ?thesis using True st by metis
  next
    case False
    obtain rc1 w db where c: "tdb_wal_checkpoint all_ok z (pwal p) (pfile p) = (rc1, w, db)" by (metis prod.collapse)
    have s: "wal_rep z (pwal p) fs" "codec_ok z" "mem_clean (pfile p)" "list_all (\<lambda>f. f_pgno f \<noteq> 0) fs" "wpage_size (pwal p) = page_size p"
      using st by (simp_all add: store_rep_def)
    note e = checkpoint_effect [OF s(1-4) c]
    have p': "rc = rc1" "p' = p\<lparr>pwal := w, pfile := db\<rparr>" using ck False c by (simp_all add: tdb_pager_checkpoint_def)
    have st': "store_rep z p' []" using e s st by (simp add: store_rep_def p')
    have "disk z p' q = disk z p q" if "q \<noteq> 0" for q
      using disk_logged [OF st' that] disk_logged [OF st that] e(6) [of "unat q"] that s(5)
      by (simp add: logged_page_def p' Suc_le_eq unat_gt_0)
    then show ?thesis using e(1) st' False by (auto simp: p' store_rep_def wal_rep_def)
  qed
  obtain w db where p': "p' = p\<lparr>pwal := w, pfile := db\<rparr>" using main [OF st0] by blast
  show "rc = TDB_OK" "q \<noteq> 0 \<Longrightarrow> disk z p' q = disk z p q" "\<not> preadonly p \<Longrightarrow> nframe (pwal p') = 0"
    using main [OF st0] by blast+
  show "store_rep z p fs \<Longrightarrow> store_rep z p' (if preadonly p then fs else [])" using main by blast
  show lk: "cache_lookup p' = cache_lookup p" by (simp add: p' fun_eq_iff)
  show "phdr p' = phdr p" "page_size p' = page_size p" "psps p' = psps p" "preadonly p' = preadonly p" by (simp_all add: p')
  show "view z p' q = view z p q" if "q \<noteq> 0" using main [OF st0] that by (simp add: view_def lk split: option.splits)
  have "pages_ok z p'" using inv main [OF st0] by (auto simp: pages_ok_def pager_inv_def lk p')
  moreover have "cache_ok p'" "sps_ok p'" using inv by (simp_all add: p' pager_inv_def sps_ok_def is_dirty_def)
  ultimately show "pager_inv z p'" using main [OF st0] by (auto simp: pager_inv_def)
qed

text \<open>The log after the batch of a commit, before the automatic checkpoint.\<close>

definition commit_log :: "zbuild \<Rightarrow> tdb_pager \<Rightarrow> tdb_wal" where
  "commit_log z p =
     (let p1 = snd (flush_header all_ok z p) in snd (commit_append all_ok z (pwal p1) (h_db_size (phdr p1)) (collect_dirty p1)))"

lemma commit_effect:
  assumes inv: "pager_inv z p" and st: "store_rep z p fs" and ro: "\<not> preadonly p"
    and few: "length (dirty_pages p) < TDB_CACHE_SOFT_MAX + 64"
    and commit: "tdb_pager_commit all_ok z p = (rc, p')"
  defines "h \<equiv> (phdr p)\<lparr>h_change_counter := h_change_counter (phdr p) + 1\<rparr>"
  defines "v \<equiv> (view z p)(1 := patch 0 (hdr_serialize h) (view z p 1))"
  obtains p3 ds where "rc = TDB_OK" "pager_inv z p'" "phdr p' = h" "page_size p' = page_size p" "preadonly p' = preadonly p" "psps p' = []"
    "\<And>q. q \<noteq> 0 \<Longrightarrow> disk z p' q = v q" "\<And>q. q \<noteq> 0 \<Longrightarrow> view z p' q = v q" "\<And>q. \<not> is_dirty p' q"
    "store_rep z p3 (fs @ commit_frames (h_db_size (phdr p)) ds)" "ds \<noteq> []" "disk z p3 = v" "wal_cfg (pwal p3) = wal_cfg (pwal p)"
    "pfile p3 = pfile p" "page_size p3 = page_size p" "length ds \<le> Suc (length (dirty_pages p))"
    "p' = (if 1000 < length fs + length ds then snd (tdb_pager_checkpoint all_ok z p3) else p3)"
    "pwal p3 = commit_log z p" "1 \<in> pg_no ` set ds" "preadonly p3 = preadonly p" "pager_inv z p3"
proof -
  obtain p1 where fl: "flush_header all_ok z p = (TDB_OK, p1)" using flush_header_succeeds [OF inv] by (metis prod.collapse)
  note e = flush_header_edits [OF inv fl, folded h_def]
  have inv1: "pager_inv z p1" and v1: "view z p1 = v" and s1: "pfile p1 = pfile p" "pwal p1 = pwal p" "preadonly p1 = preadonly p" "page_size p1 = page_size p"
    using e(1) by (simp_all add: edits_def v_def)
  have st1: "store_rep z p1 fs" using st s1 by (simp add: store_rep_def)
  define ds where "ds = dirty_pages p1"
  have lds: "length ds \<le> Suc (length (dirty_pages p))" using edits_dirty_count [OF inv e(1)] by (simp add: ds_def)
  then have cd: "collect_dirty p1 = ds" using few by (simp add: collect_dirty_def ds_def)
  obtain w where app: "commit_append all_ok z (pwal p1) (h_db_size (phdr p1)) ds = (TDB_OK, w)"
    using commit_append_succeeds by (metis prod.collapse)
  define p3 where "p3 = sp_clear_all ((clear_dirty (p1\<lparr>pwal := w\<rparr>) ds)\<lparr>in_txn := False\<rparr>)"
  have sub: "set ds \<subseteq> set (dirty_pages p1)" "distinct (map pg_no ds)"
    using in_dirty_pages(3) [of p1] inv1 by (simp_all add: ds_def pager_inv_def)
  note b = commit_batch [OF inv1 st1 sub app p3_def]
  note ba = commit_all [OF inv1 st1 ds_def app p3_def]
  have "is_dirty p1 1" using e(1) by (simp add: edits_def)
  then have one: "1 \<in> pg_no ` set ds" using in_dirty_pages(2) [of p1 1] inv1 by (simp add: ds_def pager_inv_def)
  then have nonempty: "ds \<noteq> []" by auto
  have log: "pwal p3 = commit_log z p" using fl cd app b(7) by (simp add: commit_log_def)
  have nf: "nframe (pwal p3) = length fs + length ds" using b(1) by (simp add: store_rep_def wal_rep_def)
  obtain rc4 p4 where ck: "tdb_pager_checkpoint all_ok z p3 = (rc4, p4)" by force
  note c = pager_checkpoint_effect [OF b(2) ck]
  have p': "rc = TDB_OK" "p' = (if 1000 < length fs + length ds then p4 else p3)"
    using commit ro fl cd app ck nf by (simp_all add: tdb_pager_commit_def p3_def [symmetric] Let_def split: if_splits)
  have nd: "\<not> is_dirty p' q" for q using ba(2) c(5) by (simp add: p' is_dirty_def)
  have hh: "h_db_size (phdr p1) = h_db_size (phdr p)" by (simp add: e(2) h_def)
  have sp3: "psps p3 = []" by (simp add: p3_def sp_clear_all_def)
  show thesis
    by (rule that [of p3 ds])
       (use p' b(1,2,4,6-11) ba(1) c v1 nd e(2) nonempty s1 lds ck hh sp3 log one in \<open>simp_all\<close>)
qed

section \<open>A client's steps\<close>

text \<open>
  The operations a client calls between \<open>begin\<close> and the end of a transaction; a page is only
  modified after it was marked with \<open>tdb_pager_write\<close>. Savepoints below level \<open>n\<close> are not
  released or rolled back to.
\<close>

inductive pager_step :: "zbuild \<Rightarrow> nat \<Rightarrow> tdb_pager \<Rightarrow> tdb_pager \<Rightarrow> bool" for z n where
  get: "tdb_pager_get ok z p q = (rc, p') \<Longrightarrow> pager_step z n p p'"
| unref: "pager_step z n p (tdb_pager_unref p q)"
| mark: "tdb_pager_write p q = (rc, p') \<Longrightarrow> pager_step z n p p'"
| put: "is_dirty p q \<Longrightarrow> off + length b \<le> page_size p \<Longrightarrow> pager_step z n p (page_put p q off b)"
| alloc: "tdb_pager_alloc ok z p = (TDB_OK, q, p') \<Longrightarrow> q \<noteq> 0 \<Longrightarrow> pager_step z n p p'"
| free: "tdb_pager_free ok z p q = (rc, p') \<Longrightarrow> pager_step z n p p'"
| txnid: "pager_step z n p (tdb_pager_set_max_txnid p x)"
| cookie: "pager_step z n p (tdb_pager_set_schema_cookie p c)"
| root: "pager_step z n p (tdb_pager_set_catalog_root p r)"
| savepoint: "tdb_pager_savepoint p = (level, p') \<Longrightarrow> pager_step z n p p'"
| release: "int n \<le> level \<Longrightarrow> tdb_pager_savepoint_release p level = (rc, p') \<Longrightarrow> pager_step z n p p'"
| sp_rollback: "int n \<le> level \<Longrightarrow> length (dirty_pages p) \<le> TDB_CACHE_SOFT_MAX + 64 \<Longrightarrow>
    tdb_pager_savepoint_rollback p level = (rc, p') \<Longrightarrow> pager_step z n p p'"

abbreviation pager_steps :: "zbuild \<Rightarrow> nat \<Rightarrow> tdb_pager \<Rightarrow> tdb_pager \<Rightarrow> bool" where
  "pager_steps z n \<equiv> (pager_step z n)\<^sup>*\<^sup>*"

definition step_keeps :: "zbuild \<Rightarrow> nat \<Rightarrow> tdb_pager \<Rightarrow> tdb_pager \<Rightarrow> bool" where
  "step_keeps z n p p' \<longleftrightarrow>
     pager_inv z p' \<and> disk z p' = disk z p \<and> pfile p' = pfile p \<and> pwal p' = pwal p \<and> preadonly p' = preadonly p \<and>
     page_size p' = page_size p \<and> take n (psps p') = take n (psps p) \<and> n \<le> length (psps p')"

lemma evolves_step_keeps: "evolves z p p' \<Longrightarrow> n \<le> length (psps p) \<Longrightarrow> step_keeps z n p p'"
  by (simp add: evolves_def step_keeps_def)

lemma mark_evolves:
  assumes "pager_inv z p" "tdb_pager_write p q = (rc, p')"
  shows "evolves z p p'"
proof (cases "preadonly p \<or> cache_lookup p q = None")
  case True
  then have "p' = p" using assms(2) by (auto simp: tdb_pager_write_def upd_absent split: if_splits)
  then show ?thesis using assms(1) by (simp add: evolves_refl)
next
  case False
  then obtain pg where pg: "cache_lookup p q = Some pg" by blast
  have "edits z p q (pg_data (pg\<lparr>pg_dirty := True\<rparr>)) (page_upd p q (\<lambda>pg. pg\<lparr>pg_dirty := True\<rparr>))"
    by (rule upd_edits [OF assms(1) pg]) (use assms(1) pg in \<open>auto simp: pager_inv_def dest: pages_okD\<close>)
  then show ?thesis using assms(2) False edits_evolves by (auto simp: tdb_pager_write_def)
qed

lemma put_edits:
  assumes inv: "pager_inv z p" and "is_dirty p q" "off + length b \<le> page_size p"
  shows "edits z p q (patch off b (view z p q)) (page_put p q off b)"
proof -
  obtain pg where pg: "cache_lookup p q = Some pg" "pg_dirty pg" using assms(2) by (auto simp: is_dirty_def split: option.splits)
  have "length (pg_data pg) = page_size p" using inv pg(1) by (auto simp: pager_inv_def dest: pages_okD)
  then have "edits z p q (pg_data (pg\<lparr>pg_data := patch off b (pg_data pg)\<rparr>)) (page_put p q off b)"
    unfolding page_put_def using pg(2) assms(3) by (intro upd_edits [OF inv pg(1)]) simp_all
  then show ?thesis using cached_view(1) [OF pg(1), of z] by simp
qed

lemma release_keeps:
  assumes inv: "pager_inv z p" and "int n \<le> level" "tdb_pager_savepoint_release p level = (rc, p')" "n \<le> length (psps p)"
  shows "step_keeps z n p p'"
proof -
  obtain k where p': "p' = p\<lparr>psps := take k (psps p)\<rparr>" "n \<le> k"
  proof (cases "level < 0 \<or> int (length (psps p)) \<le> level")
    case True
    then have "p' = p\<lparr>psps := take (length (psps p)) (psps p)\<rparr>"
      using assms(3) by (auto simp: tdb_pager_savepoint_release_def split: if_splits)
    then show ?thesis using that assms(4) by blast
  next
    case False
    then have "p' = p\<lparr>psps := take (nat level) (psps p)\<rparr>" using assms(3) by (simp add: tdb_pager_savepoint_release_def)
    then show ?thesis using that [of "nat level"] assms(2) False by simp
  qed
  have "sps_ok p" using inv by (simp add: pager_inv_def)
  note sp = sps_okD [OF this]
  have "\<forall>s \<in> set (take k (psps p)). \<forall>(q, d) \<in> set (sp_imgs s). is_dirty p q \<and> length d = page_size p"
    using sp in_set_takeD [of _ k "psps p"] by blast
  then have "sps_ok p'" using \<open>sps_ok p\<close> by (simp add: p' sps_ok_def sorted_wrt_take)
  then have "pager_inv z p'" using inv by (auto simp: pager_inv_def p' pages_ok_def store_rep_def)
  then show ?thesis using p'(2) assms(4) by (simp add: step_keeps_def p' min_def)
qed

lemma pager_step_keeps:
  assumes step: "pager_step z n p p'" and inv: "pager_inv z p" and n: "n \<le> length (psps p)"
  shows "step_keeps z n p p'"
  using step
proof cases
  case (get ok q rc)
  then show ?thesis using get_keeps(1) [OF inv] keeps_evolves evolves_step_keeps n by blast
next
  case (unref q)
  then show ?thesis using unref_keeps [OF inv] keeps_evolves evolves_step_keeps n by blast
next
  case (mark q rc)
  then show ?thesis using mark_evolves [OF inv] evolves_step_keeps n by blast
next
  case (put q off b)
  then show ?thesis using put_edits [OF inv] edits_evolves evolves_step_keeps n by blast
next
  case (alloc ok q)
  then show ?thesis using alloc_evolves [OF inv] evolves_step_keeps n by blast
next
  case (free ok q rc)
  then show ?thesis using free_evolves [OF inv] evolves_step_keeps n by blast
next
  case (savepoint level)
  show ?thesis
  proof (cases "preadonly p")
    case True
    then show ?thesis using savepoint inv n by (simp add: tdb_pager_savepoint_def step_keeps_def)
  next
    case False
    note e = savepoint_effect [OF inv savepoint False]
    have "take n (psps p') = take n (psps p)" using e(6) n by (metis min.absorb1 take_take)
    with e n show ?thesis by (simp add: step_keeps_def)
  qed
next
  case (release level rc)
  then show ?thesis using release_keeps [OF inv] n by blast
next
  case (sp_rollback level rc)
  show ?thesis
  proof (cases "rc = TDB_OK")
    case True
    note e = sp_rollback_effect [OF inv sp_rollback(3) [unfolded True] sp_rollback(2)]
    with sp_rollback(1) n show ?thesis by (simp add: step_keeps_def min_def)
  next
    case False
    then have "p' = p" using sp_rollback(3) by (auto simp: tdb_pager_savepoint_rollback_def Let_def split: if_splits)
    then show ?thesis using inv n by (simp add: step_keeps_def)
  qed
qed (use inv n in \<open>simp_all add: tdb_pager_set_max_txnid_def tdb_pager_set_schema_cookie_def tdb_pager_set_catalog_root_def step_keeps_def\<close>)

lemma pager_steps_keeps:
  assumes "pager_steps z n p p'" "pager_inv z p" "n \<le> length (psps p)"
  shows "step_keeps z n p p'"
  using assms
proof (induction rule: rtranclp_induct)
  case base
  then show ?case by (simp add: step_keeps_def)
next
  case (step y w)
  then have y: "step_keeps z n p y" by blast
  then have "pager_inv z y" "n \<le> length (psps y)" by (simp_all add: step_keeps_def)
  from pager_step_keeps [OF step.hyps(2) this] y show ?case by (simp add: step_keeps_def)
qed

section \<open>Opened and reachable pagers\<close>

lemma mem_clean_open [simp]: "mem_clean mem_open"
  by (simp add: mem_clean_def mem_ok_def mem_open_def)

lemma pager_on_inv:
  assumes "codec_ok z" "wal_rep z w fs" "list_all (\<lambda>f. f_pgno f \<noteq> 0) fs" "wpage_size w = ps" "100 \<le> ps" "mem_clean db"
  shows "pager_inv z (pager_on ro db w ps h)" "store_rep z (pager_on ro db w ps h) fs" "\<not> is_dirty (pager_on ro db w ps h) q"
    "view z (pager_on ro db w ps h) = disk z (pager_on ro db w ps h)" "dirty_pages (pager_on ro db w ps h) = []"
proof -
  have l: "cache_lookup (pager_on ro db w ps h) r = None" for r by (simp add: cache_lookup_def pager_on_def)
  show st: "store_rep z (pager_on ro db w ps h) fs" using assms by (simp add: store_rep_def pager_on_def)
  show "pager_inv z (pager_on ro db w ps h)"
    using st l by (auto simp: pager_inv_def cache_ok_def pages_ok_def sps_ok_def) (auto simp: pager_on_def)
  show "\<not> is_dirty (pager_on ro db w ps h) q" "view z (pager_on ro db w ps h) = disk z (pager_on ro db w ps h)"
    using l by (simp_all add: is_dirty_def view_def fun_eq_iff)
  show "dirty_pages (pager_on ro db w ps h) = []"
    by (simp add: dirty_pages_def cache_pages_def) (simp add: pager_on_def)
qed

text \<open>A pager on two empty files, before the initial commit of \<open>tdb_pager_open\<close>.\<close>

definition blank_pager :: "zbuild \<Rightarrow> nat \<Rightarrow> tdb_pager" where
  "blank_pager z ps = pager_on False mem_open (snd (tdb_wal_open all_ok z mem_open ps)) ps (new_hdr ps)"

lemma blank_pager_inv:
  assumes "codec_ok z" "100 \<le> ps" "ps < 2 ^ 32"
  shows "pager_inv z (blank_pager z ps)" "store_rep z (blank_pager z ps) []" "\<not> is_dirty (blank_pager z ps) q"
    "dirty_pages (blank_pager z ps) = []"
  unfolding blank_pager_def
  using pager_on_inv [of z "snd (tdb_wal_open all_ok z mem_open ps)" "[]" ps mem_open] wal_open_empty [OF assms(3), of z] assms
  by simp_all

lemma blank_pager_sel [simp]:
  "preadonly (blank_pager z ps) = False" "page_size (blank_pager z ps) = ps" "psps (blank_pager z ps) = []"
  "phdr (blank_pager z ps) = new_hdr ps"
  by (simp_all add: blank_pager_def pager_on_def)

inductive pager_reach :: "zbuild \<Rightarrow> tdb_pager \<Rightarrow> bool" for z where
  start: "100 \<le> ps \<Longrightarrow> ps < 2 ^ 32 \<Longrightarrow> pager_reach z (blank_pager z ps)"
| begun: "pager_reach z p \<Longrightarrow> tdb_pager_begin p = (rc, p') \<Longrightarrow> pager_reach z p'"
| step: "pager_reach z p \<Longrightarrow> pager_step z 0 p p' \<Longrightarrow> pager_reach z p'"
| commit: "pager_reach z p \<Longrightarrow> length (dirty_pages p) < TDB_CACHE_SOFT_MAX + 64 \<Longrightarrow>
    tdb_pager_commit all_ok z p = (rc, p') \<Longrightarrow> pager_reach z p'"
| rollback: "pager_reach z p \<Longrightarrow> tdb_pager_rollback ok z p = (rc, p') \<Longrightarrow> pager_reach z p'"
| checkpoint: "pager_reach z p \<Longrightarrow> tdb_pager_checkpoint all_ok z p = (rc, p') \<Longrightarrow> pager_reach z p'"

lemma committed_batch:
  assumes "ds \<noteq> []" "dbsz \<noteq> 0"
  shows "committed (fs @ commit_frames dbsz ds) = fs @ commit_frames dbsz ds"
  using assms by (simp add: commit_frames_last flip: append_assoc)

lemma pager_reach_inv:
  assumes "pager_reach z p" "codec_ok z"
  shows "pager_inv z p"
  using assms
proof induction
  case (start ps)
  then show ?case by (simp add: blank_pager_inv)
next
  case (begun p rc p')
  then show ?case by (auto simp: tdb_pager_begin_def split: if_splits)
next
  case (step p p')
  then show ?case using pager_step_keeps [of z 0 p p'] by (simp add: step_keeps_def)
next
  case (commit p rc p')
  then obtain fs where fs: "store_rep z p fs" and inv: "pager_inv z p" by (auto simp: pager_inv_def)
  show ?case
  proof (cases "preadonly p")
    case True
    then show ?thesis using commit inv by (auto simp: tdb_pager_commit_def)
  next
    case False
    from commit_effect [OF inv fs False commit.hyps(2,3)] show ?thesis by blast
  qed
next
  case (rollback p ok rc p')
  then show ?case using rollback_effect(2) by blast
next
  case (checkpoint p rc p')
  then show ?case using pager_checkpoint_effect(2) by blast
qed

end
