(* ===== verification/Tdb_Pager_Props.thy ===== *)
theory Tdb_Pager_Props
  imports Tdb_Pager_Commit
begin

text \<open>
  The properties of the pager, with their witnesses on a small database.
\<close>

section \<open>A small database\<close>

text \<open>A new database with one allocated page, three bytes of which are written.\<close>

definition demo_pager :: tdb_pager where
  "demo_pager = page_put (snd (snd (tdb_pager_alloc all_ok None (blank_pager None 128)))) 2 0 [7, 8, 9]"

lemma codec_none [simp]: "codec_ok None"
  by (simp add: codec_ok_def)

lemma blank_alloc:
  "\<exists>p1. tdb_pager_alloc all_ok None (blank_pager None 128) = (TDB_OK, 2, p1) \<and>
     edits None (blank_pager None 128) 2 (replicate 128 0) p1 \<and> phdr p1 = (new_hdr 128)\<lparr>h_db_size := 2\<rparr>"
proof -
  have inv: "pager_inv None (blank_pager None 128)" by (rule blank_pager_inv) simp_all
  have l: "cache_lookup (blank_pager None 128) r = None" for r by (simp add: cache_lookup_def blank_pager_def pager_on_def)
  obtain p1 where al: "alloc_fresh all_ok (blank_pager None 128) 0 = (TDB_OK, 2, p1)"
    by (auto simp: alloc_fresh_def Let_def l page_new_def new_hdr_def)
  note e = alloc_fresh_edits [OF inv al]
  have "tdb_pager_alloc all_ok None (blank_pager None 128) = (TDB_OK, 2, p1)"
    using al by (simp add: tdb_pager_alloc_def alloc_pop_def Let_def new_hdr_def)
  moreover have "edits None (blank_pager None 128) 2 (replicate 128 0) p1" using e(1) by simp
  moreover have "phdr p1 = (new_hdr 128)\<lparr>h_db_size := 2\<rparr>" using e(3) by (simp add: take_number_def new_hdr_def)
  ultimately show ?thesis by blast
qed

lemma demo_pager_facts:
  "pager_reach None demo_pager" "pager_inv None demo_pager" "store_rep None demo_pager []" "preadonly demo_pager = False"
  "page_size demo_pager = 128" "psps demo_pager = []" "is_dirty demo_pager = (\<lambda>q. q = 2)"
  "view None demo_pager = (disk None (blank_pager None 128))(2 := [7, 8, 9] @ replicate 125 0)"
  "disk None demo_pager = disk None (blank_pager None 128)" "length (dirty_pages demo_pager) = 1"
  "phdr demo_pager = (new_hdr 128)\<lparr>h_db_size := 2\<rparr>"
proof -
  have inv: "pager_inv None (blank_pager None 128)" "store_rep None (blank_pager None 128) []"
    "\<And>q. \<not> is_dirty (blank_pager None 128) q" by (rule blank_pager_inv; simp)+
  obtain p1 where al: "tdb_pager_alloc all_ok None (blank_pager None 128) = (TDB_OK, 2, p1)"
    and e: "edits None (blank_pager None 128) 2 (replicate 128 0) p1" and h: "phdr p1 = (new_hdr 128)\<lparr>h_db_size := 2\<rparr>"
    using blank_alloc by blast
  have inv1: "pager_inv None p1" and d1: "is_dirty p1 2" and ps1: "page_size p1 = 128" using e by (simp_all add: edits_def)
  have demo: "demo_pager = page_put p1 2 0 [7, 8, 9]" by (simp add: demo_pager_def al)
  have e2: "edits None p1 2 (patch 0 [7, 8, 9] (view None p1 2)) demo_pager"
    unfolding demo by (rule put_edits [OF inv1 d1]) (simp add: ps1)
  have v1: "view None p1 2 = replicate 128 0" using e by (simp add: edits_def)
  have "pager_reach None (blank_pager None 128)" by (rule pager_reach.start) simp_all
  then have "pager_reach None p1" by (rule pager_reach.step) (rule pager_step.alloc [OF al], simp)
  then show "pager_reach None demo_pager"
    unfolding demo by (rule pager_reach.step) (rule pager_step.put [OF d1], simp add: ps1)
  have dirty0: "is_dirty (blank_pager None 128) = (\<lambda>q. False)" using inv(3) by auto
  have view0: "view None (blank_pager None 128) = disk None (blank_pager None 128)"
    using view_clean [of None "blank_pager None 128"] inv by (auto simp: pager_inv_def fun_eq_iff)
  show inv2: "pager_inv None demo_pager" using e2 by (simp add: edits_def)
  show "store_rep None demo_pager []" using e e2 inv(2) by (simp add: edits_def store_rep_def)
  show "preadonly demo_pager = False" "page_size demo_pager = 128" "psps demo_pager = []"
    "disk None demo_pager = disk None (blank_pager None 128)" using e e2 by (simp_all add: edits_def)
  show dirty: "is_dirty demo_pager = (\<lambda>q. q = 2)" using e e2 dirty0 by (auto simp: edits_def fun_eq_iff)
  have "patch 0 [7, 8, 9] (replicate 128 0) = [7, 8, 9] @ replicate 125 (0 :: byte)" by (simp add: patch_def)
  then show "view None demo_pager = (disk None (blank_pager None 128))(2 := [7, 8, 9] @ replicate 125 0)"
    using e e2 v1 view0 by (simp add: edits_def)
  have "cache_ok demo_pager" using inv2 by (simp add: pager_inv_def)
  from dirty_count(1) [OF this] show "length (dirty_pages demo_pager) = 1" by (simp add: dirty)
  show "phdr demo_pager = (new_hdr 128)\<lparr>h_db_size := 2\<rparr>" by (simp add: demo page_put_def h)
qed

section \<open>Lemmas for the properties\<close>

lemma read_image_ok:
  assumes "pager_inv z p"
  shows "read_page_image all_ok z p q = (TDB_OK, disk z p q)"
proof -
  obtain fs where "store_rep z p fs" using assms by (auto simp: pager_inv_def)
  from store_read [OF this] show ?thesis by (simp add: disk_def read_page_image_def split: option.splits)
qed

lemma lru_pages:
  assumes "cache_ok p"
  shows "set (lru p) = pg_no ` set (cache_pages p)" "ncached p = length (cache_pages p)"
proof -
  show set: "set (lru p) = pg_no ` set (cache_pages p)"
  proof (intro set_eqI iffI)
    fix q assume "q \<in> set (lru p)"
    then obtain pg where pg: "cache_lookup p q = Some pg" using cache_okD(4) [OF assms, of q] by blast
    then have "pg \<in> set (cache_pages p)" using lookup_no [OF pg] by (simp add: in_cache_pages [OF assms])
    then show "q \<in> pg_no ` set (cache_pages p)" using lookup_no [OF pg] by blast
  next
    fix q assume "q \<in> pg_no ` set (cache_pages p)"
    then show "q \<in> set (lru p)" using cache_okD(4) [OF assms, of q] by (auto simp: in_cache_pages [OF assms])
  qed
  have "length (lru p) = length (map pg_no (cache_pages p))"
    using distinct_card [OF cache_okD(3) [OF assms]] distinct_card [OF distinct_cache_pages [OF assms]] set by simp
  then show "ncached p = length (cache_pages p)" using cache_okD(5) [OF assms] by simp
qed

definition log_whole :: "zbuild \<Rightarrow> tdb_pager \<Rightarrow> bool" where
  "log_whole z p \<longleftrightarrow> (\<exists>fs. store_rep z p fs \<and> committed fs = fs)"

section \<open>Properties\<close>

text \<open>
  C13: Cache coherence. In every state a client can reach from a new database, through any
  sequence of page operations, savepoints, commits, rollbacks and checkpoints, the counter
  counts the cached pages, the LRU list holds the number of every cached page exactly once and
  no other, a page number is cached at most once and in its bucket, every page has the page
  size, and a page that is not dirty holds its durable image.
\<close>

theorem pager_cache_coherent:
  assumes "pager_reach z p" "codec_ok z"
  shows "ncached p = length (cache_pages p) \<and> distinct (lru p) \<and> set (lru p) = pg_no ` set (cache_pages p) \<and>
    distinct (map pg_no (cache_pages p)) \<and>
    list_all (\<lambda>pg. cache_lookup p (pg_no pg) = Some pg \<and> length (pg_data pg) = page_size p \<and>
      (pg_dirty pg \<or> read_page_image all_ok z p (pg_no pg) = (TDB_OK, pg_data pg))) (cache_pages p)"
proof -
  have inv: "pager_inv z p" by (rule pager_reach_inv [OF assms])
  then have cok: "cache_ok p" and pages: "pages_ok z p" by (simp_all add: pager_inv_def)
  show ?thesis
    using lru_pages [OF cok] cache_okD(3) [OF cok] distinct_cache_pages [OF cok] in_cache_pages [OF cok] pages_okD [OF pages] read_image_ok [OF inv]
    by (auto simp: list_all_iff) metis
qed

theorem pager_cache_coherent_witness:
  "ncached demo_pager = length (cache_pages demo_pager) \<and> 2 \<in> set (lru demo_pager) \<and>
   (\<exists>pg. pg \<in> set (cache_pages demo_pager) \<and> pg_no pg = 2 \<and> length (pg_data pg) = 128)"
proof -
  have cok: "cache_ok demo_pager" using demo_pager_facts(2) by (simp add: pager_inv_def)
  have "is_dirty demo_pager 2" by (simp add: demo_pager_facts)
  then obtain pg where pg: "cache_lookup demo_pager 2 = Some pg" by (auto simp: is_dirty_def split: option.splits)
  then have "pg \<in> set (cache_pages demo_pager)" "pg_no pg = 2" using lookup_no [OF pg] by (simp_all add: in_cache_pages [OF cok])
  then show ?thesis
    using pager_cache_coherent [OF demo_pager_facts(1) codec_none] by (auto simp: list_all_iff demo_pager_facts(5))
qed

text \<open>
  C21: Fetching a page of a reachable pager with a nonzero number succeeds, gives the cached data
  or else the durable image, pins the page, and changes no other page, not even by eviction of
  a pinned one.
\<close>

theorem pager_get_view:
  assumes "pager_reach z p" "codec_ok z" "q \<noteq> 0" "tdb_pager_get all_ok z p q = (rc, p')"
  shows "rc = TDB_OK \<and> page_data p' q = view z p q \<and> view z p' = view z p \<and> is_dirty p' = is_dirty p \<and> phdr p' = phdr p \<and>
    (\<exists>pg. cache_lookup p' q = Some pg \<and> 0 < pg_refs pg) \<and>
    (case cache_lookup p r of Some pg \<Rightarrow> pg_refs pg = 0 \<or> cache_lookup p' r \<noteq> None | None \<Rightarrow> True)"
proof -
  have inv: "pager_inv z p" by (rule pager_reach_inv [OF assms(1,2)])
  have rc: "rc = TDB_OK" using get_succeeds [OF inv assms(3)] assms(4) by simp
  note k = get_keeps [OF inv assms(4)]
  obtain pg where pg: "cache_lookup p' q = Some pg" "pg_refs pg \<noteq> 0" using k(2) rc by blast
  have same: "view z p' = view z p" "is_dirty p' = is_dirty p" "phdr p' = phdr p"
    using k(1) rest_sel(6) [of p' p] by (simp_all add: keeps_def)
  show ?thesis
    using rc pg cached_view(2) [OF pg(1), of z] same k(3) [of r] by (auto split: option.splits)
qed

theorem pager_get_view_witness:
  "case tdb_pager_get all_ok None demo_pager 2 of (rc, p') \<Rightarrow> rc = TDB_OK \<and> page_data p' 2 = [7, 8, 9] @ replicate 125 0"
proof -
  obtain rc p' where g: "tdb_pager_get all_ok None demo_pager 2 = (rc, p')" by force
  from pager_get_view [OF demo_pager_facts(1) codec_none _ g] demo_pager_facts(8) show ?thesis by (simp add: g)
qed

text \<open>
  C3: A commit makes the transaction durable: with at most 2111 dirty pages it succeeds, the
  durable image of every page is then what the client saw, with the current header in page 1,
  and no page is dirty any more, whether or not the commit also ran a checkpoint.
\<close>

theorem pager_commit_durable:
  assumes "pager_reach z p" "codec_ok z" "\<not> preadonly p" "length (dirty_pages p) < TDB_CACHE_SOFT_MAX + 64"
    and "tdb_pager_commit all_ok z p = (rc, p')" "q \<noteq> 0"
  shows "rc = TDB_OK \<and> phdr p' = (phdr p)\<lparr>h_change_counter := h_change_counter (phdr p) + 1\<rparr> \<and>
    read_page_image all_ok z p' q = (TDB_OK, if q = 1 then patch 0 (hdr_serialize (phdr p')) (view z p 1) else view z p q) \<and>
    view z p' q = snd (read_page_image all_ok z p' q) \<and> \<not> is_dirty p' q"
proof -
  have inv: "pager_inv z p" by (rule pager_reach_inv [OF assms(1,2)])
  then obtain fs where fs: "store_rep z p fs" by (auto simp: pager_inv_def)
  let ?h = "(phdr p)\<lparr>h_change_counter := h_change_counter (phdr p) + 1\<rparr>"
  let ?v = "(view z p)(1 := patch 0 (hdr_serialize ?h) (view z p 1))"
  obtain "rc = TDB_OK" "pager_inv z p'" "phdr p' = ?h" "disk z p' q = ?v q" "view z p' q = ?v q" "\<not> is_dirty p' q"
    by (rule commit_effect [OF inv fs assms(3-5)]) (rule that, use assms(6) in \<open>blast+\<close>)
  then show ?thesis by (simp add: read_image_ok)
qed

theorem pager_commit_durable_witness:
  "case tdb_pager_commit all_ok None demo_pager of (rc, p') \<Rightarrow>
     rc = TDB_OK \<and> read_page_image all_ok None p' 2 = (TDB_OK, [7, 8, 9] @ replicate 125 0)"
proof -
  obtain rc p' where c: "tdb_pager_commit all_ok None demo_pager = (rc, p')" by force
  note f = demo_pager_facts
  from pager_commit_durable [OF f(1) codec_none _ _ c, of 2] f show ?thesis
    by (simp add: c TDB_CACHE_SOFT_MAX_def)
qed

text \<open>
  C11: Rollback restores the durable state. Whatever a client does to the pages after the state
  \<open>p\<close>, and however it nests savepoints, a rollback succeeds, every page reads as its durable
  image in \<open>p\<close>, no page is dirty, no savepoint is left, and the header is the durable one.
\<close>

theorem pager_rollback_restores:
  assumes "pager_reach z p" "codec_ok z" "pager_steps z 0 p p1" "tdb_pager_rollback all_ok z p1 = (rc, p')"
  shows "rc = TDB_OK \<and> view z p' q = snd (read_page_image all_ok z p q) \<and> \<not> is_dirty p' q \<and> psps p' = [] \<and>
    (has_magic (snd (read_page_image all_ok z p 1)) \<longrightarrow> phdr p' = hdr_parse (snd (read_page_image all_ok z p 1)))"
proof -
  have inv: "pager_inv z p" by (rule pager_reach_inv [OF assms(1,2)])
  note k = pager_steps_keeps [OF assms(3) inv]
  then have inv1: "pager_inv z p1" and d: "disk z p1 = disk z p" by (simp_all add: step_keeps_def)
  note r = rollback_effect [OF inv1 assms(4)]
  show ?thesis using r d read_image_ok [OF inv] read_image_ok [OF inv1] by simp
qed

theorem pager_rollback_restores_witness:
  "pager_steps None 0 (blank_pager None 128) demo_pager \<and>
   view None demo_pager 2 = [7, 8, 9] @ replicate 125 0 \<and>
   view None (snd (tdb_pager_rollback all_ok None demo_pager)) 2 = snd (read_page_image all_ok None (blank_pager None 128) 2)"
proof -
  have reach: "pager_reach None (blank_pager None 128)" by (rule pager_reach.start) simp_all
  obtain p1 where al: "tdb_pager_alloc all_ok None (blank_pager None 128) = (TDB_OK, 2, p1)"
    and e: "edits None (blank_pager None 128) 2 (replicate 128 0) p1"
    using blank_alloc by blast
  have "pager_step None 0 (blank_pager None 128) p1" by (rule pager_step.alloc [OF al]) simp
  moreover have "demo_pager = page_put p1 2 0 [7, 8, 9]" by (simp add: demo_pager_def al)
  then have "pager_step None 0 p1 demo_pager" using pager_step.put [of p1 2 0 "[7, 8, 9]" None 0] e by (simp add: edits_def)
  ultimately have steps: "pager_steps None 0 (blank_pager None 128) demo_pager" by simp
  obtain rc p' where rb: "tdb_pager_rollback all_ok None demo_pager = (rc, p')" by force
  from pager_rollback_restores [OF reach codec_none steps rb, of 2] steps demo_pager_facts(8) rb show ?thesis by simp
qed

text \<open>
  C10: A savepoint can be returned to. After a savepoint, any further operations, with nested
  savepoints of their own, are undone by rolling back to it: every page and the header are as
  they were when it was opened (as long as at most 2112 pages are dirty).
\<close>

theorem pager_savepoint_restores:
  assumes "pager_reach z p" "codec_ok z" "\<not> preadonly p" "tdb_pager_savepoint p = (level, p1)"
    and "pager_steps z (Suc (nat level)) p1 p2" "length (dirty_pages p2) \<le> TDB_CACHE_SOFT_MAX + 64"
    and "tdb_pager_savepoint_rollback p2 level = (rc, p3)"
  shows "rc = TDB_OK \<and> view z p3 = view z p \<and> phdr p3 = phdr p"
proof -
  have inv: "pager_inv z p" by (rule pager_reach_inv [OF assms(1,2)])
  note s = savepoint_effect [OF inv assms(4,3)]
  have len: "Suc (nat level) \<le> length (psps p1)" using s(1,7) by simp
  note k = pager_steps_keeps [OF assms(5) s(2) len]
  have tk: "take (Suc (nat level)) (psps p2) = take (Suc (nat level)) (psps p1)" using k by (simp add: step_keeps_def)
  have sp: "psps p2 ! nat level = psps p1 ! nat level" "Suc (nat level) \<le> length (psps p2)"
    using arg_cong [OF tk, of "\<lambda>xs. xs ! nat level"] k by (simp_all add: step_keeps_def)
  have inv2: "pager_inv z p2" and d: "disk z p2 = disk z p1" using k by (simp_all add: step_keeps_def)
  have rc: "rc = TDB_OK" using assms(7) sp(2) s(1) by (auto simp: tdb_pager_savepoint_rollback_def Let_def split: if_splits)
  note r = sp_rollback_effect [OF inv2 assms(7) [unfolded rc] assms(6)]
  have "sp_view z p2 (psps p2 ! nat level) = sp_view z p1 (psps p1 ! nat level)" by (simp add: sp_view_def sp(1) d fun_eq_iff split: option.splits)
  then show ?thesis using rc r s sp(1) by simp
qed

theorem pager_savepoint_restores_witness:
  "case tdb_pager_savepoint demo_pager of (level, p1) \<Rightarrow>
     (case tdb_pager_savepoint_rollback (page_put p1 2 1 [5, 5]) level of (rc, p3) \<Rightarrow>
        level = 0 \<and> view None (page_put p1 2 1 [5, 5]) 2 = [7, 5, 5] @ replicate 125 0 \<and>
        rc = TDB_OK \<and> view None p3 2 = [7, 8, 9] @ replicate 125 0)"
proof -
  note f = demo_pager_facts
  have ro: "\<not> preadonly demo_pager" by (simp add: f)
  obtain level p1 where sp: "tdb_pager_savepoint demo_pager = (level, p1)" by force
  note s = savepoint_effect [OF f(2) sp ro]
  have d1: "is_dirty p1 2" "page_size p1 = 128" using s(5,13) by (simp_all add: f)
  define p2 where "p2 = page_put p1 2 1 [5, 5]"
  have e: "edits None p1 2 (patch 1 [5, 5] (view None p1 2)) p2" unfolding p2_def by (rule put_edits [OF s(2) d1(1)]) (simp add: d1)
  have steps: "pager_steps None (Suc (nat level)) p1 p2"
    unfolding p2_def by (rule r_into_rtranclp, rule pager_step.put [OF d1(1)]) (simp add: d1)
  have inv2: "pager_inv None p2" and dirty2: "is_dirty p2 = (\<lambda>q. q = 2)" using e s(5) f(7) by (auto simp: edits_def fun_eq_iff)
  from dirty_count(1) [of p2] inv2 have "length (dirty_pages p2) = 1" by (simp add: pager_inv_def dirty2)
  then have few: "length (dirty_pages p2) \<le> TDB_CACHE_SOFT_MAX + 64" by (simp add: TDB_CACHE_SOFT_MAX_def)
  obtain rc p3 where rb: "tdb_pager_savepoint_rollback p2 level = (rc, p3)" by force
  have "patch 1 [5, 5] ([7, 8, 9] @ replicate 125 0) = [7, 5, 5] @ replicate 125 (0 :: byte)" by (simp add: patch_def)
  then have "view None p2 2 = [7, 5, 5] @ replicate 125 0" using e s(3) f(8) by (simp add: edits_def)
  with pager_savepoint_restores [OF f(1) codec_none ro sp steps few rb] f(6,8) s(1) show ?thesis
    unfolding sp prod.case p2_def [symmetric] rb by simp
qed

text \<open>
  The database header is read back as it was written, for every page size up to 64 KiB, which
  the two-byte field stores as zero.
\<close>

theorem header_roundtrip:
  assumes "0 < h_page_size h" "h_page_size h \<le> 65536"
  shows "hdr_parse (hdr_serialize h @ bs) = h \<and> has_magic (hdr_serialize h @ bs) \<and> length (hdr_serialize h) = TDB_HEADER_SIZE"
  using hdr_parse_serialize [OF assms] by simp

theorem header_roundtrip_witness:
  "h_page_size (hdr_parse (hdr_serialize ((new_hdr 65536)\<lparr>h_max_txnid := 12\<rparr>))) = 65536 \<and>
   h_max_txnid (hdr_parse (hdr_serialize ((new_hdr 65536)\<lparr>h_max_txnid := 12\<rparr>))) = 12"
  using header_roundtrip [of "(new_hdr 65536)\<lparr>h_max_txnid := 12\<rparr>" "[]"] by (simp add: new_hdr_def)

end
