(* ===== verification/Tdb_Pager_Crash.thy ===== *)
theory Tdb_Pager_Crash
  imports Tdb_Pager_Props
begin

text \<open>
  A crash at any point of a commit, its automatic checkpoint included, followed by
  \<open>tdb_pager_open\<close> on the files it leaves. Opening finds the page size through the header in the
  database file or else through the log; for this the theory shows that every reachable pager
  keeps headers of its page size in both.
\<close>

section \<open>Headers and the page size\<close>

text \<open>The bytes of a header up to the page size, which depend on nothing else.\<close>

definition hdr_mark :: "nat \<Rightarrow> bytes" where
  "hdr_mark ps = take 18 (hdr_serialize (new_hdr ps))"

definition marked :: "nat \<Rightarrow> bytes \<Rightarrow> bool" where
  "marked ps c \<longleftrightarrow> 100 \<le> length c \<and> take 18 c = hdr_mark ps"

lemma take18_body: "take 18 (hdr_body h) = TDB_MAGIC @ [0, 0] @ tdb_put_u16 (if 65536 \<le> h_page_size h then 0 else ucast (h_page_size h))"
  by (simp add: hdr_body_def TDB_MAGIC_def)

lemma take18_serialize:
  assumes "h_page_size h = word_of_nat ps"
  shows "take 18 (hdr_serialize h @ bs) = hdr_mark ps"
  using assms by (simp add: hdr_mark_def hdr_serialize_def take18_body new_hdr_def)

lemma mark_reads:
  assumes c: "take 18 c = hdr_mark ps" and ps: "0 < ps" "ps \<le> 65536"
  shows "has_magic c" "unat (h_page_size (hdr_parse c)) = ps"
proof -
  let ?s = "hdr_serialize (new_hdr ps)"
  have len: "18 \<le> length c" using arg_cong [OF c, of length] by (simp add: hdr_mark_def)
  have nth: "c ! i = ?s ! i" if "i < 18" for i using arg_cong [OF c, of "\<lambda>xs. xs ! i"] that by (simp add: hdr_mark_def)
  have "take 14 c = take 14 ?s" using arg_cong [OF c, of "take 14"] by (simp add: hdr_mark_def)
  moreover have "length TDB_MAGIC = 14" by (simp add: TDB_MAGIC_def)
  ultimately show "has_magic c" using has_magic_serialize [of "new_hdr ps" "[]"] by (simp add: has_magic_def)
  have u: "unat (word_of_nat ps :: u32) = ps" using ps by (simp add: unat_of_nat)
  have "tdb_get_u16 (drop 16 c) = tdb_get_u16 (drop 16 ?s)" using len by (simp add: tdb_get_u16_def nth)
  then have "h_page_size (hdr_parse c) = h_page_size (hdr_parse ?s)" by (simp add: hdr_parse_def)
  also have "\<dots> = word_of_nat ps"
    using hdr_parse_serialize [of "new_hdr ps" "[]"] ps u by (simp add: new_hdr_def word_less_nat_alt word_le_nat_alt)
  finally show "unat (h_page_size (hdr_parse c)) = ps" by (simp add: u)
qed

lemma probe_marked:
  assumes "mem_ok db" "marked ps (fcontent db)" "0 < ps" "ps \<le> 65536"
  shows "\<exists>h. probe_hdr db = Some h \<and> unat (h_page_size h) = ps"
proof -
  let ?b = "mem_read db 100 0"
  have len: "100 \<le> msize db" using assms(1,2) length_fcontent [OF assms(1)] by (simp add: marked_def)
  have "?b = take 100 (fcontent db)" using assms(1,2) by (simp add: mem_read_zread zread_def marked_def)
  then have "take 18 ?b = hdr_mark ps" using assms(2) by (simp add: marked_def)
  from mark_reads [OF this assms(3,4)] len show ?thesis by (simp add: probe_hdr_def mem_filesize_def)
qed

lemma probe_short: "length (fcontent db) < 100 \<Longrightarrow> mem_ok db \<Longrightarrow> probe_hdr db = None"
  by (simp add: probe_hdr_def mem_filesize_def length_fcontent)

section \<open>Writing into the database file\<close>

lemma content_write:
  assumes clean: "mem_clean db" and w: "mem_write all_ok db b off = (rc, db')"
  shows "rc = TDB_OK" "mem_clean db'" "length (fcontent db') = max (length (fcontent db)) (off + length b)"
    "i < length (fcontent db') \<Longrightarrow> fcontent db' ! i = (if off \<le> i \<and> i < off + length b then b ! (i - off) else zbyte (fcontent db) i)"
proof -
  show rc: "rc = TDB_OK" using mem_write_succeeds [of db b off] w by simp
  note c = mem_write_clean [OF clean w [unfolded rc]]
  show cl: "mem_clean db'" by (rule c(1))
  have ok: "mem_ok db" "mem_ok db'" using clean cl by (simp_all add: mem_clean_def)
  obtain h1 where "mem_grow all_ok db (off + length b) = (TDB_OK, h1)" "msize h1 = msize db"
    using w by (auto simp: mem_write_def mem_grow_def Let_def split: if_splits)
  then have "msize db' = max (msize db) (off + length b)" using w by (auto simp: mem_write_def Let_def)
  then show len: "length (fcontent db') = max (length (fcontent db)) (off + length b)" using ok by (simp add: length_fcontent)
  show "fcontent db' ! i = (if off \<le> i \<and> i < off + length b then b ! (i - off) else zbyte (fcontent db) i)" if "i < length (fcontent db')"
    using c(2) [of i] that by (simp add: zbyte_def)
qed

lemma marked_iff: "marked ps c \<longleftrightarrow> 100 \<le> length c \<and> (\<forall>i < 18. c ! i = hdr_mark ps ! i)"
proof -
  have "length (hdr_mark ps) = 18" by (simp add: hdr_mark_def)
  then have "take 18 c = hdr_mark ps \<longleftrightarrow> (\<forall>i < 18. c ! i = hdr_mark ps ! i)" if "100 \<le> length c"
    using that by (auto simp: list_eq_iff_nth_eq)
  then show ?thesis by (auto simp: marked_def)
qed

text \<open>A write of (a part of) a page keeps a header there, and writes one at the start of the file.\<close>

lemma write_marked:
  assumes clean: "mem_clean db" and w: "mem_write all_ok db b off = (rc, db')"
    and m: "marked ps (fcontent db)" and b: "18 \<le> off \<or> (off = 0 \<and> (\<forall>i < length b. i < 18 \<longrightarrow> b ! i = hdr_mark ps ! i))"
  shows "marked ps (fcontent db')"
proof -
  note c = content_write [OF clean w]
  have "fcontent db' ! i = hdr_mark ps ! i" if "i < 18" for i
    using c(3) c(4) [of i] m b that by (auto simp: marked_iff zbyte_def)
  then show ?thesis using c(3) m by (simp add: marked_iff le_max_iff_disj)
qed

lemma write_first:
  assumes clean: "mem_clean db" and w: "mem_write all_ok db b 0 = (rc, db')" and e: "fcontent db = []"
    and b: "\<forall>i < length b. i < 18 \<longrightarrow> b ! i = hdr_mark ps ! i"
  shows "length (fcontent db') = length b" "100 \<le> length b \<Longrightarrow> marked ps (fcontent db')"
proof -
  note c = content_write [OF clean w]
  show l: "length (fcontent db') = length b" using c(3) e by simp
  show "marked ps (fcontent db')" if "100 \<le> length b" using c(4) b that l by (simp add: marked_iff)
qed

lemma db_page_partial:
  assumes clean: "mem_clean db" and w: "mem_write all_ok db b ((p - 1) * ps) = (rc, db')" and b: "length b \<le> ps"
    and pq: "1 \<le> p" "1 \<le> q" "q \<noteq> p"
  shows "db_page (fcontent db') ps q = db_page (fcontent db) ps q"
proof -
  have rc: "rc = TDB_OK" by (rule content_write(1) [OF clean w])
  note c = mem_write_clean [OF clean w [unfolded rc]]
  have "zbyte (fcontent db') ((q - 1) * ps + i) = zbyte (fcontent db) ((q - 1) * ps + i)" if "i < ps" for i
    using page_ranges_disjoint [of p q i ps] pq that b c(2) [of "(q - 1) * ps + i"] by auto
  then show ?thesis by (simp add: db_page_def zread_zbyte)
qed

section \<open>The copy loop and the header\<close>

definition good_file :: "nat \<Rightarrow> bytes \<Rightarrow> bool" where
  "good_file ps c \<longleftrightarrow> c = [] \<or> marked ps c"

lemma page_marks: "take 18 page = hdr_mark ps \<Longrightarrow> \<forall>i < length (take j page). i < 18 \<longrightarrow> take j page ! i = hdr_mark ps ! i"
  by (metis length_take min_less_iff_conj nth_take)

text \<open>One round of the loop: what it writes, if anything.\<close>

lemma ckpt_round:
  assumes rep: "wal_rep z w fs" and codec: "codec_ok z" and pos: "list_all (\<lambda>f. f_pgno f \<noteq> 0) fs"
  shows "ckpt_loop all_ok z w db p (Suc n) =
    (case latest fs p of None \<Rightarrow> ckpt_loop all_ok z w db (Suc p) n
     | Some page \<Rightarrow> ckpt_loop all_ok z w (snd (mem_write all_ok db page ((p - 1) * wpage_size w))) (Suc p) n)"
    and "latest fs p = Some page \<Longrightarrow> 1 \<le> p \<and> length page = wpage_size w"
    and "tdb_wal_read_page all_ok z w p = (TDB_OK, latest fs p)"
proof -
  show read: "tdb_wal_read_page all_ok z w p = (TDB_OK, latest fs p)" by (rule wal_read_page [OF rep codec]) simp
  have slot: "wmap w p = slot_of fs p" "nframe w = length fs" using rep by (simp_all add: wal_rep_def wal_index_def)
  have lp: "1 \<le> p \<and> length page = wpage_size w" if "latest fs p = Some page" for page
    using latest_Some [OF that] pos rep by (auto simp: list_all_iff wal_rep_def frame_ok_def Suc_le_eq unat_gt_0)
  show "latest fs p = Some page \<Longrightarrow> 1 \<le> p \<and> length page = wpage_size w" by (rule lp)
  show "ckpt_loop all_ok z w db p (Suc n) =
    (case latest fs p of None \<Rightarrow> ckpt_loop all_ok z w db (Suc p) n
     | Some page \<Rightarrow> ckpt_loop all_ok z w (snd (mem_write all_ok db page ((p - 1) * wpage_size w))) (Suc p) n)"
  proof (cases "latest fs p")
    case None
    then show ?thesis using slot slot_latest [of fs p] by (simp split: if_splits)
  next
    case (Some page)
    obtain f where f: "f \<in> set fs" "p = unat (f_pgno f)" using latest_Some [OF Some] by blast
    have p32: "p < 2 ^ 32" using f(2) unat_less_2p [of "f_pgno f"] by simp
    moreover obtain a where "p = Suc a" using lp [OF Some] by (cases p) simp_all
    ultimately have "(p + 2 ^ 32 - 1) mod 2 ^ 32 = p - 1" by simp
    moreover have "\<not> (wmap w p = 0 \<or> nframe w < wmap w p)" using Some slot slot_latest [of fs p] slot_of_le [of fs p] by (simp split: if_splits)
    moreover obtain db1 where "mem_write all_ok db page ((p - 1) * wpage_size w) = (TDB_OK, db1)"
      using mem_write_succeeds by (metis prod.collapse)
    ultimately show ?thesis using Some read by (simp del: One_nat_def)
  qed
qed

lemma ckpt_keeps_marked:
  assumes rep: "wal_rep z w fs" "codec_ok z" "list_all (\<lambda>f. f_pgno f \<noteq> 0) fs" and ps: "100 \<le> wpage_size w" and p: "2 \<le> p"
    and db: "mem_clean db" "marked (wpage_size w) (fcontent db)" and l: "ckpt_loop all_ok z w db p n = (rc, db')"
  shows "mem_clean db' \<and> marked (wpage_size w) (fcontent db')"
  using p db l
proof (induction n arbitrary: p db)
  case (Suc n)
  show ?case
  proof (cases "latest fs p")
    case None
    then show ?thesis using Suc.IH [of "Suc p" db] Suc.prems ckpt_round(1) [OF rep, of db p n] by simp
  next
    case (Some page)
    let ?off = "(p - 1) * wpage_size w"
    obtain rc1 db1 where w: "mem_write all_ok db page ?off = (rc1, db1)" by force
    have "wpage_size w \<le> ?off" using Suc.prems(1) by (cases p) auto
    with ps have "18 \<le> ?off" by linarith
    then have "marked (wpage_size w) (fcontent db1)" by (intro write_marked [OF Suc.prems(2) w Suc.prems(3)]) simp
    moreover have "ckpt_loop all_ok z w db1 (Suc p) n = (rc, db')" using Suc.prems(4) ckpt_round(1) [OF rep, of db p n] Some w by simp
    ultimately show ?thesis using Suc.IH [of "Suc p" db1] Suc.prems(1) content_write(2) [OF Suc.prems(2) w] by simp
  qed
qed simp

text \<open>The loop from the start: page 1 is the first page it writes.\<close>

lemma ckpt_marks:
  assumes rep: "wal_rep z w fs" "codec_ok z" "list_all (\<lambda>f. f_pgno f \<noteq> 0) fs" and ps: "100 \<le> wpage_size w"
    and one: "latest fs 1 = Some page" "take 18 page = hdr_mark (wpage_size w)"
    and db: "mem_clean db" "good_file (wpage_size w) (fcontent db)" and l: "ckpt_loop all_ok z w db 0 k = (rc, db')"
  shows "mem_clean db'" "k \<le> 1 \<Longrightarrow> db' = db" "2 \<le> k \<Longrightarrow> marked (wpage_size w) (fcontent db')"
proof -
  have none: "latest fs 0 = None" using ckpt_round(2) [OF rep, of 0] by (cases "latest fs 0") auto
  have "mem_clean db' \<and> (k \<le> 1 \<longrightarrow> db' = db) \<and> (2 \<le> k \<longrightarrow> marked (wpage_size w) (fcontent db'))"
  proof (cases "k \<le> 1")
    case True
    then have "k = 0 \<or> k = Suc 0" by auto
    then show ?thesis using l db(1) ckpt_round(1) [OF rep, of db 0 0] none by auto
  next
    case False
    then obtain n where k: "k = Suc (Suc n)" by (metis One_nat_def less_imp_Suc_add not_le plus_nat.simps(2) add_Suc_right add_0)
    obtain rc1 db1 where w: "mem_write all_ok db page 0 = (rc1, db1)" by force
    have m: "marked (wpage_size w) (fcontent db1)"
      using write_marked [OF db(1) w, of "wpage_size w"] write_first [OF db(1) w, of "wpage_size w"] db(2) page_marks [OF one(2), of "length page"]
        ckpt_round(2) [OF rep one(1)] ps by (auto simp: good_file_def)
    have "ckpt_loop all_ok z w db1 2 n = (rc, db')"
      using l ckpt_round(1) [OF rep, of db 0 "Suc n"] ckpt_round(1) [OF rep, of db 1 n] none one(1) w by (simp add: k numeral_2_eq_2)
    from ckpt_keeps_marked [OF rep ps _ content_write(2) [OF db(1) w] m this] False show ?thesis by simp
  qed
  then show "mem_clean db'" "k \<le> 1 \<Longrightarrow> db' = db" "2 \<le> k \<Longrightarrow> marked (wpage_size w) (fcontent db')" by blast+
qed

section \<open>Every reachable pager stores its page size\<close>

definition stored_ok :: "zbuild \<Rightarrow> nat \<Rightarrow> tdb_wal \<Rightarrow> mem_handle \<Rightarrow> bool" where
  "stored_ok z ps w db \<longleftrightarrow>
     good_file ps (fcontent db) \<and>
     (case snd (tdb_wal_read_page all_ok z w 1) of None \<Rightarrow> nframe w = 0 | Some page \<Rightarrow> take 18 page = hdr_mark ps)"

definition hdr_sizes :: "tdb_pager \<Rightarrow> bool" where
  "hdr_sizes p \<longleftrightarrow>
     h_page_size (phdr p) = word_of_nat (page_size p) \<and> (\<forall>sp \<in> set (psps p). h_page_size (sp_hdr sp) = word_of_nat (page_size p))"

lemma stored_rep:
  assumes "store_rep z p fs"
  shows "stored_ok z (page_size p) (pwal p) (pfile p) \<longleftrightarrow> good_file (page_size p) (fcontent (pfile p)) \<and>
    (case latest fs 1 of None \<Rightarrow> fs = [] | Some page \<Rightarrow> take 18 page = hdr_mark (page_size p))"
proof -
  have "nframe (pwal p) = length fs" using assms by (simp add: store_rep_def wal_rep_def)
  then show ?thesis using store_read [OF assms, of 1] by (simp add: stored_ok_def split: option.splits)
qed

lemma sizes_rest: "rest p' = rest p \<Longrightarrow> hdr_sizes p' = hdr_sizes p"
  by (simp add: hdr_sizes_def rest_def)

lemma write_phdr [simp]: "phdr (snd (tdb_pager_write p q)) = phdr p" "phdr (page_put p q off b) = phdr p" "phdr (tdb_pager_unref p q) = phdr p"
  by (simp_all add: tdb_pager_write_def page_put_def tdb_pager_unref_def Let_def split: option.splits)

lemma get_phdr: "pager_inv z p \<Longrightarrow> tdb_pager_get ok z p q = (rc, p') \<Longrightarrow> phdr p' = phdr p"
  using get_keeps(1) by (metis keeps_def rest_sel(6))

lemma fresh_size: "alloc_fresh ok p q0 = (rc, q, p') \<Longrightarrow> h_page_size (phdr p') = h_page_size (phdr p)"
  using rest_page_new [of ok _ q, THEN rest_sel(6)]
  by (auto simp: alloc_fresh_def Let_def split: option.splits if_splits)

lemma alloc_size:
  assumes "tdb_pager_alloc ok z p = (rc, q, p')" "pager_inv z p"
  shows "h_page_size (phdr p') = h_page_size (phdr p)"
proof -
  obtain rc1 q1 p1 where a: "alloc_pop ok z p = (rc1, q1, p1)" by (metis prod_cases3)
  have "h_page_size (phdr p1) = h_page_size (phdr p)"
    using a get_phdr [OF assms(2), of ok "h_freelist_head (phdr p)"] by (auto simp: alloc_pop_def Let_def split: prod.splits if_splits)
  then show ?thesis using assms(1) a fresh_size by (auto simp: tdb_pager_alloc_def split: if_splits)
qed

lemma free_size:
  assumes "tdb_pager_free ok z p q = (rc, p')" "pager_inv z p"
  shows "h_page_size (phdr p') = h_page_size (phdr p)"
proof -
  obtain rc1 p1 where g: "tdb_pager_get ok z p (h_freelist_head (phdr p)) = (rc1, p1)" by force
  have p1: "phdr p1 = phdr p" "pager_inv z p1" using get_phdr [OF assms(2) g] get_keeps(1) [OF assms(2) g] by (simp_all add: keeps_def)
  have "pager_inv z (tdb_pager_unref p1 r)" for r using unref_keeps [OF p1(2)] by (simp add: keeps_def)
  moreover have tr: "h_page_size (phdr r') = h_page_size (phdr r)" if "free_trunk ok z r q = (rc, r')" "pager_inv z r" for r r'
    using that get_phdr [OF that(2), of ok q] by (auto simp: free_trunk_def Let_def split: prod.splits if_splits)
  ultimately show ?thesis using assms g p1(1) tr [of "tdb_pager_unref p1 (h_freelist_head (phdr p))" p'] tr [of p p']
    by (auto simp: tdb_pager_free_def Let_def split: if_splits)
qed

lemma step_sizes:
  assumes step: "pager_step z n p p'" and inv: "pager_inv z p" and s: "hdr_sizes p"
  shows "hdr_sizes p'"
  using step
proof cases
  case (get ok q rc)
  then have "rest p' = rest p" using get_keeps(1) [OF inv get] by (simp add: keeps_def)
  then show ?thesis using s sizes_rest [of p' p] by simp
next
  case (unref q)
  then have "rest p' = rest p" using unref_keeps [OF inv, of q] by (simp add: keeps_def)
  then show ?thesis using s sizes_rest [of p' p] by simp
next
  case (mark q rc)
  then show ?thesis using s by (auto simp: tdb_pager_write_def hdr_sizes_def split: if_splits)
next
  case (put q off b)
  then show ?thesis using s by (simp add: page_put_def hdr_sizes_def)
next
  case (alloc ok q)
  then show ?thesis using alloc_evolves [OF inv] alloc_size [OF _ inv] s by (simp add: evolves_def hdr_sizes_def)
next
  case (free ok q rc)
  then show ?thesis using free_evolves [OF inv] free_size [OF _ inv] s by (simp add: evolves_def hdr_sizes_def)
next
  case (savepoint level)
  then show ?thesis using s by (auto simp: tdb_pager_savepoint_def Let_def hdr_sizes_def split: if_splits)
next
  case (release level rc)
  then show ?thesis using s by (auto simp: tdb_pager_savepoint_release_def hdr_sizes_def split: if_splits) (meson in_set_takeD)
next
  case (sp_rollback level rc)
  show ?thesis
  proof (cases "rc = TDB_OK")
    case True
    then have l: "nat level < length (psps p)" using sp_rollback(3) by (auto simp: tdb_pager_savepoint_rollback_def split: if_splits)
    note e = sp_rollback_effect [OF inv sp_rollback(3) [unfolded True] sp_rollback(2)]
    have "set (take (Suc (nat level)) (psps p)) \<subseteq> set (psps p)" by (rule set_take_subset)
    then show ?thesis using s l e(3,5,9) by (auto simp: hdr_sizes_def)
  next
    case False
    then have "p' = p" using sp_rollback(3) by (auto simp: tdb_pager_savepoint_rollback_def Let_def split: if_splits)
    then show ?thesis using s by simp
  qed
qed (use s in \<open>simp_all add: tdb_pager_set_max_txnid_def tdb_pager_set_schema_cookie_def tdb_pager_set_catalog_root_def hdr_sizes_def\<close>)

lemma wal_checkpoint_db: "tdb_wal_checkpoint all_ok z w db = (rc, w', db') \<Longrightarrow> \<exists>rc1. ckpt_loop all_ok z w db 0 (map_cap w) = (rc1, db')"
  by (auto simp: tdb_wal_checkpoint_def Let_def split: prod.splits if_splits)

lemma logged_cap:
  assumes "wal_rep z w fs" "latest fs p = Some page"
  shows "p < map_cap w"
  using assms slot_latest [of fs p] by (auto simp: wal_rep_def wal_index_def split: if_splits)

lemma ckpt_stored:
  assumes inv: "pager_inv z p" and s: "stored_ok z (page_size p) (pwal p) (pfile p)" and ck: "tdb_pager_checkpoint all_ok z p = (rc, p')"
  shows "stored_ok z (page_size p') (pwal p') (pfile p')"
proof (cases "preadonly p \<or> nframe (pwal p) = 0")
  case True
  then show ?thesis using s ck by (auto simp: tdb_pager_checkpoint_def split: if_splits)
next
  case False
  obtain fs where st: "store_rep z p fs" using inv by (auto simp: pager_inv_def)
  have r: "wal_rep z (pwal p) fs" "codec_ok z" "list_all (\<lambda>f. f_pgno f \<noteq> 0) fs" "mem_clean (pfile p)" "wpage_size (pwal p) = page_size p"
    "100 \<le> wpage_size (pwal p)" using st by (simp_all add: store_rep_def)
  have "fs \<noteq> []" using False r(1) by (auto simp: wal_rep_def)
  then obtain page where one: "latest fs 1 = Some page" "take 18 page = hdr_mark (wpage_size (pwal p))" and g: "good_file (wpage_size (pwal p)) (fcontent (pfile p))"
    using s stored_rep [OF st] by (auto simp: r(5) split: option.splits)
  obtain rc1 w db where c: "tdb_wal_checkpoint all_ok z (pwal p) (pfile p) = (rc1, w, db)" by (metis prod.collapse)
  have p': "p' = p\<lparr>pwal := w, pfile := db\<rparr>" using ck False c by (simp add: tdb_pager_checkpoint_def)
  obtain rc2 where l: "ckpt_loop all_ok z (pwal p) (pfile p) 0 (map_cap (pwal p)) = (rc2, db)" using wal_checkpoint_db [OF c] by blast
  have "marked (wpage_size (pwal p)) (fcontent db)"
    using ckpt_marks(3) [OF r(1-3,6) one r(4) g l] logged_cap [OF r(1) one(1)] by simp
  moreover have "store_rep z p' []" using pager_checkpoint_effect(11) [OF inv ck st] False by simp
  ultimately show ?thesis using stored_rep [of z p' "[]"] by (simp add: p' good_file_def r(5))
qed

lemma latest_has: "q \<in> f_pgno ` set fs \<Longrightarrow> \<exists>page. latest fs (unat q) = Some page"
  by (induction fs rule: rev_induct) auto

lemma commit_stored:
  assumes inv: "pager_inv z p" and ro: "\<not> preadonly p" and few: "length (dirty_pages p) < TDB_CACHE_SOFT_MAX + 64"
    and h: "hdr_sizes p" and s: "stored_ok z (page_size p) (pwal p) (pfile p)" and commit: "tdb_pager_commit all_ok z p = (rc, p')"
  shows "hdr_sizes p' \<and> stored_ok z (page_size p') (pwal p') (pfile p')"
proof -
  obtain fs where st: "store_rep z p fs" using inv by (auto simp: pager_inv_def)
  let ?h = "(phdr p)\<lparr>h_change_counter := h_change_counter (phdr p) + 1\<rparr>"
  obtain p3 ds where c: "phdr p' = ?h" "page_size p' = page_size p" "psps p' = []"
    "store_rep z p3 (fs @ commit_frames (h_db_size (phdr p)) ds)"
    "disk z p3 = (view z p)(1 := patch 0 (hdr_serialize ?h) (view z p 1))" "pfile p3 = pfile p" "page_size p3 = page_size p"
    "p' = (if 1000 < length fs + length ds then snd (tdb_pager_checkpoint all_ok z p3) else p3)" "1 \<in> pg_no ` set ds" "pager_inv z p3"
    by (rule commit_effect [OF inv st ro few commit]) (rule that, assumption+)
  let ?fs = "fs @ commit_frames (h_db_size (phdr p)) ds"
  have "f_pgno ` set (commit_frames (h_db_size (phdr p)) ds) = pg_no ` set ds"
    using arg_cong [OF commit_frames_pgno [of "h_db_size (phdr p)" ds], of set] by simp
  then have "1 \<in> f_pgno ` set ?fs" using c(9) by (simp add: image_Un)
  then obtain page where one: "latest ?fs 1 = Some page" using latest_has [of 1 ?fs] by auto
  then have "page = disk z p3 1" using disk_logged [OF c(4), of 1] by (simp add: logged_page_def)
  then have "take 18 page = hdr_mark (page_size p)"
    using c(5) take18_serialize [of ?h "page_size p"] h by (simp add: patch_def hdr_sizes_def)
  then have s3: "stored_ok z (page_size p3) (pwal p3) (pfile p3)"
    using stored_rep [OF c(4)] stored_rep [OF st] s one by (simp add: c(6,7))
  obtain rc4 p4 where ck: "tdb_pager_checkpoint all_ok z p3 = (rc4, p4)" by force
  have "stored_ok z (page_size p') (pwal p') (pfile p')" using c(8) s3 ckpt_stored [OF c(10) s3 ck] ck by simp
  then show ?thesis using c(1-3) h by (simp add: hdr_sizes_def)
qed

lemma blank_magic:
  assumes "100 \<le> ps"
  shows "\<not> has_magic (zread [] ps off)"
proof
  assume "has_magic (zread [] ps off)"
  from arg_cong [OF this [unfolded has_magic_def], of "\<lambda>xs. xs ! 0"] show False
    using assms by (simp add: zread_def TDB_MAGIC_def)
qed

lemma disk_marked:
  assumes st: "store_rep z p fs" and s: "stored_ok z (page_size p) (pwal p) (pfile p)" and m: "has_magic (disk z p 1)"
  shows "take 18 (disk z p 1) = hdr_mark (page_size p)"
proof (cases "latest fs 1")
  case (Some page)
  then show ?thesis using s stored_rep [OF st] disk_logged [OF st, of 1] by (simp add: logged_page_def)
next
  case None
  have ps: "100 \<le> page_size p" using st by (simp add: store_rep_def)
  have d: "disk z p 1 = zread (fcontent (pfile p)) (page_size p) 0" using None disk_logged [OF st, of 1] by (simp add: logged_page_def db_page_def)
  have "fcontent (pfile p) \<noteq> []" using m blank_magic [of "page_size p"] d ps by (cases "fcontent (pfile p)") auto
  then have "marked (page_size p) (fcontent (pfile p))" using s by (auto simp: stored_ok_def good_file_def)
  then show ?thesis using d ps by (simp add: marked_def zread_def)
qed

lemma rollback_size:
  assumes inv: "pager_inv z p" and s: "stored_ok z (page_size p) (pwal p) (pfile p)" and ps: "page_size p \<le> 65536"
    and h: "hdr_sizes p" and rb: "tdb_pager_rollback ok z p = (rc, p')"
  shows "hdr_sizes p'"
proof -
  obtain fs where st: "store_rep z p fs" using inv by (auto simp: pager_inv_def)
  note e = rollback_effect [OF inv rb]
  have cok: "cache_ok p" using inv by (simp add: pager_inv_def)
  define p1 where "p1 = evict_pages p (dirty_pages p)"
  have r1: "rest p1 = rest p" unfolding p1_def by (rule evict_lookup(2) [OF cok in_dirty_pages(3) [OF cok]]) (simp add: in_dirty_pages(1) [OF cok])
  have img: "img = disk z p 1" if "read_page_image ok z p1 1 = (TDB_OK, img)" for img
    using read_image_disk [OF that] disk_rest [OF r1] by simp
  have "phdr p' = phdr p \<or> (has_magic (disk z p 1) \<and> phdr p' = hdr_parse (disk z p 1))"
    using rb img rest_sel(6) [OF r1] by (auto simp: tdb_pager_rollback_def sp_clear_all_def Let_def p1_def [symmetric] split: prod.splits if_splits)
  moreover have "h_page_size (hdr_parse (disk z p 1)) = word_of_nat (page_size p)" if "has_magic (disk z p 1)"
  proof -
    have "0 < page_size p" using st by (auto simp: store_rep_def)
    from mark_reads(2) [OF disk_marked [OF st s that] this ps] show ?thesis using ps by (simp add: unat_of_nat word_unat_eq_iff)
  qed
  ultimately show ?thesis using h e by (auto simp: hdr_sizes_def)
qed

lemma pager_reach_stored:
  assumes "pager_reach z p" "codec_ok z" "page_size p \<le> 65536"
  shows "hdr_sizes p \<and> stored_ok z (page_size p) (pwal p) (pfile p)"
  using assms
proof induction
  case (start ps)
  have "fcontent (pfile (blank_pager z ps)) = []" by (simp add: blank_pager_def pager_on_def mem_open_def fcontent_def)
  then show ?case using stored_rep [OF blank_pager_inv(2)] start by (simp add: hdr_sizes_def new_hdr_def good_file_def)
next
  case (begun p rc p')
  then show ?case by (auto simp: tdb_pager_begin_def hdr_sizes_def split: if_splits)
next
  case (step p p')
  have inv: "pager_inv z p" by (rule pager_reach_inv [OF step(1,4)])
  have k: "step_keeps z 0 p p'" by (rule pager_step_keeps [OF step(2) inv]) simp
  then have "pwal p' = pwal p" "pfile p' = pfile p" "page_size p' = page_size p" by (simp_all add: step_keeps_def)
  then show ?case using step step_sizes [OF step(2) inv] by simp
next
  case (commit p rc p')
  have inv: "pager_inv z p" by (rule pager_reach_inv [OF commit(1,5)])
  show ?case
  proof (cases "preadonly p")
    case True
    then show ?thesis using commit by (auto simp: tdb_pager_commit_def)
  next
    case False
    obtain fs where st: "store_rep z p fs" using inv by (auto simp: pager_inv_def)
    have "page_size p' = page_size p" by (rule commit_effect [OF inv st False commit(2,3)])
    then show ?thesis using commit_stored [OF inv False commit(2) _ _ commit(3)] commit by simp
  qed
next
  case (rollback p ok rc p')
  have inv: "pager_inv z p" by (rule pager_reach_inv [OF rollback(1,4)])
  have s: "hdr_sizes p" "stored_ok z (page_size p) (pwal p) (pfile p)" "page_size p \<le> 65536"
    using rollback rollback_effect(10) [OF inv rollback(2)] by simp_all
  note e = rollback_effect [OF inv rollback(2)]
  show ?case using rollback_size [OF inv s(2,3,1) rollback(2)] s(2) e(7,8,10) by simp
next
  case (checkpoint p rc p')
  have inv: "pager_inv z p" by (rule pager_reach_inv [OF checkpoint(1,4)])
  note e = pager_checkpoint_effect [OF inv checkpoint(2)]
  have s: "hdr_sizes p" "stored_ok z (page_size p) (pwal p) (pfile p)" using checkpoint e(7) by simp_all
  then show ?case using ckpt_stored [OF inv s(2) checkpoint(2)] e(6-8) by (simp add: hdr_sizes_def)
qed

section \<open>Opening the files a crash leaves\<close>

lemma wal_open_short:
  assumes "mem_ok h" "length (fcontent h) < 32" "ps < 2 ^ 32"
  shows "wal_rep z (snd (tdb_wal_open all_ok z h ps)) []" "wpage_size (snd (tdb_wal_open all_ok z h ps)) = ps"
proof -
  define w0 where "w0 = \<lparr>wfile = h, wpage_size = ps, frame_stride = TDB_WAL_FRAME_HDR_SIZE + ps,
     wversion = (if tdb_compress_codec z \<noteq> TDB_COMP_NONE then TDB_WAL_VERSION_V2 else TDB_WAL_VERSION_V1),
     salt1 = ucast (tdb_fnv1a (rev (tdb_put_u32 (word_of_nat ps)))) XOR 0x9E3779B9,
     salt2 = 0x1234567, ckpt_seq = 0, nframe = 0, wdb_size = 0, wmap = (\<lambda>_. 0),
     map_cap = 0, offsets = (\<lambda>_. 0), offsets_cap = 0, end_off = TDB_WAL_HDR_SIZE\<rparr>"
  obtain f where wr: "mem_write all_ok h (wal_header w0) 0 = (TDB_OK, f)" using mem_write_succeeds by (metis prod.collapse)
  have "recover all_ok z w0 = (TDB_OK, w0)"
    using assms(2) by (simp add: recover_def w0_def mem_filesize_def Let_def length_fcontent [OF assms(1)])
  with wr have o: "tdb_wal_open all_ok z h ps = (TDB_OK, w0\<lparr>wfile := f\<rparr>)"
    by (simp add: tdb_wal_open_def w0_def [symmetric] write_header_def) (simp add: w0_def)
  have f: "mem_ok f" "fcontent f = wal_header w0"
    using mf.fwrite_ok [OF assms(1) _ wr] assms(2) by (simp_all add: patch_def)
  have hd: "wal_header (w0\<lparr>wfile := f\<rparr>) = wal_header w0" by (simp add: wal_header_def)
  show "wpage_size (snd (tdb_wal_open all_ok z h ps)) = ps" by (simp add: o w0_def)
  show "wal_rep z (snd (tdb_wal_open all_ok z h ps)) []"
    using assms(3) o f hd by (simp add: wal_rep_def wal_base_def wal_index_def offsets_rec_def) (simp add: w0_def)
qed

lemma open_files:
  assumes codec: "codec_ok z" and db: "mem_clean db" and ps: "100 \<le> ps" "ps \<le> 65536"
    and log: "wal_rep z (snd (tdb_wal_open all_ok z h ps)) gs" "wpage_size (snd (tdb_wal_open all_ok z h ps)) = ps" "list_all (\<lambda>f. f_pgno f \<noteq> 0) gs"
    and hdr: "marked ps (fcontent db) \<or>
      (length (fcontent db) < 100 \<and> mem_ok h \<and> (\<exists>w bs. wpage_size w = ps \<and> fcontent h = wal_header w @ bs) \<and>
       (\<exists>page. latest gs 1 = Some page \<and> has_magic page))"
  obtains p'' where "tdb_pager_open all_ok z ro db h = Inr p''" "pager_inv z p''"
    "\<And>q. q \<noteq> 0 \<Longrightarrow> disk z p'' q = logged_page gs (fcontent db) ps (unat q)"
proof -
  have ok: "mem_ok db" using db by (simp add: mem_clean_def)
  define w where "w = snd (tdb_wal_open all_ok z h ps)"
  have o: "tdb_wal_open all_ok z h ps = (TDB_OK, w)" using wal_open_succeeds by (metis prod.collapse w_def)
  have read: "tdb_wal_read_page all_ok z w 1 = (TDB_OK, latest gs 1)" by (rule wal_read_page [OF log(1) [folded w_def] codec]) simp
  have probe: "probe_page_size db h = ps"
  proof (cases "marked ps (fcontent db)")
    case True
    then obtain x where "probe_hdr db = Some x" "unat (h_page_size x) = ps" using probe_marked [OF ok, of ps] ps by auto
    then show ?thesis by (simp add: probe_page_size_def)
  next
    case False
    then obtain v bs where v: "length (fcontent db) < 100" "mem_ok h" "wpage_size v = ps" "fcontent h = wal_header v @ bs" using hdr by blast
    have "mem_read h 32 0 = wal_header v" using v by (simp add: mem_read_zread zread_def)
    moreover have "32 \<le> msize h" using v(4) length_fcontent [OF v(2)] by simp
    moreover have "tdb_get_u32 (wal_header v) = TDB_WAL_MAGIC" "unat (tdb_get_u32 (drop 8 (wal_header v))) = ps"
      using v(3) ps by (simp_all add: wal_header_def Let_def get_put_u unat_of_nat)
    ultimately show ?thesis using probe_short [OF v(1) ok] by (simp add: probe_page_size_def mem_filesize_def)
  qed
  obtain hd where open_p: "tdb_pager_open all_ok z ro db h = Inr (pager_on ro db w ps hd)"
  proof (cases "probe_hdr db")
    case (Some x)
    then show thesis using that o probe by (auto simp: tdb_pager_open_def)
  next
    case None
    then have "\<not> marked ps (fcontent db)" using probe_marked [OF ok] ps by fastforce
    then obtain page where "latest gs 1 = Some page" "has_magic page" using hdr by blast
    then show thesis using that o probe None read by (auto simp: tdb_pager_open_def)
  qed
  note on = pager_on_inv [OF codec log(1) [folded w_def] log(3) log(2) [folded w_def] ps(1) db]
  have "disk z (pager_on ro db w ps hd) q = logged_page gs (fcontent db) ps (unat q)" if "q \<noteq> 0" for q
    using disk_logged [OF on(2) that, of ro hd] by (simp add: pager_on_def)
  then show thesis using that open_p on(1) by blast
qed

section \<open>Crashes in a commit\<close>

text \<open>
  The files a crash in a commit of \<open>p\<close> may leave: the database file and the log. Writes reach a
  file in order and the last one may be cut at any byte; a file that was synchronised before the
  next one is written is complete. The Boolean says whether the commit has taken effect.
  \<^item> While the batch is appended, the log is cut at any byte from its old end on.
  \<^item> While the automatic checkpoint copies pages, the log is complete, and the database file has
    the first pages of the loop and possibly a part of the next.
  \<^item> While the log is reset, the database file is complete, and the log is empty or has a part of
    its new header.
\<close>

inductive commit_crash :: "zbuild \<Rightarrow> tdb_pager \<Rightarrow> bool \<Rightarrow> mem_handle \<Rightarrow> mem_handle \<Rightarrow> bool" for z p where
  append: "end_off (pwal p) \<le> n \<Longrightarrow> n \<le> end_off (commit_log z p) \<Longrightarrow> mem_ok h \<Longrightarrow>
    fcontent h = take n (fcontent (wfile (commit_log z p))) \<Longrightarrow> commit_crash z p (n = end_off (commit_log z p)) (pfile p) h"
| copy: "1000 < nframe (commit_log z p) \<Longrightarrow> k \<le> map_cap (commit_log z p) \<Longrightarrow>
    ckpt_loop all_ok z (commit_log z p) (pfile p) 0 k = (rc, db) \<Longrightarrow> mem_ok h \<Longrightarrow>
    fcontent h = take (end_off (commit_log z p)) (fcontent (wfile (commit_log z p))) \<Longrightarrow> commit_crash z p True db h"
| torn: "1000 < nframe (commit_log z p) \<Longrightarrow> k < map_cap (commit_log z p) \<Longrightarrow>
    ckpt_loop all_ok z (commit_log z p) (pfile p) 0 k = (rc, db1) \<Longrightarrow>
    tdb_wal_read_page all_ok z (commit_log z p) k = (rc1, Some page) \<Longrightarrow> 0 < j \<Longrightarrow>
    mem_write all_ok db1 (take j page) ((k - 1) * page_size p) = (rc2, db) \<Longrightarrow> mem_ok h \<Longrightarrow>
    fcontent h = take (end_off (commit_log z p)) (fcontent (wfile (commit_log z p))) \<Longrightarrow> commit_crash z p True db h"
| reset: "1000 < nframe (commit_log z p) \<Longrightarrow> tdb_wal_checkpoint all_ok z (commit_log z p) (pfile p) = (rc, w', db) \<Longrightarrow>
    mem_ok h \<Longrightarrow> n \<le> TDB_WAL_HDR_SIZE \<Longrightarrow> fcontent h = take n (fcontent (wfile w')) \<Longrightarrow> commit_crash z p True db h"

text \<open>The log of a commit as a list of frames \<open>gs\<close>, with the new header in its page 1.\<close>

definition commit_logged :: "zbuild \<Rightarrow> tdb_pager \<Rightarrow> wframe list \<Rightarrow> bool" where
  "commit_logged z p gs \<longleftrightarrow>
     codec_ok z \<and> wal_rep z (commit_log z p) gs \<and> list_all (\<lambda>f. f_pgno f \<noteq> 0) gs \<and> wpage_size (commit_log z p) = page_size p \<and>
     100 \<le> page_size p \<and> page_size p \<le> 65536 \<and> committed gs = gs \<and> mem_clean (pfile p) \<and> good_file (page_size p) (fcontent (pfile p)) \<and>
     (\<exists>page. latest gs 1 = Some page \<and> take 18 page = hdr_mark (page_size p) \<and> has_magic page)"

lemma commit_logged:
  assumes reach: "pager_reach z p" "codec_ok z" "page_size p \<le> 65536" and ro: "\<not> preadonly p" and fs: "store_rep z p fs" "committed fs = fs"
    and db0: "h_db_size (phdr p) \<noteq> 0" and few: "length (dirty_pages p) < TDB_CACHE_SOFT_MAX + 64" and commit: "tdb_pager_commit all_ok z p = (rc, p')"
  obtains gs where "commit_logged z p gs" "\<And>q. q \<noteq> 0 \<Longrightarrow> disk z p' q = logged_page gs (fcontent (pfile p)) (page_size p) (unat q)"
    "\<And>k. log_len z (commit_log z p) fs \<le> k \<Longrightarrow>
       committed (whole_frames z (commit_log z p) k gs) = (if k < log_len z (commit_log z p) gs then fs else gs)"
    "wal_cfg (commit_log z p) = wal_cfg (pwal p)" "pager_inv z p'" "set fs \<subseteq> set gs" "log_len z (commit_log z p) fs < log_len z (commit_log z p) gs"
proof -
  let ?ps = "page_size p" and ?w = "commit_log z p"
  have inv: "pager_inv z p" by (rule pager_reach_inv [OF reach(1,2)])
  have hs: "hdr_sizes p" and so: "stored_ok z ?ps (pwal p) (pfile p)" using pager_reach_stored [OF reach] by simp_all
  let ?h = "(phdr p)\<lparr>h_change_counter := h_change_counter (phdr p) + 1\<rparr>"
  define v where "v = (view z p)(1 := patch 0 (hdr_serialize ?h) (view z p 1))"
  obtain p3 ds where c: "\<And>q. q \<noteq> 0 \<Longrightarrow> disk z p' q = v q" "store_rep z p3 (fs @ commit_frames (h_db_size (phdr p)) ds)" "ds \<noteq> []"
    "disk z p3 = v" "wal_cfg (pwal p3) = wal_cfg (pwal p)" "pfile p3 = pfile p" "page_size p3 = ?ps" "pwal p3 = ?w" "1 \<in> pg_no ` set ds" "pager_inv z p'"
    by (rule commit_effect [OF inv fs(1) ro few commit, folded v_def]) (rule that, assumption+)
  define gs where "gs = fs @ commit_frames (h_db_size (phdr p)) ds"
  note st3 = c(2) [folded gs_def]
  have r: "wal_rep z ?w gs" "list_all (\<lambda>f. f_pgno f \<noteq> 0) gs" "mem_clean (pfile p)" "wpage_size ?w = ?ps" "100 \<le> ?ps"
    using st3 by (simp_all add: store_rep_def c(6-8))
  have "f_pgno ` set (commit_frames (h_db_size (phdr p)) ds) = pg_no ` set ds"
    using arg_cong [OF commit_frames_pgno [of "h_db_size (phdr p)" ds], of set] by simp
  then have "1 \<in> f_pgno ` set gs" using c(9) by (simp add: gs_def image_Un)
  then obtain page where one: "latest gs 1 = Some page" using latest_has [of 1 gs] by auto
  have "page = v 1" using disk_logged [OF st3, of 1] one by (simp add: logged_page_def c(4))
  then have mk: "take 18 page = hdr_mark ?ps" using take18_serialize [of ?h ?ps] hs by (simp add: v_def patch_def hdr_sizes_def)
  have mg: "has_magic page" by (rule mark_reads(1) [OF mk]) (use r(5) reach(3) in auto)
  have good: "good_file ?ps (fcontent (pfile p))" using so by (simp add: stored_ok_def)
  have cm: "committed gs = gs" unfolding gs_def by (rule committed_batch [OF c(3) db0])
  show thesis
  proof (rule that [of gs])
    show "commit_logged z p gs" using reach(2,3) r one mk mg good cm by (simp add: commit_logged_def)
    show "disk z p' q = logged_page gs (fcontent (pfile p)) ?ps (unat q)" if "q \<noteq> 0" for q
      using c(1) [OF that] disk_logged [OF st3 that] by (simp add: c(4,6,7))
    show "committed (whole_frames z ?w k gs) = (if k < log_len z ?w gs then fs else gs)" if "log_len z ?w fs \<le> k" for k
      using committed_cut_batch [OF fs(2) commit_frames_plain _ that, where c = "last (commit_frames (h_db_size (phdr p)) ds)"] c(3) db0
      by (simp add: gs_def commit_frames_last)
    show "wal_cfg ?w = wal_cfg (pwal p)" "pager_inv z p'" "set fs \<subseteq> set gs" using c(5,8,10) by (simp_all add: gs_def)
    obtain d ds' where "ds = d # ds'" using c(3) by (cases ds) auto
    then have "0 < log_len z ?w (commit_frames (h_db_size (phdr p)) ds)"
      using frame_len_ge [of z ?w] by (simp add: log_len_def) (metis add_gr_0 less_le_trans zero_less_numeral)
    then show "log_len z ?w fs < log_len z ?w gs" by (simp add: gs_def log_len_append)
  qed
qed

text \<open>Files from which opening recovers the pages \<open>f\<close>.\<close>

definition recovers :: "zbuild \<Rightarrow> nat \<Rightarrow> mem_handle \<Rightarrow> mem_handle \<Rightarrow> (nat \<Rightarrow> bytes) \<Rightarrow> bool" where
  "recovers z ps db h f \<longleftrightarrow>
     (\<exists>gs. mem_clean db \<and> wal_rep z (snd (tdb_wal_open all_ok z h ps)) gs \<and> wpage_size (snd (tdb_wal_open all_ok z h ps)) = ps \<and>
       list_all (\<lambda>f. f_pgno f \<noteq> 0) gs \<and>
       (marked ps (fcontent db) \<or>
         (length (fcontent db) < 100 \<and> mem_ok h \<and> (\<exists>w bs. wpage_size w = ps \<and> fcontent h = wal_header w @ bs) \<and>
          (\<exists>page. latest gs 1 = Some page \<and> has_magic page))) \<and>
       (\<forall>q \<ge> 1. logged_page gs (fcontent db) ps q = f q))"

text \<open>The log of the commit, cut at byte \<open>32 + k\<close>, with the frames \<open>fs\<close> surviving.\<close>

lemma log_recovers:
  assumes l: "commit_logged z p gs" and h: "mem_ok h" "fcontent h = take (32 + k) (fcontent (wfile (commit_log z p)))" "k \<le> log_len z (commit_log z p) gs"
    and fs: "committed (whole_frames z (commit_log z p) k gs) = fs" "set fs \<subseteq> set gs"
    and db: "mem_clean db" "marked (page_size p) (fcontent db) \<or> (length (fcontent db) < 100 \<and> (\<exists>page. latest fs 1 = Some page \<and> has_magic page))"
    and pages: "\<And>q. 1 \<le> q \<Longrightarrow> logged_page fs (fcontent db) (page_size p) q = f q"
  shows "recovers z (page_size p) db h f"
proof -
  let ?w = "commit_log z p"
  have c: "codec_ok z" "wal_rep z ?w gs" "list_all (\<lambda>f. f_pgno f \<noteq> 0) gs" "wpage_size ?w = page_size p" using l by (simp_all add: commit_logged_def)
  note o = crash_open [OF c(2,1) h, unfolded c(4) fs(1)]
  obtain junk where "fcontent (wfile ?w) = wal_header ?w @ log_bytes z ?w (salt1 ?w) gs @ junk" using c(2) by (auto simp: wal_rep_def)
  then have "\<exists>w bs. wpage_size w = page_size p \<and> fcontent h = wal_header w @ bs" using h(2) c(4) by auto
  moreover have "list_all (\<lambda>f. f_pgno f \<noteq> 0) fs" using c(3) fs(2) by (auto simp: list_all_iff)
  ultimately show ?thesis using o(2,4) c(4) h(1) db pages unfolding recovers_def by (intro exI [of _ fs]) (auto simp: wal_cfg_def)
qed

text \<open>Pages the log does not hold stay as they were while the checkpoint copies.\<close>

lemma logged_same:
  assumes "\<And>q. 1 \<le> q \<Longrightarrow> latest gs q = None \<Longrightarrow> db_page c' ps q = db_page c ps q" "1 \<le> q"
  shows "logged_page gs c' ps q = logged_page gs c ps q"
  using assms by (simp add: logged_page_def split: option.splits)

lemma copied_same:
  assumes l: "commit_logged z p gs" and k: "ckpt_loop all_ok z (commit_log z p) (pfile p) 0 k = (rc, db)" and q: "1 \<le> q" "latest gs q = None"
  shows "db_page (fcontent db) (page_size p) q = db_page (fcontent (pfile p)) (page_size p) q"
proof -
  have c: "wal_rep z (commit_log z p) gs" "codec_ok z" "mem_clean (pfile p)" "list_all (\<lambda>f. f_pgno f \<noteq> 0) gs" "wpage_size (commit_log z p) = page_size p"
    using l by (simp_all add: commit_logged_def)
  show ?thesis using ckpt_loop_copies [OF c(1-4) k] q by (simp add: c(5) logged_page_def)
qed

lemma copy_marks:
  assumes l: "commit_logged z p gs" and k: "ckpt_loop all_ok z (commit_log z p) (pfile p) 0 k = (rc, db)"
  shows "mem_clean db" "k \<le> 1 \<Longrightarrow> db = pfile p" "2 \<le> k \<Longrightarrow> marked (page_size p) (fcontent db)"
proof -
  obtain page where c: "wal_rep z (commit_log z p) gs" "codec_ok z" "list_all (\<lambda>f. f_pgno f \<noteq> 0) gs" "wpage_size (commit_log z p) = page_size p"
    "100 \<le> page_size p" "latest gs 1 = Some page" "take 18 page = hdr_mark (page_size p)" "mem_clean (pfile p)" "good_file (page_size p) (fcontent (pfile p))"
    using l by (auto simp: commit_logged_def)
  show "mem_clean db" "k \<le> 1 \<Longrightarrow> db = pfile p" "2 \<le> k \<Longrightarrow> marked (page_size p) (fcontent db)"
    using ckpt_marks [OF c(1-3) _ c(6) _ c(8) _ k] c by simp_all
qed

lemma full_log_recovers:
  assumes l: "commit_logged z p gs" and h: "mem_ok h" "fcontent h = take (end_off (commit_log z p)) (fcontent (wfile (commit_log z p)))"
    and db: "mem_clean db" "marked (page_size p) (fcontent db) \<or> length (fcontent db) < 100"
    and same: "\<And>q. 1 \<le> q \<Longrightarrow> latest gs q = None \<Longrightarrow> db_page (fcontent db) (page_size p) q = db_page (fcontent (pfile p)) (page_size p) q"
  shows "recovers z (page_size p) db h (logged_page gs (fcontent (pfile p)) (page_size p))"
proof -
  have c: "wal_rep z (commit_log z p) gs" "committed gs = gs" "\<exists>page. latest gs 1 = Some page \<and> has_magic page"
    using l by (auto simp: commit_logged_def)
  have e: "end_off (commit_log z p) = 32 + log_len z (commit_log z p) gs" using c(1) by (simp add: wal_rep_def)
  show ?thesis
    by (rule log_recovers [OF l h(1) h(2) [unfolded e] order_refl _ order_refl db(1)])
      (use c db(2) logged_same [OF same] in \<open>auto simp: whole_frames_all\<close>)
qed

lemma torn_marks:
  assumes l: "commit_logged z p gs" and k: "ckpt_loop all_ok z (commit_log z p) (pfile p) 0 k = (rc, db1)" "latest gs k = Some page"
    and w: "mem_write all_ok db1 (take j page) ((k - 1) * page_size p) = (rc2, db)"
  shows "mem_clean db" "marked (page_size p) (fcontent db) \<or> length (fcontent db) < 100"
    "1 \<le> q \<Longrightarrow> latest gs q = None \<Longrightarrow> db_page (fcontent db) (page_size p) q = db_page (fcontent db1) (page_size p) q"
proof -
  have c: "wal_rep z (commit_log z p) gs" "codec_ok z" "list_all (\<lambda>f. f_pgno f \<noteq> 0) gs" "wpage_size (commit_log z p) = page_size p"
    "100 \<le> page_size p" "good_file (page_size p) (fcontent (pfile p))" "\<exists>page. latest gs 1 = Some page \<and> take 18 page = hdr_mark (page_size p)"
    using l by (auto simp: commit_logged_def)
  have pg: "1 \<le> k" "length page = page_size p" using ckpt_round(2) [OF c(1-3) k(2)] c(4) by simp_all
  note m = copy_marks [OF l k(1)]
  show "mem_clean db" by (rule content_write(2) [OF m(1) w])
  show "db_page (fcontent db) (page_size p) q = db_page (fcontent db1) (page_size p) q" if "1 \<le> q" "latest gs q = None"
    by (rule db_page_partial [OF m(1) w _ pg(1) that(1)]) (use that(2) k(2) pg in auto)
  show "marked (page_size p) (fcontent db) \<or> length (fcontent db) < 100"
  proof (cases "2 \<le> k")
    case True
    have "page_size p \<le> (k - 1) * page_size p" using True by (cases k) auto
    then have "18 \<le> (k - 1) * page_size p" using c(5) by linarith
    then show ?thesis using write_marked [OF m(1) w m(3) [OF True]] by blast
  next
    case False
    then have k1: "k = 1" using pg(1) by simp
    then have mk: "\<forall>i < length (take j page). i < 18 \<longrightarrow> take j page ! i = hdr_mark (page_size p) ! i" using page_marks c(7) k(2) by auto
    have w0: "mem_write all_ok db1 (take j page) 0 = (rc2, db)" using w k1 by simp
    show ?thesis
    proof (cases "fcontent db1 = []")
      case True
      then show ?thesis using write_first [OF m(1) w0 True mk] by linarith
    next
      case False
      then have "marked (page_size p) (fcontent db1)" using c(6) m(2) k1 by (auto simp: good_file_def)
      then show ?thesis using write_marked [OF m(1) w0] mk by blast
    qed
  qed
qed

lemma reset_recovers:
  assumes l: "commit_logged z p gs" and ck: "tdb_wal_checkpoint all_ok z (commit_log z p) (pfile p) = (rc, w', db)"
    and h: "mem_ok h" "n \<le> 32" "fcontent h = take n (fcontent (wfile w'))"
  shows "recovers z (page_size p) db h (logged_page gs (fcontent (pfile p)) (page_size p))"
proof -
  obtain page where c: "wal_rep z (commit_log z p) gs" "codec_ok z" "mem_clean (pfile p)" "list_all (\<lambda>f. f_pgno f \<noteq> 0) gs"
    "wpage_size (commit_log z p) = page_size p" "page_size p \<le> 65536" "latest gs 1 = Some page"
    using l by (auto simp: commit_logged_def)
  note e = checkpoint_effect [OF c(1-4) ck]
  obtain rc1 where lp: "ckpt_loop all_ok z (commit_log z p) (pfile p) 0 (map_cap (commit_log z p)) = (rc1, db)" using wal_checkpoint_db [OF ck] by blast
  have m: "marked (page_size p) (fcontent db)" using copy_marks(3) [OF l lp] logged_cap [OF c(1,7)] by simp
  have "wal_rep z (snd (tdb_wal_open all_ok z h (page_size p))) [] \<and> wpage_size (snd (tdb_wal_open all_ok z h (page_size p))) = page_size p"
  proof (cases "n < 32")
    case True
    then show ?thesis using wal_open_short [OF h(1), of "page_size p" z] h(3) c(6) by auto
  next
    case False
    then have "fcontent h = take (32 + 0) (fcontent (wfile w'))" using h(2,3) by simp
    from crash_open [OF e(2) c(2) h(1) this] e(4) c(5) show ?thesis by (auto simp: wal_cfg_def)
  qed
  then show ?thesis
    using m e(3) e(6) c(5) unfolding recovers_def by (intro exI [of _ "[]"]) (auto simp: logged_page_def)
qed

lemma commit_crash_recovers:
  assumes l: "commit_logged z p gs" and fs: "store_rep z p fs" and so: "stored_ok z (page_size p) (pwal p) (pfile p)" and magic: "has_magic (disk z p 1)"
    and cut: "\<And>k. log_len z (commit_log z p) fs \<le> k \<Longrightarrow>
       committed (whole_frames z (commit_log z p) k gs) = (if k < log_len z (commit_log z p) gs then fs else gs)"
    and cfg: "wal_cfg (commit_log z p) = wal_cfg (pwal p)" and sub: "set fs \<subseteq> set gs" and crash: "commit_crash z p done db h"
  shows "recovers z (page_size p) db h (logged_page (if done then gs else fs) (fcontent (pfile p)) (page_size p))"
  using crash
proof cases
  case (append n)
  let ?w = "commit_log z p"
  have g: "wal_rep z ?w gs" "good_file (page_size p) (fcontent (pfile p))" "\<exists>page. latest gs 1 = Some page \<and> has_magic page" "mem_clean (pfile p)" "100 \<le> page_size p"
    using l by (auto simp: commit_logged_def)
  have "end_off (pwal p) = 32 + log_len z (pwal p) fs" "end_off ?w = 32 + log_len z ?w gs" using fs g(1) by (simp_all add: store_rep_def wal_rep_def)
  moreover have "log_len z (pwal p) = log_len z ?w" using cfg_cong(7) [OF cfg] by simp
  ultimately obtain k where k: "n = 32 + k" "log_len z ?w fs \<le> k" "k \<le> log_len z ?w gs" "done \<longleftrightarrow> \<not> k < log_len z ?w gs"
    using append by (intro that [of "n - 32"]) auto
  have one: "\<exists>page. latest fs 1 = Some page \<and> has_magic page" if "fcontent (pfile p) = []"
    using magic disk_logged [OF fs, of 1] blank_magic [OF g(5)] that by (cases "latest fs 1") (auto simp: logged_page_def db_page_def)
  show ?thesis
    using log_recovers [OF l append(5) append(6) [unfolded k(1)] k(3) cut [OF k(2)], of db "logged_page (if done then gs else fs) (fcontent (pfile p)) (page_size p)"]
      k(4) sub g append(2) one by (cases "done") (auto simp: good_file_def)
next
  case (copy k rc)
  have d: "done" using copy by simp
  have good: "good_file (page_size p) (fcontent (pfile p))" using l by (simp add: commit_logged_def)
  note m = copy_marks [OF l copy(4)]
  have "marked (page_size p) (fcontent db) \<or> length (fcontent db) < 100"
    using m(2,3) good by (cases "2 \<le> k") (auto simp: good_file_def)
  from full_log_recovers [OF l copy(5,6) m(1) this copied_same [OF l copy(4)]] show ?thesis using d by simp
next
  case (torn k rc db1 rc1 page j rc2)
  have d: "done" using torn by simp
  have r: "wal_rep z (commit_log z p) gs" "codec_ok z" using l by (simp_all add: commit_logged_def)
  have pg: "latest gs k = Some page" using wal_read_page [OF r, of all_ok k] torn(5) by simp
  note m = torn_marks [OF l torn(4) pg torn(7)]
  have "db_page (fcontent db) (page_size p) q = db_page (fcontent (pfile p)) (page_size p) q" if "1 \<le> q" "latest gs q = None" for q
    using m(3) [OF that] copied_same [OF l torn(4) that] by simp
  from full_log_recovers [OF l torn(8,9) m(1,2) this] show ?thesis using d by simp
next
  case (reset rc w' n)
  then show ?thesis using reset_recovers [OF l reset(3,4,5)] by simp
qed

lemma commit_log_grows:
  assumes "pager_reach z p" "codec_ok z" "page_size p \<le> 65536" "\<not> preadonly p" and fs: "store_rep z p fs" and "committed fs = fs"
    "h_db_size (phdr p) \<noteq> 0" "length (dirty_pages p) < TDB_CACHE_SOFT_MAX + 64" "tdb_pager_commit all_ok z p = (rc, p')"
  shows "end_off (pwal p) < end_off (commit_log z p)"
proof -
  obtain gs where g: "commit_logged z p gs" "wal_cfg (commit_log z p) = wal_cfg (pwal p)" "log_len z (commit_log z p) fs < log_len z (commit_log z p) gs"
    by (rule commit_logged [OF assms]) (rule that, assumption+)
  show ?thesis using fs g(1,3) cfg_cong(7) [OF g(2), of z] by (simp add: commit_logged_def store_rep_def wal_rep_def)
qed

section \<open>A second transaction on the example database\<close>

text \<open>The example database is committed; page 2 is then fetched again and its first byte changed.\<close>

definition demo_second :: tdb_pager where
  "demo_second =
     page_put (snd (tdb_pager_write (snd (tdb_pager_get all_ok None (snd (tdb_pager_commit all_ok None demo_pager)) 2)) 2)) 2 0 [5]"

lemma demo_second_facts:
  "pager_reach None demo_second" "pager_inv None demo_second" "\<not> preadonly demo_second" "page_size demo_second = 128"
  "\<exists>fs. store_rep None demo_second fs \<and> committed fs = fs" "h_db_size (phdr demo_second) = 2" "length (dirty_pages demo_second) = 1"
  "has_magic (disk None demo_second 1)" "disk None demo_second 2 = [7, 8, 9] @ replicate 125 0" "view None demo_second 2 = [5, 8, 9] @ replicate 125 0"
proof -
  note f = demo_pager_facts
  obtain rc p1 where c: "tdb_pager_commit all_ok None demo_pager = (rc, p1)" by force
  define h where "h = (phdr demo_pager)\<lparr>h_change_counter := h_change_counter (phdr demo_pager) + 1\<rparr>"
  have few: "length (dirty_pages demo_pager) < TDB_CACHE_SOFT_MAX + 64" by (simp add: f TDB_CACHE_SOFT_MAX_def)
  obtain p3 ds where e: "pager_inv None p1" "phdr p1 = h" "page_size p1 = 128" "\<not> preadonly p1" "\<And>q. \<not> is_dirty p1 q"
    "\<And>q. q \<noteq> 0 \<Longrightarrow> disk None p1 q = ((view None demo_pager)(1 := patch 0 (hdr_serialize h) (view None demo_pager 1))) q"
    "\<And>q. q \<noteq> 0 \<Longrightarrow> view None p1 q = ((view None demo_pager)(1 := patch 0 (hdr_serialize h) (view None demo_pager 1))) q"
    "store_rep None p3 ([] @ commit_frames (h_db_size (phdr demo_pager)) ds)" "ds \<noteq> []" "length ds \<le> 2"
    "p1 = (if 1000 < length ([] :: wframe list) + length ds then snd (tdb_pager_checkpoint all_ok None p3) else p3)"
    by (rule commit_effect [OF f(2,3) _ few c, folded h_def]) (use f that in auto)
  have r1: "pager_reach None p1" by (rule pager_reach.commit [OF f(1) few c])
  obtain rc2 p2 where g: "tdb_pager_get all_ok None p1 2 = (rc2, p2)" by force
  have ok2: "rc2 = TDB_OK" using get_succeeds [OF e(1), of 2] g by simp
  have k: "pager_inv None p2" "disk None p2 = disk None p1" "view None p2 = view None p1" "is_dirty p2 = is_dirty p1" "rest p2 = rest p1"
    using get_keeps(1) [OF e(1) g] by (auto simp: keeps_def intro: disk_rest)
  have sel: "\<not> preadonly p2" "page_size p2 = 128" using rest_sel [OF k(5)] e(3,4) by simp_all
  obtain pg where pg: "cache_lookup p2 2 = Some pg" using get_keeps(2) [OF e(1) g ok2] by blast
  have pgd: "view None p2 2 = pg_data pg" "length (pg_data pg) = page_size p2" using pg k(1) by (auto simp: view_def pager_inv_def dest: pages_okD)
  obtain p4 where w: "tdb_pager_write p2 2 = (TDB_OK, p4)" using sel(1) by (simp add: tdb_pager_write_def)
  have e4: "edits None p2 2 (view None p2 2) p4"
    using upd_edits [OF k(1) pg, of "\<lambda>pg. pg\<lparr>pg_dirty := True\<rparr>"] w pgd sel(1) by (simp add: tdb_pager_write_def)
  have d: "demo_second = page_put p4 2 0 [5]" by (simp add: demo_second_def c g w)
  have e5: "edits None p4 2 (patch 0 [5] (view None p4 2)) demo_second"
    unfolding d by (rule put_edits) (use e4 sel in \<open>simp_all add: edits_def\<close>)
  have "pager_reach None p2" by (rule pager_reach.step [OF r1 pager_step.get [OF g]])
  then have "pager_reach None p4" by (rule pager_reach.step) (rule pager_step.mark [OF w])
  then show "pager_reach None demo_second" unfolding d by (rule pager_reach.step) (rule pager_step.put, use e4 sel in \<open>simp_all add: edits_def\<close>)
  show inv: "pager_inv None demo_second" and "\<not> preadonly demo_second" "page_size demo_second = 128"
    using e4 e5 sel by (simp_all add: edits_def)
  have p1: "p1 = p3" using e(10,11) by simp
  have st: "store_rep None demo_second (commit_frames (h_db_size (phdr demo_pager)) ds)"
    using e(8) e4 e5 rest_sel [OF k(5)] by (simp add: p1 edits_def store_rep_def)
  have "committed ([] @ commit_frames (h_db_size (phdr demo_pager)) ds) = [] @ commit_frames (h_db_size (phdr demo_pager)) ds"
    by (rule committed_batch [OF e(9)]) (simp add: f)
  with st show "\<exists>fs. store_rep None demo_second fs \<and> committed fs = fs" by auto
  show "h_db_size (phdr demo_second) = 2"
    using write_phdr(1) [of p2 2] w rest_sel(6) [OF k(5)] e(2) by (simp add: d h_def f)
  have "is_dirty demo_second = (\<lambda>q. q = 2)" using e4 e5 k(4) e(5) by (auto simp: edits_def fun_eq_iff)
  moreover have "cache_ok demo_second" using inv by (simp add: pager_inv_def)
  ultimately show "length (dirty_pages demo_second) = 1" using dirty_count(1) [of demo_second] by simp
  have dk: "disk None demo_second = disk None p1" using e4 e5 k(2) by (simp add: edits_def)
  show "has_magic (disk None demo_second 1)" using e(6) [of 1] has_magic_serialize [of h] by (simp add: dk patch_def)
  show "disk None demo_second 2 = [7, 8, 9] @ replicate 125 0" using e(6) [of 2] f(8) by (simp add: dk)
  have "view None p1 2 = [7, 8, 9] @ replicate 125 0" using e(7) [of 2] f(8) by simp
  then show "view None demo_second 2 = [5, 8, 9] @ replicate 125 0" using e4 e5 k(3) by (simp add: edits_def patch_def)
qed

section \<open>Property\<close>

text \<open>
  C2: A commit is atomic across a crash. Take a reachable writable pager whose database exists
  (page 1 has the magic) and whose log ends in a commit. A crash during a commit of at most 2111
  dirty pages leaves the log cut at any byte of the batch, or, when the commit goes on to the automatic
  checkpoint, a partly copied database file or a partly reset log. Opening the two files again
  succeeds, and every page then has its durable image from before the commit if a byte of the
  batch is missing from the log, and its image from after the commit in every other case.
\<close>

theorem pager_commit_crash_atomic:
  assumes "pager_reach z p" "codec_ok z" "page_size p \<le> 65536" "\<not> preadonly p" "log_whole z p" "h_db_size (phdr p) \<noteq> 0"
    and "length (dirty_pages p) < TDB_CACHE_SOFT_MAX + 64" "has_magic (snd (read_page_image all_ok z p 1))"
    and "tdb_pager_commit all_ok z p = (rc, p')" "commit_crash z p done db h" "q \<noteq> 0"
  shows "\<exists>p''. tdb_pager_open all_ok z ro db h = Inr p'' \<and>
    read_page_image all_ok z p'' q = read_page_image all_ok z (if done then p' else p) q"
proof -
  have inv: "pager_inv z p" by (rule pager_reach_inv [OF assms(1,2)])
  obtain fs where fs: "store_rep z p fs" "committed fs = fs" using assms(5) by (auto simp: log_whole_def)
  have so: "stored_ok z (page_size p) (pwal p) (pfile p)" using pager_reach_stored [OF assms(1-3)] by simp
  obtain gs where g: "commit_logged z p gs" "\<And>q. q \<noteq> 0 \<Longrightarrow> disk z p' q = logged_page gs (fcontent (pfile p)) (page_size p) (unat q)"
    "\<And>k. log_len z (commit_log z p) fs \<le> k \<Longrightarrow>
       committed (whole_frames z (commit_log z p) k gs) = (if k < log_len z (commit_log z p) gs then fs else gs)"
    "wal_cfg (commit_log z p) = wal_cfg (pwal p)" "pager_inv z p'" "set fs \<subseteq> set gs"
    by (rule commit_logged [OF assms(1-4) fs assms(6,7,9)]) (rule that, assumption+)
  have magic: "has_magic (disk z p 1)" using assms(8) read_image_ok [OF inv] by simp
  have ps: "100 \<le> page_size p" using fs(1) by (simp add: store_rep_def)
  obtain hs where r: "mem_clean db" "wal_rep z (snd (tdb_wal_open all_ok z h (page_size p))) hs" "wpage_size (snd (tdb_wal_open all_ok z h (page_size p))) = page_size p"
    "list_all (\<lambda>f. f_pgno f \<noteq> 0) hs"
    "marked (page_size p) (fcontent db) \<or>
      (length (fcontent db) < 100 \<and> mem_ok h \<and> (\<exists>w bs. wpage_size w = page_size p \<and> fcontent h = wal_header w @ bs) \<and>
       (\<exists>page. latest hs 1 = Some page \<and> has_magic page))"
    "\<forall>q \<ge> 1. logged_page hs (fcontent db) (page_size p) q = logged_page (if done then gs else fs) (fcontent (pfile p)) (page_size p) q"
    using commit_crash_recovers [OF g(1) fs(1) so magic g(3,4,6) assms(10)] unfolding recovers_def by blast
  obtain p'' where p'': "tdb_pager_open all_ok z ro db h = Inr p''" "pager_inv z p''"
    "\<And>q. q \<noteq> 0 \<Longrightarrow> disk z p'' q = logged_page hs (fcontent db) (page_size p) (unat q)"
    by (rule open_files [OF assms(2) r(1) ps assms(3) r(2-5), of ro]) (rule that, assumption+)
  have "1 \<le> unat q" using assms(11) by (simp add: unat_gt_0 Suc_le_eq)
  then have "disk z p'' q = disk z (if done then p' else p) q"
    using p''(3) g(2) disk_logged [OF fs(1)] r(6) assms(11) by simp
  then show ?thesis using p''(1,2) inv g(5) by (simp add: read_image_ok)
qed

theorem pager_commit_crash_atomic_witness:
  "let w = commit_log None demo_second; d = take (end_off w - 1) (fcontent (wfile w)) in
   \<exists>p''. tdb_pager_open all_ok None False (pfile demo_second) \<lparr>mdata = d, msize = length d\<rparr> = Inr p'' \<and>
     read_page_image all_ok None p'' 2 = (TDB_OK, [7, 8, 9] @ replicate 125 0) \<and> view None demo_second 2 = [5, 8, 9] @ replicate 125 0"
proof -
  note f = demo_second_facts
  define w where "w = commit_log None demo_second"
  define d where "d = take (end_off w - 1) (fcontent (wfile w))"
  obtain fs where fs: "store_rep None demo_second fs" "committed fs = fs" using f(5) by blast
  obtain rc p' where c: "tdb_pager_commit all_ok None demo_second = (rc, p')" by force
  have grows: "end_off (pwal demo_second) < end_off w"
    unfolding w_def by (rule commit_log_grows [OF f(1) codec_none _ f(3) fs _ _ c]) (simp_all add: f TDB_CACHE_SOFT_MAX_def)
  have h: "mem_ok \<lparr>mdata = d, msize = length d\<rparr>" "fcontent \<lparr>mdata = d, msize = length d\<rparr> = take (end_off w - 1) (fcontent (wfile w))"
    unfolding d_def [symmetric] by (simp_all add: mem_ok_def fcontent_def)
  have crash: "commit_crash None demo_second False (pfile demo_second) \<lparr>mdata = d, msize = length d\<rparr>"
    using commit_crash.append [of demo_second "end_off w - 1" None, folded w_def, OF _ _ h] grows
    by (cases "end_off w") simp_all
  have "\<exists>p''. tdb_pager_open all_ok None False (pfile demo_second) \<lparr>mdata = d, msize = length d\<rparr> = Inr p'' \<and>
    read_page_image all_ok None p'' 2 = read_page_image all_ok None (if False then p' else demo_second) 2"
    by (rule pager_commit_crash_atomic [OF f(1) codec_none _ f(3) _ _ _ _ c crash])
      (use fs f read_image_ok [OF f(2)] in \<open>auto simp: log_whole_def TDB_CACHE_SOFT_MAX_def\<close>)
  then show ?thesis using read_image_ok [OF f(2)] f(9,10) unfolding Let_def w_def [symmetric] d_def [symmetric] by simp
qed

end
