(* ===== verification/Tdb_Freelist.thy ===== *)
theory Tdb_Freelist
  imports Tdb_Pager_Commit
begin

text \<open>
  The free list of the pager as a stack of page numbers. The trunk pages are a linked list
  through the view; its abstraction lists for every trunk the leaves from the last one on and
  then the trunk itself. Allocation pops this list and freeing pushes onto it; the locale
  \<open>page_allocator\<close> states that contract, and its refinement of an abstract stack machine is
  proved once from it.
\<close>

section \<open>The interface\<close>

datatype fl_op = Fl_alloc | Fl_free u32

text \<open>The abstract machine: the number of pages and the stack of free ones.\<close>

fun abs_step :: "nat \<times> u32 list \<Rightarrow> fl_op \<Rightarrow> u32 \<times> nat \<times> u32 list" where
  "abs_step (n, q # qs) Fl_alloc = (q, n, qs)"
| "abs_step (n, []) Fl_alloc = (word_of_nat (n + 1), n + 1, [])"
| "abs_step (n, qs) (Fl_free q) = (q, n, q # qs)"

fun abs_run :: "nat \<times> u32 list \<Rightarrow> fl_op list \<Rightarrow> u32 list" where
  "abs_run s [] = []"
| "abs_run s (x # xs) = (case abs_step s x of (q, s') \<Rightarrow> q # abs_run s' xs)"

text \<open>A client frees only pages in use, never page 1, and the file stays below \<open>2 ^ 32\<close> pages.\<close>

fun abs_ok :: "nat \<times> u32 list \<Rightarrow> fl_op list \<Rightarrow> bool" where
  "abs_ok s [] \<longleftrightarrow> True"
| "abs_ok (n, qs) (Fl_alloc # xs) \<longleftrightarrow> n + 1 < 2 ^ 32 \<and> abs_ok (snd (abs_step (n, qs) Fl_alloc)) xs"
| "abs_ok (n, qs) (Fl_free q # xs) \<longleftrightarrow> 1 < q \<and> unat q \<le> n \<and> q \<notin> set qs \<and> abs_ok (n, q # qs) xs"

definition fl_step ::
  "('s \<Rightarrow> tdb_status \<times> u32 \<times> 's) \<Rightarrow> ('s \<Rightarrow> u32 \<Rightarrow> tdb_status \<times> 's) \<Rightarrow> 's \<Rightarrow> fl_op \<Rightarrow> u32 \<times> 's" where
  "fl_step alloc free s x = (case x of Fl_alloc \<Rightarrow> snd (alloc s) | Fl_free q \<Rightarrow> (q, snd (free s q)))"

primrec fl_run ::
  "('s \<Rightarrow> tdb_status \<times> u32 \<times> 's) \<Rightarrow> ('s \<Rightarrow> u32 \<Rightarrow> tdb_status \<times> 's) \<Rightarrow> 's \<Rightarrow> fl_op list \<Rightarrow> u32 list" where
  "fl_run alloc free s [] = []"
| "fl_run alloc free s (x # xs) = fst (fl_step alloc free s x) # fl_run alloc free (snd (fl_step alloc free s x)) xs"

definition pages_in_use :: "nat \<Rightarrow> u32 list \<Rightarrow> u32 set" where
  "pages_in_use n qs = {q. 0 < q \<and> unat q \<le> n} - set qs"

locale page_allocator =
  fixes inv :: "'s \<Rightarrow> u32 list \<Rightarrow> bool"
    and pages :: "'s \<Rightarrow> nat"
    and alloc :: "'s \<Rightarrow> tdb_status \<times> u32 \<times> 's"
    and free :: "'s \<Rightarrow> u32 \<Rightarrow> tdb_status \<times> 's"
  assumes alloc_pop: "inv s (q # qs) \<Longrightarrow> \<exists>s'. alloc s = (TDB_OK, q, s') \<and> inv s' qs \<and> pages s' = pages s"
    and alloc_grow: "inv s [] \<Longrightarrow> pages s + 1 < 2 ^ 32 \<Longrightarrow>
      \<exists>s'. alloc s = (TDB_OK, word_of_nat (pages s + 1), s') \<and> inv s' [] \<and> pages s' = pages s + 1"
    and free_push: "inv s qs \<Longrightarrow> q \<notin> set qs \<Longrightarrow> 1 < q \<Longrightarrow> unat q \<le> pages s \<Longrightarrow>
      \<exists>s'. free s q = (TDB_OK, s') \<and> inv s' (q # qs) \<and> pages s' = pages s"
    and inv_list: "inv s qs \<Longrightarrow> distinct qs \<and> (\<forall>q \<in> set qs. 1 < q \<and> unat q \<le> pages s)"
begin

lemma step_refines:
  assumes "inv s qs" "abs_ok (pages s, qs) (x # xs)"
  shows "fst (fl_step alloc free s x) = fst (abs_step (pages s, qs) x) \<and>
    (\<exists>qs'. inv (snd (fl_step alloc free s x)) qs' \<and> snd (abs_step (pages s, qs) x) = (pages (snd (fl_step alloc free s x)), qs') \<and>
      abs_ok (pages (snd (fl_step alloc free s x)), qs') xs)"
proof (cases x)
  case Fl_alloc
  show ?thesis
  proof (cases qs)
    case Nil
    then show ?thesis using alloc_grow [of s] assms Fl_alloc by (auto simp: fl_step_def)
  next
    case (Cons q qs')
    then show ?thesis using alloc_pop [of s q qs'] assms Fl_alloc by (auto simp: fl_step_def)
  qed
next
  case (Fl_free q)
  then show ?thesis using free_push [of s qs q] assms by (auto simp: fl_step_def)
qed

text \<open>The allocator returns what the stack machine returns.\<close>

lemma run_refines:
  "inv s qs \<Longrightarrow> abs_ok (pages s, qs) xs \<Longrightarrow> fl_run alloc free s xs = abs_run (pages s, qs) xs"
proof (induction xs arbitrary: s qs)
  case Nil
  then show ?case by simp
next
  case (Cons x xs)
  from step_refines [OF Cons.prems] obtain qs' where s: "fst (fl_step alloc free s x) = fst (abs_step (pages s, qs) x)"
    "inv (snd (fl_step alloc free s x)) qs'" "snd (abs_step (pages s, qs) x) = (pages (snd (fl_step alloc free s x)), qs')"
    "abs_ok (pages (snd (fl_step alloc free s x)), qs') xs" by blast
  then show ?case using Cons.IH [OF s(2,4)] by (simp add: split_def)
qed

text \<open>An allocated page was not in use, and a freed one no longer is.\<close>

lemma alloc_unused:
  assumes "inv s qs" "pages s + 1 < 2 ^ 32" "alloc s = (rc, q, s')"
  shows "rc = TDB_OK \<and> q \<notin> pages_in_use (pages s) qs \<and> (\<exists>qs'. inv s' qs' \<and> pages_in_use (pages s') qs' = insert q (pages_in_use (pages s) qs))"
proof (cases qs)
  case Nil
  then have s: "rc = TDB_OK" "q = word_of_nat (pages s + 1)" "inv s' []" "pages s' = pages s + 1"
    using alloc_grow [of s] assms by auto
  then have u: "unat q = pages s + 1" using assms(2) by (simp only: unat_of_nat) simp
  then have "0 < q" by (simp add: word_less_nat_alt)
  then have "pages_in_use (pages s') [] = insert q (pages_in_use (pages s) [])"
    using u s(4) by (auto simp: pages_in_use_def le_Suc_eq word_unat_eq_iff)
  with s u Nil show ?thesis by (auto simp: pages_in_use_def)
next
  case (Cons p qs')
  then have s: "rc = TDB_OK" "q = p" "inv s' qs'" "pages s' = pages s" using alloc_pop [of s p qs'] assms by auto
  then have "pages_in_use (pages s') qs' = insert q (pages_in_use (pages s) qs)"
    using inv_list [OF assms(1)] Cons by (auto simp: pages_in_use_def word_less_nat_alt)
  with s Cons show ?thesis by (auto simp: pages_in_use_def)
qed

end

section \<open>Trunk pages\<close>

definition fl_next :: "bytes \<Rightarrow> u32" where
  "fl_next d = tdb_get_u32 (drop 1 d)"

definition fl_count :: "bytes \<Rightarrow> nat" where
  "fl_count d = unat (tdb_get_u32 (drop 5 d))"

definition fl_leaf :: "bytes \<Rightarrow> nat \<Rightarrow> u32" where
  "fl_leaf d i = tdb_get_u32 (drop (9 + 4 * i) d)"

definition fl_leaves :: "bytes \<Rightarrow> u32 list" where
  "fl_leaves d = map (fl_leaf d) (rev [0..<fl_count d])"

lemma get_u32_slice: "off + 4 \<le> length d \<Longrightarrow> tdb_get_u32 (drop off d) = tdb_get_u32 (slice off 4 d)"
  by (simp add: tdb_get_u32_def slice_def)

lemma get_u32_patch_same: "off + 4 \<le> length d \<Longrightarrow> tdb_get_u32 (drop off (patch off (tdb_put_u32 v) d)) = v"
  using slice_patch_same [of off "tdb_put_u32 v" d] by (simp add: get_u32_slice)

lemma get_u32_patch_other:
  assumes "off + 4 \<le> length d" "o2 + length b \<le> length d" "off + 4 \<le> o2 \<or> o2 + length b \<le> off"
  shows "tdb_get_u32 (drop off (patch o2 b d)) = tdb_get_u32 (drop off d)"
  using assms by (auto simp: get_u32_slice slice_patch_before slice_patch_after)

lemma trunk_count:
  assumes "100 \<le> length d"
  shows "fl_count (patch 5 (tdb_put_u32 n) d) = unat n" "fl_next (patch 5 (tdb_put_u32 n) d) = fl_next d"
    "9 + 4 * i + 4 \<le> length d \<Longrightarrow> fl_leaf (patch 5 (tdb_put_u32 n) d) i = fl_leaf d i"
  using assms get_u32_patch_same [of 5 d n] get_u32_patch_other [of _ d 5 "tdb_put_u32 n"]
  by (simp_all add: fl_count_def fl_next_def fl_leaf_def)

lemma trunk_leaf:
  assumes "100 \<le> length d" "9 + 4 * j + 4 \<le> length d"
  shows "fl_count (patch (9 + 4 * j) (tdb_put_u32 q) d) = fl_count d" "fl_next (patch (9 + 4 * j) (tdb_put_u32 q) d) = fl_next d"
    "9 + 4 * i + 4 \<le> length d \<Longrightarrow> fl_leaf (patch (9 + 4 * j) (tdb_put_u32 q) d) i = (if i = j then q else fl_leaf d i)"
proof -
  show "fl_count (patch (9 + 4 * j) (tdb_put_u32 q) d) = fl_count d" "fl_next (patch (9 + 4 * j) (tdb_put_u32 q) d) = fl_next d"
    using assms get_u32_patch_other [of _ d "9 + 4 * j" "tdb_put_u32 q"] by (simp_all add: fl_count_def fl_next_def)
  show "fl_leaf (patch (9 + 4 * j) (tdb_put_u32 q) d) i = (if i = j then q else fl_leaf d i)" if "9 + 4 * i + 4 \<le> length d"
  proof (cases "i = j")
    case True
    then show ?thesis using assms get_u32_patch_same [of "9 + 4 * j" d] by (simp add: fl_leaf_def)
  next
    case False
    then have "i + 1 \<le> j \<or> j + 1 \<le> i" by linarith
    then have "9 + 4 * i + 4 \<le> 9 + 4 * j \<or> 9 + 4 * j + 4 \<le> 9 + 4 * i" by linarith
    then show ?thesis
      using assms that False get_u32_patch_other [of "9 + 4 * i" d "9 + 4 * j" "tdb_put_u32 q"] by (simp add: fl_leaf_def)
  qed
qed

lemma trunk_page_fields:
  assumes "100 \<le> ps"
  shows "fl_next (trunk_page ps h) = h" "fl_count (trunk_page ps h) = 0" "fl_leaves (trunk_page ps h) = []"
  by (simp_all add: fl_leaves_def fl_next_def fl_count_def trunk_page_def get_put_u)

section \<open>The chain of trunks\<close>

primrec fl_chain :: "(u32 \<Rightarrow> bytes) \<Rightarrow> u32 \<Rightarrow> u32 list \<Rightarrow> bool" where
  "fl_chain v h [] \<longleftrightarrow> h = 0"
| "fl_chain v h (t # ts) \<longleftrightarrow> h = t \<and> t \<noteq> 0 \<and> fl_chain v (fl_next (v t)) ts"

definition fl_pages :: "(u32 \<Rightarrow> bytes) \<Rightarrow> u32 list \<Rightarrow> u32 list" where
  "fl_pages v ts = concat (map (\<lambda>t. fl_leaves (v t) @ [t]) ts)"

definition free_list :: "zbuild \<Rightarrow> tdb_pager \<Rightarrow> u32 list \<Rightarrow> bool" where
  "free_list z p qs \<longleftrightarrow>
     (\<exists>ts. fl_chain (view z p) (h_freelist_head (phdr p)) ts \<and> qs = fl_pages (view z p) ts \<and>
       (\<forall>t \<in> set ts. fl_count (view z p t) \<le> unat (per_trunk p))) \<and>
     distinct qs \<and> (\<forall>q \<in> set qs. 1 < q \<and> unat q \<le> unat (h_db_size (phdr p))) \<and>
     h_freelist_count (phdr p) = word_of_nat (length qs)"

definition free_inv :: "zbuild \<Rightarrow> tdb_pager \<Rightarrow> u32 list \<Rightarrow> bool" where
  "free_inv z p qs \<longleftrightarrow> pager_inv z p \<and> \<not> preadonly p \<and> free_list z p qs"

lemma fl_pages_simps [simp]: "fl_pages v [] = []" "fl_pages v (t # ts) = fl_leaves (v t) @ t # fl_pages v ts"
  by (simp_all add: fl_pages_def)

lemma free_listI:
  assumes "fl_chain (view z p) (h_freelist_head (phdr p)) ts" "fl_pages (view z p) ts = qs"
    "\<And>t. t \<in> set ts \<Longrightarrow> fl_count (view z p t) \<le> unat (per_trunk p)" "distinct qs"
    "\<And>q. q \<in> set qs \<Longrightarrow> 1 < q \<and> unat q \<le> unat (h_db_size (phdr p))" "h_freelist_count (phdr p) = word_of_nat (length qs)"
  shows "free_list z p qs"
  using assms unfolding free_list_def by blast

lemma free_listD:
  assumes "free_list z p qs"
  obtains ts where "fl_chain (view z p) (h_freelist_head (phdr p)) ts" "fl_pages (view z p) ts = qs"
    "\<forall>t \<in> set ts. fl_count (view z p t) \<le> unat (per_trunk p)" "distinct qs"
    "\<forall>q \<in> set qs. 1 < q \<and> unat q \<le> unat (h_db_size (phdr p))" "h_freelist_count (phdr p) = word_of_nat (length qs)"
  using assms unfolding free_list_def by blast

lemma fl_frame:
  assumes "\<And>t. t \<in> set ts \<Longrightarrow> v' t = v t"
  shows "fl_chain v' h ts = fl_chain v h ts" "fl_pages v' ts = fl_pages v ts"
  using assms by (induction ts arbitrary: h) auto

lemma trunk_in_pages: "t \<in> set ts \<Longrightarrow> t \<in> set (fl_pages v ts)"
  by (auto simp: fl_pages_def)

lemma fl_leaves_Suc: "fl_count d = Suc c \<Longrightarrow> fl_leaves d = fl_leaf d c # map (fl_leaf d) (rev [0..<c])"
  by (simp add: fl_leaves_def)

lemma count_in_page:
  assumes "pager_inv z p" "c \<le> unat (per_trunk p)" "i < c"
  shows "9 + 4 * i + 4 \<le> page_size p"
proof -
  note ps = inv_page_size [OF assms(1)]
  have "c \<le> (page_size p - 9) div 4" using assms(2) ps by (simp add: per_trunk_nat)
  then have "4 * c \<le> page_size p - 9" by linarith
  then show ?thesis using assms(3) ps by linarith
qed

lemma alloc_fresh_ok: "q0 \<noteq> 0 \<or> h_db_size (phdr p) + 1 \<noteq> 0 \<Longrightarrow>
    \<exists>p'. alloc_fresh all_ok p q0 = (TDB_OK, fst (take_number p q0), p')"
  by (auto simp: alloc_fresh_def take_number_def page_new_def Let_def)

lemma free_trunk_succeeds: "pager_inv z p \<Longrightarrow> q \<noteq> 0 \<Longrightarrow> fst (free_trunk all_ok z p q) = TDB_OK"
  using get_succeeds [of z p q] by (cases "tdb_pager_get all_ok z p q") (simp add: free_trunk_def Let_def)

lemma free_succeeds:
  assumes inv: "pager_inv z p" and "\<not> preadonly p" "q \<noteq> 0" "q \<noteq> 1"
  shows "fst (tdb_pager_free all_ok z p q) = TDB_OK"
proof (cases "h_freelist_head (phdr p) = 0")
  case True
  then show ?thesis using assms free_trunk_succeeds [OF inv] by (simp add: tdb_pager_free_def)
next
  case False
  obtain rc p1 where get: "tdb_pager_get all_ok z p (h_freelist_head (phdr p)) = (rc, p1)" by force
  have rc: "rc = TDB_OK" using get_succeeds [OF inv False] get by simp
  have "pager_inv z p1" using get_keeps(1) [OF inv get] by (simp add: keeps_def)
  then have "pager_inv z (tdb_pager_unref p1 (h_freelist_head (phdr p)))" using unref_keeps by (simp add: keeps_def)
  from free_trunk_succeeds [OF this assms(3)] show ?thesis
    using assms False get rc by (simp add: tdb_pager_free_def Let_def)
qed

lemma alloc_pop_succeeds: "pager_inv z p \<Longrightarrow> fst (alloc_pop all_ok z p) = TDB_OK"
  using get_succeeds [of z p "h_freelist_head (phdr p)"]
  by (cases "tdb_pager_get all_ok z p (h_freelist_head (phdr p))") (simp add: alloc_pop_def Let_def split_def)

text \<open>Freeing pushes.\<close>

lemma free_list_trunk:
  assumes fl: "free_list z p qs" and e: "edits z p q (trunk_page (page_size p) (h_freelist_head (phdr p))) p'"
    and h: "phdr p' = (phdr p)\<lparr>h_freelist_head := q, h_freelist_count := h_freelist_count (phdr p) + 1\<rparr>"
    and q: "q \<notin> set qs" "1 < q" "unat q \<le> unat (h_db_size (phdr p))" and ps: "100 \<le> page_size p"
  shows "free_list z p' (q # qs)"
proof -
  from fl obtain ts where ts: "fl_chain (view z p) (h_freelist_head (phdr p)) ts" "fl_pages (view z p) ts = qs"
    "\<forall>t \<in> set ts. fl_count (view z p t) \<le> unat (per_trunk p)" "distinct qs"
    "\<forall>q \<in> set qs. 1 < q \<and> unat q \<le> unat (h_db_size (phdr p))" "h_freelist_count (phdr p) = word_of_nat (length qs)"
    by (rule free_listD) (rule that, assumption+)
  have v: "view z p' = (view z p)(q := trunk_page (page_size p) (h_freelist_head (phdr p)))" and s: "page_size p' = page_size p"
    using e by (simp_all add: edits_def)
  have "q \<notin> set ts" using q(1) ts(2) trunk_in_pages by metis
  then have other: "view z p' t = view z p t" if "t \<in> set ts" for t using that v by auto
  note fr = fl_frame [of ts "view z p'" "view z p", OF other]
  have "q \<noteq> 0" using q(2) by auto
  then show ?thesis
    using ts fr other trunk_page_fields [OF ps] q
    by (intro free_listI [of z p' "q # ts"]) (auto simp: v h per_trunk_def s add.commute)
qed

lemma free_list_leaf:
  assumes inv: "pager_inv z p" and fl: "free_list z p qs"
  defines "head \<equiv> h_freelist_head (phdr p)"
  defines "d \<equiv> view z p head"
  defines "lc \<equiv> tdb_get_u32 (drop 5 d)"
  assumes head: "head \<noteq> 0" "lc < per_trunk p"
    and e: "edits z p head (patch 5 (tdb_put_u32 (lc + 1)) (patch (leaf_off lc) (tdb_put_u32 q) d)) p'"
    and h: "phdr p' = (phdr p)\<lparr>h_freelist_count := h_freelist_count (phdr p) + 1\<rparr>"
    and q: "q \<notin> set qs" "1 < q" "unat q \<le> unat (h_db_size (phdr p))"
  shows "free_list z p' (q # qs)"
proof -
  from fl obtain ts where ts: "fl_chain (view z p) head ts" "fl_pages (view z p) ts = qs"
    "\<forall>t \<in> set ts. fl_count (view z p t) \<le> unat (per_trunk p)" "distinct qs"
    "\<forall>q \<in> set qs. 1 < q \<and> unat q \<le> unat (h_db_size (phdr p))" "h_freelist_count (phdr p) = word_of_nat (length qs)"
    unfolding head_def by (rule free_listD) (rule that [unfolded head_def], assumption+)
  then obtain ts' where ts': "ts = head # ts'" using head(1) by (cases ts) auto
  let ?d = "patch 5 (tdb_put_u32 (lc + 1)) (patch (leaf_off lc) (tdb_put_u32 q) d)"
  have v: "view z p' = (view z p)(head := ?d)" and s: "page_size p' = page_size p" using e by (simp_all add: edits_def)
  note off = leaf_in_page [OF inv head(2)]
  have len: "length d = page_size p" "100 \<le> length d" using length_view [OF inv] inv_page_size [OF inv] by (simp_all add: d_def)
  have lc1: "unat (lc + 1) = Suc (unat lc)" 
  proof -
    have "unat lc + unat (1 :: u32) < 2 ^ 32"
      using head(2) unat_less_2p [of "per_trunk p"] by (simp add: word_less_nat_alt)
    then show ?thesis by (subst unat_add_lem [THEN iffD1]) simp_all
  qed
  have cnt: "fl_count d = unat lc" by (simp add: fl_count_def lc_def)
  have len2: "length (patch (leaf_off lc) (tdb_put_u32 q) d) = length d" using off(2) len by simp
  have d': "fl_count ?d = Suc (unat lc)" "fl_next ?d = fl_next d"
    using trunk_count [where d = "patch (leaf_off lc) (tdb_put_u32 q) d" and n = "lc + 1"] trunk_leaf(2) [of d "unat lc" q] len len2 off lc1 by simp_all
  have ent: "fl_leaf ?d i = (if i = unat lc then q else fl_leaf d i)" if "9 + 4 * i + 4 \<le> page_size p" for i
    using trunk_count(3) [where d = "patch (leaf_off lc) (tdb_put_u32 q) d" and i = i and n = "lc + 1"]
      trunk_leaf(3) [where d = d and j = "unat lc" and i = i and q = q] len len2 off that by simp
  have inpage: "9 + 4 * i + 4 \<le> page_size p" if "i \<le> unat lc" for i using off that by simp
  have leaves: "fl_leaves ?d = q # fl_leaves d"
    using ent inpage by (simp add: fl_leaves_Suc [OF d'(1)]) (simp add: fl_leaves_def cnt)
  have nt: "head \<notin> set ts'" using ts(2,4) trunk_in_pages [of head ts' "view z p"] by (auto simp: ts')
  then have other: "view z p' t = view z p t" if "t \<in> set ts'" for t using that v by auto
  note fr = fl_frame [of ts' "view z p'" "view z p", OF other]
  have "fl_chain (view z p') head ts" "fl_pages (view z p') ts = q # qs"
    using ts fr d' leaves by (auto simp: ts' v d_def [symmetric])
  moreover have "fl_count (view z p' t) \<le> unat (per_trunk p')" if "t \<in> set ts" for t
    using that ts(3) d'(1) other head(2) by (auto simp: ts' v per_trunk_def s word_less_nat_alt)
  ultimately show ?thesis
    using ts q by (intro free_listI [of z p' ts]) (auto simp: h head_def add.commute)
qed

lemma free_pushes:
  assumes inv: "free_inv z p qs" and q: "q \<notin> set qs" "1 < q" "unat q \<le> unat (h_db_size (phdr p))"
  shows "\<exists>p'. tdb_pager_free all_ok z p q = (TDB_OK, p') \<and> free_inv z p' (q # qs) \<and> h_db_size (phdr p') = h_db_size (phdr p)"
proof -
  have pinv: "pager_inv z p" and ro: "\<not> preadonly p" and fl: "free_list z p qs" using inv by (simp_all add: free_inv_def)
  have ps: "100 \<le> page_size p" using inv_page_size [OF pinv] by simp
  obtain rc p' where fr: "tdb_pager_free all_ok z p q = (rc, p')" by force
  have "q \<noteq> 0" "q \<noteq> 1" using q(2) by auto
  then have rc: "rc = TDB_OK" using free_succeeds [OF pinv ro, of q] fr by simp
  from pinv fr have "free_list z p' (q # qs) \<and> pager_inv z p' \<and> preadonly p' = preadonly p \<and> h_db_size (phdr p') = h_db_size (phdr p)"
  proof (cases rule: free_cases)
    case error
    then show ?thesis using rc by simp
  next
    case leaf
    from free_list_leaf [OF pinv fl leaf(4-7) q] leaf(6,7) show ?thesis by (simp add: edits_def)
  next
    case trunk
    from free_list_trunk [OF fl trunk(5,6) q ps] trunk(5,6) show ?thesis by (simp add: edits_def)
  qed
  then show ?thesis using fr rc ro by (simp add: free_inv_def)
qed

text \<open>Allocating pops.\<close>

lemma free_list_alloc:
  assumes inv: "pager_inv z p" and ro: "\<not> preadonly p" and fl: "free_list z p (q # qs)"
    and pop: "alloc_pop all_ok z p = (TDB_OK, q0, p1)"
  shows "q0 = q" "edits z p1 q (replicate (page_size p) 0) p' \<Longrightarrow> phdr p' = phdr p1 \<Longrightarrow>
    free_list z p' qs \<and> h_db_size (phdr p') = h_db_size (phdr p)"
proof -
  define head where "head = h_freelist_head (phdr p)"
  define d where "d = view z p head"
  from fl obtain ts where ts: "fl_chain (view z p) head ts" "fl_pages (view z p) ts = q # qs"
    "\<forall>t \<in> set ts. fl_count (view z p t) \<le> unat (per_trunk p)" "distinct (q # qs)"
    "\<forall>r \<in> set (q # qs). 1 < r \<and> unat r \<le> unat (h_db_size (phdr p))" "h_freelist_count (phdr p) = word_of_nat (length (q # qs))"
    unfolding head_def by (rule free_listD) (rule that [unfolded head_def], assumption+)
  then obtain ts' where ts': "ts = head # ts'" "head \<noteq> 0" by (cases ts) auto
  have len: "length d = page_size p" "100 \<le> length d" using length_view [OF inv] inv_page_size [OF inv] by (simp_all add: d_def)
  have nt: "head \<notin> set ts'" using ts(2,4) trunk_in_pages [of head ts' "view z p"] by (auto simp: ts' simp flip: ts(2))
  have cnt: "h_freelist_count (phdr p) - 1 = word_of_nat (length qs)" using ts(6) by simp
  have "q0 = q \<and> (edits z p1 q (replicate (page_size p) 0) p' \<longrightarrow> phdr p' = phdr p1 \<longrightarrow>
      free_list z p' qs \<and> h_db_size (phdr p') = h_db_size (phdr p))"
    using inv ro pop
  proof (cases rule: alloc_pop_cases)
    case empty
    then show ?thesis using ts' by (simp add: head_def)
  next
    case error
    then show ?thesis by simp
  next
    case leaf
    define lc where "lc = tdb_get_u32 (drop 5 d)"
    have lc: "lc \<noteq> 0" "fl_count d = unat lc" using leaf(3) by (simp_all add: lc_def d_def head_def fl_count_def)
    then obtain c where c: "unat lc = Suc c" by (metis not0_implies_Suc unat_eq_zero)
    have c1: "unat (lc - 1) = c" using unat_minus_one [OF lc(1)] c by simp
    have le: "Suc c \<le> unat (per_trunk p)" using ts(3) lc(2) c by (simp add: ts' d_def)
    have "4 * unat (lc - 1) < 2 ^ 32" using count_in_page [OF inv le, of c] inv_page_size [OF inv] c1 by simp
    then have q0: "q0 = fl_leaf d c"
      using leaf(4) leaf_off_nat [of "lc - 1"] c1 by (simp add: lc_def [symmetric] d_def [symmetric] head_def [symmetric] fl_leaf_def)
    have cd: "fl_count d = Suc c" using lc(2) c by simp
    have qs: "q = fl_leaf d c" "qs = map (fl_leaf d) (rev [0..<c]) @ head # fl_pages (view z p) ts'"
      using ts(2) fl_leaves_Suc [OF cd] by (simp_all add: ts' d_def [symmetric])
    let ?d = "patch 5 (tdb_put_u32 (lc - 1)) d"
    have "free_list z p' qs \<and> h_db_size (phdr p') = h_db_size (phdr p)"
      if e: "edits z p1 q (replicate (page_size p) 0) p'" and h: "phdr p' = phdr p1"
    proof -
      have v: "view z p' = (view z p)(head := ?d, q := replicate (page_size p) 0)" and s: "page_size p' = page_size p"
        using e leaf(5) by (simp_all add: edits_def head_def d_def lc_def)
      have d': "fl_count ?d = c" "fl_next ?d = fl_next d" using trunk_count(1,2) [OF len(2), of "lc - 1"] c1 by simp_all
      have "fl_leaf ?d i = fl_leaf d i" if "i < c" for i
        using trunk_count(3) [OF len(2), where i = i and n = "lc - 1"] count_in_page [OF inv le, of i] that len(1) by simp
      then have leaves: "fl_leaves ?d = map (fl_leaf d) (rev [0..<c])" by (simp add: fl_leaves_def d'(1))
      have qh: "q \<noteq> head" "q \<notin> set ts'" using ts(4) qs(2) trunk_in_pages [of q ts' "view z p"] by auto
      then have other: "view z p' t = view z p t" if "t \<in> set ts'" for t using that nt v by auto
      note fr = fl_frame [of ts' "view z p'" "view z p", OF other]
      have "free_list z p' qs"
      proof (rule free_listI [of z p' ts])
        show "fl_chain (view z p') (h_freelist_head (phdr p')) ts"
          using ts(1) fr(1) d'(2) qh leaf(6) by (simp add: ts' v h head_def d_def)
        show "fl_pages (view z p') ts = qs" using fr(2) leaves qh by (simp add: ts' v qs(2))
        show "fl_count (view z p' t) \<le> unat (per_trunk p')" if "t \<in> set ts" for t
          using that ts(3) other d'(1) le qh by (auto simp: ts' v per_trunk_def s)
      qed (use ts cnt leaf(6) in \<open>auto simp: h\<close>)
      then show ?thesis using leaf(6) by (simp add: h)
    qed
    then show ?thesis using q0 qs(1) by simp
  next
    case trunk
    have "fl_count d = 0" using trunk(3) by (simp add: fl_count_def d_def head_def)
    then have qs: "q = head" "qs = fl_pages (view z p) ts'" using ts(2) by (simp_all add: ts' d_def [symmetric] fl_leaves_def)
    have q0: "q0 = q" using trunk(4) qs(1) by (simp add: head_def)
    have "free_list z p' qs \<and> h_db_size (phdr p') = h_db_size (phdr p)"
      if e: "edits z p1 q (replicate (page_size p) 0) p'" and h: "phdr p' = phdr p1"
    proof -
      have v: "view z p' = (view z p)(q := replicate (page_size p) 0)" and s: "page_size p' = page_size p"
        using e trunk(6,7) by (simp_all add: edits_def evolves_def)
      have other: "view z p' t = view z p t" if "t \<in> set ts'" for t using that nt v qs(1) by auto
      note fr = fl_frame [of ts' "view z p'" "view z p", OF other]
      have "free_list z p' qs"
        by (rule free_listI [of z p' ts'])
           (use ts fr qs cnt other trunk(9) in \<open>auto simp: ts' h s per_trunk_def head_def fl_next_def\<close>)
      then show ?thesis using trunk(9) by (simp add: h)
    qed
    then show ?thesis using q0 by simp
  qed
  then show "q0 = q" "edits z p1 q (replicate (page_size p) 0) p' \<Longrightarrow> phdr p' = phdr p1 \<Longrightarrow>
    free_list z p' qs \<and> h_db_size (phdr p') = h_db_size (phdr p)" by simp_all
qed

lemma alloc_split:
  assumes inv: "pager_inv z p" and ro: "\<not> preadonly p" and pop: "alloc_pop all_ok z p = (TDB_OK, q0, p1)"
    and nz: "q0 \<noteq> 0 \<or> h_db_size (phdr p1) + 1 \<noteq> 0"
  obtains p' where "tdb_pager_alloc all_ok z p = (TDB_OK, fst (take_number p1 q0), p')" "pager_inv z p'" "\<not> preadonly p'"
    "edits z p1 (fst (take_number p1 q0)) (replicate (page_size p) 0) p'" "phdr p' = phdr (snd (take_number p1 q0))"
proof -
  have ev: "evolves z p p1"
    by (rule alloc_pop_cases [OF inv ro pop]) (use inv in \<open>auto intro: evolves_refl keeps_evolves edits_evolves\<close>)
  then have inv1: "pager_inv z p1" "preadonly p1 = preadonly p" "page_size p1 = page_size p" by (simp_all add: evolves_def)
  obtain p' where fr: "alloc_fresh all_ok p1 q0 = (TDB_OK, fst (take_number p1 q0), p')" using alloc_fresh_ok [OF nz] by blast
  have "fst (take_number p1 q0) \<noteq> 0" using nz by (auto simp: take_number_def)
  note e = alloc_fresh_edits [OF inv1(1) fr this]
  show thesis
    by (rule that [of p']) (use e ro inv1 pop fr in \<open>simp_all add: tdb_pager_alloc_def edits_def\<close>)
qed

lemma alloc_pops:
  assumes "free_inv z p (q # qs)"
  shows "\<exists>p'. tdb_pager_alloc all_ok z p = (TDB_OK, q, p') \<and> free_inv z p' qs \<and> h_db_size (phdr p') = h_db_size (phdr p)"
proof -
  have inv: "pager_inv z p" and ro: "\<not> preadonly p" and fl: "free_list z p (q # qs)" using assms by (simp_all add: free_inv_def)
  obtain q0 p1 where pop: "alloc_pop all_ok z p = (TDB_OK, q0, p1)" using alloc_pop_succeeds [OF inv] by (metis prod.collapse)
  have "q0 = q" "q0 \<noteq> 0" using free_list_alloc(1) [OF inv ro fl pop] fl by (auto simp: free_list_def)
  then have q0: "q0 = q" "fst (take_number p1 q0) = q" "snd (take_number p1 q0) = p1" "q0 \<noteq> 0 \<or> h_db_size (phdr p1) + 1 \<noteq> 0"
    by (simp_all add: take_number_def)
  from inv ro pop q0(4) obtain p' where p': "tdb_pager_alloc all_ok z p = (TDB_OK, fst (take_number p1 q0), p')" "pager_inv z p'" "\<not> preadonly p'"
    "edits z p1 (fst (take_number p1 q0)) (replicate (page_size p) 0) p'" "phdr p' = phdr (snd (take_number p1 q0))"
    by (rule alloc_split)
  from free_list_alloc(2) [OF inv ro fl pop, of p'] p' q0 show ?thesis by (simp add: free_inv_def)
qed

lemma alloc_grows:
  assumes "free_inv z p []" "unat (h_db_size (phdr p)) + 1 < 2 ^ 32"
  shows "\<exists>p'. tdb_pager_alloc all_ok z p = (TDB_OK, h_db_size (phdr p) + 1, p') \<and> free_inv z p' [] \<and>
    h_db_size (phdr p') = h_db_size (phdr p) + 1"
proof -
  have inv: "pager_inv z p" and ro: "\<not> preadonly p" and fl: "free_list z p []" using assms(1) by (simp_all add: free_inv_def)
  from fl obtain ts where ts: "fl_chain (view z p) (h_freelist_head (phdr p)) ts" "fl_pages (view z p) ts = []"
    "h_freelist_count (phdr p) = 0" by (auto simp: free_list_def)
  then have "ts = []" by (cases ts) simp_all
  with ts have head: "h_freelist_head (phdr p) = 0" by simp
  then have pop: "alloc_pop all_ok z p = (TDB_OK, 0, p)" by (simp add: alloc_pop_def)
  have "unat (h_db_size (phdr p) + 1) = unat (h_db_size (phdr p)) + 1"
    using assms(2) by (subst unat_add_lem [THEN iffD1]) simp_all
  then have "0 \<noteq> (0 :: u32) \<or> h_db_size (phdr p) + 1 \<noteq> 0" by auto
  with inv ro pop obtain p' where p': "tdb_pager_alloc all_ok z p = (TDB_OK, fst (take_number p 0), p')" "pager_inv z p'" "\<not> preadonly p'"
    "phdr p' = phdr (snd (take_number p 0))"
    by (rule alloc_split)
  have "free_list z p' []"
    by (rule free_listI [of z p' "[]"]) (use p'(4) head ts(3) in \<open>simp_all add: take_number_def\<close>)
  with p' show ?thesis by (simp add: free_inv_def take_number_def)
qed

interpretation fl: page_allocator "free_inv z" "\<lambda>p. unat (h_db_size (phdr p))" "tdb_pager_alloc all_ok z" "tdb_pager_free all_ok z" for z
proof (unfold_locales, goal_cases)
  case (1 s q qs)
  then show ?case using alloc_pops by metis
next
  case (2 s)
  from alloc_grows [OF this] 2(2) show ?case
    by (auto simp: unat_add_lem [THEN iffD1])
next
  case (3 s qs q)
  then show ?case using free_pushes by metis
next
  case (4 s qs)
  then show ?case by (simp add: free_inv_def free_list_def)
qed

text \<open>Allocation and freeing touch no page in use, apart from the one given out or taken back.\<close>

lemma head_in_list:
  assumes "free_list z p qs" "h_freelist_head (phdr p) \<noteq> 0"
  shows "h_freelist_head (phdr p) \<in> set qs"
proof -
  from assms(1) obtain ts where ts: "fl_chain (view z p) (h_freelist_head (phdr p)) ts" "fl_pages (view z p) ts = qs"
    by (auto simp: free_list_def)
  then show ?thesis using assms(2) by (cases ts) auto
qed

lemma alloc_view:
  assumes inv: "free_inv z p qs" and al: "tdb_pager_alloc all_ok z p = (TDB_OK, q, p')" "q \<noteq> 0"
  shows "view z p' q = replicate (page_size p) 0" "r \<notin> set qs \<Longrightarrow> r \<noteq> q \<Longrightarrow> view z p' r = view z p r"
proof -
  have pinv: "pager_inv z p" and ro: "\<not> preadonly p" and fl: "free_list z p qs" using inv by (simp_all add: free_inv_def)
  obtain q0 p1 where pop: "alloc_pop all_ok z p = (TDB_OK, q0, p1)" using alloc_pop_succeeds [OF pinv] by (metis prod.collapse)
  have ev: "evolves z p p1 \<and> (\<forall>r. r \<notin> set qs \<longrightarrow> view z p1 r = view z p r)"
    using pinv ro pop
  proof (cases rule: alloc_pop_cases)
    case leaf
    then show ?thesis using head_in_list [OF fl leaf(1)] edits_evolves [OF leaf(5)] by (auto simp: edits_def)
  qed (use pinv in \<open>auto simp: evolves_refl\<close>)
  have fr: "alloc_fresh all_ok p1 q0 = (TDB_OK, q, p')" using al pop ro by (simp add: tdb_pager_alloc_def)
  have "pager_inv z p1" "page_size p1 = page_size p" using ev by (simp_all add: evolves_def)
  with alloc_fresh_edits(1) [OF _ fr al(2)] ev
  show "view z p' q = replicate (page_size p) 0" "r \<notin> set qs \<Longrightarrow> r \<noteq> q \<Longrightarrow> view z p' r = view z p r"
    by (auto simp: edits_def)
qed

section \<open>Properties\<close>

lemma blank_free_inv: "100 \<le> ps \<Longrightarrow> ps < 2 ^ 32 \<Longrightarrow> codec_ok z \<Longrightarrow> free_inv z (blank_pager z ps) []"
  using blank_pager_inv(1) [of z ps] free_listI [of z "blank_pager z ps" "[]" "[]"]
  by (simp add: free_inv_def new_hdr_def)

text \<open>
  C7: The free list is a stack. From any state with a well-formed free list, every sequence of
  allocations and frees (of pages in use) returns exactly the page numbers of an abstract
  machine that pops and pushes a stack of free pages and extends the file when it is empty.
\<close>

theorem freelist_refines_stack:
  assumes "free_inv z p qs" "abs_ok (unat (h_db_size (phdr p)), qs) ops"
  shows "fl_run (tdb_pager_alloc all_ok z) (tdb_pager_free all_ok z) p ops = abs_run (unat (h_db_size (phdr p)), qs) ops"
  by (rule fl.run_refines [OF assms])

theorem freelist_refines_stack_witness:
  "fl_run (tdb_pager_alloc all_ok None) (tdb_pager_free all_ok None) (blank_pager None 128)
     [Fl_alloc, Fl_alloc, Fl_alloc, Fl_free 2, Fl_free 4, Fl_alloc, Fl_alloc, Fl_alloc] = [2, 3, 4, 2, 4, 4, 2, 5]"
proof -
  have "free_inv None (blank_pager None 128) []" by (rule blank_free_inv) (simp_all add: codec_ok_def)
  from freelist_refines_stack [OF this, of "[Fl_alloc, Fl_alloc, Fl_alloc, Fl_free 2, Fl_free 4, Fl_alloc, Fl_alloc, Fl_alloc]"]
  show ?thesis by (simp add: new_hdr_def word_less_nat_alt)
qed

text \<open>
  C22: Allocation is safe: the page handed out was not in use and is zeroed, it is in use
  afterwards together with exactly the pages that were, and the contents of the pages in use do
  not change.
\<close>

theorem pager_alloc_unused:
  assumes "free_inv z p qs" "unat (h_db_size (phdr p)) + 1 < 2 ^ 32" "tdb_pager_alloc all_ok z p = (rc, q, p')"
    and "r \<in> pages_in_use (unat (h_db_size (phdr p))) qs"
  shows "rc = TDB_OK \<and> q \<notin> pages_in_use (unat (h_db_size (phdr p))) qs \<and>
    (\<exists>qs'. free_inv z p' qs' \<and>
      pages_in_use (unat (h_db_size (phdr p'))) qs' = insert q (pages_in_use (unat (h_db_size (phdr p))) qs)) \<and>
    view z p' q = replicate (page_size p) 0 \<and> view z p' r = view z p r"
proof -
  note u = fl.alloc_unused [OF assms(1-3)]
  then obtain qs' where "pages_in_use (unat (h_db_size (phdr p'))) qs' = insert q (pages_in_use (unat (h_db_size (phdr p))) qs)"
    by blast
  then have "q \<noteq> 0" by (auto simp: pages_in_use_def)
  have "tdb_pager_alloc all_ok z p = (TDB_OK, q, p')" using u assms(3) by simp
  from alloc_view(1) [OF assms(1) this \<open>q \<noteq> 0\<close>] alloc_view(2) [OF assms(1) this \<open>q \<noteq> 0\<close>, of r] assms(4) u
  show ?thesis by (auto simp: pages_in_use_def)
qed

theorem pager_alloc_unused_witness:
  "case tdb_pager_alloc all_ok None (blank_pager None 128) of (rc, q, p') \<Rightarrow>
     rc = TDB_OK \<and> q \<notin> pages_in_use 1 [] \<and> view None p' q = replicate 128 0"
proof -
  have inv: "free_inv None (blank_pager None 128) []" by (rule blank_free_inv) (simp_all add: codec_ok_def)
  obtain rc q p' where al: "tdb_pager_alloc all_ok None (blank_pager None 128) = (rc, q, p')" by (metis prod.collapse)
  from pager_alloc_unused [OF inv _ al, of 1] show ?thesis by (simp add: al new_hdr_def pages_in_use_def)
qed

end
