(* ===== verification/Tdb_Pager_Limits.thy ===== *)
theory Tdb_Pager_Limits
  imports Tdb_Freelist Tdb_Pager_Props
begin

text \<open>
  Where the pager does not do what its interface says: a transaction with more dirty pages than
  the array of the commit holds, and the header after crash recovery.
\<close>

section \<open>Transactions with too many dirty pages\<close>

lemma commit_excess:
  assumes inv: "pager_inv z p" and ro: "\<not> preadonly p" and many: "TDB_CACHE_SOFT_MAX + 64 < length (dirty_pages p)"
    and commit: "tdb_pager_commit all_ok z p = (rc, p')"
  shows "rc = TDB_OK \<and> pager_inv z p' \<and> (\<exists>q. q \<noteq> 0 \<and> is_dirty p q \<and> is_dirty p' q \<and> disk z p' q = disk z p q)"
proof -
  obtain fs where st: "store_rep z p fs" using inv by (auto simp: pager_inv_def)
  obtain p1 where fl: "flush_header all_ok z p = (TDB_OK, p1)" using flush_header_succeeds [OF inv] by (metis prod.collapse)
  note e = flush_header_edits [OF inv fl]
  have inv1: "pager_inv z p1" and s1: "pfile p1 = pfile p" "pwal p1 = pwal p" "page_size p1 = page_size p" "preadonly p1 = preadonly p"
    and d1: "is_dirty p1 = (is_dirty p)(1 := True)" and dk1: "disk z p1 = disk z p"
    using e(1) by (simp_all add: edits_def)
  have st1: "store_rep z p1 fs" using st s1 by (simp add: store_rep_def)
  have cok: "cache_ok p" "cache_ok p1" using inv inv1 by (simp_all add: pager_inv_def)
  define ds where "ds = collect_dirty p1"
  have sub: "set ds \<subseteq> set (dirty_pages p1)" "distinct (map pg_no ds)"
    using in_dirty_pages(3) [OF cok(2)] by (auto simp: ds_def collect_dirty_def take_map [symmetric] dest: in_set_takeD)
  have "card (pg_no ` set ds) \<le> TDB_CACHE_SOFT_MAX + 64"
    using card_length [of "map pg_no ds"] by (simp add: ds_def collect_dirty_def)
  moreover have "TDB_CACHE_SOFT_MAX + 64 < card {q. is_dirty p q}" using many dirty_count(1) [OF cok(1)] by simp
  ultimately have "\<not> {q. is_dirty p q} \<subseteq> pg_no ` set ds" using card_mono [of "pg_no ` set ds" "{q. is_dirty p q}"] by fastforce
  then obtain q where q: "is_dirty p q" "q \<notin> pg_no ` set ds" by blast
  then have q0: "q \<noteq> 0" using inv by (auto simp: is_dirty_def pager_inv_def split: option.splits dest: pages_okD)
  obtain w where app: "commit_append all_ok z (pwal p1) (h_db_size (phdr p1)) ds = (TDB_OK, w)"
    using commit_append_succeeds by (metis prod.collapse)
  define p3 where "p3 = sp_clear_all ((clear_dirty (p1\<lparr>pwal := w\<rparr>) ds)\<lparr>in_txn := False\<rparr>)"
  note b = commit_batch [OF inv1 st1 sub app p3_def]
  obtain rc4 p4 where ck: "tdb_pager_checkpoint all_ok z p3 = (rc4, p4)" by force
  note c = pager_checkpoint_effect [OF b(2) ck]
  have p': "rc = TDB_OK" "p' = p3 \<or> p' = p4"
    using commit ro fl app ck by (simp_all add: tdb_pager_commit_def p3_def [symmetric] ds_def [symmetric] Let_def split: if_splits)
  have "is_dirty p3 q" "disk z p3 q = disk z p q" using b(3) [of q] b(5) [of q] q d1 dk1 by auto
  moreover have "is_dirty p4 q = is_dirty p3 q" using c(5) by (simp add: is_dirty_def)
  moreover have "disk z p4 q = disk z p3 q" by (rule c(3) [OF q0])
  ultimately show ?thesis using p' q q0 b(2) c(2) by metis
qed

text \<open>A database with \<open>n\<close> pages allocated in one transaction.\<close>

definition alloc_many :: "nat \<Rightarrow> tdb_pager" where
  "alloc_many n = ((\<lambda>p. snd (snd (tdb_pager_alloc all_ok None p))) ^^ n) (blank_pager None 128)"

lemma alloc_many_facts:
  assumes "n < 2 ^ 31"
  shows "pager_reach None (alloc_many n) \<and> free_inv None (alloc_many n) [] \<and> unat (h_db_size (phdr (alloc_many n))) = n + 1 \<and>
    {q. is_dirty (alloc_many n) q} = {q. 1 < q \<and> unat q \<le> n + 1}"
  using assms
proof (induction n)
  case 0
  have "pager_reach None (blank_pager None 128)" by (rule pager_reach.start) simp_all
  moreover have "{q :: u32. 1 < q \<and> unat q \<le> 1} = {}" by (auto simp: word_less_nat_alt)
  ultimately show ?case using blank_free_inv [of 128 None] blank_pager_inv(3) [of None 128] by (simp add: alloc_many_def new_hdr_def)
next
  case (Suc n)
  then have IH: "pager_reach None (alloc_many n)" "free_inv None (alloc_many n) []" "unat (h_db_size (phdr (alloc_many n))) = n + 1"
    "{q. is_dirty (alloc_many n) q} = {q. 1 < q \<and> unat q \<le> n + 1}" by simp_all
  let ?q = "h_db_size (phdr (alloc_many n)) + 1"
  have uq: "unat ?q = n + 2" using IH(3) Suc.prems by (subst unat_add_lem [THEN iffD1]) simp_all
  then have nz: "?q \<noteq> 0" by auto
  from alloc_grows [OF IH(2)] IH(3) Suc.prems obtain p' where
    al: "tdb_pager_alloc all_ok None (alloc_many n) = (TDB_OK, ?q, p')" "free_inv None p' []" "h_db_size (phdr p') = ?q" by auto
  have p': "alloc_many (Suc n) = p'" using al(1) by (simp add: alloc_many_def)
  have inv: "pager_inv None (alloc_many n)" "\<not> preadonly (alloc_many n)" using IH(2) by (simp_all add: free_inv_def)
  have "is_dirty p' = (is_dirty (alloc_many n))(?q := True)"
  proof -
    have "h_freelist_head (phdr (alloc_many n)) = 0"
      using IH(2) head_in_list [of None "alloc_many n" "[]"] by (auto simp: free_inv_def)
    then have "alloc_pop all_ok None (alloc_many n) = (TDB_OK, 0, alloc_many n)" by (simp add: alloc_pop_def)
    then have "alloc_fresh all_ok (alloc_many n) 0 = (TDB_OK, ?q, p')" using al(1) inv(2) by (simp add: tdb_pager_alloc_def)
    from alloc_fresh_edits(1) [OF inv(1) this nz] show ?thesis by (simp add: edits_def)
  qed
  then have "{q. is_dirty p' q} = insert ?q {q. 1 < q \<and> unat q \<le> n + 1}" using IH(4) by auto
  also have "\<dots> = {q. 1 < q \<and> unat q \<le> Suc n + 1}" using uq by (auto simp: le_Suc_eq word_unat_eq_iff word_less_nat_alt)
  finally show ?case
    using pager_reach.step [OF IH(1) pager_step.alloc [OF al(1) nz]] al uq by (simp add: p')
qed

lemma alloc_many_count:
  assumes "n < 2 ^ 31"
  shows "length (dirty_pages (alloc_many n)) = n"
proof -
  note f = alloc_many_facts [OF assms]
  have "bij_betw unat {q :: u32. 1 < q \<and> unat q \<le> n + 1} {2..n + 1}"
    by (rule bij_betw_byWitness [where f' = word_of_nat]) (use assms in \<open>auto simp: word_less_nat_alt unat_of_nat\<close>)
  from bij_betw_same_card [OF this] have "card {q :: u32. 1 < q \<and> unat q \<le> n + 1} = n" by simp
  moreover have "cache_ok (alloc_many n)" using f by (simp add: free_inv_def pager_inv_def)
  ultimately show ?thesis using dirty_count(1) f by simp
qed

text \<open>Opening over a log with a newer page 1.\<close>

lemma open_stale:
  assumes "codec_ok z" "h_page_size h0 = 512" "h_page_size h1 = 512" "h_db_size h1 \<noteq> 0"
    and "mem_clean db" "fcontent db = hdr_serialize h0 @ replicate 412 0"
    and "w = wal_run z 512 [(1, hdr_serialize h1 @ replicate 412 0, True, h_db_size h1)]"
    and "mem_ok h" "fcontent h = take (end_off w) (fcontent (wfile w))"
  shows "\<exists>p. tdb_pager_open all_ok z ro db h = Inr p \<and>
    hdr_parse (snd (read_page_image all_ok z p 1)) = h1 \<and> phdr p = h0\<lparr>h_db_size := h_db_size h1\<rparr> \<and> preadonly p = ro"
proof -
  let ?op = "(1 :: u32, hdr_serialize h1 @ replicate 412 0, True, h_db_size h1)"
  have ops: "ops_ok 512 [?op]" by (simp add: ops_ok_def)
  note run = wal_run_rep [OF ops, of z, folded assms(7)]
  have ps: "wpage_size w = 512" by (rule run(2))
  let ?fs = "[op_frame ?op]"
  have rep: "wal_rep z w ?fs" using run(1) by simp
  have cut: "fcontent h = take (32 + log_len z w ?fs) (fcontent (wfile w))" using assms(9) rep by (simp add: wal_rep_def)
  note o = crash_open [OF rep assms(1,8) cut order_refl, unfolded ps whole_frames_all [OF order_refl]]
  have cm: "committed ?fs = ?fs" using assms(4) by (simp add: committed_def)
  have db1: "log_db_size ?fs = h_db_size h1" unfolding log_db_size_def cm by simp
  define w' where "w' = snd (tdb_wal_open all_ok z h 512)"
  have w': "tdb_wal_open all_ok z h 512 = (TDB_OK, w')" "wal_rep z w' ?fs" "wdb_size w' = h_db_size h1" "wpage_size w' = 512"
    using o ps unfolding cm db1 w'_def by (simp_all add: wal_cfg_def prod_eq_iff)
  have ok: "mem_ok db" using assms(5) by (simp add: mem_clean_def)
  have len: "msize db = 512" using length_fcontent [OF ok] assms(6) by simp
  have rd: "mem_read db 100 0 = hdr_serialize h0" using ok assms(6) by (simp add: mem_read_zread zread_def)
  have h0: "hdr_parse (hdr_serialize h0) = h0" "has_magic (hdr_serialize h0)"
    using hdr_parse_serialize [of h0 "[]"] has_magic_serialize [of h0 "[]"] assms(2) by simp_all
  have probe: "probe_hdr db = Some h0" using len rd h0 by (simp add: probe_hdr_def mem_filesize_def)
  define p where "p = pager_on ro db w' 512 (h0\<lparr>h_db_size := h_db_size h1\<rparr>)"
  have open_p: "tdb_pager_open all_ok z ro db h = Inr p"
    using w' probe assms(2,4) by (simp add: tdb_pager_open_def probe_page_size_def p_def)
  have inv: "pager_inv z p" "store_rep z p ?fs"
    unfolding p_def by (rule pager_on_inv [OF assms(1) w'(2)]; use w'(4) assms(5) in simp)+
  have "disk z p 1 = hdr_serialize h1 @ replicate 412 0"
    using disk_logged [OF inv(2), of 1] by (simp add: logged_page_def latest_def)
  then have "hdr_parse (snd (read_page_image all_ok z p 1)) = h1"
    using hdr_parse_serialize [of h1] assms(3) by (simp add: read_image_ok [OF inv(1)])
  with open_p show ?thesis by (simp add: p_def pager_on_def)
qed

section \<open>Properties\<close>

text \<open>
  C36: A commit of more than 2112 dirty pages reports success although it is not durable: some
  page the transaction changed is still dirty, and its durable image is the old one.
\<close>

theorem pager_commit_drops_excess:
  assumes "pager_reach z p" "codec_ok z" "\<not> preadonly p" "2112 < length (dirty_pages p)"
    and "tdb_pager_commit all_ok z p = (rc, p')"
  shows "rc = TDB_OK \<and> (\<exists>q. is_dirty p q \<and> is_dirty p' q \<and> read_page_image all_ok z p' q = read_page_image all_ok z p q)"
proof -
  have inv: "pager_inv z p" by (rule pager_reach_inv [OF assms(1,2)])
  have many: "TDB_CACHE_SOFT_MAX + 64 < length (dirty_pages p)" using assms(4) by (simp add: TDB_CACHE_SOFT_MAX_def)
  from commit_excess [OF inv assms(3) many assms(5)] show ?thesis by (auto simp: read_image_ok inv)
qed

theorem pager_commit_drops_excess_witness:
  "case tdb_pager_commit all_ok None (alloc_many 2113) of (rc, p') \<Rightarrow> rc = TDB_OK \<and> (\<exists>q. is_dirty p' q)"
proof -
  obtain rc p' where c: "tdb_pager_commit all_ok None (alloc_many 2113) = (rc, p')" by force
  have "\<not> preadonly (alloc_many 2113)" "pager_reach None (alloc_many 2113)"
    using alloc_many_facts [of 2113] by (simp_all add: free_inv_def)
  from pager_commit_drops_excess [OF this(2) codec_none this(1) _ c] show ?thesis by (auto simp: c alloc_many_count)
qed

text \<open>
  C37: After a crash, opening a database takes the header from the database file and not from the
  log: if the log holds a newer committed page 1, the pager starts with the old free list,
  transaction counter, schema cookie and catalog root, although page 1 itself reads as the new
  one. Only the database size is taken over.
\<close>

theorem pager_open_stale_header:
  assumes "codec_ok z" "h_page_size h0 = 512" "h_page_size h1 = 512" "h_db_size h1 \<noteq> 0"
    and "mem_clean db" "fcontent db = hdr_serialize h0 @ replicate 412 0"
    and "w = wal_run z 512 [(1, hdr_serialize h1 @ replicate 412 0, True, h_db_size h1)]"
    and "mem_ok h" "fcontent h = take (end_off w) (fcontent (wfile w))"
  shows "\<exists>p. tdb_pager_open all_ok z ro db h = Inr p \<and>
    hdr_parse (snd (read_page_image all_ok z p 1)) = h1 \<and> phdr p = h0\<lparr>h_db_size := h_db_size h1\<rparr>"
  using open_stale [OF assms] by blast

theorem pager_open_stale_header_witness:
  "let h0 = new_hdr 512; h1 = (new_hdr 512)\<lparr>h_freelist_head := 3, h_freelist_count := 1, h_db_size := 3, h_max_txnid := 9\<rparr>;
       d = hdr_serialize h0 @ replicate 412 0;
       w = wal_run None 512 [(1, hdr_serialize h1 @ replicate 412 0, True, h_db_size h1)];
       c = take (end_off w) (fcontent (wfile w))
   in case tdb_pager_open all_ok None False \<lparr>mdata = d, msize = length d\<rparr> \<lparr>mdata = c, msize = length c\<rparr> of
        Inr p \<Rightarrow> h_freelist_head (phdr p) = 0 \<and> h_max_txnid (phdr p) = 0 \<and>
          h_freelist_head (hdr_parse (snd (read_page_image all_ok None p 1))) = 3
      | Inl _ \<Rightarrow> False"
proof -
  define h0 h1 where "h0 = new_hdr 512"
    and "h1 = (new_hdr 512)\<lparr>h_freelist_head := 3, h_freelist_count := 1, h_db_size := 3, h_max_txnid := 9\<rparr>"
  define d where "d = hdr_serialize h0 @ replicate 412 0"
  define w where "w = wal_run None 512 [(1, hdr_serialize h1 @ replicate 412 0, True, h_db_size h1)]"
  define c where "c = take (end_off w) (fcontent (wfile w))"
  let ?db = "\<lparr>mdata = d, msize = length d\<rparr>" let ?wf = "\<lparr>mdata = c, msize = length c\<rparr>"
  have f: "mem_clean ?db" "fcontent ?db = d" "mem_ok ?wf" "fcontent ?wf = c"
    by (simp_all add: mem_clean_def mem_ok_def fcontent_def)
  have hs: "h_page_size h0 = 512" "h_page_size h1 = 512" "h_db_size h1 \<noteq> 0" by (simp_all add: h0_def h1_def new_hdr_def)
  from pager_open_stale_header [OF codec_none hs f(1) _ w_def f(3), of False] f(2,4) d_def c_def
  obtain p where p: "tdb_pager_open all_ok None False ?db ?wf = Inr p"
    "hdr_parse (snd (read_page_image all_ok None p 1)) = h1" "phdr p = h0\<lparr>h_db_size := h_db_size h1\<rparr>"
    by auto
  then have "case tdb_pager_open all_ok None False ?db ?wf of
      Inr p \<Rightarrow> h_freelist_head (phdr p) = 0 \<and> h_max_txnid (phdr p) = 0 \<and>
        h_freelist_head (hdr_parse (snd (read_page_image all_ok None p 1))) = 3
    | Inl _ \<Rightarrow> False"
    unfolding p(1) using p(2,3) by (simp add: h0_def h1_def new_hdr_def)
  then show ?thesis unfolding Let_def d_def c_def w_def h0_def h1_def .
qed

end
