(* ===== verification/Tdb_Mvcc.thy ===== *)
theory Tdb_Mvcc
  imports Tdb_Prelude
begin

text \<open>
  \<^verbatim>\<open>src/txn/tdb_mvcc.c\<close>: snapshots and the visibility of a row version, given by its creating
  transaction \<open>xmin\<close> and its deleting transaction \<open>xmax\<close> (0 for a live row). The commit state
  of a transaction comes from a callback in C and is the function argument \<open>fn\<close> here.

  The locale \<open>xact_log\<close> is the interface between the visibility test and whoever keeps the
  commit states: what a log must promise for snapshots to be stable. The transaction
  manager's theory interprets it.
\<close>

datatype tdb_xstate = TDB_XACT_ACTIVE | TDB_XACT_COMMITTED | TDB_XACT_ABORTED

record tdb_snapshot =
  self :: txnid
  snap_xmax :: txnid
  snap_active :: "txnid list"

primrec in_active_loop :: "txnid list \<Rightarrow> txnid \<Rightarrow> bool" where
  "in_active_loop [] xid = False"
| "in_active_loop (a # as) xid = (if a = xid then True else in_active_loop as xid)"

definition tdb_snapshot_in_active :: "tdb_snapshot \<Rightarrow> txnid \<Rightarrow> bool" where
  "tdb_snapshot_in_active s xid = in_active_loop (snap_active s) xid"

definition xid_visible :: "(txnid \<Rightarrow> tdb_xstate) \<Rightarrow> tdb_snapshot \<Rightarrow> txnid \<Rightarrow> bool" where
  "xid_visible fn s xid =
     (if xid = self s then True
      else if fn xid \<noteq> TDB_XACT_COMMITTED then False
      else if snap_xmax s \<le> xid then False
      else if tdb_snapshot_in_active s xid then False
      else True)"

definition tdb_mvcc_visible :: "(txnid \<Rightarrow> tdb_xstate) \<Rightarrow> tdb_snapshot \<Rightarrow> txnid \<Rightarrow> txnid \<Rightarrow> bool" where
  "tdb_mvcc_visible fn s xmin xmax =
     (if \<not> xid_visible fn s xmin then False
      else if xmax = 0 then True
      else if xmax = self s then False
      else if \<not> xid_visible fn s xmax then True
      else False)"

lemma in_active_iff: "tdb_snapshot_in_active s xid \<longleftrightarrow> xid \<in> set (snap_active s)"
proof -
  have "in_active_loop as xid \<longleftrightarrow> xid \<in> set as" for as by (induction as) auto
  then show ?thesis by (simp add: tdb_snapshot_in_active_def)
qed

lemma xid_visible_iff:
  "xid_visible fn s xid \<longleftrightarrow>
     xid = self s \<or>
     fn xid = TDB_XACT_COMMITTED \<and> xid < snap_xmax s \<and> xid \<notin> set (snap_active s)"
  by (auto simp: xid_visible_def in_active_iff)

lemma mvcc_visible_iff:
  "tdb_mvcc_visible fn s xmin xmax \<longleftrightarrow>
     xid_visible fn s xmin \<and> (xmax = 0 \<or> \<not> xid_visible fn s xmax)"
  by (auto simp: tdb_mvcc_visible_def xid_visible_def)

section \<open>Stability of snapshots\<close>

text \<open>
  A transaction log: \<open>state l\<close> is the commit state of each id in log \<open>l\<close>, \<open>fresh l\<close> the next
  id to be assigned, \<open>running l\<close> the ids in flight, and \<open>later l l'\<close> says that \<open>l'\<close> is a later
  state of \<open>l\<close>. Ids in flight are listed, and a finished transaction keeps its outcome.
\<close>

locale xact_log =
  fixes state :: "'l \<Rightarrow> txnid \<Rightarrow> tdb_xstate"
    and fresh :: "'l \<Rightarrow> txnid"
    and running :: "'l \<Rightarrow> txnid list"
    and later :: "'l \<Rightarrow> 'l \<Rightarrow> bool"
  assumes finished_stays:
    "later l l' \<Longrightarrow> x < fresh l \<Longrightarrow> x \<notin> set (running l) \<Longrightarrow> state l' x = state l x"
begin

definition snapshot_at :: "'l \<Rightarrow> txnid \<Rightarrow> tdb_snapshot" where
  "snapshot_at l x = \<lparr>self = x, snap_xmax = fresh l, snap_active = running l\<rparr>"

lemma xid_visible_stable:
  assumes "later l l'"
  shows "xid_visible (state l') (snapshot_at l x) y = xid_visible (state l) (snapshot_at l x) y"
  using finished_stays [OF assms, of y] by (auto simp: xid_visible_iff snapshot_at_def)

lemma mvcc_visible_stable:
  assumes "later l l'"
  shows "tdb_mvcc_visible (state l') (snapshot_at l x) xmin xmax =
    tdb_mvcc_visible (state l) (snapshot_at l x) xmin xmax"
  by (simp add: mvcc_visible_iff xid_visible_stable [OF assms])

end

end
