(* ===== verification/Tdb_Lock.thy ===== *)
theory Tdb_Lock
  imports Tdb_Util
begin

text \<open>
  \<^verbatim>\<open>src/txn/tdb_lock.c\<close>: the lock table with shared and exclusive locks and wait-die conflict
  resolution. The table is the array of 256 buckets, each a chain of resources with their
  holder chains, newest first. The mutex makes each operation atomic, so an operation is a
  function on the table; interleavings of transactions are sequences of operations. The
  arguments \<open>okr\<close> and \<open>okh\<close> say whether the allocation of a resource and of a holder succeed.
  The hash reads the three words as the bytes of a little-endian machine.
\<close>

section \<open>The lock table\<close>

datatype tdb_lockmode = TDB_LOCK_NONE | TDB_LOCK_SHARED | TDB_LOCK_EXCL

datatype tdb_restype = TDB_RES_TABLE | TDB_RES_ROW

type_synonym reskey = "tdb_restype \<times> u64 \<times> u64"

record holder =
  h_txn :: txnid
  h_mode :: tdb_lockmode

record lock_resource =
  res_key :: reskey
  holders :: "holder list"

type_synonym tdb_lockmgr = "lock_resource list list"

definition LOCK_BUCKETS :: nat where
  "LOCK_BUCKETS = 256"

definition tdb_lockmgr_new :: tdb_lockmgr where
  "tdb_lockmgr_new = replicate LOCK_BUCKETS []"

fun restype_num :: "tdb_restype \<Rightarrow> u64" where
  "restype_num TDB_RES_TABLE = 0"
| "restype_num TDB_RES_ROW = 1"

fun res_hash :: "reskey \<Rightarrow> nat" where
  "res_hash (rtype, rid, rsub) =
     unat (tdb_fnv1a (rev (tdb_put_u64 (restype_num rtype)) @ rev (tdb_put_u64 rid) @
       rev (tdb_put_u64 rsub))) mod LOCK_BUCKETS"

fun chain_find :: "lock_resource list \<Rightarrow> reskey \<Rightarrow> lock_resource option" where
  "chain_find [] k = None"
| "chain_find (r # rs) k = (if res_key r = k then Some r else chain_find rs k)"

text \<open>\<open>res_find\<close>: the resource found or created, and the table afterwards.\<close>

definition res_find :: "bool \<Rightarrow> tdb_lockmgr \<Rightarrow> reskey \<Rightarrow> bool \<Rightarrow> lock_resource option \<times> tdb_lockmgr" where
  "res_find okr m k create =
     (let b = res_hash k in
      case chain_find (m ! b) k of
        Some r \<Rightarrow> (Some r, m)
      | None \<Rightarrow>
          if \<not> create then (None, m)
          else if \<not> okr then (None, m)
          else (let r = \<lparr>res_key = k, holders = []\<rparr> in (Some r, m[b := r # m ! b])))"

text \<open>The stores through the resource pointer: replace the holder chain of the resource.\<close>

fun chain_set :: "lock_resource list \<Rightarrow> reskey \<Rightarrow> holder list \<Rightarrow> lock_resource list" where
  "chain_set [] k hs = []"
| "chain_set (r # rs) k hs =
     (if res_key r = k then r\<lparr>holders := hs\<rparr> # rs else r # chain_set rs k hs)"

definition set_holders :: "tdb_lockmgr \<Rightarrow> reskey \<Rightarrow> holder list \<Rightarrow> tdb_lockmgr" where
  "set_holders m k hs = m[res_hash k := chain_set (m ! res_hash k) k hs]"

definition mode_conflict :: "tdb_lockmode \<Rightarrow> tdb_lockmode \<Rightarrow> bool" where
  "mode_conflict a b \<longleftrightarrow> a = TDB_LOCK_EXCL \<or> b = TDB_LOCK_EXCL"

text \<open>The scan for the requester's own entry (the last one wins) and the count of the others.\<close>

fun scan_holders :: "holder list \<Rightarrow> txnid \<Rightarrow> tdb_lockmode option \<Rightarrow> nat \<Rightarrow> tdb_lockmode option \<times> nat" where
  "scan_holders [] txn me others = (me, others)"
| "scan_holders (h # hs) txn me others =
     (if h_txn h = txn then scan_holders hs txn (Some (h_mode h)) others
      else scan_holders hs txn me (Suc others))"

fun first_other :: "holder list \<Rightarrow> txnid \<Rightarrow> holder option" where
  "first_other [] txn = None"
| "first_other (h # hs) txn = (if h_txn h \<noteq> txn then Some h else first_other hs txn)"

fun first_conflict :: "holder list \<Rightarrow> tdb_lockmode \<Rightarrow> holder option" where
  "first_conflict [] mode = None"
| "first_conflict (h # hs) mode = (if mode_conflict mode (h_mode h) then Some h else first_conflict hs mode)"

text \<open>\<^verbatim>\<open>self->mode = TDB_LOCK_EXCL\<close> on the entry the scan found, the last one of \<open>txn\<close>.\<close>

fun upgrade_self :: "holder list \<Rightarrow> txnid \<Rightarrow> holder list" where
  "upgrade_self [] txn = []"
| "upgrade_self (h # hs) txn =
     (if h_txn h = txn \<and> \<not> list_ex (\<lambda>g. h_txn g = txn) hs
      then h\<lparr>h_mode := TDB_LOCK_EXCL\<rparr> # hs
      else h # upgrade_self hs txn)"

definition wait_die :: "txnid \<Rightarrow> holder \<Rightarrow> tdb_status" where
  "wait_die txn h = (if txn < h_txn h then TDB_BUSY else TDB_ABORT)"

definition tdb_lock_acquire ::
  "bool \<Rightarrow> bool \<Rightarrow> tdb_lockmgr \<Rightarrow> txnid \<Rightarrow> reskey \<Rightarrow> tdb_lockmode \<Rightarrow> tdb_status \<times> tdb_lockmgr" where
  "tdb_lock_acquire okr okh m txn k mode =
     (case res_find okr m k True of
        (None, m1) \<Rightarrow> (TDB_NOMEM, m1)
      | (Some r, m1) \<Rightarrow>
          (let hs = holders r in
           case scan_holders hs txn None 0 of
             (Some self_mode, others) \<Rightarrow>
               (if mode = TDB_LOCK_EXCL \<and> self_mode \<noteq> TDB_LOCK_EXCL then
                  (if 0 < others then
                     (case first_other hs txn of
                        Some h \<Rightarrow> (wait_die txn h, m1)
                      | None \<Rightarrow> (TDB_OK, set_holders m1 k (upgrade_self hs txn)))
                   else (TDB_OK, set_holders m1 k (upgrade_self hs txn)))
                else (TDB_OK, m1))
           | (None, _) \<Rightarrow>
               (case first_conflict hs mode of
                  Some h \<Rightarrow> (wait_die txn h, m1)
                | None \<Rightarrow>
                    if \<not> okh then (TDB_NOMEM, m1)
                    else (TDB_OK, set_holders m1 k (\<lparr>h_txn = txn, h_mode = mode\<rparr> # hs)))))"

definition release_in :: "txnid \<Rightarrow> lock_resource \<Rightarrow> lock_resource" where
  "release_in txn r = r\<lparr>holders := filter (\<lambda>h. h_txn h \<noteq> txn) (holders r)\<rparr>"

definition tdb_lock_release_all :: "tdb_lockmgr \<Rightarrow> txnid \<Rightarrow> tdb_lockmgr" where
  "tdb_lock_release_all m txn = map (map (release_in txn)) m"

definition tdb_lock_holder_count :: "tdb_lockmgr \<Rightarrow> reskey \<Rightarrow> nat" where
  "tdb_lock_holder_count m k =
     (case fst (res_find False m k False) of Some r \<Rightarrow> length (holders r) | None \<Rightarrow> 0)"

section \<open>The table as a map from resources to holders\<close>

definition held :: "tdb_lockmgr \<Rightarrow> reskey \<Rightarrow> holder list" where
  "held m k = (case chain_find (m ! res_hash k) k of Some r \<Rightarrow> holders r | None \<Rightarrow> [])"

definition lock_wf :: "tdb_lockmgr \<Rightarrow> bool" where
  "lock_wf m \<longleftrightarrow> length m = LOCK_BUCKETS"

text \<open>The decision of \<open>tdb_lock_acquire\<close> on the holders of one resource.\<close>

definition acquire_hs :: "bool \<Rightarrow> holder list \<Rightarrow> txnid \<Rightarrow> tdb_lockmode \<Rightarrow> tdb_status \<times> holder list" where
  "acquire_hs okh hs txn mode =
     (if list_ex (\<lambda>h. h_txn h = txn) hs then
        (if mode = TDB_LOCK_EXCL \<and> fst (scan_holders hs txn None 0) \<noteq> Some TDB_LOCK_EXCL then
           (case first_other hs txn of
              Some h \<Rightarrow> (wait_die txn h, hs)
            | None \<Rightarrow> (TDB_OK, upgrade_self hs txn))
         else (TDB_OK, hs))
      else
        (case first_conflict hs mode of
           Some h \<Rightarrow> (wait_die txn h, hs)
         | None \<Rightarrow>
             if \<not> okh then (TDB_NOMEM, hs) else (TDB_OK, \<lparr>h_txn = txn, h_mode = mode\<rparr> # hs)))"

lemma res_hash_less: "res_hash k < LOCK_BUCKETS"
  by (cases k) (simp add: LOCK_BUCKETS_def)

lemma scan_holders_self:
  "fst (scan_holders hs txn me n) = None \<longleftrightarrow> me = None \<and> \<not> list_ex (\<lambda>h. h_txn h = txn) hs"
  by (induction hs arbitrary: me n) auto

lemma scan_holders_others:
  "snd (scan_holders hs txn me n) = n + length (filter (\<lambda>h. h_txn h \<noteq> txn) hs)"
  by (induction hs arbitrary: me n) auto

lemma first_other_None: "first_other hs txn = None \<longleftrightarrow> filter (\<lambda>h. h_txn h \<noteq> txn) hs = []"
  by (induction hs) auto

lemma chain_find_set:
  "chain_find (chain_set rs k hs) k' =
     (if k' = k then map_option (\<lambda>r. r\<lparr>holders := hs\<rparr>) (chain_find rs k) else chain_find rs k')"
  by (induction rs) auto

lemma held_set_holders:
  assumes "lock_wf m" "chain_find (m ! res_hash k) k = Some r"
  shows "held (set_holders m k hs) = (held m)(k := hs)"
  using assms res_hash_less
  by (auto simp: held_def set_holders_def lock_wf_def fun_eq_iff nth_list_update chain_find_set
      split: option.splits)

lemma res_find_create:
  assumes "lock_wf m" "res_find okr m k True = (ro, m1)"
  shows "lock_wf m1" "held m1 = held m"
    "case ro of None \<Rightarrow> \<not> okr | Some r \<Rightarrow> chain_find (m1 ! res_hash k) k = Some r \<and> holders r = held m k"
  using assms res_hash_less [of k]
  by (auto simp: res_find_def Let_def held_def lock_wf_def fun_eq_iff nth_list_update
      split: option.splits if_splits)

lemma lock_wf_set_holders: "lock_wf m \<Longrightarrow> lock_wf (set_holders m k hs)"
  by (simp add: lock_wf_def set_holders_def)

text \<open>
  Refinement: on the map from resources to holders, \<open>tdb_lock_acquire\<close> is \<open>acquire_hs\<close> at the
  one resource; buckets, hashing and chains do not show.
\<close>

lemma acquire_refines:
  assumes wf: "lock_wf m" and acq: "tdb_lock_acquire okr okh m txn k mode = (rc, m')"
  shows "lock_wf m'"
    and "rc = TDB_NOMEM \<and> \<not> (okr \<and> okh) \<and> held m' = held m \<or>
      (\<exists>hs. acquire_hs okh (held m k) txn mode = (rc, hs) \<and> held m' = (held m)(k := hs))"
proof -
  obtain ro m1 where find: "res_find okr m k True = (ro, m1)" by force
  note f = res_find_create [OF wf find]
  show "lock_wf m'"
    using acq f(1) find
    by (auto simp: tdb_lock_acquire_def Let_def lock_wf_set_holders
        split: option.splits prod.splits if_splits)
  show "rc = TDB_NOMEM \<and> \<not> (okr \<and> okh) \<and> held m' = held m \<or>
      (\<exists>hs. acquire_hs okh (held m k) txn mode = (rc, hs) \<and> held m' = (held m)(k := hs))"
  proof (cases ro)
    case None
    with acq find f(2,3) show ?thesis by (auto simp: tdb_lock_acquire_def)
  next
    case (Some r)
    with f(3) have r: "chain_find (m1 ! res_hash k) k = Some r" "holders r = held m k" by simp_all
    have upd: "held (set_holders m1 k hs) = (held m)(k := hs)" for hs
      using held_set_holders [OF f(1) r(1)] f(2) by simp
    obtain me others where scan: "scan_holders (held m k) txn None 0 = (me, others)" by force
    have "me = None \<longleftrightarrow> \<not> list_ex (\<lambda>h. h_txn h = txn) (held m k)"
      "others = 0 \<longleftrightarrow> first_other (held m k) txn = None"
      using scan_holders_self [of "held m k" txn None 0] scan_holders_others [of "held m k" txn None 0]
      by (simp_all add: scan first_other_None)
    with acq find f(2) Some r(2) scan upd show ?thesis
      by (auto simp: tdb_lock_acquire_def acquire_hs_def Let_def
          split: option.splits if_splits)
  qed
qed

lemma chain_find_release: "chain_find (map (release_in txn) rs) k = map_option (release_in txn) (chain_find rs k)"
  by (induction rs) (auto simp: release_in_def)

lemma release_refines:
  assumes "lock_wf m"
  shows "lock_wf (tdb_lock_release_all m txn)"
    and "held (tdb_lock_release_all m txn) k = filter (\<lambda>h. h_txn h \<noteq> txn) (held m k)"
  using assms res_hash_less [of k]
  by (auto simp: lock_wf_def tdb_lock_release_all_def held_def chain_find_release release_in_def
      split: option.splits)

section \<open>The contract of a lock table\<close>

text \<open>Holders of one resource that may coexist: one entry per transaction, an exclusive one alone.\<close>

definition compat :: "holder list \<Rightarrow> bool" where
  "compat hs \<longleftrightarrow>
     distinct (map h_txn hs) \<and> (list_ex (\<lambda>h. h_mode h = TDB_LOCK_EXCL) hs \<longrightarrow> length hs = 1)"

lemma first_conflict_None:
  "first_conflict hs mode = None \<longleftrightarrow> list_all (\<lambda>h. \<not> mode_conflict mode (h_mode h)) hs"
  by (induction hs) auto

lemma first_conflict_Some:
  "first_conflict hs mode = Some h \<Longrightarrow> h \<in> set hs \<and> mode_conflict mode (h_mode h)"
  by (induction hs) (auto split: if_splits)

lemma first_other_Some: "first_other hs txn = Some h \<Longrightarrow> h \<in> set hs \<and> h_txn h \<noteq> txn"
  by (induction hs) (auto split: if_splits)

lemma compat_same_txn:
  assumes "compat hs" "first_other hs txn = None" "list_ex (\<lambda>h. h_txn h = txn) hs"
  shows "\<exists>h. hs = [h] \<and> h_txn h = txn"
proof -
  have all: "h_txn h = txn" if "h \<in> set hs" for h
    using assms(2) that by (auto simp: first_other_None filter_empty_conv)
  obtain h hs' where hs: "hs = h # hs'" using assms(3) by (cases hs) auto
  have "hs' = []"
  proof (cases hs')
    case (Cons g gs)
    with hs all [of h] all [of g] have "h_txn h = h_txn g" by simp
    with assms(1) hs Cons show ?thesis by (simp add: compat_def)
  qed
  with hs all [of h] show ?thesis by simp
qed

lemma compat_filter:
  assumes "compat hs"
  shows "compat (filter P hs)"
proof (cases "list_ex (\<lambda>h. h_mode h = TDB_LOCK_EXCL) hs")
  case True
  with assms obtain h where "hs = [h]" by (auto simp: compat_def length_Suc_conv)
  then show ?thesis by (simp add: compat_def)
next
  case False
  with assms show ?thesis by (auto simp: compat_def list_ex_iff distinct_map_filter)
qed

lemma acquire_hs_compat:
  assumes "compat hs" "acquire_hs okh hs txn mode = (rc, hs')"
  shows "compat hs'"
proof (cases "list_ex (\<lambda>h. h_txn h = txn) hs")
  case True
  with assms compat_same_txn [OF assms(1) _ True] show ?thesis
    by (auto simp: acquire_hs_def compat_def split: if_splits option.splits)
next
  case new: False
  show ?thesis
  proof (cases "first_conflict hs mode")
    case None
    then have no: "list_all (\<lambda>h. \<not> mode_conflict mode (h_mode h)) hs" by (simp add: first_conflict_None)
    then have "mode = TDB_LOCK_EXCL \<Longrightarrow> hs = []" by (cases hs) (auto simp: mode_conflict_def)
    moreover have "\<not> list_ex (\<lambda>h. h_mode h = TDB_LOCK_EXCL) hs"
      using no by (auto simp: list_all_iff list_ex_iff mode_conflict_def)
    moreover have "txn \<notin> h_txn ` set hs" using new by (auto simp: list_ex_iff)
    moreover have "hs' = hs \<or> hs' = \<lparr>h_txn = txn, h_mode = mode\<rparr> # hs"
      using None assms(2) new by (auto simp: acquire_hs_def split: if_splits)
    ultimately show ?thesis using assms(1) by (auto simp: compat_def)
  next
    case (Some h)
    with assms new show ?thesis by (simp add: acquire_hs_def)
  qed
qed

lemma acquire_hs_busy:
  assumes "acquire_hs okh hs txn mode = (TDB_BUSY, hs')"
  shows "\<exists>h \<in> set hs. txn < h_txn h \<and> mode_conflict mode (h_mode h)"
proof -
  have "\<exists>h \<in> set hs. txn < h_txn h \<and> (mode = TDB_LOCK_EXCL \<or> mode_conflict mode (h_mode h))"
    using assms
    by (auto simp: acquire_hs_def wait_die_def dest!: first_other_Some first_conflict_Some
        split: if_splits option.splits)
  then show ?thesis by (auto simp: mode_conflict_def)
qed

text \<open>
  The interface clients program against: the holders of each resource, and the effect of the
  two operations on them.
\<close>

locale lock_table =
  fixes wf :: "'m \<Rightarrow> bool"
    and at :: "'m \<Rightarrow> reskey \<Rightarrow> holder list"
    and acquire :: "bool \<Rightarrow> bool \<Rightarrow> 'm \<Rightarrow> txnid \<Rightarrow> reskey \<Rightarrow> tdb_lockmode \<Rightarrow> tdb_status \<times> 'm"
    and release :: "'m \<Rightarrow> txnid \<Rightarrow> 'm"
  assumes acquire_wf: "wf m \<Longrightarrow> acquire okr okh m txn k mode = (rc, m') \<Longrightarrow> wf m'"
    and acquire_at: "wf m \<Longrightarrow> acquire okr okh m txn k mode = (rc, m') \<Longrightarrow>
      rc = TDB_NOMEM \<and> \<not> (okr \<and> okh) \<and> at m' = at m \<or>
      (\<exists>hs. acquire_hs okh (at m k) txn mode = (rc, hs) \<and> at m' = (at m)(k := hs))"
    and release_wf: "wf m \<Longrightarrow> wf (release m txn)"
    and release_at: "wf m \<Longrightarrow> at (release m txn) k = filter (\<lambda>h. h_txn h \<noteq> txn) (at m k)"
begin

inductive reach :: "'m \<Rightarrow> 'm \<Rightarrow> bool" for m0 where
  init: "reach m0 m0"
| acquire: "reach m0 m \<Longrightarrow> reach m0 (snd (acquire okr okh m txn k mode))"
| release: "reach m0 m \<Longrightarrow> reach m0 (release m txn)"

lemma reach_compat:
  assumes "wf m0" "\<And>k. compat (at m0 k)" "reach m0 m"
  shows "wf m \<and> (\<forall>k. compat (at m k))"
  using assms(3)
proof induction
  case init
  then show ?case using assms(1,2) by blast
next
  case (acquire m okr okh txn k mode)
  obtain rc m' where eq: "acquire okr okh m txn k mode = (rc, m')" by force
  from acquire.IH acquire_wf [OF _ eq] acquire_at [OF _ eq] acquire_hs_compat [of "at m k"] show ?case
    by (auto simp: eq)
next
  case (release m txn)
  then show ?case
    by (simp add: release_wf release_at compat_filter)
qed

lemma busy_blocked_by_younger:
  assumes "wf m" "fst (acquire okr okh m txn k mode) = TDB_BUSY"
  shows "\<exists>h \<in> set (at m k). txn < h_txn h \<and> mode_conflict mode (h_mode h)"
proof -
  obtain m' where "acquire okr okh m txn k mode = (TDB_BUSY, m')"
    using assms(2) by (cases "acquire okr okh m txn k mode") simp
  from acquire_at [OF assms(1) this] show ?thesis by (auto dest: acquire_hs_busy)
qed

lemma not_all_waiting:
  assumes "wf m" "W \<noteq> []"
    and "list_all (\<lambda>(txn, k, mode). fst (acquire okr okh m txn k mode) = TDB_BUSY) W"
  shows "list_ex (\<lambda>(txn, k, mode). list_ex (\<lambda>h. mode_conflict mode (h_mode h) \<and>
    h_txn h \<notin> fst ` set W) (at m k)) W"
proof -
  define t where "t = Max (fst ` set W)"
  have "t \<in> fst ` set W" unfolding t_def using assms(2) by (intro Max_in) auto
  then obtain k mode where w: "(t, k, mode) \<in> set W" by auto
  with assms(3) have "fst (acquire okr okh m t k mode) = TDB_BUSY" by (auto simp: list_all_iff)
  from busy_blocked_by_younger [OF assms(1) this] obtain h
    where h: "h \<in> set (at m k)" "t < h_txn h" "mode_conflict mode (h_mode h)" by blast
  have "h_txn h \<notin> fst ` set W"
  proof
    assume "h_txn h \<in> fst ` set W"
    then have "h_txn h \<le> t" unfolding t_def by (intro Max_ge) auto
    with h(2) show False by simp
  qed
  with h(3) have "list_ex (\<lambda>h. mode_conflict mode (h_mode h) \<and> h_txn h \<notin> fst ` set W) (at m k)"
    using h(1) unfolding list_ex_iff by blast
  then show ?thesis unfolding list_ex_iff by (intro bexI [OF _ w]) simp
qed

end

interpretation lt: lock_table lock_wf held tdb_lock_acquire tdb_lock_release_all
  using acquire_refines release_refines by unfold_locales blast+

lemma held_new: "held tdb_lockmgr_new k = []" "lock_wf tdb_lockmgr_new"
  using res_hash_less [of k] by (simp_all add: held_def lock_wf_def tdb_lockmgr_new_def)

section \<open>Properties\<close>

text \<open>Any sequence of lock requests and releases by any transactions, from the empty table.\<close>

inductive lock_reach :: "tdb_lockmgr \<Rightarrow> bool" where
  reach_new: "lock_reach tdb_lockmgr_new"
| reach_acquire: "lock_reach m \<Longrightarrow> lock_reach (snd (tdb_lock_acquire okr okh m txn k mode))"
| reach_release: "lock_reach m \<Longrightarrow> lock_reach (tdb_lock_release_all m txn)"

inductive_cases lock_reachE: "lock_reach m"

lemma lock_reach_compat:
  assumes "lock_reach m"
  shows "lock_wf m" "compat (held m k)"
proof -
  have "lt.reach tdb_lockmgr_new m"
    using assms by induction (auto intro: lt.reach.intros)
  moreover have "compat (held tdb_lockmgr_new k)" for k by (simp add: held_new(1) compat_def)
  ultimately show "lock_wf m" "compat (held m k)"
    using lt.reach_compat [OF held_new(2)] by blast+
qed

text \<open>When no allocation fails, the effect of a request is computed by \<open>acquire_hs\<close>.\<close>

lemma acquire_eval:
  assumes "lock_wf m"
  shows "lock_wf (snd (tdb_lock_acquire True True m txn k mode))"
    and "fst (tdb_lock_acquire True True m txn k mode) = fst (acquire_hs True (held m k) txn mode)"
    and "held (snd (tdb_lock_acquire True True m txn k mode)) =
      (held m)(k := snd (acquire_hs True (held m k) txn mode))"
proof -
  obtain rc m' where eq: "tdb_lock_acquire True True m txn k mode = (rc, m')" by force
  from acquire_refines [OF assms eq]
  show "lock_wf (snd (tdb_lock_acquire True True m txn k mode))"
    "fst (tdb_lock_acquire True True m txn k mode) = fst (acquire_hs True (held m k) txn mode)"
    "held (snd (tdb_lock_acquire True True m txn k mode)) =
      (held m)(k := snd (acquire_hs True (held m k) txn mode))"
    by (auto simp: eq)
qed

lemmas lock_eval = acquire_eval held_new acquire_hs_def wait_die_def mode_conflict_def

text \<open>
  C8: In every state the lock table can reach, two different transactions never hold
  conflicting locks on the same resource, and no transaction has two entries for it.
\<close>

theorem lock_mutual_exclusion:
  assumes "lock_reach m" "i < length (held m k)" "j < length (held m k)" "i \<noteq> j"
  shows "h_txn (held m k ! i) \<noteq> h_txn (held m k ! j) \<and>
    \<not> mode_conflict (h_mode (held m k ! i)) (h_mode (held m k ! j))"
proof -
  note c = lock_reach_compat(2) [OF assms(1), of k]
  have "h_txn (held m k ! i) \<noteq> h_txn (held m k ! j)"
    using c assms(2-4) by (auto simp: compat_def distinct_conv_nth)
  moreover have "\<not> list_ex (\<lambda>h. h_mode h = TDB_LOCK_EXCL) (held m k)"
    using c assms(2-4) by (auto simp: compat_def)
  then have "h_mode (held m k ! i) \<noteq> TDB_LOCK_EXCL" "h_mode (held m k ! j) \<noteq> TDB_LOCK_EXCL"
    using assms(2,3) by (auto simp: list_ex_iff)
  ultimately show ?thesis by (simp add: mode_conflict_def)
qed

theorem lock_mutual_exclusion_witness:
  "\<exists>m k. lock_reach m \<and> length (held m k) = 2 \<and> h_txn (held m k ! 0) \<noteq> h_txn (held m k ! 1) \<and>
     \<not> mode_conflict (h_mode (held m k ! 0)) (h_mode (held m k ! 1))"
proof -
  define k :: reskey where "k = (TDB_RES_ROW, 7, 1)"
  define m where "m = snd (tdb_lock_acquire True True
    (snd (tdb_lock_acquire True True tdb_lockmgr_new 3 k TDB_LOCK_SHARED)) 9 k TDB_LOCK_SHARED)"
  have "lock_reach m" unfolding m_def by (intro lock_reach.intros)
  moreover have "length (held m k) = 2" by (simp add: m_def lock_eval)
  ultimately show ?thesis using lock_mutual_exclusion [of m 0 k 1] by (intro exI [of _ m] exI [of _ k]) auto
qed

text \<open>
  C15: Wait-die never deadlocks. Whenever all of some pending requests are told to wait
  (\<open>TDB_BUSY\<close>), one of them is blocked by a conflicting holder that is not itself among the
  waiting transactions.
\<close>

theorem lock_no_deadlock:
  assumes "lock_reach m" "W \<noteq> []"
    and "list_all (\<lambda>(txn, k, mode). fst (tdb_lock_acquire okr okh m txn k mode) = TDB_BUSY) W"
  shows "list_ex (\<lambda>(txn, k, mode). list_ex (\<lambda>h. mode_conflict mode (h_mode h) \<and>
    h_txn h \<notin> fst ` set W) (held m k)) W"
  using lock_reach_compat(1) [OF assms(1)] assms(2,3) by (rule lt.not_all_waiting)

theorem lock_no_deadlock_witness:
  "\<exists>m W. lock_reach m \<and> length W = 2 \<and>
     list_ex (\<lambda>(txn :: txnid, k, mode). list_ex (\<lambda>h. mode_conflict mode (h_mode h) \<and>
       h_txn h \<notin> fst ` set W) (held m k)) W"
proof -
  define a b :: reskey where "a = (TDB_RES_TABLE, 1, 0)" and "b = (TDB_RES_TABLE, 2, 0)"
  define m1 where "m1 = snd (tdb_lock_acquire True True tdb_lockmgr_new 3 a TDB_LOCK_SHARED)"
  define m2 where "m2 = snd (tdb_lock_acquire True True m1 9 a TDB_LOCK_SHARED)"
  define m where "m = snd (tdb_lock_acquire True True m2 5 b TDB_LOCK_EXCL)"
  let ?W = "[(3, b, TDB_LOCK_EXCL), (5, a, TDB_LOCK_EXCL)]"
  have wf: "lock_wf m1" "lock_wf m2" "lock_wf m" by (simp_all add: m_def m1_def m2_def lock_eval)
  have "held m1 = (\<lambda>_. [])(a := [\<lparr>h_txn = 3, h_mode = TDB_LOCK_SHARED\<rparr>])"
    using held_new(1) by (auto simp: m1_def lock_eval)
  then have "held m2 = (\<lambda>_. [])
      (a := [\<lparr>h_txn = 9, h_mode = TDB_LOCK_SHARED\<rparr>, \<lparr>h_txn = 3, h_mode = TDB_LOCK_SHARED\<rparr>])"
    using wf by (auto simp: m2_def lock_eval)
  moreover have "a \<noteq> b" by (simp add: a_def b_def)
  ultimately have "held m a = [\<lparr>h_txn = 9, h_mode = TDB_LOCK_SHARED\<rparr>, \<lparr>h_txn = 3, h_mode = TDB_LOCK_SHARED\<rparr>]"
    "held m b = [\<lparr>h_txn = 5, h_mode = TDB_LOCK_EXCL\<rparr>]"
    using wf by (auto simp: m_def lock_eval)
  then have "list_all (\<lambda>(txn, k, mode). fst (tdb_lock_acquire True True m txn k mode) = TDB_BUSY) ?W"
    using wf by (simp add: lock_eval)
  moreover have "lock_reach m" unfolding m_def m1_def m2_def by (intro lock_reach.intros)
  ultimately show ?thesis using lock_no_deadlock [of m ?W True True] by (intro exI [of _ m] exI [of _ ?W]) simp
qed

text \<open>
  Releasing at the end of a transaction removes all of its locks and keeps every lock of
  every other transaction.
\<close>

theorem lock_release_all_exact:
  assumes "lock_reach m"
  shows "held (tdb_lock_release_all m txn) k = filter (\<lambda>h. h_txn h \<noteq> txn) (held m k) \<and>
    (tdb_lock_holder_count (tdb_lock_release_all m txn) k = 0 \<longleftrightarrow>
      list_all (\<lambda>h. h_txn h = txn) (held m k))"
proof -
  have count: "tdb_lock_holder_count l k = length (held l k)" for l
    by (simp add: tdb_lock_holder_count_def res_find_def Let_def held_def split: option.splits)
  show ?thesis
    using release_refines(2) [OF lock_reach_compat(1) [OF assms], of txn k]
    by (simp add: count filter_empty_conv list_all_iff)
qed

theorem lock_release_all_exact_witness:
  "let k = (TDB_RES_ROW, 7, 1);
       m = snd (tdb_lock_acquire True True tdb_lockmgr_new 3 k TDB_LOCK_EXCL)
   in tdb_lock_holder_count (tdb_lock_release_all m 3) k = 0 \<and>
      tdb_lock_holder_count (tdb_lock_release_all m 4) k \<noteq> 0"
proof -
  define k :: reskey where "k = (TDB_RES_ROW, 7, 1)"
  define m where "m = snd (tdb_lock_acquire True True tdb_lockmgr_new 3 k TDB_LOCK_EXCL)"
  have "lock_reach m" unfolding m_def by (intro lock_reach.intros)
  moreover have "held m k = [\<lparr>h_txn = 3, h_mode = TDB_LOCK_EXCL\<rparr>]" by (simp add: m_def lock_eval)
  ultimately show ?thesis
    using lock_release_all_exact [of m 3 k] lock_release_all_exact [of m 4 k]
    by (simp add: m_def k_def)
qed

end
