(* ===== verification/Tdb_Txn.thy ===== *)
theory Tdb_Txn
  imports Tdb_Pager_Limits Tdb_Mvcc Tdb_Lock
begin

text \<open>
  \<^verbatim>\<open>src/txn/tdb_txn.c\<close>: the transaction manager. Its state is the C struct with the pager and
  the lock manager it points to (the latter may be absent); the mutex makes every operation an
  atomic step. A transaction object is passed to an operation and returned updated, or dropped
  where C frees it. The growing arrays are lists whose reallocations, which C does not check,
  succeed.
\<close>

section \<open>State\<close>

datatype tdb_isolation = TDB_ISO_READ_COMMITTED | TDB_ISO_SNAPSHOT | TDB_ISO_SERIALIZABLE

record tdb_txnmgr =
  m_pager :: tdb_pager
  m_locks :: "tdb_lockmgr option"
  m_base :: txnid
  m_next :: txnid
  m_recs :: "(txnid \<times> tdb_xstate) list"
  m_active :: "txnid list"

record tdb_txn =
  t_id :: txnid
  t_iso :: tdb_isolation
  t_snap :: tdb_snapshot
  t_state :: tdb_xstate
  t_writable :: bool
  t_sps :: "(string \<times> int) list"

text \<open>Opening allocates the 72 bytes of the struct and starts from the pager's transaction counter.\<close>

definition txnmgr_on :: "tdb_pager \<Rightarrow> tdb_lockmgr option \<Rightarrow> tdb_txnmgr" where
  "txnmgr_on p lm =
     (let base = h_max_txnid (phdr p) in
      \<lparr>m_pager = p, m_locks = lm, m_base = base, m_next = base + 1, m_recs = [], m_active = []\<rparr>)"

definition tdb_txnmgr_open :: "(nat \<Rightarrow> bool) \<Rightarrow> tdb_pager \<Rightarrow> tdb_lockmgr option \<Rightarrow> tdb_status \<times> tdb_txnmgr option" where
  "tdb_txnmgr_open ok p lm = (if \<not> ok 72 then (TDB_NOMEM, None) else (TDB_OK, Some (txnmgr_on p lm)))"

definition tdb_txnmgr_peek_next :: "tdb_txnmgr \<Rightarrow> txnid" where
  "tdb_txnmgr_peek_next m = m_next m"

fun set_state :: "(txnid \<times> tdb_xstate) list \<Rightarrow> txnid \<Rightarrow> tdb_xstate \<Rightarrow> (txnid \<times> tdb_xstate) list" where
  "set_state [] x st = [(x, st)]"
| "set_state ((y, s) # rs) x st = (if y = x then (y, st) # rs else (y, s) # set_state rs x st)"

fun rec_state_of :: "(txnid \<times> tdb_xstate) list \<Rightarrow> txnid \<Rightarrow> tdb_xstate" where
  "rec_state_of [] x = TDB_XACT_ABORTED"
| "rec_state_of ((y, s) # rs) x = (if y = x then s else rec_state_of rs x)"

definition tdb_txnmgr_state :: "tdb_txnmgr \<Rightarrow> txnid \<Rightarrow> tdb_xstate" where
  "tdb_txnmgr_state m x =
     (if x = 0 then TDB_XACT_ABORTED
      else if x \<le> m_base m then TDB_XACT_COMMITTED
      else rec_state_of (m_recs m) x)"

definition active_add :: "txnid list \<Rightarrow> txnid \<Rightarrow> txnid list" where
  "active_add as x = as @ [x]"

text \<open>The removed slot is filled with the last one.\<close>

fun first_index :: "txnid list \<Rightarrow> txnid \<Rightarrow> nat \<Rightarrow> nat option" where
  "first_index [] x i = None"
| "first_index (a # as) x i = (if a = x then Some i else first_index as x (Suc i))"

definition active_remove :: "txnid list \<Rightarrow> txnid \<Rightarrow> txnid list" where
  "active_remove as x =
     (case first_index as x 0 of
        None \<Rightarrow> as
      | Some i \<Rightarrow> take (length as - 1) (as[i := as ! (length as - 1)]))"

definition take_snapshot :: "tdb_txnmgr \<Rightarrow> tdb_txn \<Rightarrow> tdb_txn" where
  "take_snapshot m t = t\<lparr>t_snap := \<lparr>self = t_id t, snap_xmax = m_next m, snap_active = m_active m\<rparr>\<rparr>"

section \<open>Operations\<close>

definition release_locks :: "tdb_txnmgr \<Rightarrow> txnid \<Rightarrow> tdb_txnmgr" where
  "release_locks m x = m\<lparr>m_locks := map_option (\<lambda>l. tdb_lock_release_all l x) (m_locks m)\<rparr>"

definition tdb_txn_rollback :: "(nat \<Rightarrow> bool) \<Rightarrow> zbuild \<Rightarrow> tdb_txnmgr \<Rightarrow> tdb_txn \<Rightarrow> tdb_status \<times> tdb_txnmgr" where
  "tdb_txn_rollback ok z m t =
     (case (if t_writable t then tdb_pager_rollback ok z (m_pager m) else (TDB_OK, m_pager m)) of
        (rc, p) \<Rightarrow>
          (let m1 = m\<lparr>m_pager := p, m_recs := set_state (m_recs m) (t_id t) TDB_XACT_ABORTED,
                      m_active := active_remove (m_active m) (t_id t)\<rparr>
           in (rc, release_locks m1 (t_id t))))"

text \<open>The transaction object takes 88 bytes.\<close>

definition tdb_txn_begin ::
  "(nat \<Rightarrow> bool) \<Rightarrow> zbuild \<Rightarrow> tdb_txnmgr \<Rightarrow> tdb_isolation \<Rightarrow> bool \<Rightarrow> tdb_status \<times> tdb_txn option \<times> tdb_txnmgr" where
  "tdb_txn_begin ok z m isol writable =
     (if \<not> ok 88 then (TDB_NOMEM, None, m)
      else
        (let x = m_next m;
             m1 = m\<lparr>m_next := m_next m + 1, m_recs := set_state (m_recs m) x TDB_XACT_ACTIVE,
                    m_active := active_add (m_active m) x\<rparr>;
             t = take_snapshot m1
                   \<lparr>t_id = x, t_iso = isol, t_snap = \<lparr>self = 0, snap_xmax = 0, snap_active = []\<rparr>,
                    t_state = TDB_XACT_ACTIVE, t_writable = writable, t_sps = []\<rparr>
         in
         if writable then
           (case tdb_pager_begin (m_pager m1) of
              (rc, p) \<Rightarrow>
                if rc \<noteq> TDB_OK then (rc, None, snd (tdb_txn_rollback ok z (m1\<lparr>m_pager := p\<rparr>) t))
                else (TDB_OK, Some t, m1\<lparr>m_pager := p\<rparr>))
         else (TDB_OK, Some t, m1)))"

definition tdb_txn_refresh_snapshot :: "tdb_txnmgr \<Rightarrow> tdb_txn \<Rightarrow> tdb_txn" where
  "tdb_txn_refresh_snapshot m t = take_snapshot m t"

text \<open>The innermost savepoint of the name; names compare without case.\<close>

fun find_sp_from :: "(string \<times> int) list \<Rightarrow> string \<Rightarrow> nat \<Rightarrow> nat option" where
  "find_sp_from sps name 0 = None"
| "find_sp_from sps name (Suc i) =
     (if c_strcaseeq (fst (sps ! i)) name then Some i else find_sp_from sps name i)"

definition find_sp :: "tdb_txn \<Rightarrow> string \<Rightarrow> nat option" where
  "find_sp t name = find_sp_from (t_sps t) name (length (t_sps t))"

definition tdb_txn_savepoint :: "tdb_txnmgr \<Rightarrow> tdb_txn \<Rightarrow> string \<Rightarrow> tdb_status \<times> tdb_txnmgr \<times> tdb_txn" where
  "tdb_txn_savepoint m t name =
     (if \<not> t_writable t then (TDB_READONLY, m, t)
      else
        (case tdb_pager_savepoint (m_pager m) of
           (level, p) \<Rightarrow>
             if level < 0 then (TDB_ERROR, m\<lparr>m_pager := p\<rparr>, t)
             else (TDB_OK, m\<lparr>m_pager := p\<rparr>, t\<lparr>t_sps := t_sps t @ [(name, level)]\<rparr>)))"

definition tdb_txn_release :: "tdb_txnmgr \<Rightarrow> tdb_txn \<Rightarrow> string \<Rightarrow> tdb_status \<times> tdb_txnmgr \<times> tdb_txn" where
  "tdb_txn_release m t name =
     (case find_sp t name of
        None \<Rightarrow> (TDB_NOTFOUND, m, t)
      | Some i \<Rightarrow>
          (case tdb_pager_savepoint_release (m_pager m) (snd (t_sps t ! i)) of
             (rc, p) \<Rightarrow> (rc, m\<lparr>m_pager := p\<rparr>, t\<lparr>t_sps := take i (t_sps t)\<rparr>)))"

definition tdb_txn_rollback_to :: "tdb_txnmgr \<Rightarrow> tdb_txn \<Rightarrow> string \<Rightarrow> tdb_status \<times> tdb_txnmgr \<times> tdb_txn" where
  "tdb_txn_rollback_to m t name =
     (case find_sp t name of
        None \<Rightarrow> (TDB_NOTFOUND, m, t)
      | Some i \<Rightarrow>
          (case tdb_pager_savepoint_rollback (m_pager m) (snd (t_sps t ! i)) of
             (rc, p) \<Rightarrow> (rc, m\<lparr>m_pager := p\<rparr>, t\<lparr>t_sps := take (i + 1) (t_sps t)\<rparr>)))"

definition tdb_txn_commit :: "(nat \<Rightarrow> bool) \<Rightarrow> zbuild \<Rightarrow> tdb_txnmgr \<Rightarrow> tdb_txn \<Rightarrow> tdb_status \<times> tdb_txnmgr" where
  "tdb_txn_commit ok z m t =
     (case (if t_writable t then tdb_pager_commit ok z (tdb_pager_set_max_txnid (m_pager m) (t_id t)) else (TDB_OK, m_pager m)) of
        (rc, p) \<Rightarrow>
          (let st = (if rc \<noteq> TDB_OK then TDB_XACT_ABORTED else TDB_XACT_COMMITTED);
               m1 = m\<lparr>m_pager := p, m_recs := set_state (m_recs m) (t_id t) st,
                      m_active := active_remove (m_active m) (t_id t)\<rparr>
           in (rc, release_locks m1 (t_id t))))"

definition tdb_txn_visible :: "tdb_txnmgr \<Rightarrow> tdb_txn \<Rightarrow> txnid \<Rightarrow> txnid \<Rightarrow> bool" where
  "tdb_txn_visible m t xmin xmax = tdb_mvcc_visible (tdb_txnmgr_state m) (t_snap t) xmin xmax"

definition tdb_txn_visible_asof :: "tdb_txnmgr \<Rightarrow> txnid \<Rightarrow> txnid \<Rightarrow> txnid \<Rightarrow> bool" where
  "tdb_txn_visible_asof m xmin xmax asof =
     (if tdb_txnmgr_state m xmin \<noteq> TDB_XACT_COMMITTED then False
      else if asof < xmin then False
      else if xmax = 0 then True
      else if tdb_txnmgr_state m xmax = TDB_XACT_COMMITTED \<and> xmax \<le> asof then False
      else True)"

section \<open>The manager's invariant\<close>

text \<open>
  The ids handed out in this session lie between the base and the next id, each has one record,
  and the list of active ids holds exactly those whose record says so, once each.
\<close>

definition mgr_inv :: "tdb_txnmgr \<Rightarrow> bool" where
  "mgr_inv m \<longleftrightarrow>
     m_base m < m_next m \<and> distinct (map fst (m_recs m)) \<and>
     (\<forall>x. x \<in> fst ` set (m_recs m) \<longleftrightarrow> m_base m < x \<and> x < m_next m) \<and>
     distinct (m_active m) \<and> (\<forall>x. x \<in> set (m_active m) \<longleftrightarrow> (x, TDB_XACT_ACTIVE) \<in> set (m_recs m))"

lemma set_state_fst: "fst ` set (set_state rs x st) = insert x (fst ` set rs)"
  by (induction rs x st rule: set_state.induct) auto

lemma set_state_distinct: "distinct (map fst rs) \<Longrightarrow> distinct (map fst (set_state rs x st))"
proof (induction rs x st rule: set_state.induct)
  case (2 y s rs x st)
  then show ?case using set_state_fst [of rs x st] by auto
qed simp

lemma set_state_in:
  "distinct (map fst rs) \<Longrightarrow> (y, s) \<in> set (set_state rs x st) \<longleftrightarrow> (if y = x then s = st else (y, s) \<in> set rs)"
  by (induction rs x st rule: set_state.induct) (auto simp: image_iff)

lemma rec_state_set: "rec_state_of (set_state rs x st) y = (if y = x then st else rec_state_of rs y)"
  by (induction rs x st rule: set_state.induct) auto

lemma rec_state_in: "distinct (map fst rs) \<Longrightarrow> (x, s) \<in> set rs \<Longrightarrow> rec_state_of rs x = s"
  by (induction rs x rule: rec_state_of.induct) (auto simp: image_iff)

lemma rec_state_none: "x \<notin> fst ` set rs \<Longrightarrow> rec_state_of rs x = TDB_XACT_ABORTED"
  by (induction rs x rule: rec_state_of.induct) auto

lemma first_index_spec:
  "first_index as x i = (if x \<in> set as then Some (i + length (takeWhile (\<lambda>a. a \<noteq> x) as)) else None)"
  by (induction as x i rule: first_index.induct) auto

lemma active_remove_split:
  "x \<notin> set xs \<Longrightarrow> active_remove (xs @ x # ys) x = (if ys = [] then xs else xs @ last ys # butlast ys)"
proof -
  assume x: "x \<notin> set xs"
  then have tw: "takeWhile (\<lambda>a. a \<noteq> x) (xs @ x # zs) = xs" for zs by (subst takeWhile_append2) auto
  have "(xs @ x # ys) ! (length (xs @ x # ys) - 1) = last (xs @ x # ys)" by (simp add: last_conv_nth)
  then show ?thesis
    by (cases ys rule: rev_cases) (simp_all add: active_remove_def first_index_spec tw)
qed

lemma active_remove_set:
  assumes "distinct as"
  shows "set (active_remove as x) = set as - {x}" "distinct (active_remove as x)"
proof -
  have "set (active_remove as x) = set as - {x} \<and> distinct (active_remove as x)"
  proof (cases "x \<in> set as")
    case True
    then obtain xs ys where s: "as = xs @ x # ys" "x \<notin> set xs" by (meson split_list_first)
    show ?thesis
      using assms by (cases ys rule: rev_cases) (auto simp: s active_remove_split)
  next
    case False
    then show ?thesis using assms by (simp add: active_remove_def first_index_spec)
  qed
  then show "set (active_remove as x) = set as - {x}" "distinct (active_remove as x)" by blast+
qed

section \<open>Steps of the manager\<close>

text \<open>
  What may happen to the manager: a transaction begins, commits or rolls back, the pager is used
  in a transaction, locks are acquired. Ids do not wrap around.
\<close>

inductive txn_step :: "zbuild \<Rightarrow> tdb_txnmgr \<Rightarrow> tdb_txnmgr \<Rightarrow> bool" for z where
  begins: "tdb_txn_begin ok z m isol w = (rc, t, m') \<Longrightarrow> m_next m + 1 \<noteq> 0 \<Longrightarrow> txn_step z m m'"
| commits: "t_id t \<in> set (m_active m) \<Longrightarrow> tdb_txn_commit ok z m t = (rc, m') \<Longrightarrow> txn_step z m m'"
| aborts: "t_id t \<in> set (m_active m) \<Longrightarrow> tdb_txn_rollback ok z m t = (rc, m') \<Longrightarrow> txn_step z m m'"
| paging: "txn_step z m (m\<lparr>m_pager := p\<rparr>)"
| locking: "txn_step z m (m\<lparr>m_locks := l\<rparr>)"

abbreviation txn_steps :: "zbuild \<Rightarrow> tdb_txnmgr \<Rightarrow> tdb_txnmgr \<Rightarrow> bool" where
  "txn_steps z \<equiv> (txn_step z)\<^sup>*\<^sup>*"

lemma mgr_inv_pager [simp]: "mgr_inv (m\<lparr>m_pager := p\<rparr>) = mgr_inv m" "mgr_inv (m\<lparr>m_locks := l\<rparr>) = mgr_inv m"
  by (simp_all add: mgr_inv_def)

lemma unat_next: "x + 1 \<noteq> 0 \<Longrightarrow> unat (x + 1) = Suc (unat (x :: txnid))"
proof -
  assume "x + 1 \<noteq> 0"
  then have "x \<noteq> - 1" by auto
  then have "unat x \<noteq> unat (- 1 :: txnid)" by (simp add: word_unat_eq_iff)
  moreover have "unat (- 1 :: txnid) = 2 ^ 64 - 1" by (simp add: unsigned_minus_1_eq_mask mask_eq_exp_minus_1)
  moreover have "unat x < 2 ^ 64" using unsigned_less [of x] by simp
  ultimately have "unat x + unat (1 :: txnid) < 2 ^ LENGTH(64)" by simp
  from unat_add_lem [THEN iffD1, OF this] show ?thesis by simp
qed

lemma next_less: "x + 1 \<noteq> 0 \<Longrightarrow> y < x + 1 \<longleftrightarrow> y \<le> (x :: txnid)"
  by (simp add: word_less_nat_alt word_le_nat_alt unat_next less_Suc_eq_le)

lemma open_inv: "h_max_txnid (phdr p) + 1 \<noteq> 0 \<Longrightarrow> mgr_inv (txnmgr_on p lm)"
  by (auto simp: mgr_inv_def txnmgr_on_def Let_def next_less)

text \<open>Recording a new id, and recording the outcome of an active one.\<close>

lemma mgr_invI:
  assumes "m_base m < m_next m" "distinct (map fst (m_recs m))"
    and "\<And>x. x \<in> fst ` set (m_recs m) \<longleftrightarrow> m_base m < x \<and> x < m_next m"
    and "distinct (m_active m)" "\<And>x. x \<in> set (m_active m) \<longleftrightarrow> (x, TDB_XACT_ACTIVE) \<in> set (m_recs m)"
  shows "mgr_inv m"
  using assms by (simp add: mgr_inv_def)

lemma mgr_inv_begin:
  assumes inv: "mgr_inv m" and wrap: "m_next m + 1 \<noteq> 0"
  shows "mgr_inv (m\<lparr>m_next := m_next m + 1, m_recs := set_state (m_recs m) (m_next m) TDB_XACT_ACTIVE,
    m_active := active_add (m_active m) (m_next m)\<rparr>)"
proof -
  have i: "m_base m < m_next m" "distinct (map fst (m_recs m))" "distinct (m_active m)"
    "\<And>x. x \<in> fst ` set (m_recs m) \<longleftrightarrow> m_base m < x \<and> x < m_next m"
    "\<And>x. x \<in> set (m_active m) \<longleftrightarrow> (x, TDB_XACT_ACTIVE) \<in> set (m_recs m)"
    using inv by (simp_all add: mgr_inv_def)
  have new: "m_next m \<notin> set (m_active m)" using i(4) [of "m_next m"] i(5) by (force simp del: set_map)
  have ids: "x = m_next m \<or> m_base m < x \<and> x < m_next m \<longleftrightarrow> m_base m < x \<and> x < m_next m + 1" for x
    using i(1) by (auto simp: next_less [OF wrap])
  show ?thesis
    by (rule mgr_invI) (use i(1-3,5) new next_less [OF wrap] set_state_in [OF i(2)] set_state_distinct [OF i(2)]
      in \<open>simp_all add: active_add_def set_state_fst i(4) ids\<close>)
qed

lemma mgr_inv_finish:
  assumes inv: "mgr_inv m" and x: "x \<in> set (m_active m)" and st: "st \<noteq> TDB_XACT_ACTIVE"
  shows "mgr_inv (m\<lparr>m_recs := set_state (m_recs m) x st, m_active := active_remove (m_active m) x\<rparr>)"
proof -
  have i: "m_base m < m_next m" "distinct (map fst (m_recs m))" "distinct (m_active m)"
    "\<And>x. x \<in> fst ` set (m_recs m) \<longleftrightarrow> m_base m < x \<and> x < m_next m"
    "\<And>x. x \<in> set (m_active m) \<longleftrightarrow> (x, TDB_XACT_ACTIVE) \<in> set (m_recs m)"
    using inv by (simp_all add: mgr_inv_def)
  have "x \<in> fst ` set (m_recs m)" using x i(5) by (force simp del: set_map)
  then have known: "insert x (fst ` set (m_recs m)) = fst ` set (m_recs m)" by blast
  show ?thesis
    by (rule mgr_invI) (use i st known set_state_in [OF i(2)] set_state_distinct [OF i(2)] active_remove_set [OF i(3)]
      in \<open>simp_all add: set_state_fst\<close>)
qed

text \<open>How the ids and states change: the next id only grows, and finished ids keep their state.\<close>

definition mgr_later :: "tdb_txnmgr \<Rightarrow> tdb_txnmgr \<Rightarrow> bool" where
  "mgr_later m m' \<longleftrightarrow>
     mgr_inv m \<and> mgr_inv m' \<and> m_base m' = m_base m \<and> m_next m \<le> m_next m' \<and>
     (\<forall>x. x < m_next m \<longrightarrow> x \<notin> set (m_active m) \<longrightarrow> tdb_txnmgr_state m' x = tdb_txnmgr_state m x \<and> x \<notin> set (m_active m'))"

lemma state_pager [simp]:
  "tdb_txnmgr_state (m\<lparr>m_pager := p\<rparr>) = tdb_txnmgr_state m" "tdb_txnmgr_state (m\<lparr>m_locks := l\<rparr>) = tdb_txnmgr_state m"
  by (simp_all add: tdb_txnmgr_state_def fun_eq_iff)

lemma mgr_later_pager: "mgr_later m m1 \<Longrightarrow> mgr_later m (m1\<lparr>m_pager := p\<rparr>)"
  unfolding mgr_later_def state_pager mgr_inv_pager by simp

lemma mgr_later_refl: "mgr_inv m \<Longrightarrow> mgr_later m m"
  by (simp add: mgr_later_def)

lemma mgr_later_trans: "mgr_later m m' \<Longrightarrow> mgr_later m' m'' \<Longrightarrow> mgr_later m m''"
  by (fastforce simp: mgr_later_def)

lemma later_finish:
  assumes inv: "mgr_inv m" and x: "x \<in> set (m_active m)" and st: "st \<noteq> TDB_XACT_ACTIVE"
    and m': "m' = release_locks (m\<lparr>m_pager := p, m_recs := set_state (m_recs m) x st, m_active := active_remove (m_active m) x\<rparr>) x"
  shows "mgr_later m m'" "tdb_txnmgr_state m' x = st" "set (m_active m') = set (m_active m) - {x}" "m_next m' = m_next m"
proof -
  have f: "mgr_inv m'" using mgr_inv_finish [OF inv x st] by (simp add: m' release_locks_def mgr_inv_def)
  have s: "tdb_txnmgr_state m' y = (if y = x then st else tdb_txnmgr_state m y)" for y
  proof -
    have "m_base m < x" using inv x by (force simp: mgr_inv_def)
    then show ?thesis by (auto simp: m' release_locks_def tdb_txnmgr_state_def rec_state_set)
  qed
  show a: "set (m_active m') = set (m_active m) - {x}"
    using active_remove_set(1) inv by (simp add: m' release_locks_def mgr_inv_def)
  show "tdb_txnmgr_state m' x = st" using s by simp
  show "m_next m' = m_next m" by (simp add: m' release_locks_def)
  have "m_next m' = m_next m" "m_base m' = m_base m" by (simp_all add: m' release_locks_def)
  with inv f s a x show "mgr_later m m'" unfolding mgr_later_def by force
qed

lemma later_begin:
  assumes inv: "mgr_inv m" and wrap: "m_next m + 1 \<noteq> 0"
  defines "m1 \<equiv> m\<lparr>m_next := m_next m + 1, m_recs := set_state (m_recs m) (m_next m) TDB_XACT_ACTIVE,
    m_active := active_add (m_active m) (m_next m)\<rparr>"
  shows "mgr_later m m1"
proof -
  have "tdb_txnmgr_state m1 x = tdb_txnmgr_state m x" "x \<in> set (m_active m1) \<longleftrightarrow> x \<in> set (m_active m)" if "x < m_next m" for x
    using that by (auto simp: m1_def tdb_txnmgr_state_def rec_state_set active_add_def)
  moreover have "m_base m1 = m_base m" "m_next m \<le> m_next m1"
    using next_less [OF wrap, of "m_next m"] by (simp_all add: m1_def)
  moreover have "mgr_inv m1" unfolding m1_def by (rule mgr_inv_begin [OF inv wrap])
  ultimately show ?thesis using inv by (simp add: mgr_later_def)
qed

lemma begin_cases:
  assumes "tdb_txn_begin ok z m isol w = (rc, t, m')"
  defines "m1 \<equiv> m\<lparr>m_next := m_next m + 1, m_recs := set_state (m_recs m) (m_next m) TDB_XACT_ACTIVE,
    m_active := active_add (m_active m) (m_next m)\<rparr>"
  obtains (nomem) "t = None" "m' = m" "rc = TDB_NOMEM"
  | (failed) u p where "t = None" "m' = snd (tdb_txn_rollback ok z (m1\<lparr>m_pager := p\<rparr>) u)" "t_id u = m_next m" "rc \<noteq> TDB_OK"
  | (begun) u p where "t = Some u" "m' = m1\<lparr>m_pager := p\<rparr>" "rc = TDB_OK" "t_id u = m_next m"
      "t_snap u = \<lparr>self = m_next m, snap_xmax = m_next m1, snap_active = m_active m1\<rparr>" "t_sps u = []" "t_writable u = w" "t_iso u = isol"
proof -
  define u where "u = take_snapshot m1 \<lparr>t_id = m_next m, t_iso = isol, t_snap = \<lparr>self = 0, snap_xmax = 0, snap_active = []\<rparr>,
    t_state = TDB_XACT_ACTIVE, t_writable = w, t_sps = []\<rparr>"
  have u: "t_id u = m_next m" "t_snap u = \<lparr>self = m_next m, snap_xmax = m_next m1, snap_active = m_active m1\<rparr>"
    "t_sps u = []" "t_writable u = w" "t_iso u = isol" by (simp_all add: u_def take_snapshot_def)
  have eq: "tdb_txn_begin ok z m isol w =
     (if \<not> ok 88 then (TDB_NOMEM, None, m)
      else if w then
        (case tdb_pager_begin (m_pager m1) of
           (rc, p) \<Rightarrow> if rc \<noteq> TDB_OK then (rc, None, snd (tdb_txn_rollback ok z (m1\<lparr>m_pager := p\<rparr>) u))
             else (TDB_OK, Some u, m1\<lparr>m_pager := p\<rparr>))
      else (TDB_OK, Some u, m1))"
    unfolding tdb_txn_begin_def u_def m1_def Let_def by (rule refl)
  obtain rc1 p1 where pb: "tdb_pager_begin (m_pager m1) = (rc1, p1)" by force
  show thesis
  proof (cases "ok 88")
    case False
    show thesis by (rule nomem) (use assms(1) False eq in simp_all)
  next
    case ok: True
    show thesis
    proof (cases w)
      case False
      show thesis by (rule begun [of u "m_pager m1"]) (use assms(1) ok False eq u in simp_all)
    next
      case w: True
      show thesis
      proof (cases "rc1 = TDB_OK")
        case True
        show thesis by (rule begun [of u p1]) (use assms(1) ok w True pb eq u in simp_all)
      next
        case False
        show thesis by (rule failed [of p1 u]) (use assms(1) ok w False pb eq u in simp_all)
      qed
    qed
  qed
qed

lemma finish_eqs:
  "tdb_txn_commit ok z m t = (rc, m') \<Longrightarrow> \<exists>p. m' = release_locks (m\<lparr>m_pager := p,
     m_recs := set_state (m_recs m) (t_id t) (if rc \<noteq> TDB_OK then TDB_XACT_ABORTED else TDB_XACT_COMMITTED),
     m_active := active_remove (m_active m) (t_id t)\<rparr>) (t_id t)"
  "tdb_txn_rollback ok z m t = (rc, m') \<Longrightarrow> \<exists>p. m' = release_locks (m\<lparr>m_pager := p,
     m_recs := set_state (m_recs m) (t_id t) TDB_XACT_ABORTED, m_active := active_remove (m_active m) (t_id t)\<rparr>) (t_id t)"
  by (auto simp: tdb_txn_commit_def tdb_txn_rollback_def Let_def split: prod.splits)

lemma txn_step_later:
  assumes "txn_step z m m'" "mgr_inv m"
  shows "mgr_later m m'"
  using assms(1)
proof cases
  case (begins ok isol w rc t)
  note later = later_begin [OF assms(2) begins(2)]
  let ?m1 = "m\<lparr>m_next := m_next m + 1, m_recs := set_state (m_recs m) (m_next m) TDB_XACT_ACTIVE,
    m_active := active_add (m_active m) (m_next m)\<rparr>"
  from begins(1) show ?thesis
  proof (cases rule: begin_cases)
    case nomem
    then show ?thesis using assms(2) by (simp add: mgr_later_refl)
  next
    case (failed u p)
    obtain rc' m2 where rb: "tdb_txn_rollback ok z (?m1\<lparr>m_pager := p\<rparr>) u = (rc', m2)" by force
    have inv1: "mgr_inv (?m1\<lparr>m_pager := p\<rparr>)" using mgr_inv_begin [OF assms(2) begins(2)] by (simp add: mgr_inv_def)
    have "mgr_later (?m1\<lparr>m_pager := p\<rparr>) m2"
      using finish_eqs(2) [OF rb] later_finish(1) [OF inv1, of "t_id u" TDB_XACT_ABORTED] failed(3) by (auto simp: active_add_def)
    moreover have "mgr_later m (?m1\<lparr>m_pager := p\<rparr>)" by (rule mgr_later_pager [OF later])
    ultimately show ?thesis using mgr_later_trans failed(2) rb by simp
  next
    case (begun u p)
    show ?thesis unfolding begun(2) by (rule mgr_later_pager [OF later])
  qed
next
  case (commits t ok rc)
  then show ?thesis using finish_eqs(1) [OF commits(2)] later_finish(1) [OF assms(2) commits(1)] by auto
next
  case (aborts t ok rc)
  then show ?thesis using finish_eqs(2) [OF aborts(2)] later_finish(1) [OF assms(2) aborts(1)] by auto
next
  case (paging p)
  then show ?thesis using assms(2) by (simp add: mgr_later_def tdb_txnmgr_state_def)
next
  case (locking l)
  then show ?thesis using assms(2) by (simp add: mgr_later_def tdb_txnmgr_state_def)
qed

lemma txn_steps_later:
  assumes "txn_steps z m m'" "mgr_inv m"
  shows "mgr_later m m'"
  using assms
proof (induction rule: rtranclp_induct)
  case base
  then show ?case by (rule mgr_later_refl)
next
  case (step y w)
  then have "mgr_later m y" by blast
  moreover from this have "mgr_inv y" by (simp add: mgr_later_def)
  ultimately show ?case using txn_step_later [OF step.hyps(2)] mgr_later_trans by blast
qed

text \<open>
  A transaction \<open>t\<close> among the others: whatever happens to the manager, and what \<open>t\<close> does itself
  besides: savepoints, and re-taking its snapshot, which the interface reserves to READ COMMITTED.
\<close>

inductive session_step :: "zbuild \<Rightarrow> tdb_txnmgr \<times> tdb_txn \<Rightarrow> tdb_txnmgr \<times> tdb_txn \<Rightarrow> bool" for z where
  manager: "txn_step z m m' \<Longrightarrow> session_step z (m, t) (m', t)"
| savepoint: "tdb_txn_savepoint m t name = (rc, m', t') \<Longrightarrow> session_step z (m, t) (m', t')"
| release: "tdb_txn_release m t name = (rc, m', t') \<Longrightarrow> session_step z (m, t) (m', t')"
| rollback_to: "tdb_txn_rollback_to m t name = (rc, m', t') \<Longrightarrow> session_step z (m, t) (m', t')"
| refresh: "t_iso t = TDB_ISO_READ_COMMITTED \<Longrightarrow> session_step z (m, t) (m, tdb_txn_refresh_snapshot m t)"

inductive_cases session_stepE: "session_step z (m, t) (m', t')"

lemma savepoint_pager:
  "tdb_txn_savepoint m t name = (rc, m', t') \<Longrightarrow> m' = m\<lparr>m_pager := m_pager m'\<rparr> \<and> t_snap t' = t_snap t \<and> t_iso t' = t_iso t"
  "tdb_txn_release m t name = (rc, m', t') \<Longrightarrow> m' = m\<lparr>m_pager := m_pager m'\<rparr> \<and> t_snap t' = t_snap t \<and> t_iso t' = t_iso t"
  "tdb_txn_rollback_to m t name = (rc, m', t') \<Longrightarrow> m' = m\<lparr>m_pager := m_pager m'\<rparr> \<and> t_snap t' = t_snap t \<and> t_iso t' = t_iso t"
  by (auto simp: tdb_txn_savepoint_def tdb_txn_release_def tdb_txn_rollback_to_def split: prod.splits option.splits if_splits)

lemma session_steps_later:
  assumes "(session_step z)\<^sup>*\<^sup>* (m, t) (m', t')" "mgr_inv m" "t_iso t \<noteq> TDB_ISO_READ_COMMITTED"
  shows "mgr_later m m' \<and> t_snap t' = t_snap t \<and> t_iso t' = t_iso t"
  using assms(1)
proof (induction rule: rtranclp_induct2)
  case refl
  show ?case using assms(2) by (simp add: mgr_later_refl)
next
  case (step m1 t1 m2 t2)
  then have ih: "mgr_later m m1" "mgr_inv m1" "t_snap t1 = t_snap t" "t_iso t1 = t_iso t" by (simp_all add: mgr_later_def)
  have "mgr_later m1 m2 \<and> t_snap t2 = t_snap t1 \<and> t_iso t2 = t_iso t1"
    using step.hyps(2)
    by (rule session_stepE)
      (use ih assms(3) txn_step_later [OF _ ih(2)] mgr_later_refl [OF ih(2)] mgr_later_pager [OF mgr_later_refl [OF ih(2)], of "m_pager m2"]
        savepoint_pager [of m1 t1 _ _ m2 t2] in auto)
  then show ?case using mgr_later_trans [OF ih(1)] ih(3,4) by auto
qed

interpretation tm: xact_log tdb_txnmgr_state m_next m_active mgr_later
  by unfold_locales (simp add: mgr_later_def)

end
