(* ===== verification/Tdb_Txn_Props.thy ===== *)
theory Tdb_Txn_Props
  imports Tdb_Txn
begin

text \<open>
  What the transaction manager guarantees: its bookkeeping over every sequence of steps, the
  stability of snapshots, what a re-taken snapshot shows, the outcome of a commit as later
  transactions see it, and the answers of time-travel reads. The last property follows a crash through the pager into the manager.
\<close>

section \<open>Facts shared by the properties\<close>

text \<open>Managers that come from opening one on a pager whose transaction counter can still grow.\<close>

definition mgr_reach :: "zbuild \<Rightarrow> tdb_txnmgr \<Rightarrow> bool" where
  "mgr_reach z m \<longleftrightarrow> (\<exists>ok p lm m0. h_max_txnid (phdr p) + 1 \<noteq> 0 \<and> tdb_txnmgr_open ok p lm = (TDB_OK, Some m0) \<and> txn_steps z m0 m)"

lemma mgr_reach_inv: "mgr_reach z m \<Longrightarrow> mgr_inv m"
  using txn_steps_later [OF _ open_inv] by (fastforce simp: mgr_reach_def mgr_later_def tdb_txnmgr_open_def split: if_splits)

lemma mgr_reach_step: "mgr_reach z m \<Longrightarrow> txn_step z m m' \<Longrightarrow> mgr_reach z m'"
  unfolding mgr_reach_def by (meson rtranclp.rtrancl_into_rtrancl)

lemma state_active: "mgr_inv m \<Longrightarrow> tdb_txnmgr_state m x = TDB_XACT_ACTIVE \<longleftrightarrow> x \<in> set (m_active m)"
proof -
  assume inv: "mgr_inv m"
  then have d: "distinct (map fst (m_recs m))" and act: "x \<in> set (m_active m) \<longleftrightarrow> (x, TDB_XACT_ACTIVE) \<in> set (m_recs m)"
    and ids: "x \<in> fst ` set (m_recs m) \<longleftrightarrow> m_base m < x \<and> x < m_next m"
    by (simp_all add: mgr_inv_def)
  show ?thesis
  proof (cases "x \<in> fst ` set (m_recs m)")
    case True
    then obtain s where s: "(x, s) \<in> set (m_recs m)" by force
    from True ids have "m_base m < x" by simp
    then have "tdb_txnmgr_state m x = s" using rec_state_in [OF d s] by (auto simp: tdb_txnmgr_state_def)
    moreover have "(x, TDB_XACT_ACTIVE) \<in> set (m_recs m) \<longleftrightarrow> s = TDB_XACT_ACTIVE"
      using s rec_state_in [OF d] by blast
    ultimately show ?thesis using act by simp
  next
    case False
    then have "x \<notin> set (m_active m)" using act by force
    then show ?thesis using rec_state_none [OF False] by (simp add: tdb_txnmgr_state_def)
  qed
qed

lemma state_unused: "mgr_inv m \<Longrightarrow> m_next m \<le> x \<Longrightarrow> tdb_txnmgr_state m x = TDB_XACT_ABORTED"
proof -
  assume a: "mgr_inv m" "m_next m \<le> x"
  then have "x \<notin> fst ` set (m_recs m)" "m_base m < x" by (auto simp: mgr_inv_def)
  then show ?thesis using rec_state_none by (auto simp: tdb_txnmgr_state_def)
qed

lemma begun:
  assumes "mgr_inv m" "m_next m + 1 \<noteq> 0" "tdb_txn_begin ok z m isol w = (rc, Some t, m')"
  shows "t_id t = m_next m" "t_snap t = tm.snapshot_at m' (m_next m)" "mgr_inv m'" "mgr_later m m'"
    "m_next m' = m_next m + 1" "set (m_active m') = insert (m_next m) (set (m_active m))" "t_iso t = isol"
proof -
  from txn_step_later [OF txn_step.begins [OF assms(3,2)] assms(1)]
  show l: "mgr_later m m'" .
  then show "mgr_inv m'" by (simp add: mgr_later_def)
  from assms(3)
  have "t_id t = m_next m \<and> t_snap t = tm.snapshot_at m' (m_next m) \<and> m_next m' = m_next m + 1 \<and>
    m_active m' = active_add (m_active m) (m_next m) \<and> t_iso t = isol"
    by (cases rule: begin_cases) (simp_all add: tm.snapshot_at_def)
  then show "t_id t = m_next m" "t_snap t = tm.snapshot_at m' (m_next m)" "m_next m' = m_next m + 1"
    "set (m_active m') = insert (m_next m) (set (m_active m))" "t_iso t = isol"
    by (simp_all add: active_add_def)
qed

text \<open>A finished transaction's inserts are visible to a later one exactly if it committed.\<close>

lemma visible_after:
  assumes "mgr_inv m" "m_next m + 1 \<noteq> 0" "tdb_txn_begin ok z m isol w = (rc, Some t, m')"
    and "x < m_next m" "x \<notin> set (m_active m)"
  shows "tdb_txn_visible m' t x 0 \<longleftrightarrow> tdb_txnmgr_state m x = TDB_XACT_COMMITTED"
proof -
  note b = begun [OF assms(1-3)]
  have "tdb_txnmgr_state m' x = tdb_txnmgr_state m x" using b(4) assms(4,5) by (simp add: mgr_later_def)
  moreover have "x < m_next m'" using assms(4) b(5) next_less [OF assms(2)] by simp
  ultimately show ?thesis
    using b(2,6) assms(4,5) by (auto simp: tdb_txn_visible_def mvcc_visible_iff xid_visible_iff tm.snapshot_at_def)
qed

text \<open>A manager on a small pager, with a writer that has begun and a reader that began after it.\<close>

definition demo_mgr :: tdb_txnmgr where
  "demo_mgr = txnmgr_on demo_pager (Some tdb_lockmgr_new)"

definition demo_writer :: tdb_txn where
  "demo_writer = the (fst (snd (tdb_txn_begin all_ok None demo_mgr TDB_ISO_SNAPSHOT True)))"

definition demo_mgr1 :: tdb_txnmgr where
  "demo_mgr1 = snd (snd (tdb_txn_begin all_ok None demo_mgr TDB_ISO_SNAPSHOT True))"

definition demo_reader :: tdb_txn where
  "demo_reader = the (fst (snd (tdb_txn_begin all_ok None demo_mgr1 TDB_ISO_SNAPSHOT False)))"

definition demo_mgr2 :: tdb_txnmgr where
  "demo_mgr2 = snd (snd (tdb_txn_begin all_ok None demo_mgr1 TDB_ISO_SNAPSHOT False))"

lemma demo_mgr_facts:
  "tdb_txn_begin all_ok None demo_mgr TDB_ISO_SNAPSHOT True = (TDB_OK, Some demo_writer, demo_mgr1)"
  "tdb_txn_begin all_ok None demo_mgr1 TDB_ISO_SNAPSHOT False = (TDB_OK, Some demo_reader, demo_mgr2)"
  "m_next demo_mgr = 1" "m_next demo_mgr1 = 2" "m_next demo_mgr2 = 3" "m_active demo_mgr1 = [1]" "m_active demo_mgr2 = [1, 2]"
  "t_id demo_writer = 1" "t_writable demo_writer" "m_locks demo_mgr1 = Some tdb_lockmgr_new"
  "m_pager demo_mgr1 = demo_pager\<lparr>in_txn := True\<rparr>" "t_snap demo_reader = \<lparr>self = 2, snap_xmax = 3, snap_active = [1, 2]\<rparr>"
  by (simp_all add: demo_mgr_def txnmgr_on_def Let_def demo_writer_def demo_mgr1_def demo_reader_def demo_mgr2_def
    tdb_txn_begin_def take_snapshot_def active_add_def tdb_pager_begin_def demo_pager_facts(4,11) new_hdr_def)

lemma demo_mgr_reach: "mgr_reach None demo_mgr" "mgr_reach None demo_mgr1" "mgr_reach None demo_mgr2"
proof -
  show r: "mgr_reach None demo_mgr"
    unfolding mgr_reach_def demo_mgr_def
    by (rule exI [of _ all_ok], rule exI [of _ demo_pager], rule exI [of _ "Some tdb_lockmgr_new"])
      (simp add: demo_pager_facts(11) new_hdr_def tdb_txnmgr_open_def)
  show r1: "mgr_reach None demo_mgr1"
    by (rule mgr_reach_step [OF r]) (rule txn_step.begins [OF demo_mgr_facts(1)], simp add: demo_mgr_facts)
  show "mgr_reach None demo_mgr2"
    by (rule mgr_reach_step [OF r1]) (rule txn_step.begins [OF demo_mgr_facts(2)], simp add: demo_mgr_facts)
qed

lemma demo_mgr_base: "m_base demo_mgr1 = 0" "m_base demo_mgr2 = 0" "m_pager demo_mgr2 = m_pager demo_mgr1"
  by (simp_all add: demo_mgr_def txnmgr_on_def Let_def demo_mgr1_def demo_mgr2_def
    tdb_txn_begin_def take_snapshot_def active_add_def tdb_pager_begin_def demo_pager_facts(4,11) new_hdr_def)

lemma demo_commit:
  "fst (tdb_txn_commit all_ok None demo_mgr1 demo_writer) = TDB_OK" "fst (tdb_txn_commit all_ok None demo_mgr2 demo_writer) = TDB_OK"
proof -
  let ?p = "tdb_pager_set_max_txnid (demo_pager\<lparr>in_txn := True\<rparr>) 1"
  note f = demo_pager_facts
  have "pager_reach None (demo_pager\<lparr>in_txn := True\<rparr>)"
    by (rule pager_reach.begun [OF f(1)]) (simp add: tdb_pager_begin_def f(4))
  then have inv: "pager_inv None ?p" by (rule pager_reach_inv [OF pager_reach.step [OF _ pager_step.txnid] codec_none])
  then obtain fs where fs: "store_rep None ?p fs" by (auto simp: pager_inv_def)
  have ro: "\<not> preadonly ?p" and few: "length (dirty_pages ?p) < TDB_CACHE_SOFT_MAX + 64"
    using f(4,10) by (simp_all add: tdb_pager_set_max_txnid_def dirty_pages_def cache_pages_def TDB_CACHE_SOFT_MAX_def)
  obtain rc p' where c: "tdb_pager_commit all_ok None ?p = (rc, p')" by force
  have "rc = TDB_OK" by (rule commit_effect [OF inv fs ro few c])
  with c show "fst (tdb_txn_commit all_ok None demo_mgr1 demo_writer) = TDB_OK" "fst (tdb_txn_commit all_ok None demo_mgr2 demo_writer) = TDB_OK"
    by (simp_all add: tdb_txn_commit_def demo_mgr_facts demo_mgr_base(3) Let_def)
qed

section \<open>Properties\<close>

text \<open>
  C23: Over every sequence of operations the manager's list of active transactions is exactly the
  ids in state active, without duplicates, and an id not handed out yet is in no snapshot's past:
  it is not committed.
\<close>

theorem txn_manager_exact:
  assumes "mgr_reach z m"
  shows "distinct (m_active m) \<and> (x \<in> set (m_active m) \<longleftrightarrow> tdb_txnmgr_state m x = TDB_XACT_ACTIVE) \<and>
    (m_next m \<le> x \<longrightarrow> tdb_txnmgr_state m x = TDB_XACT_ABORTED) \<and> m_base m < m_next m"
  using mgr_reach_inv [OF assms] state_active [of m x] state_unused [of m x] by (simp add: mgr_inv_def)

theorem txn_manager_exact_witness:
  "m_active demo_mgr2 = [1, 2] \<and> tdb_txnmgr_state demo_mgr2 1 = TDB_XACT_ACTIVE \<and> tdb_txnmgr_state demo_mgr2 3 = TDB_XACT_ABORTED"
  using txn_manager_exact [OF demo_mgr_reach(3), of 1] txn_manager_exact [OF demo_mgr_reach(3), of 3]
  by (simp add: demo_mgr_facts)

text \<open>
  C5: Repeatable reads: what a transaction of level SNAPSHOT or SERIALIZABLE sees never changes.
  Whatever other transactions (or it itself) begin, commit or roll back after it began, and
  whatever savepoints it sets, releases or rolls back to, every row version is visible to it
  exactly if it was when it began. A READ COMMITTED transaction may re-take its snapshot and is
  excluded.
\<close>

theorem txn_snapshot_stable:
  assumes "mgr_reach z m" "m_next m + 1 \<noteq> 0" "tdb_txn_begin ok z m isol w = (TDB_OK, Some t, m1)" "isol \<noteq> TDB_ISO_READ_COMMITTED"
    and "(session_step z)\<^sup>*\<^sup>* (m1, t) (m2, t')"
  shows "tdb_txn_visible m2 t' xmin xmax = tdb_txn_visible m1 t xmin xmax"
proof -
  note b = begun [OF mgr_reach_inv [OF assms(1)] assms(2,3)]
  have "mgr_later m1 m2 \<and> t_snap t' = t_snap t" using session_steps_later [OF assms(5) b(3)] b(7) assms(4) by simp
  then show ?thesis
    unfolding tdb_txn_visible_def by (simp add: b(2) tm.mvcc_visible_stable)
qed

theorem txn_snapshot_stable_witness:
  "case tdb_txn_commit all_ok None demo_mgr2 demo_writer of (rc, m) \<Rightarrow>
     tdb_txn_visible demo_mgr2 demo_reader 1 0 = False \<and> tdb_txn_visible m demo_reader 1 0 = False"
proof -
  obtain rc m where c: "tdb_txn_commit all_ok None demo_mgr2 demo_writer = (rc, m)" by force
  have "session_step None (demo_mgr2, demo_reader) (m, demo_reader)"
    by (rule session_step.manager, rule txn_step.commits [OF _ c]) (simp add: demo_mgr_facts)
  from txn_snapshot_stable [OF demo_mgr_reach(2) _ demo_mgr_facts(2) _ r_into_rtranclp [of "session_step None", OF this], of 1 0] show ?thesis
    by (simp add: c demo_mgr_facts tdb_txn_visible_def mvcc_visible_iff xid_visible_iff)
qed

text \<open>
  C19: Read committed: a transaction that has just re-taken its snapshot sees a row version exactly
  if it made it itself or its maker has committed by now, unless it or a transaction that has
  committed by now deleted it. The bookkeeping of active ids in the snapshot thus hides nothing that has
  committed.
\<close>

theorem txn_refresh_sees_committed:
  assumes "mgr_reach z m"
  shows "tdb_txn_visible m (tdb_txn_refresh_snapshot m t) xmin xmax \<longleftrightarrow>
    (xmin = t_id t \<or> tdb_txnmgr_state m xmin = TDB_XACT_COMMITTED) \<and>
    \<not> (xmax \<noteq> 0 \<and> (xmax = t_id t \<or> tdb_txnmgr_state m xmax = TDB_XACT_COMMITTED))"
proof -
  note inv = mgr_reach_inv [OF assms]
  have "x < m_next m \<and> x \<notin> set (m_active m)" if "tdb_txnmgr_state m x = TDB_XACT_COMMITTED" for x
    using that state_unused [OF inv, of x] state_active [OF inv, of x] by (cases "x < m_next m") auto
  then show ?thesis
    by (auto simp: tdb_txn_visible_def tdb_txn_refresh_snapshot_def take_snapshot_def mvcc_visible_iff xid_visible_iff)
qed

theorem txn_refresh_sees_committed_witness:
  "case tdb_txn_commit all_ok None demo_mgr2 demo_writer of (rc, m) \<Rightarrow>
     tdb_txn_visible m demo_reader 1 0 = False \<and> tdb_txn_visible m (tdb_txn_refresh_snapshot m demo_reader) 1 0"
proof -
  obtain rc m where c: "tdb_txn_commit all_ok None demo_mgr2 demo_writer = (rc, m)" by force
  have rc: "rc = TDB_OK" using demo_commit(2) c by simp
  have reach: "mgr_reach None m" by (rule mgr_reach_step [OF demo_mgr_reach(3)], rule txn_step.commits [OF _ c]) (simp add: demo_mgr_facts)
  have "tdb_txnmgr_state m 1 = TDB_XACT_COMMITTED"
    using finish_eqs(1) [OF c] rc demo_mgr_base
    by (auto simp: release_locks_def tdb_txnmgr_state_def rec_state_set demo_mgr_facts)
  then show ?thesis
    using txn_refresh_sees_committed [OF reach, of demo_reader 1 0]
    by (simp add: c demo_mgr_facts tdb_txn_visible_def mvcc_visible_iff xid_visible_iff)
qed

text \<open>
  C9: The outcome of a commit: the transaction ends as committed if the pager's commit succeeded
  and as aborted otherwise, it is no longer active, its locks and only its locks are gone, and
  however many steps later a transaction begins, that one sees the rows it inserted exactly if
  the commit succeeded.
\<close>

theorem txn_commit_outcome:
  assumes "mgr_reach z m" "t_id t \<in> set (m_active m)" "m_locks m = Some l" "lock_wf l"
    and "tdb_txn_commit ok z m t = (rc, m1)" "txn_steps z m1 m2"
    and "m_next m2 + 1 \<noteq> 0" "tdb_txn_begin ok' z m2 isol w = (rc', Some u, m3)"
  shows "tdb_txnmgr_state m1 (t_id t) = (if rc = TDB_OK then TDB_XACT_COMMITTED else TDB_XACT_ABORTED) \<and>
    t_id t \<notin> set (m_active m1) \<and>
    (\<exists>l1. m_locks m1 = Some l1 \<and> held l1 k = filter (\<lambda>h. h_txn h \<noteq> t_id t) (held l k)) \<and>
    (tdb_txn_visible m3 u (t_id t) 0 \<longleftrightarrow> rc = TDB_OK)"
proof -
  let ?st = "if rc \<noteq> TDB_OK then TDB_XACT_ABORTED else TDB_XACT_COMMITTED"
  note inv = mgr_reach_inv [OF assms(1)]
  from finish_eqs(1) [OF assms(5)] obtain p where m1: "m1 = release_locks (m\<lparr>m_pager := p,
     m_recs := set_state (m_recs m) (t_id t) ?st, m_active := active_remove (m_active m) (t_id t)\<rparr>) (t_id t)" by auto
  note f = later_finish [OF inv assms(2) _ m1]
  have st: "tdb_txnmgr_state m1 (t_id t) = ?st" "t_id t \<notin> set (m_active m1)" "mgr_inv m1" "m_next m1 = m_next m"
    using f by (auto simp: mgr_later_def)
  note l2 = txn_steps_later [OF assms(6) st(3)]
  have "t_id t < m_next m" using inv assms(2) by (force simp: mgr_inv_def)
  then have x: "t_id t < m_next m1" using st(4) by simp
  have m2: "mgr_inv m2" "t_id t < m_next m2" "t_id t \<notin> set (m_active m2)" "tdb_txnmgr_state m2 (t_id t) = ?st"
    using l2 x st(1,2) by (auto simp: mgr_later_def)
  have "m_locks m1 = Some (tdb_lock_release_all l (t_id t))" using assms(3) by (simp add: m1 release_locks_def)
  moreover have "held (tdb_lock_release_all l (t_id t)) k = filter (\<lambda>h. h_txn h \<noteq> t_id t) (held l k)"
    by (rule release_refines(2) [OF assms(4)])
  ultimately show ?thesis
    using st(1,2) visible_after [OF m2(1) assms(7,8) m2(2,3)] m2(4) by simp
qed

theorem txn_commit_outcome_witness:
  "case tdb_txn_commit all_ok None demo_mgr1 demo_writer of (rc, m) \<Rightarrow>
     (case tdb_txn_begin all_ok None m TDB_ISO_SNAPSHOT False of (rc', u, m') \<Rightarrow>
        rc = TDB_OK \<and> tdb_txnmgr_state m 1 = TDB_XACT_COMMITTED \<and> tdb_txn_visible m' (the u) 1 0)"
proof -
  obtain rc m where c: "tdb_txn_commit all_ok None demo_mgr1 demo_writer = (rc, m)" by force
  then have rc: "rc = TDB_OK" using demo_commit(1) by simp
  have m: "m_next m = 2" using finish_eqs(1) [OF c] by (auto simp: release_locks_def demo_mgr_facts)
  obtain u m' where b: "tdb_txn_begin all_ok None m TDB_ISO_SNAPSHOT False = (TDB_OK, Some u, m')"
    by (simp add: tdb_txn_begin_def Let_def)
  have act: "t_id demo_writer \<in> set (m_active demo_mgr1)" by (simp add: demo_mgr_facts)
  from txn_commit_outcome [OF demo_mgr_reach(2) act demo_mgr_facts(10) held_new(2) c rtranclp.rtrancl_refl _ b] m
  show ?thesis by (simp add: c b rc demo_mgr_facts)
qed

text \<open>
  C24: Time travel is reproducible: once every transaction up to an as-of id has finished, reading
  as of it gives the same answer for every row version at every later time, even for versions
  that are deleted later.
\<close>

theorem txn_asof_stable:
  assumes "mgr_reach z m" "asof < m_next m" "\<forall>x\<in>set (m_active m). asof < x" "txn_steps z m m'"
  shows "tdb_txn_visible_asof m' xmin xmax asof \<longleftrightarrow> tdb_txn_visible_asof m xmin xmax asof"
proof -
  have "tdb_txnmgr_state m' x = tdb_txnmgr_state m x" if "x \<le> asof" for x
  proof -
    have "x < m_next m" "x \<notin> set (m_active m)" using that assms(2,3) by auto
    then show ?thesis using txn_steps_later [OF assms(4) mgr_reach_inv [OF assms(1)]] by (simp add: mgr_later_def)
  qed
  then show ?thesis by (auto simp: tdb_txn_visible_asof_def)
qed

theorem txn_asof_stable_witness:
  "case tdb_txn_commit all_ok None demo_mgr1 demo_writer of (rc, m) \<Rightarrow>
     (case tdb_txn_begin all_ok None m TDB_ISO_SNAPSHOT False of (rc', u, m1) \<Rightarrow>
        (case tdb_txn_commit all_ok None m1 (the u) of (rc'', m2) \<Rightarrow>
           tdb_txnmgr_state m 1 = TDB_XACT_COMMITTED \<and> tdb_txnmgr_state m2 2 = TDB_XACT_COMMITTED \<and>
           tdb_txn_visible_asof m 1 2 1 \<and> tdb_txn_visible_asof m2 1 2 1))"
proof -
  obtain rc m where c: "tdb_txn_commit all_ok None demo_mgr1 demo_writer = (rc, m)" by force
  then have rc: "rc = TDB_OK" using demo_commit(1) by simp
  have m: "m_next m = 2" "m_active m = []" "m_base m = 0" "tdb_txnmgr_state m 1 = TDB_XACT_COMMITTED"
    using finish_eqs(1) [OF c] rc
    by (auto simp: release_locks_def demo_mgr_facts demo_mgr_base active_remove_def tdb_txnmgr_state_def rec_state_set)
  have reach: "mgr_reach None m" by (rule mgr_reach_step [OF demo_mgr_reach(2)], rule txn_step.commits [OF _ c]) (simp add: demo_mgr_facts)
  have unused: "tdb_txnmgr_state m 2 = TDB_XACT_ABORTED" by (rule state_unused [OF mgr_reach_inv [OF reach]]) (simp add: m)
  obtain u m1 where b: "tdb_txn_begin all_ok None m TDB_ISO_SNAPSHOT False = (TDB_OK, Some u, m1)"
    "t_id u = 2" "m_active m1 = [2]" "\<not> t_writable u" "m_base m1 = 0"
    using m by (simp add: tdb_txn_begin_def Let_def active_add_def take_snapshot_def)
  obtain rc2 m2 where d: "tdb_txn_commit all_ok None m1 u = (rc2, m2)" by force
  have "txn_step None m m1" by (rule txn_step.begins [OF b(1)]) (simp add: m)
  moreover have "txn_step None m1 m2" by (rule txn_step.commits [OF _ d]) (simp add: b)
  ultimately have "txn_steps None m m2" by simp
  from txn_asof_stable [OF reach _ _ this, of 1 1 2] have "tdb_txn_visible_asof m2 1 2 1 \<longleftrightarrow> tdb_txn_visible_asof m 1 2 1" by (simp add: m)
  moreover have "tdb_txnmgr_state m2 2 = TDB_XACT_COMMITTED"
    using finish_eqs(1) [OF d] d b(2,4,5)
    by (auto simp: tdb_txn_commit_def Let_def release_locks_def tdb_txnmgr_state_def rec_state_set)
  ultimately show ?thesis using unused m by (simp add: c b d tdb_txn_visible_asof_def)
qed

text \<open>
  C35: Rows committed before a crash can be lost to readers: if the log's newer page 1 carries a
  higher transaction counter than the database file, the manager opened after the crash starts
  from the file's counter. A transaction whose commit was durable then counts as aborted, no new
  transaction sees its rows, and the first new one is given an id that was already used.
\<close>

theorem recovered_rows_invisible:
  assumes "codec_ok z" "h_page_size h0 = 512" "h_page_size h1 = 512" "h_db_size h1 \<noteq> 0"
    and "mem_clean db" "fcontent db = hdr_serialize h0 @ replicate 412 0"
    and "w = wal_run z 512 [(1, hdr_serialize h1 @ replicate 412 0, True, h_db_size h1)]"
    and "mem_ok h" "fcontent h = take (end_off w) (fcontent (wfile w))"
    and "h_max_txnid h0 + 1 < x" "x \<le> h_max_txnid h1" "h_max_txnid h0 + 1 \<noteq> 0"
  shows "\<exists>p m0. tdb_pager_open all_ok z False db h = Inr p \<and>
    h_max_txnid (hdr_parse (snd (read_page_image all_ok z p 1))) = h_max_txnid h1 \<and>
    tdb_txnmgr_open all_ok p lm = (TDB_OK, Some m0) \<and> tdb_txnmgr_state m0 x = TDB_XACT_ABORTED \<and>
    (case tdb_txn_begin all_ok z m0 isol wr of
       (rc, Some t, m) \<Rightarrow> rc = TDB_OK \<and> t_id t < x \<and> \<not> tdb_txn_visible m t x 0
     | (rc, None, m) \<Rightarrow> False)"
proof -
  from open_stale [OF assms(1-9), of False] obtain p where p: "tdb_pager_open all_ok z False db h = Inr p"
    "hdr_parse (snd (read_page_image all_ok z p 1)) = h1" "phdr p = h0\<lparr>h_db_size := h_db_size h1\<rparr>" "\<not> preadonly p" by auto
  define m where "m = txnmgr_on p lm"
  have m: "mgr_inv m" "m_next m = h_max_txnid h0 + 1" "m_active m = []" "m_pager m = p"
    using open_inv [of p lm] p(3) assms(12) by (simp_all add: m_def txnmgr_on_def Let_def)
  have st: "tdb_txnmgr_state m y = TDB_XACT_ABORTED" if "h_max_txnid h0 + 1 \<le> y" for y
    by (rule state_unused [OF m(1)]) (use m(2) that in simp)
  define m' where "m' = m\<lparr>m_next := m_next m + 1, m_recs := set_state (m_recs m) (m_next m) TDB_XACT_ACTIVE,
    m_active := active_add (m_active m) (m_next m)\<rparr>"
  have s': "tdb_txnmgr_state m' x = TDB_XACT_ABORTED"
    using st [OF less_imp_le [OF assms(10)]] assms(10) m(2)
    by (auto simp: m'_def tdb_txnmgr_state_def rec_state_set split: if_splits)
  obtain rc t m2 where b: "tdb_txn_begin all_ok z m isol wr = (rc, t, m2)" by (metis prod.exhaust)
  have some: "t \<noteq> None" using b p(4) m(4) by (auto simp: tdb_txn_begin_def Let_def tdb_pager_begin_def split: if_splits)
  from b have "rc = TDB_OK \<and> (\<exists>u q. t = Some u \<and> t_id u = m_next m \<and> self (t_snap u) = m_next m \<and> m2 = m'\<lparr>m_pager := q\<rparr>)"
    by (cases rule: begin_cases) (use some in \<open>auto simp: m'_def\<close>)
  then obtain u q where u: "rc = TDB_OK" "t = Some u" "t_id u = m_next m" "self (t_snap u) = m_next m" "m2 = m'\<lparr>m_pager := q\<rparr>" by blast
  have "\<not> tdb_txn_visible m2 u x 0"
    using u(4) assms(10) m(2) s' unfolding u(5) by (auto simp: tdb_txn_visible_def mvcc_visible_iff xid_visible_iff)
  with p(1,2) u st [of x] assms(10) b m(2) show ?thesis unfolding m_def by (auto simp: tdb_txnmgr_open_def)
qed

theorem recovered_rows_invisible_witness:
  "let h0 = new_hdr 512; h1 = (new_hdr 512)\<lparr>h_db_size := 3, h_max_txnid := 9\<rparr>;
       d = hdr_serialize h0 @ replicate 412 0;
       w = wal_run None 512 [(1, hdr_serialize h1 @ replicate 412 0, True, h_db_size h1)];
       c = take (end_off w) (fcontent (wfile w))
   in case tdb_pager_open all_ok None False \<lparr>mdata = d, msize = length d\<rparr> \<lparr>mdata = c, msize = length c\<rparr> of
        Inr p \<Rightarrow> map_option (\<lambda>m. tdb_txnmgr_state m 9) (snd (tdb_txnmgr_open all_ok p None)) = Some TDB_XACT_ABORTED
      | Inl _ \<Rightarrow> False"
proof -
  define h0 h1 where "h0 = new_hdr 512" and "h1 = (new_hdr 512)\<lparr>h_db_size := 3, h_max_txnid := 9\<rparr>"
  define d where "d = hdr_serialize h0 @ replicate 412 0"
  define w where "w = wal_run None 512 [(1, hdr_serialize h1 @ replicate 412 0, True, h_db_size h1)]"
  define c where "c = take (end_off w) (fcontent (wfile w))"
  let ?db = "\<lparr>mdata = d, msize = length d\<rparr>" let ?wf = "\<lparr>mdata = c, msize = length c\<rparr>"
  have f: "mem_clean ?db" "fcontent ?db = d" "mem_ok ?wf" "fcontent ?wf = c"
    by (simp_all add: mem_clean_def mem_ok_def fcontent_def)
  have hs: "h_page_size h0 = 512" "h_page_size h1 = 512" "h_db_size h1 \<noteq> 0" "h_max_txnid h0 + 1 < 9" "9 \<le> h_max_txnid h1"
    "h_max_txnid h0 + 1 \<noteq> 0" by (simp_all add: h0_def h1_def new_hdr_def)
  have "case tdb_pager_open all_ok None False ?db ?wf of
      Inr p \<Rightarrow> map_option (\<lambda>m. tdb_txnmgr_state m 9) (snd (tdb_txnmgr_open all_ok p None)) = Some TDB_XACT_ABORTED | Inl _ \<Rightarrow> False"
    using recovered_rows_invisible [OF codec_none hs(1-3) f(1) _ w_def f(3) _ hs(4-6), of None TDB_ISO_SNAPSHOT True] f(2,4) d_def c_def by auto
  then show ?thesis unfolding Let_def d_def c_def w_def h0_def h1_def .
qed

end
