(* ===== verification/Tdb_Value.thy ===== *)
theory Tdb_Value
  imports Tdb_Util
begin

text \<open>
  \<^verbatim>\<open>src/value/tdb_value.h\<close> and \<^verbatim>\<open>src/value/tdb_type.c\<close>: the dynamically typed SQL value
  and its three-way comparison. An \<^verbatim>\<open>int64_t\<close> is a 64-bit word read with \<open>sint\<close>; a
  \<^verbatim>\<open>double\<close> is the 64-bit pattern of an IEEE-754 binary64 number, with the comparison and
  the conversion from \<^verbatim>\<open>int64_t\<close> (round to nearest, ties to even) written out on the
  pattern. The ownership flag of text and blob bytes is memory management and not modelled.
\<close>

section \<open>IEEE-754 doubles\<close>

definition dbl_nan :: "u64 \<Rightarrow> bool" where
  "dbl_nan d \<longleftrightarrow> 0x7FF0000000000000 < d AND 0x7FFFFFFFFFFFFFFF"

text \<open>
  Sign-magnitude patterns in the order of the numbers they stand for; both zeros map to 0.
\<close>

definition dbl_key :: "u64 \<Rightarrow> int" where
  "dbl_key d = (let m = uint (d AND 0x7FFFFFFFFFFFFFFF) in if bit d 63 then - m else m)"

definition dbl_less :: "u64 \<Rightarrow> u64 \<Rightarrow> bool" where
  "dbl_less a b \<longleftrightarrow> \<not> dbl_nan a \<and> \<not> dbl_nan b \<and> dbl_key a < dbl_key b"

text \<open>
  The magnitude of \<open>(double)i\<close> for \<open>a = \<bar>i\<bar> > 0\<close>: exponent \<open>e\<close> of the leading bit, the
  top 53 bits \<open>q\<close>, rounded to nearest with ties to even. A carry out of the mantissa moves
  into the exponent field by itself.
\<close>

fun ilog2 :: "nat \<Rightarrow> nat" where
  "ilog2 a = (if a < 2 then 0 else Suc (ilog2 (a div 2)))"

declare ilog2.simps [simp del]

definition round_half_even :: "nat \<Rightarrow> nat \<Rightarrow> nat" where
  "round_half_even a s =
     (let q = a div 2 ^ s; r = a mod 2 ^ s in
      if 2 * r > 2 ^ s \<or> (2 * r = 2 ^ s \<and> odd q) then Suc q else q)"

definition dbl_mag_of_nat :: "nat \<Rightarrow> nat" where
  "dbl_mag_of_nat a =
     (if a = 0 then 0
      else
        (let e = ilog2 a in
         (e + 1022) * 2 ^ 52 +
         (if e \<le> 52 then a * 2 ^ (52 - e) else round_half_even a (e - 52))))"

definition dbl_of_int :: "int \<Rightarrow> u64" where
  "dbl_of_int i =
     (if i < 0 then 0x8000000000000000 OR word_of_nat (dbl_mag_of_nat (nat (- i)))
      else word_of_nat (dbl_mag_of_nat (nat i)))"

section \<open>Values\<close>

datatype tdb_value =
  TDB_VAL_NULL
| TDB_VAL_INT u64
| TDB_VAL_REAL u64
| TDB_VAL_TEXT bytes
| TDB_VAL_BLOB bytes
| TDB_VAL_COMPOSITE bytes

datatype tdb_collation = TDB_COLL_BINARY | TDB_COLL_NOCASE

fun val_type_class :: "tdb_value \<Rightarrow> nat" where
  "val_type_class TDB_VAL_NULL = 0"
| "val_type_class (TDB_VAL_INT _) = 1"
| "val_type_class (TDB_VAL_REAL _) = 1"
| "val_type_class (TDB_VAL_TEXT _) = 2"
| "val_type_class (TDB_VAL_BLOB _) = 3"
| "val_type_class (TDB_VAL_COMPOSITE _) = 4"

text \<open>\<open>tdb_value_as_real\<close> on the two numeric types, the only ones \<open>tdb_value_compare\<close> reads.\<close>

fun num_as_real :: "tdb_value \<Rightarrow> u64" where
  "num_as_real (TDB_VAL_INT i) = dbl_of_int (sint i)"
| "num_as_real (TDB_VAL_REAL r) = r"
| "num_as_real _ = 0"

text \<open>\<^verbatim>\<open>strncasecmp\<close> over two byte arrays of equal length: stops at a NUL in both.\<close>

fun c_strncasecmp :: "bytes \<Rightarrow> bytes \<Rightarrow> int" where
  "c_strncasecmp (a # as) (b # bs) =
     (let x = c_tolower (unat a); y = c_tolower (unat b) in
      if x < y then -1 else if y < x then 1 else if x = 0 then 0 else c_strncasecmp as bs)"
| "c_strncasecmp _ _ = 0"

definition cmp_text :: "bytes \<Rightarrow> bytes \<Rightarrow> tdb_collation \<Rightarrow> int" where
  "cmp_text a b coll =
     (let n = min (length a) (length b);
          c = (if coll = TDB_COLL_NOCASE then c_strncasecmp (take n a) (take n b)
               else c_memcmp (take n a) (take n b))
      in if c \<noteq> 0 then (if c < 0 then -1 else 1)
         else if length a = length b then 0
         else if length a < length b then -1 else 1)"

definition cmp_blob :: "bytes \<Rightarrow> bytes \<Rightarrow> int" where
  "cmp_blob a b =
     (let n = min (length a) (length b); c = c_memcmp (take n a) (take n b)
      in if c \<noteq> 0 then (if c < 0 then -1 else 1)
         else if length a = length b then 0
         else if length a < length b then -1 else 1)"

definition cmp_real :: "u64 \<Rightarrow> u64 \<Rightarrow> int" where
  "cmp_real da db = (if dbl_less da db then -1 else if dbl_less db da then 1 else 0)"

fun tdb_value_compare :: "tdb_value \<Rightarrow> tdb_value \<Rightarrow> tdb_collation \<Rightarrow> int" where
  "tdb_value_compare a b coll =
     (if val_type_class a \<noteq> val_type_class b then (if val_type_class a < val_type_class b then -1 else 1)
      else
        (case (a, b) of
           (TDB_VAL_INT i, TDB_VAL_INT j) \<Rightarrow>
             (if sint i < sint j then -1 else if sint i > sint j then 1 else 0)
         | (TDB_VAL_INT _, _) \<Rightarrow> cmp_real (num_as_real a) (num_as_real b)
         | (TDB_VAL_REAL _, _) \<Rightarrow> cmp_real (num_as_real a) (num_as_real b)
         | (TDB_VAL_TEXT s, TDB_VAL_TEXT t) \<Rightarrow> cmp_text s t coll
         | (TDB_VAL_BLOB s, TDB_VAL_BLOB t) \<Rightarrow> cmp_blob s t
         | (TDB_VAL_COMPOSITE s, TDB_VAL_COMPOSITE t) \<Rightarrow> cmp_blob s t
         | _ \<Rightarrow> 0))"

declare tdb_value_compare.simps [simp del]

section \<open>The conversion to double is monotone\<close>

lemma ilog2_bounds: "0 < a \<Longrightarrow> 2 ^ ilog2 a \<le> a \<and> a < 2 ^ Suc (ilog2 a)"
proof (induction a rule: ilog2.induct)
  case (1 a)
  show ?case
  proof (cases "a < 2")
    case True
    with 1 show ?thesis by (simp add: ilog2.simps [of a])
  next
    case False
    then have "2 ^ ilog2 (a div 2) \<le> a div 2 \<and> a div 2 < 2 ^ Suc (ilog2 (a div 2))"
      using 1 by simp
    with False show ?thesis by (auto simp: ilog2.simps [of a])
  qed
qed

lemma ilog2_mono: "0 < a \<Longrightarrow> a \<le> b \<Longrightarrow> ilog2 a \<le> ilog2 b"
proof (rule ccontr)
  assume "0 < a" "a \<le> b" and "\<not> ilog2 a \<le> ilog2 b"
  then have "(2::nat) ^ Suc (ilog2 b) \<le> 2 ^ ilog2 a"
    by (intro power_increasing) simp_all
  with ilog2_bounds [of a] ilog2_bounds [of b] \<open>0 < a\<close> \<open>a \<le> b\<close> show False by simp
qed

lemma round_half_even_mono: "a \<le> b \<Longrightarrow> round_half_even a s \<le> round_half_even b s"
proof -
  assume "a \<le> b"
  then have q: "a div 2 ^ s \<le> b div 2 ^ s" by (rule div_le_mono)
  show ?thesis
  proof (cases "a div 2 ^ s = b div 2 ^ s")
    case True
    with \<open>a \<le> b\<close> have "a mod 2 ^ s \<le> b mod 2 ^ s"
      by (metis add_le_cancel_left div_mult_mod_eq)
    with True show ?thesis by (auto simp: round_half_even_def Let_def)
  next
    case False
    with q have "Suc (a div 2 ^ s) \<le> b div 2 ^ s" by simp
    then show ?thesis by (auto simp: round_half_even_def Let_def)
  qed
qed

lemma round_half_even_bounds:
  assumes "2 ^ (52 + s) \<le> a" "a < 2 ^ (53 + s)"
  shows "2 ^ 52 \<le> round_half_even a s" "round_half_even a s \<le> 2 ^ 53"
proof -
  have "2 ^ 52 \<le> a div 2 ^ s"
    using assms(1) by (simp add: power_add less_eq_div_iff_mult_less_eq)
  then show "2 ^ 52 \<le> round_half_even a s" by (auto simp: round_half_even_def Let_def)
  have "a div 2 ^ s < 2 ^ 53"
    using assms(2) by (intro less_mult_imp_div_less) (simp add: power_add)
  then show "round_half_even a s \<le> 2 ^ 53" by (auto simp: round_half_even_def Let_def)
qed

lemma dbl_mag_bounds:
  assumes "0 < a"
  shows "(ilog2 a + 1023) * 2 ^ 52 \<le> dbl_mag_of_nat a"
    and "dbl_mag_of_nat a \<le> (ilog2 a + 1024) * 2 ^ 52"
proof -
  let ?e = "ilog2 a"
  let ?m = "if ?e \<le> 52 then a * 2 ^ (52 - ?e) else round_half_even a (?e - 52)"
  note b = ilog2_bounds [OF assms]
  have "2 ^ 52 \<le> ?m \<and> ?m \<le> 2 ^ 53"
  proof (cases "?e \<le> 52")
    case True
    have "(2::nat) ^ 52 = 2 ^ ?e * 2 ^ (52 - ?e)" using True by (simp flip: power_add)
    also have "\<dots> \<le> a * 2 ^ (52 - ?e)" using b by simp
    finally have lo: "2 ^ 52 \<le> a * 2 ^ (52 - ?e)" .
    have "a * 2 ^ (52 - ?e) \<le> 2 ^ Suc ?e * 2 ^ (52 - ?e)"
      using b by (intro mult_le_mono1) simp
    also have "(2::nat) ^ Suc ?e * 2 ^ (52 - ?e) = 2 ^ 53"
      using True by (simp only: power_add [symmetric]) simp
    finally have hi: "a * 2 ^ (52 - ?e) \<le> 2 ^ 53" .
    show ?thesis using True lo hi by simp
  next
    case False
    then have e: "52 + (?e - 52) = ?e" "53 + (?e - 52) = Suc ?e" by simp_all
    show ?thesis
      using False b round_half_even_bounds [of "?e - 52" a] unfolding e by simp
  qed
  then show "(?e + 1023) * 2 ^ 52 \<le> dbl_mag_of_nat a"
    and "dbl_mag_of_nat a \<le> (?e + 1024) * 2 ^ 52"
    using assms by (simp_all add: dbl_mag_of_nat_def Let_def)
qed

lemma dbl_mag_mono: "a \<le> b \<Longrightarrow> dbl_mag_of_nat a \<le> dbl_mag_of_nat b"
proof (cases "a = 0")
  case True
  then show ?thesis by (simp add: dbl_mag_of_nat_def)
next
  case False
  assume ab: "a \<le> b"
  with False have pos: "0 < a" "0 < b" by auto
  show ?thesis
  proof (cases "ilog2 a = ilog2 b")
    case True
    with pos ab show ?thesis
      by (simp add: dbl_mag_of_nat_def Let_def round_half_even_mono)
  next
    case False
    with ilog2_mono [OF pos(1) ab] have "ilog2 a + 1024 \<le> ilog2 b + 1023" by simp
    then have "(ilog2 a + 1024) * 2 ^ 52 \<le> (ilog2 b + 1023) * 2 ^ 52"
      by (rule mult_le_mono1)
    with dbl_mag_bounds [OF pos(1)] dbl_mag_bounds [OF pos(2)] show ?thesis
      by linarith
  qed
qed

lemma dbl_mag_int64: "a \<le> 2 ^ 63 \<Longrightarrow> dbl_mag_of_nat a \<le> 1087 * 2 ^ 52"
proof -
  assume "a \<le> 2 ^ 63"
  then have "dbl_mag_of_nat a \<le> dbl_mag_of_nat (2 ^ 63)" by (rule dbl_mag_mono)
  also have "\<dots> \<le> (ilog2 (2 ^ 63) + 1024) * 2 ^ 52" by (rule dbl_mag_bounds) simp
  also have "ilog2 (2 ^ 63) \<le> 63"
    using ilog2_bounds [of "2 ^ 63"] by (metis nat_zero_less_power_iff power_increasing_iff
        one_less_numeral_iff semiring_norm(76) zero_less_numeral)
  then have "(ilog2 (2 ^ 63) + 1024) * 2 ^ 52 \<le> 1087 * 2 ^ 52" by simp
  finally show ?thesis by simp
qed

lemma mask63: "(0x7FFFFFFFFFFFFFFF :: u64) = mask 63"
  by (simp add: mask_numeral)

lemma mask63_self:
  assumes "m < 2 ^ 63"
  shows "(word_of_nat m :: u64) AND 0x7FFFFFFFFFFFFFFF = word_of_nat m"
    and "\<not> bit (word_of_nat m :: u64) 63"
    and "uint (word_of_nat m :: u64) = int m"
proof -
  have un: "unat (word_of_nat m :: u64) = m"
    using assms by (simp add: unat_of_nat take_bit_nat_eq_self_iff)
  show "uint (word_of_nat m :: u64) = int m"
    by (metis un uint_nat)
  have "take_bit 63 (word_of_nat m :: u64) = word_of_nat m"
    using assms un by (metis take_bit_nat_eq_self_iff unsigned_take_bit_eq word_unat_eq_iff)
  then show "(word_of_nat m :: u64) AND 0x7FFFFFFFFFFFFFFF = word_of_nat m"
    by (simp add: take_bit_eq_mask mask63)
  then show "\<not> bit (word_of_nat m :: u64) 63"
    by (metis \<open>take_bit 63 (word_of_nat m) = word_of_nat m\<close> bit_take_bit_iff less_irrefl)
qed

lemma high_bit_or:
  assumes "m < 2 ^ 63"
  shows "(0x8000000000000000 OR word_of_nat m :: u64) AND 0x7FFFFFFFFFFFFFFF = word_of_nat m"
    and "bit (0x8000000000000000 OR word_of_nat m :: u64) 63"
proof -
  have hb: "(0x8000000000000000 :: u64) = 2 ^ 63" by simp
  have "(0x8000000000000000 :: u64) AND 0x7FFFFFFFFFFFFFFF = 0" by simp
  then show "(0x8000000000000000 OR word_of_nat m :: u64) AND 0x7FFFFFFFFFFFFFFF = word_of_nat m"
    using mask63_self(1) [OF assms] by (simp add: and.commute bit.conj_disj_distrib)
  show "bit (0x8000000000000000 OR word_of_nat m :: u64) 63"
    unfolding hb by (simp only: bit_or_iff bit_exp_iff) simp
qed

lemma dbl_of_int_key:
  assumes "\<bar>i\<bar> \<le> 2 ^ 63"
  shows "dbl_key (dbl_of_int i) = sgn i * int (dbl_mag_of_nat (nat \<bar>i\<bar>))"
    and "\<not> dbl_nan (dbl_of_int i)"
proof -
  have le: "dbl_mag_of_nat (nat \<bar>i\<bar>) \<le> 1087 * 2 ^ 52"
    using assms by (intro dbl_mag_int64) simp
  then have lt: "dbl_mag_of_nat (nat \<bar>i\<bar>) < 2 ^ 63" by simp
  note m = mask63_self [OF lt] high_bit_or [OF lt]
  have "unat (word_of_nat (dbl_mag_of_nat (nat \<bar>i\<bar>)) :: u64) = dbl_mag_of_nat (nat \<bar>i\<bar>)"
    using lt by (simp add: unat_of_nat take_bit_nat_eq_self_iff)
  then have nn: "\<not> (0x7FF0000000000000 :: u64) < word_of_nat (dbl_mag_of_nat (nat \<bar>i\<bar>))"
    using le by (simp add: word_less_nat_alt)
  show "dbl_key (dbl_of_int i) = sgn i * int (dbl_mag_of_nat (nat \<bar>i\<bar>))"
  proof (cases "i < 0")
    case True
    with m show ?thesis by (simp add: dbl_of_int_def dbl_key_def Let_def)
  next
    case False
    with m show ?thesis
      by (cases "i = 0") (simp_all add: dbl_of_int_def dbl_key_def Let_def dbl_mag_of_nat_def)
  qed
  show "\<not> dbl_nan (dbl_of_int i)"
    using nn m by (cases "i < 0") (simp_all add: dbl_of_int_def dbl_nan_def)
qed

lemma sint64_bound: "\<bar>sint (w :: u64)\<bar> \<le> 2 ^ 63"
  using sint_range_size [of w] by (simp add: word_size abs_le_iff)

lemma dbl_of_int_mono:
  assumes "\<bar>i\<bar> \<le> 2 ^ 63" "\<bar>j\<bar> \<le> 2 ^ 63" "i \<le> j"
  shows "dbl_key (dbl_of_int i) \<le> dbl_key (dbl_of_int j)"
proof -
  have "sgn i * int (dbl_mag_of_nat (nat \<bar>i\<bar>)) \<le> sgn j * int (dbl_mag_of_nat (nat \<bar>j\<bar>))"
  proof (cases "i < 0")
    case True
    then show ?thesis
      using \<open>i \<le> j\<close> dbl_mag_mono [of "nat \<bar>j\<bar>" "nat \<bar>i\<bar>"]
      by (cases "j < 0"; cases "j = 0") (auto simp: sgn_if)
  next
    case False
    with \<open>i \<le> j\<close> show ?thesis
      using dbl_mag_mono [of "nat i" "nat j"] by (auto simp: sgn_if)
  qed
  then show ?thesis
    by (simp only: dbl_of_int_key(1) [OF assms(1)] dbl_of_int_key(1) [OF assms(2)])
qed

section \<open>The comparison\<close>

lemma cmp_blob_memcmp: "cmp_blob a b =
    (let n = min (length a) (length b); c = c_memcmp (take n a) (take n b)
     in if c \<noteq> 0 then c else if length a = length b then 0 else if length a < length b then -1 else 1)"
  using c_memcmp_range [of "take (min (length a) (length b)) a" "take (min (length a) (length b)) b"]
  by (auto simp: cmp_blob_def Let_def)

lemma cmp_text_binary: "cmp_text a b TDB_COLL_BINARY = cmp_blob a b"
  by (simp add: cmp_text_def cmp_blob_def)

text \<open>\<open>cmp_blob\<close> is the lexicographic comparison of byte strings.\<close>

fun lex_cmp :: "bytes \<Rightarrow> bytes \<Rightarrow> int" where
  "lex_cmp [] [] = 0"
| "lex_cmp [] (_ # _) = -1"
| "lex_cmp (_ # _) [] = 1"
| "lex_cmp (a # as) (b # bs) = (if a < b then -1 else if b < a then 1 else lex_cmp as bs)"

lemma cmp_blob_lex: "cmp_blob a b = lex_cmp a b"
  by (induction a b rule: lex_cmp.induct) (auto simp: cmp_blob_memcmp Let_def)

lemma lex_cmp_range: "lex_cmp a b \<in> {-1, 0, 1}"
  by (induction a b rule: lex_cmp.induct) auto

lemma lex_cmp_sym: "lex_cmp b a = - lex_cmp a b"
  by (induction a b rule: lex_cmp.induct) auto

lemma lex_cmp_eq: "lex_cmp a b = 0 \<longleftrightarrow> a = b"
  by (induction a b rule: lex_cmp.induct) auto

lemma lex_cmp_less: "lex_cmp a b = -1 \<longleftrightarrow> ord_class.lexordp a b"
  by (induction a b rule: lex_cmp.induct) auto

lemma lex_cmp_less_trans: "lex_cmp a b = -1 \<Longrightarrow> lex_cmp b c = -1 \<Longrightarrow> lex_cmp a c = -1"
proof (induction a b arbitrary: c rule: lex_cmp.induct)
  case (2 b bs)
  then show ?case by (cases c) auto
next
  case (4 a as b bs)
  then show ?case by (cases c) (auto split: if_splits)
qed auto

text \<open>
  The case-insensitive comparison by recursion: once both strings reach a NUL byte together,
  \<^verbatim>\<open>strncasecmp\<close> stops and only the lengths decide.
\<close>

fun nocase_cmp :: "bytes \<Rightarrow> bytes \<Rightarrow> int" where
  "nocase_cmp [] [] = 0"
| "nocase_cmp [] (_ # _) = -1"
| "nocase_cmp (_ # _) [] = 1"
| "nocase_cmp (a # as) (b # bs) =
     (let x = c_tolower (unat a); y = c_tolower (unat b) in
      if x < y then -1 else if y < x then 1
      else if x = 0 then
        (if length as = length bs then 0 else if length as < length bs then -1 else 1)
      else nocase_cmp as bs)"

lemma c_strncasecmp_range: "c_strncasecmp a b \<in> {-1, 0, 1}"
  by (induction a b rule: c_strncasecmp.induct) (auto simp: Let_def)

lemma cmp_text_nocase_Cons:
  "cmp_text (a # as) (b # bs) TDB_COLL_NOCASE =
     (let x = c_tolower (unat a); y = c_tolower (unat b) in
      if x < y then -1 else if y < x then 1
      else if x = 0 then
        (if length as = length bs then 0 else if length as < length bs then -1 else 1)
      else cmp_text as bs TDB_COLL_NOCASE)"
  by (simp add: cmp_text_def Let_def)

lemma cmp_text_nocase: "cmp_text a b TDB_COLL_NOCASE = nocase_cmp a b"
proof (induction a arbitrary: b)
  case Nil
  then show ?case by (cases b) (simp_all add: cmp_text_def)
next
  case (Cons a as)
  show ?case
  proof (cases b)
    case Nil
    then show ?thesis by (simp add: cmp_text_def)
  next
    case (Cons b bs)
    then show ?thesis by (simp only: cmp_text_nocase_Cons Cons.IH nocase_cmp.simps)
  qed
qed

lemma nocase_cmp_range: "nocase_cmp a b \<in> {-1, 0, 1}"
  by (induction a b rule: nocase_cmp.induct) (auto simp: Let_def)

lemma nocase_cmp_sym: "nocase_cmp b a = - nocase_cmp a b"
  by (induction a b rule: nocase_cmp.induct) (auto simp: Let_def)

lemma nocase_cmp_less_iff:
  "nocase_cmp (a # as) (b # bs) = -1 \<longleftrightarrow>
     c_tolower (unat a) < c_tolower (unat b) \<or>
     c_tolower (unat a) = c_tolower (unat b) \<and>
       (if c_tolower (unat a) = 0 then length as < length bs else nocase_cmp as bs = -1)"
  by (simp add: Let_def)

lemma nocase_cmp_less_trans:
  "nocase_cmp a b = -1 \<Longrightarrow> nocase_cmp b c = -1 \<Longrightarrow> nocase_cmp a c = -1"
proof (induction a arbitrary: b c)
  case Nil
  then show ?case by (cases b; cases c) simp_all
next
  case (Cons x xs)
  from Cons.prems(1) obtain y ys where b: "b = y # ys" by (cases b) simp_all
  with Cons.prems(2) obtain z zs where c: "c = z # zs" by (cases c) simp_all
  have "nocase_cmp xs ys = -1 \<longrightarrow> nocase_cmp ys zs = -1 \<longrightarrow> nocase_cmp xs zs = -1"
    using Cons.IH by blast
  with Cons.prems show ?case
    unfolding b c nocase_cmp_less_iff by (auto split: if_splits)
qed

lemmas cmp_text_rec = cmp_text_binary [unfolded cmp_blob_lex] cmp_text_nocase

lemma cmp_text_range: "cmp_text a b coll \<in> {-1, 0, 1}"
  by (cases coll) (simp_all only: cmp_text_rec lex_cmp_range nocase_cmp_range)

lemma cmp_text_sym: "cmp_text b a coll = - cmp_text a b coll"
  by (cases coll) (simp_all only: cmp_text_rec lex_cmp_sym [of b a] nocase_cmp_sym [of b a])

lemma cmp_text_trans: "cmp_text a b coll = -1 \<Longrightarrow> cmp_text b c coll = -1 \<Longrightarrow> cmp_text a c coll = -1"
  by (cases coll) (simp_all only: cmp_text_rec lex_cmp_less_trans nocase_cmp_less_trans)

lemma cmp_real_laws:
  shows cmp_real_range: "cmp_real a b \<in> {-1, 0, 1}"
    and cmp_real_sym: "cmp_real b a = - cmp_real a b"
    and cmp_real_less_iff: "cmp_real a b = -1 \<longleftrightarrow> dbl_less a b"
  by (auto simp: cmp_real_def dbl_less_def)

lemma compare_class:
  "val_type_class a < val_type_class b \<Longrightarrow> tdb_value_compare a b coll = -1"
  "val_type_class b < val_type_class a \<Longrightarrow> tdb_value_compare a b coll = 1"
  by (simp_all add: tdb_value_compare.simps)

lemma compare_cases:
  "tdb_value_compare (TDB_VAL_INT i) (TDB_VAL_INT j) coll =
     (if sint i < sint j then -1 else if sint i > sint j then 1 else 0)"
  "tdb_value_compare (TDB_VAL_INT i) (TDB_VAL_REAL r) coll = cmp_real (dbl_of_int (sint i)) r"
  "tdb_value_compare (TDB_VAL_REAL r) (TDB_VAL_INT i) coll = cmp_real r (dbl_of_int (sint i))"
  "tdb_value_compare (TDB_VAL_REAL r) (TDB_VAL_REAL q) coll = cmp_real r q"
  "tdb_value_compare TDB_VAL_NULL TDB_VAL_NULL coll = 0"
  "tdb_value_compare (TDB_VAL_TEXT s) (TDB_VAL_TEXT t) coll = cmp_text s t coll"
  "tdb_value_compare (TDB_VAL_BLOB s) (TDB_VAL_BLOB t) coll = lex_cmp s t"
  "tdb_value_compare (TDB_VAL_COMPOSITE s) (TDB_VAL_COMPOSITE t) coll = lex_cmp s t"
  by (simp_all add: tdb_value_compare.simps cmp_blob_lex)

lemma compare_sym: "tdb_value_compare b a coll = - tdb_value_compare a b coll"
proof (cases "val_type_class a = val_type_class b")
  case True
  then show ?thesis
    by (cases a; cases b)
       (auto simp: compare_cases intro: cmp_real_sym cmp_text_sym lex_cmp_sym)
next
  case False
  then show ?thesis by (auto simp: tdb_value_compare.simps)
qed

lemma dbl_of_sint_mono:
  "sint i \<le> sint j \<Longrightarrow> dbl_key (dbl_of_int (sint i)) \<le> dbl_key (dbl_of_int (sint j))"
  for i j :: u64
  by (intro dbl_of_int_mono sint64_bound)

lemma dbl_of_sint_not_nan: "\<not> dbl_nan (dbl_of_int (sint i))" for i :: u64
  by (rule dbl_of_int_key(2) [OF sint64_bound])

lemma dbl_of_sint_less:
  "dbl_key (dbl_of_int (sint i)) < dbl_key (dbl_of_int (sint j)) \<Longrightarrow> sint i < sint j"
  for i j :: u64
  using dbl_of_sint_mono [of j i] by linarith

lemma compare_num_lessD:
  assumes "val_type_class a = 1" "val_type_class b = 1" "tdb_value_compare a b coll = -1"
  shows "\<not> dbl_nan (num_as_real a)" "\<not> dbl_nan (num_as_real b)"
    "dbl_key (num_as_real a) \<le> dbl_key (num_as_real b)"
    "dbl_key (num_as_real a) = dbl_key (num_as_real b) \<Longrightarrow>
       \<exists>i j. a = TDB_VAL_INT i \<and> b = TDB_VAL_INT j \<and> sint i < sint j"
  using assms
  by (cases a; cases b; simp add: compare_cases cmp_real_less_iff dbl_less_def dbl_of_sint_not_nan
        dbl_of_sint_mono split: if_splits)+

lemma compare_num_lessI:
  assumes "val_type_class a = 1" "val_type_class b = 1"
    and "\<not> dbl_nan (num_as_real a)" "\<not> dbl_nan (num_as_real b)"
    and "dbl_key (num_as_real a) < dbl_key (num_as_real b)"
  shows "tdb_value_compare a b coll = -1"
  using assms
  by (cases a; cases b) (simp_all add: compare_cases cmp_real_less_iff dbl_less_def dbl_of_sint_less)

lemma compare_num_trans:
  assumes num: "val_type_class a = 1" "val_type_class b = 1" "val_type_class c = 1"
    and ab: "tdb_value_compare a b coll = -1" and bc: "tdb_value_compare b c coll = -1"
  shows "tdb_value_compare a c coll = -1"
proof (cases "dbl_key (num_as_real a) = dbl_key (num_as_real c)")
  case True
  with compare_num_lessD(3) [OF num(1,2) ab] compare_num_lessD(3) [OF num(2,3) bc]
  have "dbl_key (num_as_real a) = dbl_key (num_as_real b)"
    "dbl_key (num_as_real b) = dbl_key (num_as_real c)" by simp_all
  with compare_num_lessD(4) [OF num(1,2) ab] compare_num_lessD(4) [OF num(2,3) bc]
  show ?thesis by (auto simp: compare_cases)
next
  case False
  with compare_num_lessD [OF num(1,2) ab] compare_num_lessD [OF num(2,3) bc] show ?thesis
    by (intro compare_num_lessI num) simp_all
qed

lemma compare_less_class: "tdb_value_compare a b coll = -1 \<Longrightarrow> val_type_class a \<le> val_type_class b"
  using compare_class(2) [of b a coll] by (cases "val_type_class b < val_type_class a") simp_all

lemma compare_less_trans:
  assumes ab: "tdb_value_compare a b coll = -1" and bc: "tdb_value_compare b c coll = -1"
  shows "tdb_value_compare a c coll = -1"
proof (cases "val_type_class a = val_type_class c")
  case False
  with compare_less_class [OF ab] compare_less_class [OF bc] show ?thesis
    by (intro compare_class(1)) simp
next
  case True
  with compare_less_class [OF ab] compare_less_class [OF bc]
  have same: "val_type_class b = val_type_class a" "val_type_class c = val_type_class a" by simp_all
  show ?thesis
  proof (cases "val_type_class a = 1")
    case True
    with same ab bc show ?thesis by (intro compare_num_trans [of a b c]) simp_all
  next
    case False
    with same ab bc show ?thesis
      by (cases a; cases b; cases c)
         (auto simp: compare_cases intro: cmp_text_trans lex_cmp_less_trans)
  qed
qed

lemma compare_range: "tdb_value_compare a b coll \<in> {-1, 0, 1}"
proof (cases "val_type_class a = val_type_class b")
  case True
  then show ?thesis
    using cmp_real_range cmp_text_range lex_cmp_range by (cases a; cases b) (simp_all add: compare_cases)
qed (auto simp: tdb_value_compare.simps)

lemma compare_refl: "tdb_value_compare a a coll = 0"
  using compare_sym [of a a coll] by simp

section \<open>Properties\<close>

lemmas dbl_eval = dbl_less_def dbl_of_int_def dbl_mag_of_nat_def ilog2.simps round_half_even_def
  dbl_key_def dbl_nan_def Let_def

text \<open>
  C20: Under either collation \<open>tdb_value_compare\<close> gives -1, 0 or 1 and is a strict order on the
  values: swapping the arguments negates the result, "less than" is transitive across all types
  (integers and doubles mixed, the integer converted with rounding), and the type classes
  NULL < number < text < blob < composite decide before the contents do. Within a class integers
  compare by value and blobs, composites and texts without folding by the lexicographic order of
  their bytes, and such values are equal only if they are the same.
\<close>

theorem value_compare_strict_order:
  "tdb_value_compare b a coll = - tdb_value_compare a b coll \<and> tdb_value_compare a b coll \<in> {-1, 0, 1} \<and>
   (tdb_value_compare a b coll = -1 \<and> tdb_value_compare b c coll = -1 \<longrightarrow> tdb_value_compare a c coll = -1) \<and>
   (val_type_class a < val_type_class b \<longrightarrow> tdb_value_compare a b coll = -1) \<and>
   (tdb_value_compare (TDB_VAL_INT i) (TDB_VAL_INT j) coll = -1 \<longleftrightarrow> sint i < sint j) \<and>
   (tdb_value_compare (TDB_VAL_INT i) (TDB_VAL_INT j) coll = 0 \<longleftrightarrow> i = j) \<and>
   list_all (\<lambda>v. (tdb_value_compare (v s) (v t) TDB_COLL_BINARY = -1 \<longleftrightarrow> ord_class.lexordp s t) \<and>
       (tdb_value_compare (v s) (v t) TDB_COLL_BINARY = 0 \<longleftrightarrow> s = t))
     [TDB_VAL_TEXT, TDB_VAL_BLOB, TDB_VAL_COMPOSITE]"
  using compare_sym [of b a coll] compare_range [of a b coll] compare_less_trans [of a b coll c] compare_class(1) [of a b coll]
  by (auto simp: compare_cases cmp_text_rec lex_cmp_less lex_cmp_eq intro: signed_word_eqI)

theorem value_compare_strict_order_witness:
  "tdb_value_compare (TDB_VAL_REAL 0x401C000000000000) (TDB_VAL_INT 5) TDB_COLL_NOCASE = 1 \<and>
   tdb_value_compare (TDB_VAL_INT 5) (TDB_VAL_TEXT [0x35]) TDB_COLL_NOCASE = -1 \<and>
   tdb_value_compare (TDB_VAL_INT 5) (TDB_VAL_BLOB []) TDB_COLL_NOCASE = -1"
proof -
  have "dbl_less (dbl_of_int 5) 0x401C000000000000"
    by (simp add: dbl_eval)
  then have "tdb_value_compare (TDB_VAL_INT 5) (TDB_VAL_REAL 0x401C000000000000) TDB_COLL_NOCASE = -1"
    by (simp add: compare_cases cmp_real_def)
  then show ?thesis
    using value_compare_strict_order [of "TDB_VAL_REAL 0x401C000000000000" "TDB_VAL_INT 5" TDB_COLL_NOCASE "TDB_VAL_BLOB []"]
      value_compare_strict_order [of "TDB_VAL_TEXT [0x35]" "TDB_VAL_INT 5" TDB_COLL_NOCASE "TDB_VAL_BLOB []"]
      value_compare_strict_order [of "TDB_VAL_BLOB []" "TDB_VAL_TEXT [0x35]" TDB_COLL_NOCASE "TDB_VAL_BLOB []"] by simp
qed

text \<open>
  The comparison does not give an equivalence: the integers \<open>2\<^sup>5\<^sup>3\<close> and \<open>2\<^sup>5\<^sup>3 + 1\<close> both
  compare equal to the double \<open>2\<^sup>5\<^sup>3\<close>, because the integer is converted to \<^verbatim>\<open>double\<close> first,
  yet they differ from each other; and a NaN compares equal to every number.
\<close>

theorem value_compare_equal_not_transitive:
  "tdb_value_compare (TDB_VAL_INT (2 ^ 53)) (TDB_VAL_REAL 0x4340000000000000) coll = 0 \<and>
   tdb_value_compare (TDB_VAL_REAL 0x4340000000000000) (TDB_VAL_INT (2 ^ 53 + 1)) coll = 0 \<and>
   tdb_value_compare (TDB_VAL_INT (2 ^ 53)) (TDB_VAL_INT (2 ^ 53 + 1)) coll = -1 \<and>
   tdb_value_compare (TDB_VAL_REAL 0x7FF8000000000000) (TDB_VAL_INT i) coll = 0"
proof -
  have "cmp_real (dbl_of_int (sint (2 ^ 53 :: u64))) 0x4340000000000000 = 0"
    "cmp_real 0x4340000000000000 (dbl_of_int (sint (2 ^ 53 + 1 :: u64))) = 0"
    "sint (2 ^ 53 :: u64) < sint (2 ^ 53 + 1 :: u64)" "dbl_nan 0x7FF8000000000000"
    by (simp_all add: dbl_eval cmp_real_def)
  then show ?thesis by (simp add: compare_cases cmp_real_def dbl_less_def)
qed

end
