(* ===== verification/Tdb_Record.thy ===== *)
theory Tdb_Record
  imports Tdb_Buf Tdb_Value
begin

text \<open>
  \<^verbatim>\<open>src/value/tdb_record.c\<close>: the record codec that serialises rows and index keys (a varint
  column count, one varint serial type per column, the packed bodies) and the comparison of
  encoded index keys.

  The encoder appends to a \<open>tdb_buf\<close>; the decoder reads a byte list at an offset. The outcome
  \<open>Dec_oob\<close> stands for memory that is touched out of bounds: a byte read, or borrowed by a text
  or blob, outside the record, a serial type stored outside the scratch array, whose size C
  takes from the column count, or a value stored outside the caller's \<open>out\<close> array. A composite
  value is written with the serial type of a blob.
\<close>

section \<open>The encoder\<close>

definition serial_body_len :: "u64 \<Rightarrow> int" where
  "serial_body_len st =
     (if st = 0 then 0
      else if st = 1 then 1
      else if st = 2 then 2
      else if st = 3 then 3
      else if st = 4 then 4
      else if st = 5 then 6
      else if st = 6 then 8
      else if st = 7 then 8
      else if st = 8 then 0
      else if st = 9 then 0
      else if 12 \<le> st then sint (ucast ((st - 12) div 2) :: 32 word)
      else -1)"

definition int_serial_type :: "u64 \<Rightarrow> u64 \<times> nat" where
  "int_serial_type v =
     (let i = sint v in
      if i = 0 then (8, 0)
      else if i = 1 then (9, 0)
      else if -128 \<le> i \<and> i \<le> 127 then (1, 1)
      else if -32768 \<le> i \<and> i \<le> 32767 then (2, 2)
      else if -8388608 \<le> i \<and> i \<le> 8388607 then (3, 3)
      else if -2147483648 \<le> i \<and> i \<le> 2147483647 then (4, 4)
      else if -140737488355328 \<le> i \<and> i \<le> 140737488355327 then (5, 6)
      else (6, 8))"

fun put_be_signed :: "u64 \<Rightarrow> nat \<Rightarrow> bytes" where
  "put_be_signed v 0 = []"
| "put_be_signed v (Suc n) = put_be_signed (signed_drop_bit 8 v) n @ [ucast (v AND 0xff)]"

definition get_be_signed :: "bytes \<Rightarrow> nat \<Rightarrow> u64" where
  "get_be_signed p n =
     (if n = 0 then 0
      else foldl (\<lambda>v b. push_bit 8 v OR ucast b) (if hd p AND 0x80 \<noteq> 0 then -1 else 0) (take n p))"

text \<open>The serial type and body length of one value (first loop of \<open>tdb_record_encode\<close>).\<close>

fun rec_serial :: "tdb_value \<Rightarrow> u64 \<times> nat" where
  "rec_serial TDB_VAL_NULL = (0, 0)"
| "rec_serial (TDB_VAL_INT i) = int_serial_type i"
| "rec_serial (TDB_VAL_REAL _) = (7, 8)"
| "rec_serial (TDB_VAL_TEXT s) = (13 + 2 * word_of_nat (length s), length s)"
| "rec_serial (TDB_VAL_BLOB s) = (12 + 2 * word_of_nat (length s), length s)"
| "rec_serial (TDB_VAL_COMPOSITE s) = (12 + 2 * word_of_nat (length s), length s)"

fun rec_body :: "tdb_value \<Rightarrow> nat \<Rightarrow> bytes" where
  "rec_body TDB_VAL_NULL _ = []"
| "rec_body (TDB_VAL_INT i) bl = put_be_signed i bl"
| "rec_body (TDB_VAL_REAL r) _ = tdb_put_u64 r"
| "rec_body (TDB_VAL_TEXT s) _ = s"
| "rec_body (TDB_VAL_BLOB s) _ = s"
| "rec_body (TDB_VAL_COMPOSITE s) _ = s"

fun is_bytes_value :: "tdb_value \<Rightarrow> bool" where
  "is_bytes_value (TDB_VAL_TEXT _) = True"
| "is_bytes_value (TDB_VAL_BLOB _) = True"
| "is_bytes_value (TDB_VAL_COMPOSITE _) = True"
| "is_bytes_value _ = False"

fun enc_types :: "(nat \<Rightarrow> bool) \<Rightarrow> u64 list \<Rightarrow> tdb_buf \<Rightarrow> tdb_status \<times> tdb_buf" where
  "enc_types ok [] b = (TDB_OK, b)"
| "enc_types ok (st # sts) b =
     (case tdb_buf_put_varint ok b st of
        (TDB_OK, b') \<Rightarrow> enc_types ok sts b'
      | (rc, b') \<Rightarrow> (rc, b'))"

fun enc_bodies :: "(nat \<Rightarrow> bool) \<Rightarrow> tdb_value list \<Rightarrow> tdb_buf \<Rightarrow> tdb_status \<times> tdb_buf" where
  "enc_bodies ok [] b = (TDB_OK, b)"
| "enc_bodies ok (v # vs) b =
     (let bl = snd (rec_serial v) in
      if bl = 0 \<and> \<not> is_bytes_value v then enc_bodies ok vs b
      else
        (case tdb_buf_reserve ok b (bl + 8) of
           (TDB_OK, b') \<Rightarrow> enc_bodies ok vs (b'\<lparr>data := data b' @ rec_body v bl\<rparr>)
         | (rc, b') \<Rightarrow> (rc, b')))"

definition tdb_record_encode ::
  "(nat \<Rightarrow> bool) \<Rightarrow> tdb_value list \<Rightarrow> tdb_buf \<Rightarrow> tdb_status \<times> tdb_buf" where
  "tdb_record_encode ok vals out =
     (let n = length vals; st = map (fst \<circ> rec_serial) vals in
      if n > 16 \<and> \<not> (ok (8 * n) \<and> ok (4 * n)) then (TDB_NOMEM, out)
      else
        (case tdb_buf_put_varint ok out (word_of_nat n) of
           (TDB_OK, b1) \<Rightarrow>
             (case enc_types ok st b1 of
                (TDB_OK, b2) \<Rightarrow> enc_bodies ok vals b2
              | (rc, b2) \<Rightarrow> (rc, b2))
         | (rc, b1) \<Rightarrow> (rc, b1)))"

section \<open>The decoder\<close>

datatype dec_result =
  Dec_ok "tdb_value list" int
| Dec_err tdb_status
| Dec_oob

text \<open>A varint of at most \<open>avail\<close> bytes at offset \<open>off\<close> of the record.\<close>

definition read_varint :: "bytes \<Rightarrow> nat \<Rightarrow> nat \<Rightarrow> dec_result + (nat \<times> u64)" where
  "read_varint p off avail =
     (case tdb_get_varint (drop off p) avail of
        Some r \<Rightarrow> Inr r
      | None \<Rightarrow> Inl (if length p < off + min avail 10 then Dec_oob else Dec_err TDB_CORRUPT))"

text \<open>
  The loop that reads \<open>n\<close> serial types into an array of \<open>slots\<close> entries, \<open>i\<close> of them read so
  far, from offset \<open>off\<close> on: \<open>Inr\<close> the types and the offset after them.
\<close>

fun dec_types :: "nat \<Rightarrow> nat \<Rightarrow> nat \<Rightarrow> bytes \<Rightarrow> nat \<Rightarrow> dec_result + (u64 list \<times> nat)" where
  "dec_types 0 i slots p off = Inr ([], off)"
| "dec_types (Suc n) i slots p off =
     (case read_varint p off (length p - off) of
        Inl e \<Rightarrow> Inl e
      | Inr (adv, st) \<Rightarrow>
          if slots \<le> i then Inl Dec_oob
          else
            (case dec_types n (Suc i) slots p (off + adv) of
               Inl e \<Rightarrow> Inl e
             | Inr (sts, q) \<Rightarrow> Inr (st # sts, q)))"

definition dec_value :: "u64 \<Rightarrow> bytes \<Rightarrow> nat \<Rightarrow> tdb_value" where
  "dec_value st body bl =
     (if st = 0 then TDB_VAL_NULL
      else if st = 8 then TDB_VAL_INT 0
      else if st = 9 then TDB_VAL_INT 1
      else if 1 \<le> st \<and> st \<le> 6 then TDB_VAL_INT (get_be_signed body bl)
      else if st = 7 then TDB_VAL_REAL (tdb_get_u64 body)
      else if 12 \<le> st \<and> st mod 2 = 0 then TDB_VAL_BLOB (take bl body)
      else TDB_VAL_TEXT (take bl body))"

text \<open>How many bytes of its body a value reads or borrows, and the value, \<open>None\<close> if they are not there.\<close>

definition body_extent :: "u64 \<Rightarrow> nat \<Rightarrow> nat" where
  "body_extent st bl = (if st = 0 \<or> st = 8 \<or> st = 9 then 0 else if st = 7 then 8 else bl)"

definition read_body :: "u64 \<Rightarrow> bytes \<Rightarrow> nat \<Rightarrow> nat \<Rightarrow> tdb_value option" where
  "read_body st p off bl =
     (if length p < off + body_extent st bl then None else Some (dec_value st (drop off p) bl))"

text \<open>
  The loop over the bodies; the test \<^verbatim>\<open>(int)i < max\<close> is on the low 32 bits of \<open>i\<close>, so the
  store \<^verbatim>\<open>out[i]\<close> is in range only if also \<open>i < max\<close>.
\<close>

fun dec_bodies :: "u64 list \<Rightarrow> nat \<Rightarrow> nat \<Rightarrow> bytes \<Rightarrow> nat \<Rightarrow> dec_result + tdb_value list" where
  "dec_bodies [] i mx p off = Inr []"
| "dec_bodies (st # sts) i mx p off =
     (let bl = serial_body_len st in
      if bl < 0 \<or> length p < off + nat bl then Inl (Dec_err TDB_CORRUPT)
      else if sint (word_of_nat i :: 32 word) < int mx then
        (case (if i < mx then read_body st p off (nat bl) else None) of
           None \<Rightarrow> Inl Dec_oob
         | Some v \<Rightarrow>
             (case dec_bodies sts (Suc i) mx p (off + nat bl) of
                Inl e \<Rightarrow> Inl e
              | Inr vs \<Rightarrow> Inr (v # vs)))
      else dec_bodies sts (Suc i) mx p (off + nat bl))"

definition tdb_record_decode :: "(nat \<Rightarrow> bool) \<Rightarrow> bytes \<Rightarrow> nat \<Rightarrow> dec_result" where
  "tdb_record_decode ok p mx =
     (case read_varint p 0 (length p) of
        Inl e \<Rightarrow> e
      | Inr (adv, n) \<Rightarrow>
          (let size = (8 * unat n) mod 2 ^ 64 in
           if n > 16 \<and> \<not> ok size then Dec_err TDB_NOMEM
           else
             (case dec_types (unat n) 0 (if n > 16 then size div 8 else 16) p adv of
                Inl e \<Rightarrow> e
              | Inr (sts, off) \<Rightarrow>
                  (case dec_bodies sts 0 mx p off of
                     Inl e \<Rightarrow> e
                   | Inr vs \<Rightarrow> Dec_ok vs (sint (ucast n :: 32 word))))))"

section \<open>Comparing encoded keys\<close>

record tdb_keyinfo =
  ki_ncol :: nat
  ki_coll :: "tdb_collation list option"
  ki_desc :: "bool list option"

text \<open>
  One round per common column; \<open>None\<close> stands for reading a slot of \<^verbatim>\<open>va\<close>, \<^verbatim>\<open>vb\<close> or of the
  key description that was never filled in.
\<close>

definition key_coll :: "tdb_keyinfo option \<Rightarrow> nat \<Rightarrow> tdb_collation option" where
  "key_coll ki i =
     (case ki of
        None \<Rightarrow> Some TDB_COLL_BINARY
      | Some k \<Rightarrow>
          (case ki_coll k of
             None \<Rightarrow> Some TDB_COLL_BINARY
           | Some cs \<Rightarrow> if i < length cs then Some (cs ! i) else None))"

definition key_desc :: "tdb_keyinfo option \<Rightarrow> nat \<Rightarrow> bool option" where
  "key_desc ki i =
     (case ki of
        None \<Rightarrow> Some False
      | Some k \<Rightarrow>
          (case ki_desc k of
             None \<Rightarrow> Some False
           | Some ds \<Rightarrow> if i < length ds then Some (ds ! i) else None))"

fun cmp_cols :: "tdb_keyinfo option \<Rightarrow> nat \<Rightarrow> nat \<Rightarrow> tdb_value list \<Rightarrow> tdb_value list \<Rightarrow> int option" where
  "cmp_cols ki 0 i va vb = Some 0"
| "cmp_cols ki (Suc n) i va vb =
     (case (va, vb, key_coll ki i, key_desc ki i) of
        (a # va', b # vb', Some coll, Some desc) \<Rightarrow>
          (let c = tdb_value_compare a b coll; c' = (if desc then - c else c) in
           if c' \<noteq> 0 then Some c' else cmp_cols ki n (Suc i) va' vb')
      | _ \<Rightarrow> None)"

definition key_max :: "tdb_keyinfo option \<Rightarrow> nat" where
  "key_max ki =
     (case ki of None \<Rightarrow> 16 | Some k \<Rightarrow> if ki_ncol k > 0 \<and> ki_ncol k \<le> 16 then ki_ncol k else 16)"

text \<open>
  \<^verbatim>\<open>ca\<close> and \<^verbatim>\<open>cb\<close> count all columns of the records while only \<open>key_max ki\<close> are decoded; the
  final loops clear \<^verbatim>\<open>va[0..ca)\<close> and \<^verbatim>\<open>vb[0..cb)\<close>, so more columns than that touch slots that
  were never initialised.
\<close>

definition tdb_record_compare ::
  "(nat \<Rightarrow> bool) \<Rightarrow> bytes \<Rightarrow> bytes \<Rightarrow> tdb_keyinfo option \<Rightarrow> int option" where
  "tdb_record_compare ok a b ki =
     (case tdb_record_decode ok a (key_max ki) of
        Dec_err _ \<Rightarrow> Some 0
      | Dec_oob \<Rightarrow> None
      | Dec_ok va ca \<Rightarrow>
          (case tdb_record_decode ok b (key_max ki) of
             Dec_err _ \<Rightarrow> Some 0
           | Dec_oob \<Rightarrow> None
           | Dec_ok vb cb \<Rightarrow>
               (case cmp_cols ki (nat (min ca cb)) 0 va vb of
                  None \<Rightarrow> None
                | Some result \<Rightarrow>
                    if ca \<le> int (length va) \<and> cb \<le> int (length vb) then
                      Some (if result = 0 \<and> ca \<noteq> cb then (if ca < cb then -1 else 1) else result)
                    else None)))"


section \<open>Composite values\<close>

text \<open>
  \<^verbatim>\<open>src/value/tdb_value.c\<close>: a composite holds the record encoding of its fields. An operation
  that leaves its \<open>out\<close> argument alone returns \<open>None\<close> for it; a count or field is \<open>None\<close>
  altogether if the decoder stores out of bounds.
\<close>

definition tdb_value_composite_pack :: "(nat \<Rightarrow> bool) \<Rightarrow> tdb_value list \<Rightarrow> tdb_status \<times> tdb_value option" where
  "tdb_value_composite_pack ok fds =
     (case tdb_record_encode ok fds tdb_buf_init of
        (rc, b) \<Rightarrow>
          if rc \<noteq> TDB_OK then (rc, None)
          else if \<not> ok (length (data b) + 1) then (TDB_NOMEM, Some TDB_VAL_NULL)
          else (TDB_OK, Some (TDB_VAL_COMPOSITE (data b))))"

definition tdb_value_composite_count :: "(nat \<Rightarrow> bool) \<Rightarrow> tdb_value \<Rightarrow> int option" where
  "tdb_value_composite_count ok v =
     (case v of
        TDB_VAL_COMPOSITE bs \<Rightarrow>
          (case tdb_record_decode ok bs 0 of Dec_ok _ nc \<Rightarrow> Some nc | Dec_err _ \<Rightarrow> Some 0 | Dec_oob \<Rightarrow> None)
      | _ \<Rightarrow> Some 0)"

definition tdb_value_composite_field ::
  "(nat \<Rightarrow> bool) \<Rightarrow> tdb_value \<Rightarrow> nat \<Rightarrow> (tdb_status \<times> tdb_value) option" where
  "tdb_value_composite_field ok v i =
     (case v of
        TDB_VAL_COMPOSITE bs \<Rightarrow>
          if \<not> ok (24 * (i + 1)) then Some (TDB_NOMEM, TDB_VAL_NULL)
          else
            (case tdb_record_decode ok bs (i + 1) of
               Dec_oob \<Rightarrow> None
             | Dec_err rc \<Rightarrow> Some (rc, TDB_VAL_NULL)
             | Dec_ok fs nc \<Rightarrow>
                 if int i < nc then
                   (if is_bytes_value (fs ! i) \<and> \<not> ok (length (rec_body (fs ! i) 0) + 1)
                    then Some (TDB_NOMEM, TDB_VAL_NULL) else Some (TDB_OK, fs ! i))
                 else Some (TDB_RANGE, TDB_VAL_NULL))
      | _ \<Rightarrow> Some (TDB_RANGE, TDB_VAL_NULL))"

section \<open>Signed big-endian integers\<close>

lemma length_put_be_signed [simp]: "length (put_be_signed v n) = n"
  by (induction n arbitrary: v) simp_all

lemma foldl_put_be_signed:
  assumes "n \<le> 8"
  shows "foldl (\<lambda>v b. push_bit 8 v OR ucast b) acc (put_be_signed v n) =
    push_bit (8 * n) acc OR take_bit (8 * n) v"
  using assms
proof (induction n arbitrary: v)
  case 0
  then show ?case by simp
next
  case (Suc n)
  then have IH: "foldl (\<lambda>v b. push_bit 8 v OR ucast b) acc (put_be_signed (signed_drop_bit 8 v) n) =
    push_bit (8 * n) acc OR take_bit (8 * n) (signed_drop_bit 8 v)" by simp
  show ?case
  proof (rule bit_word_eqI)
    fix k
    assume "k < LENGTH(64)"
    then show "bit (foldl (\<lambda>v b. push_bit 8 v OR ucast b) acc (put_be_signed v (Suc n))) k =
      bit (push_bit (8 * Suc n) acc OR take_bit (8 * Suc n) v) k"
      using Suc.prems by (cases "k < 8") (auto simp: IH bit_simps bit_const_iff)
  qed
qed

lemma hd_put_be_signed:
  assumes "0 < n" "n \<le> 8"
  shows "hd (put_be_signed v n) AND 0x80 \<noteq> 0 \<longleftrightarrow> bit v (8 * n - 1)"
proof -
  have "bit (hd (put_be_signed v n)) 7 \<longleftrightarrow> bit v (8 * n - 1)"
    using assms
  proof (induction n arbitrary: v)
    case (Suc n)
    show ?case
    proof (cases n)
      case 0
      then show ?thesis by (simp add: bit_simps bit_const_iff)
    next
      case (Suc m)
      then have "hd (put_be_signed v (Suc n)) = hd (put_be_signed (signed_drop_bit 8 v) n)"
        by (simp add: hd_append)
      with Suc Suc.IH [of "signed_drop_bit 8 v"] \<open>Suc n \<le> 8\<close> show ?thesis
        by (simp add: bit_simps)
    qed
  qed simp
  moreover have "w AND 0x80 \<noteq> 0 \<longleftrightarrow> bit w 7" for w :: byte
    by (simp add: and_exp_eq_0_iff_not_bit [where n = 7, simplified])
  ultimately show ?thesis by simp
qed

lemma bit_of_small:
  fixes v :: u64
  assumes fits: "- (2 ^ m) \<le> sint v" "sint v < 2 ^ m" and "m \<le> k" "k < 64"
  shows "bit v k = bit v m"
proof -
  have "signed_take_bit m (sint v) = sint v"
    using fits by (simp add: signed_take_bit_int_eq_self_iff)
  then have "bit (sint v) k = bit (signed_take_bit m (sint v)) k" by (simp only:)
  also have "\<dots> = bit (sint v) (min k m)" by (simp add: bit_signed_take_bit_iff min.commute)
  finally have "bit (sint v) k = bit (sint v) (min k m)" .
  with assms(3,4) show ?thesis by (simp add: bit_sint_iff min_def split: if_splits)
qed

lemma get_put_be_signed [tdb_codec]:
  assumes "0 < n" "n \<le> 8" and fits: "- (2 ^ (8 * n - 1)) \<le> sint v" "sint v < 2 ^ (8 * n - 1)"
  shows "get_be_signed (put_be_signed v n @ rest) n = v"
proof -
  have ne: "put_be_signed v n \<noteq> []"
    using assms(1) length_put_be_signed [of v n] by (metis list.size(3) less_numeral_extra(3))
  define acc :: u64 where "acc = (if bit v (8 * n - 1) then -1 else 0)"
  have "get_be_signed (put_be_signed v n @ rest) n = push_bit (8 * n) acc OR take_bit (8 * n) v"
    using assms(1) ne hd_put_be_signed [OF assms(1,2), of v]
    by (simp add: get_be_signed_def acc_def foldl_put_be_signed [OF assms(2)])
  also have "\<dots> = v"
  proof (rule bit_word_eqI)
    fix k
    assume "k < LENGTH(64)"
    then show "bit (push_bit (8 * n) acc OR take_bit (8 * n) v) k = bit v k"
      using bit_of_small [OF fits, of k] assms(1)
      by (cases "k < 8 * n") (auto simp: bit_simps acc_def)
  qed
  finally show ?thesis .
qed

section \<open>Round trip\<close>

text \<open>
  The bytes of a record, independent of the buffer: what \<open>tdb_record_encode\<close> appends.
\<close>

definition record_bytes :: "tdb_value list \<Rightarrow> bytes" where
  "record_bytes vals =
     tdb_put_varint (word_of_nat (length vals)) @
     concat (map (\<lambda>v. tdb_put_varint (fst (rec_serial v))) vals) @
     concat (map (\<lambda>v. rec_body v (snd (rec_serial v))) vals)"

text \<open>A value whose byte length is an \<^verbatim>\<open>int\<close>, as the C struct stores it.\<close>

fun value_ok :: "tdb_value \<Rightarrow> bool" where
  "value_ok (TDB_VAL_TEXT s) \<longleftrightarrow> length s < 2 ^ 31"
| "value_ok (TDB_VAL_BLOB s) \<longleftrightarrow> length s < 2 ^ 31"
| "value_ok (TDB_VAL_COMPOSITE s) \<longleftrightarrow> length s < 2 ^ 31"
| "value_ok _ \<longleftrightarrow> True"

text \<open>What a value reads back as: a composite comes back as a blob.\<close>

fun stored_value :: "tdb_value \<Rightarrow> tdb_value" where
  "stored_value (TDB_VAL_COMPOSITE s) = TDB_VAL_BLOB s"
| "stored_value v = v"

lemma enc_types_cases:
  "enc_types ok sts b = (TDB_OK, b') \<Longrightarrow> data b' = data b @ concat (map tdb_put_varint sts)"
proof (induction sts arbitrary: b)
  case (Cons st sts)
  show ?case
    by (rule buf_put_varint_cases [of ok b st]) (use Cons in auto)
qed simp

lemma enc_types_status: "fst (enc_types ok sts b) \<in> {TDB_OK, TDB_NOMEM}"
proof (induction sts arbitrary: b)
  case (Cons st sts)
  show ?case
    by (rule buf_put_varint_cases [of ok b st]) (use Cons in auto)
qed simp

lemma rec_body_skip: "snd (rec_serial v) = 0 \<Longrightarrow> \<not> is_bytes_value v \<Longrightarrow> rec_body v 0 = []"
  by (cases v) auto

lemma enc_bodies_cases:
  "enc_bodies ok vs b = (TDB_OK, b') \<Longrightarrow>
     data b' = data b @ concat (map (\<lambda>v. rec_body v (snd (rec_serial v))) vs)"
proof (induction vs arbitrary: b)
  case (Cons v vs)
  show ?case
    by (rule buf_reserve_cases [of ok b "snd (rec_serial v) + 8"])
       (use Cons in \<open>auto simp: Let_def rec_body_skip split: if_splits\<close>)
qed simp

lemma enc_bodies_status: "fst (enc_bodies ok vs b) \<in> {TDB_OK, TDB_NOMEM}"
proof (induction vs arbitrary: b)
  case (Cons v vs)
  show ?case
    by (rule buf_reserve_cases [of ok b "snd (rec_serial v) + 8"])
       (use Cons in \<open>auto simp: Let_def\<close>)
qed simp

lemma record_encode_cases:
  assumes "tdb_record_encode ok vals b = (rc, b')"
  shows "rc = TDB_OK \<and> data b' = data b @ record_bytes vals \<or> rc = TDB_NOMEM"
proof (rule buf_put_varint_cases [of ok b "word_of_nat (length vals)"])
  fix b1
  assume b1: "tdb_buf_put_varint ok b (word_of_nat (length vals)) = (TDB_OK, b1)"
    "data b1 = data b @ tdb_put_varint (word_of_nat (length vals))"
  obtain rc2 b2 where b2: "enc_types ok (map (fst \<circ> rec_serial) vals) b1 = (rc2, b2)" by force
  obtain rc3 b3 where b3: "enc_bodies ok vals b2 = (rc3, b3)" by force
  have "rc2 = TDB_OK \<or> rc2 = TDB_NOMEM" "rc3 = TDB_OK \<or> rc3 = TDB_NOMEM"
    using enc_types_status [of ok "map (fst \<circ> rec_serial) vals" b1] enc_bodies_status [of ok vals b2]
    by (simp_all add: b2 b3)
  moreover have "rc2 = TDB_OK \<Longrightarrow> data b2 = data b1 @ concat (map (\<lambda>v. tdb_put_varint (fst (rec_serial v))) vals)"
    using enc_types_cases b2 by (fastforce simp: comp_def)
  moreover have "rc3 = TDB_OK \<Longrightarrow> data b3 = data b2 @ concat (map (\<lambda>v. rec_body v (snd (rec_serial v))) vals)"
    using enc_bodies_cases b3 by blast
  ultimately show ?thesis
    using assms b1 b2 b3 by (auto simp: tdb_record_encode_def Let_def record_bytes_def split: if_splits)
next
  assume "tdb_buf_put_varint ok b (word_of_nat (length vals)) = (TDB_NOMEM, b)"
  with assms show ?thesis by (auto simp: tdb_record_encode_def Let_def split: if_splits)
qed

lemma read_put_varint:
  "read_varint (pre @ tdb_put_varint v @ rest) (length pre) (length (tdb_put_varint v @ rest)) = Inr (length (tdb_put_varint v), v)"
  by (simp add: read_varint_def get_put_varint)

lemma dec_types_encoded:
  assumes "i + length sts \<le> slots"
  shows "dec_types (length sts) i slots (pre @ concat (map tdb_put_varint sts) @ rest) (length pre) =
    Inr (sts, length (pre @ concat (map tdb_put_varint sts)))"
  using assms
proof (induction sts arbitrary: i pre)
  case (Cons st sts)
  have "dec_types (length sts) (Suc i) slots ((pre @ tdb_put_varint st) @ concat (map tdb_put_varint sts) @ rest) (length (pre @ tdb_put_varint st)) =
      Inr (sts, length ((pre @ tdb_put_varint st) @ concat (map tdb_put_varint sts)))"
    by (rule Cons.IH) (use Cons.prems in simp)
  then show ?case
    using Cons.prems read_put_varint [of pre st "concat (map tdb_put_varint sts) @ rest"] by (simp add: add.assoc)
qed simp

lemma word_len_half:
  assumes "n < 2 ^ 31"
  shows "((2 * word_of_nat n) div 2 :: u64) = word_of_nat n"
    and "((1 + 2 * word_of_nat n) div 2 :: u64) = word_of_nat n"
    and "sint (ucast (word_of_nat n :: u64) :: 32 word) = int n"
proof -
  have "unat (2 * word_of_nat n :: u64) = 2 * n" "unat (1 + 2 * word_of_nat n :: u64) = 1 + 2 * n"
    using assms by (simp_all add: unat_word_ariths unat_of_nat)
  moreover have "unat (word_of_nat n :: u64) = n" using assms by (simp add: unat_of_nat)
  ultimately show "((2 * word_of_nat n) div 2 :: u64) = word_of_nat n"
    "((1 + 2 * word_of_nat n) div 2 :: u64) = word_of_nat n"
    by (simp_all add: word_unat_eq_iff unat_div)
  have "ucast (word_of_nat n :: u64) = (word_of_nat n :: 32 word)"
    using assms by (simp add: word_unat_eq_iff unsigned_ucast_eq unat_of_nat take_bit_eq_mod)
  then show "sint (ucast (word_of_nat n :: u64) :: 32 word) = int n"
    using assms by (simp add: signed_of_nat signed_take_bit_int_eq_self_iff)
qed

lemma bytes_serial:
  assumes "n < 2 ^ 31"
  shows "serial_body_len (13 + 2 * word_of_nat n) = int n"
    and "serial_body_len (12 + 2 * word_of_nat n) = int n"
    and "dec_value (13 + 2 * word_of_nat n) body n = TDB_VAL_TEXT (take n body)"
    and "dec_value (12 + 2 * word_of_nat n) body n = TDB_VAL_BLOB (take n body)"
proof -
  let ?t = "13 + 2 * word_of_nat n :: u64" and ?b = "12 + 2 * word_of_nat n :: u64"
  have u: "unat ?t = 13 + 2 * n" "unat ?b = 12 + 2 * n"
    using assms by (simp_all add: unat_word_ariths unat_of_nat)
  have ge: "12 \<le> ?t" "12 \<le> ?b" by (simp_all only: word_le_nat_alt u) simp_all
  have gt: "k < ?t" "k < ?b" if "k < 12" for k
    using that ge by (meson less_le_trans)+
  have ne: "?t \<noteq> k" "?b \<noteq> k" if "k < 12" for k using gt [OF that] by auto
  have par: "?t mod 2 \<noteq> 0" "?b mod 2 = 0"
    by (simp_all only: word_unat_eq_iff unat_mod u) simp_all
  have "?t - 12 = 1 + 2 * word_of_nat n" "?b - 12 = 2 * word_of_nat n" by simp_all
  with ge ne word_len_half [OF assms] show "serial_body_len ?t = int n" "serial_body_len ?b = int n"
    by (simp_all only: serial_body_len_def) simp_all
  have "\<not> ?t \<le> 6" "\<not> ?b \<le> 6" using gt [of 6] by simp_all
  with ge ne par show "dec_value ?t body n = TDB_VAL_TEXT (take n body)"
    "dec_value ?b body n = TDB_VAL_BLOB (take n body)"
    by (simp_all only: dec_value_def) simp_all
qed

lemma int_serial_type_value:
  assumes "int_serial_type v = (st, bl)"
  shows "serial_body_len st = int bl"
    and "dec_value st (put_be_signed v bl @ rest) bl = TDB_VAL_INT v"
proof -
  have zero: "v = 0" if "sint v = 0" using that by (intro signed_word_eqI) simp
  have one: "v = 1" if "sint v = 1" using that by (intro signed_word_eqI) simp
  have rng: "- (2 ^ 63) \<le> sint v" "sint v < 2 ^ 63"
    using sint_range_size [of v] by (simp_all add: word_size)
  show "serial_body_len st = int bl"
    using assms by (auto simp: int_serial_type_def Let_def serial_body_len_def split: if_splits)
  show "dec_value st (put_be_signed v bl @ rest) bl = TDB_VAL_INT v"
    using assms rng zero one get_put_be_signed [of 1 v rest]
    by (auto simp: int_serial_type_def Let_def dec_value_def get_put_be_signed split: if_splits)
qed

lemma rec_body_length:
  assumes "value_ok v"
  shows "length (rec_body v (snd (rec_serial v))) = snd (rec_serial v)"
  by (cases v) simp_all

lemma serial_body_len_value:
  assumes "value_ok v"
  shows "serial_body_len (fst (rec_serial v)) = int (snd (rec_serial v))"
  using assms
proof (cases v)
  case (TDB_VAL_INT i)
  then show ?thesis
    using int_serial_type_value(1) [of i] by (cases "int_serial_type i") simp
qed (simp_all add: bytes_serial, simp_all add: serial_body_len_def)

lemma dec_value_encoded:
  assumes "value_ok v"
  shows "dec_value (fst (rec_serial v)) (rec_body v (snd (rec_serial v)) @ rest) (snd (rec_serial v)) =
    stored_value v"
  using assms
proof (cases v)
  case (TDB_VAL_INT i)
  then show ?thesis
    using int_serial_type_value(2) [of i] by (cases "int_serial_type i") simp
qed (simp_all add: bytes_serial, simp_all add: dec_value_def get_put_u)

lemma body_extent_le: "0 \<le> serial_body_len st \<Longrightarrow> body_extent st (nat (serial_body_len st)) \<le> nat (serial_body_len st)"
  by (auto simp: body_extent_def serial_body_len_def)

lemma read_body_encoded:
  assumes "value_ok v"
  shows "read_body (fst (rec_serial v)) (pre @ rec_body v (snd (rec_serial v)) @ rest) (length pre) (snd (rec_serial v)) = Some (stored_value v)"
proof -
  have "body_extent (fst (rec_serial v)) (snd (rec_serial v)) \<le> snd (rec_serial v)"
    using body_extent_le [of "fst (rec_serial v)"] serial_body_len_value [OF assms] by simp
  then show ?thesis using dec_value_encoded [OF assms, of rest] rec_body_length [OF assms] by (simp add: read_body_def)
qed

lemma dec_bodies_encoded:
  assumes "list_all value_ok vs" "i + length vs < 2 ^ 31"
  shows "dec_bodies (map (fst \<circ> rec_serial) vs) i mx
      (pre @ concat (map (\<lambda>v. rec_body v (snd (rec_serial v))) vs) @ rest) (length pre) =
    Inr (map stored_value (take (mx - i) vs))"
  using assms
proof (induction vs arbitrary: i pre)
  case (Cons v vs)
  then have v: "value_ok v" by simp
  have i: "sint (word_of_nat i :: 32 word) = int i"
    using Cons.prems(2) by (simp add: signed_of_nat signed_take_bit_int_eq_self_iff)
  let ?b = "rec_body v (snd (rec_serial v))" and ?bs = "concat (map (\<lambda>v. rec_body v (snd (rec_serial v))) vs)"
  have IH: "dec_bodies (map (fst \<circ> rec_serial) vs) (Suc i) mx ((pre @ ?b) @ ?bs @ rest) (length (pre @ ?b)) =
    Inr (map stored_value (take (mx - Suc i) vs))"
    using Cons.prems by (intro Cons.IH) simp_all
  have "take (mx - i) (v # vs) = (if i < mx then v # take (mx - Suc i) vs else [])" by (cases "mx - i") (auto simp: diff_Suc split: nat.splits)
  then show ?case
    using IH read_body_encoded [OF v, of pre "?bs @ rest"]
    by (simp add: Let_def serial_body_len_value [OF v] rec_body_length [OF v] i comp_def)
qed simp

lemma decode_record_bytes [tdb_codec]:
  assumes "list_all value_ok vs" "length vs < 2 ^ 31" "16 < length vs \<Longrightarrow> ok (8 * length vs)"
  shows "tdb_record_decode ok (record_bytes vs @ rest) mx =
    Dec_ok (map stored_value (take mx vs)) (int (length vs))"
proof -
  let ?n = "word_of_nat (length vs) :: u64"
  let ?tys = "concat (map tdb_put_varint (map (fst \<circ> rec_serial) vs))"
  let ?bodies = "concat (map (\<lambda>v. rec_body v (snd (rec_serial v))) vs)"
  have n: "unat ?n = length vs" using assms(2) by (simp add: unat_of_nat)
  have gt: "16 < ?n \<longleftrightarrow> 16 < length vs" by (simp only: word_less_nat_alt n) simp
  have bytes: "record_bytes vs @ rest = tdb_put_varint ?n @ ?tys @ ?bodies @ rest"
    by (simp add: record_bytes_def comp_def)
  have size: "8 * length vs mod 2 ^ 64 = 8 * length vs" using assms(2) by simp
  have ty: "dec_types (length vs) 0 (if 16 < length vs then length vs else 16) (tdb_put_varint ?n @ ?tys @ ?bodies @ rest) (length (tdb_put_varint ?n)) =
      Inr (map (fst \<circ> rec_serial) vs, length (tdb_put_varint ?n @ ?tys))"
    using dec_types_encoded [of 0 "map (fst \<circ> rec_serial) vs"] by simp
  have bd: "dec_bodies (map (fst \<circ> rec_serial) vs) 0 mx (tdb_put_varint ?n @ ?tys @ ?bodies @ rest) (length (tdb_put_varint ?n @ ?tys)) =
      Inr (map stored_value (take mx vs))"
    using dec_bodies_encoded [OF assms(1), of 0 mx "tdb_put_varint ?n @ ?tys" rest] assms(2) by simp
  have rd: "read_varint (tdb_put_varint ?n @ ?tys @ ?bodies @ rest) 0 (length (tdb_put_varint ?n @ ?tys @ ?bodies @ rest)) = Inr (length (tdb_put_varint ?n), ?n)"
    using read_put_varint [of "[]" ?n "?tys @ ?bodies @ rest"] by simp
  show ?thesis
    using assms(3) word_len_half(3) [OF assms(2)] ty bd
    by (simp only: tdb_record_decode_def bytes rd sum.case prod.case Let_def n gt size) (cases "16 < length vs"; simp)
qed

lemma record_encode_succeeds: "fst (tdb_record_encode (\<lambda>_. True) vals b) = TDB_OK"
proof -
  have reserve: "fst (tdb_buf_reserve (\<lambda>_. True) c k) = TDB_OK" for c k
    by (simp add: tdb_buf_reserve_def Let_def)
  have varint: "\<exists>c'. tdb_buf_put_varint (\<lambda>_. True) c v = (TDB_OK, c')" for c v
    using reserve [of c 10] by (cases "tdb_buf_reserve (\<lambda>_. True) c 10") (simp add: tdb_buf_put_varint_def)
  have types: "\<exists>c'. enc_types (\<lambda>_. True) sts c = (TDB_OK, c')" for sts c
  proof (induction sts arbitrary: c)
    case (Cons st sts)
    obtain c1 where "tdb_buf_put_varint (\<lambda>_. True) c st = (TDB_OK, c1)" using varint by blast
    with Cons.IH [of c1] show ?case by simp
  qed simp
  have bodies: "\<exists>c'. enc_bodies (\<lambda>_. True) vs c = (TDB_OK, c')" for vs c
  proof (induction vs arbitrary: c)
    case (Cons v vs)
    obtain c1 where "tdb_buf_reserve (\<lambda>_. True) c (snd (rec_serial v) + 8) = (TDB_OK, c1)"
      using reserve [of c "snd (rec_serial v) + 8"] by (metis prod.collapse)
    with Cons.IH show ?case by (simp add: Let_def)
  qed simp
  obtain b1 b2 b3 where "tdb_buf_put_varint (\<lambda>_. True) b (word_of_nat (length vals)) = (TDB_OK, b1)"
    "enc_types (\<lambda>_. True) (map (fst \<circ> rec_serial) vals) b1 = (TDB_OK, b2)"
    "enc_bodies (\<lambda>_. True) vals b2 = (TDB_OK, b3)"
    using varint types bodies by blast
  then show ?thesis by (simp add: tdb_record_encode_def Let_def)
qed

section \<open>Memory safety of the decoder\<close>

lemma read_varint_safe:
  assumes "off \<le> length p"
  shows "read_varint p off (length p - off) \<noteq> Inl Dec_oob"
    "read_varint p off (length p - off) = Inr (adv, v) \<Longrightarrow> 0 < adv \<and> off + adv \<le> length p"
  using assms get_varint_bounds [of "drop off p" "length p - off"] by (auto simp: read_varint_def split: option.splits)

lemma dec_types_safe:
  assumes "off \<le> length p" "i + n \<le> slots"
  shows "case dec_types n i slots p off of Inl e \<Rightarrow> e \<noteq> Dec_oob | Inr (sts, q) \<Rightarrow> q \<le> length p \<and> off + length sts \<le> q"
  using assms
proof (induction n arbitrary: i off)
  case (Suc n)
  show ?case
  proof (cases "read_varint p off (length p - off)")
    case (Inl e)
    then show ?thesis using read_varint_safe(1) [OF Suc.prems(1)] by auto
  next
    case (Inr r)
    obtain adv st where r: "read_varint p off (length p - off) = Inr (adv, st)" using Inr by (cases r) simp
    from Suc.IH [of "off + adv" "Suc i"] read_varint_safe(2) [OF Suc.prems(1) r] Suc.prems(2) show ?thesis
      by (simp add: r split: sum.splits prod.splits)
  qed
qed simp

lemma dec_bodies_safe:
  "dec_bodies sts i mx p off = Inl e \<Longrightarrow> i + length sts \<le> 2 ^ 31 \<Longrightarrow> e \<noteq> Dec_oob"
proof (induction sts arbitrary: i off e)
  case (Cons st sts)
  have i: "sint (word_of_nat i :: 32 word) = int i"
    using Cons.prems(2) by (simp add: signed_of_nat signed_take_bit_int_eq_self_iff)
  have "read_body st p off (nat (serial_body_len st)) \<noteq> None"
    if "0 \<le> serial_body_len st" "off + nat (serial_body_len st) \<le> length p"
    using that body_extent_le [of st] by (simp add: read_body_def)
  with Cons i show ?case by (fastforce simp: Let_def split: if_splits sum.splits option.splits)
qed simp

lemma record_decode_safe:
  assumes "length p \<le> 2 ^ 31" and "\<And>adv n. tdb_get_varint p (length p) = Some (adv, n) \<Longrightarrow> n < 2 ^ 61"
  shows "tdb_record_decode ok p mx \<noteq> Dec_oob"
proof (cases "read_varint p 0 (length p)")
  case (Inl e)
  then show ?thesis using read_varint_safe(1) [of 0 p] by (auto simp: tdb_record_decode_def)
next
  case (Inr an)
  obtain adv n where an: "read_varint p 0 (length p) = Inr (adv, n)" using Inr by (cases an) simp
  then have "n < 2 ^ 61" using assms(2) by (auto simp: read_varint_def split: option.splits)
  then have n: "unat n < 2 ^ 61" by (simp add: word_less_nat_alt)
  have adv: "adv \<le> length p" using read_varint_safe(2) [of 0 p adv n] an by simp
  define slots where "slots = (if n > 16 then (8 * unat n) mod 2 ^ 64 div 8 else 16)"
  have slots: "0 + unat n \<le> slots"
    using n by (auto simp: slots_def word_less_nat_alt)
  note types = dec_types_safe [OF adv slots]
  show ?thesis
  proof (cases "dec_types (unat n) 0 slots p adv")
    case (Inl e)
    with types an show ?thesis by (auto simp: tdb_record_decode_def Let_def slots_def)
  next
    case (Inr r)
    obtain sts q where r: "r = (sts, q)" by force
    with types Inr have "0 + length sts \<le> 2 ^ 31" using assms(1) by simp
    with dec_bodies_safe [of sts 0 mx p q] an Inr r show ?thesis
      by (auto simp: tdb_record_decode_def Let_def slots_def split: sum.splits)
  qed
qed

section \<open>Key comparison\<close>

text \<open>The key description has a collation and a direction for each of the first \<open>n\<close> columns.\<close>

definition ki_covers :: "tdb_keyinfo option \<Rightarrow> nat \<Rightarrow> bool" where
  "ki_covers ki n \<longleftrightarrow> list_all (\<lambda>i. key_coll ki i \<noteq> None \<and> key_desc ki i \<noteq> None) [0..<n]"

text \<open>What one column contributes: the comparison under its collation, negated if descending.\<close>

definition col_cmp :: "tdb_keyinfo option \<Rightarrow> nat \<Rightarrow> tdb_value \<Rightarrow> tdb_value \<Rightarrow> int" where
  "col_cmp ki i a b =
     (let c = tdb_value_compare a b (the (key_coll ki i)) in if the (key_desc ki i) then - c else c)"

lemma ki_coversD: "ki_covers ki n \<Longrightarrow> i < n \<Longrightarrow> \<exists>c d. key_coll ki i = Some c \<and> key_desc ki i = Some d"
  by (auto simp: ki_covers_def list_all_iff)

lemma cmp_cols_step:
  assumes "ki_covers ki m" "i < m"
  shows "cmp_cols ki (Suc n) i (a # va) (b # vb) =
    (if col_cmp ki i a b \<noteq> 0 then Some (col_cmp ki i a b) else cmp_cols ki n (Suc i) va vb)"
  using ki_coversD [OF assms] by (auto simp: col_cmp_def Let_def)

lemma cmp_cols_first:
  assumes "ki_covers ki (i + n)" "length va = n" "length vb = n"
  shows "cmp_cols ki n i va vb =
    Some (case filter (\<lambda>j. col_cmp ki (i + j) (va ! j) (vb ! j) \<noteq> 0) [0..<n] of
            [] \<Rightarrow> 0 | j # _ \<Rightarrow> col_cmp ki (i + j) (va ! j) (vb ! j))"
  using assms
proof (induction n arbitrary: i va vb)
  case (Suc n)
  obtain a va' b vb' where v: "va = a # va'" "vb = b # vb'" "length va' = n" "length vb' = n"
    using Suc.prems by (cases va; cases vb) auto
  have "[0..<Suc n] = 0 # map Suc [0..<n]" by (simp add: upt_conv_Cons map_Suc_upt del: upt_Suc)
  moreover have "cmp_cols ki n (Suc i) va' vb' =
    Some (case filter (\<lambda>j. col_cmp ki (Suc i + j) (va' ! j) (vb' ! j) \<noteq> 0) [0..<n] of
            [] \<Rightarrow> 0 | j # _ \<Rightarrow> col_cmp ki (Suc i + j) (va' ! j) (vb' ! j))"
    using Suc.prems v by (intro Suc.IH) simp_all
  ultimately show ?case
    using cmp_cols_step [OF Suc.prems(1), of i n] v(1,2)
    by (auto simp: filter_map comp_def simp del: cmp_cols.simps upt_Suc split: list.splits)
qed simp

lemma record_compare_columns:
  assumes "list_all value_ok xs" "list_all value_ok ys" "length xs = n" "length ys = n"
    and "n \<le> key_max ki" "ki_covers ki n"
  shows "tdb_record_compare ok (record_bytes xs) (record_bytes ys) ki =
    cmp_cols ki n 0 (map stored_value xs) (map stored_value ys)"
proof -
  have "key_max ki \<le> 16" by (auto simp: key_max_def split: option.splits)
  with assms have n: "n \<le> 16" by simp
  have "tdb_record_decode ok (record_bytes vs) (key_max ki) = Dec_ok (map stored_value vs) (int n)"
    if "list_all value_ok vs" "length vs = n" for vs
    using decode_record_bytes [of vs ok "[]" "key_max ki"] that n assms(5) by simp
  with assms cmp_cols_first [of ki 0 n "map stored_value xs" "map stored_value ys"] show ?thesis
    by (simp add: tdb_record_compare_def)
qed

section \<open>Properties\<close>

text \<open>
  C16: Whatever \<open>tdb_record_encode\<close> appended to a buffer, \<open>tdb_record_decode\<close> reads back: the
  first \<open>mx\<close> values and the number of columns, for every list of values whose lengths are
  \<^verbatim>\<open>int\<close>s, a composite field coming back as a blob. The encoder reports no other error
  than \<open>TDB_NOMEM\<close>, and none when every allocation succeeds.
\<close>

theorem record_roundtrip:
  assumes "list_all value_ok vals" "length vals < 2 ^ 31"
  shows "(case tdb_record_encode ok vals b of
            (TDB_OK, b') \<Rightarrow>
              take (buf_len b) (data b') = data b \<and>
              tdb_record_decode ok (drop (buf_len b) (data b')) mx =
                Dec_ok (map stored_value (take mx vals)) (int (length vals))
          | (rc, _) \<Rightarrow> rc = TDB_NOMEM) \<and>
         fst (tdb_record_encode (\<lambda>_. True) vals b) = TDB_OK"
proof -
  obtain rc b' where e: "tdb_record_encode ok vals b = (rc, b')" by force
  then have "rc = TDB_OK \<Longrightarrow> 16 < length vals \<Longrightarrow> ok (8 * length vals)"
    by (auto simp: tdb_record_encode_def Let_def split: if_splits)
  with record_encode_cases [OF e] decode_record_bytes [OF assms, of ok "[]" mx] e show ?thesis
    by (auto simp: buf_len_def record_encode_succeeds)
qed

theorem record_roundtrip_witness:
  "let vals = [TDB_VAL_INT (- 300), TDB_VAL_NULL, TDB_VAL_TEXT [104, 105], TDB_VAL_COMPOSITE [1]] in
   list_all value_ok vals \<and>
   (case tdb_record_encode (\<lambda>_. True) vals tdb_buf_init of
      (TDB_OK, b') \<Rightarrow> tdb_record_decode (\<lambda>_. True) (data b') 4 =
        Dec_ok [TDB_VAL_INT (- 300), TDB_VAL_NULL, TDB_VAL_TEXT [104, 105], TDB_VAL_BLOB [1]] 4
    | _ \<Rightarrow> False)"
  using record_roundtrip [where ok = "\<lambda>_. True" and b = tdb_buf_init and mx = 4 and
      vals = "[TDB_VAL_INT (- 300), TDB_VAL_NULL, TDB_VAL_TEXT [104, 105], TDB_VAL_COMPOSITE [1]]"]
  by (auto simp: tdb_buf_init_def buf_len_def split: prod.splits tdb_status.splits)

text \<open>
  Packing fields into a composite and taking it apart again gives the number of fields and
  each field, a nested composite coming back as a blob; an index past the last field is
  \<open>TDB_RANGE\<close>.
\<close>

theorem composite_roundtrip:
  assumes "list_all value_ok fds" "length fds < 2 ^ 31"
  shows "\<exists>v. tdb_value_composite_pack (\<lambda>_. True) fds = (TDB_OK, Some v) \<and>
    tdb_value_composite_count (\<lambda>_. True) v = Some (int (length fds)) \<and>
    tdb_value_composite_field (\<lambda>_. True) v i =
      Some (if i < length fds then (TDB_OK, stored_value (fds ! i)) else (TDB_RANGE, TDB_VAL_NULL))"
proof -
  obtain b where b: "tdb_record_encode (\<lambda>_. True) fds tdb_buf_init = (TDB_OK, b)"
    using record_encode_succeeds [of fds tdb_buf_init] by (metis prod.collapse)
  with record_encode_cases [OF b] have "data b = record_bytes fds" by (simp add: tdb_buf_init_def)
  moreover have "tdb_record_decode (\<lambda>_. True) (record_bytes fds) mx =
      Dec_ok (map stored_value (take mx fds)) (int (length fds))" for mx
    using decode_record_bytes [OF assms, of "\<lambda>_. True" "[]" mx] by simp
  ultimately show ?thesis
    using b by (simp add: tdb_value_composite_pack_def tdb_value_composite_count_def tdb_value_composite_field_def)
qed

theorem composite_roundtrip_witness:
  "\<exists>v. tdb_value_composite_pack (\<lambda>_. True) [TDB_VAL_INT 5, TDB_VAL_COMPOSITE [0]] = (TDB_OK, Some v) \<and>
     tdb_value_composite_field (\<lambda>_. True) v 1 = Some (TDB_OK, TDB_VAL_BLOB [0])"
  using composite_roundtrip [of "[TDB_VAL_INT 5, TDB_VAL_COMPOSITE [0]]" 1] by auto

text \<open>
  C31: Decoding any byte string of at most \<open>2\<^sup>3\<^sup>1\<close> bytes, corrupt or not, reads and borrows only
  bytes of that string and stores only inside the scratch array and inside the caller's array,
  provided the column count it claims is below \<open>2\<^sup>6\<^sup>1\<close>.
\<close>

theorem record_decode_in_bounds:
  assumes "length p \<le> 2 ^ 31"
    and "case tdb_get_varint p (length p) of Some (_, n) \<Rightarrow> n < 2 ^ 61 | None \<Rightarrow> True"
  shows "tdb_record_decode ok p mx \<noteq> Dec_oob"
  using assms by (intro record_decode_safe) auto

text \<open>A record with an integer column of two bytes and a text of 40, of which it holds only two.\<close>

theorem record_decode_in_bounds_witness:
  "tdb_record_decode (\<lambda>_. True) [2, 2, 93, 1, 0, 65, 66] 3 \<noteq> Dec_oob \<and>
   dec_types (Suc (Suc 0)) 0 16 [2, 2, 93, 1, 0, 65, 66] 1 = Inr ([2, 93], 3) \<and>
   dec_bodies [2, 93] 0 3 [2, 2, 93, 1, 0, 65, 66] 3 = Inl (Dec_err TDB_CORRUPT)"
proof -
  have v: "tdb_get_varint [2, 2, 93, 1, 0, 65, 66] (length [2, 2, 93, 1, 0, 65, 66 :: byte]) = Some (1, 2)"
    by (simp add: tdb_get_varint_def Let_def)
  then have "tdb_record_decode (\<lambda>_. True) [2, 2, 93, 1, 0, 65, 66] 3 \<noteq> Dec_oob" by (intro record_decode_in_bounds) simp_all
  moreover have "dec_types (Suc (Suc 0)) 0 16 [2, 2, 93, 1, 0, 65, 66] 1 = Inr ([2, 93], 3)"
    by (simp add: read_varint_def tdb_get_varint_def Let_def)
  moreover have "dec_bodies [2, 93] 0 3 [2, 2, 93, 1, 0, 65, 66] 3 = Inl (Dec_err TDB_CORRUPT)"
    by (simp add: serial_body_len_def read_body_def body_extent_def Let_def)
  ultimately show ?thesis by blast
qed

text \<open>
  C38: Without that proviso it does not: a record of ten bytes that claims \<open>2\<^sup>6\<^sup>1\<close> columns makes
  the size computation \<^verbatim>\<open>sizeof(uint64_t) * n\<close> wrap to 0, and the first serial type is
  stored outside the allocation.
\<close>

theorem record_decode_count_overflow:
  "tdb_record_decode (\<lambda>_. True) (tdb_put_varint (2 ^ 61) @ [0]) mx = Dec_oob"
proof -
  have n: "unat (2 ^ 61 :: u64) = Suc (2 ^ 61 - 1)" by simp
  have "tdb_get_varint [0] (length [0 :: byte]) = Some (1, 0)" by (simp add: tdb_get_varint_def Let_def)
  then have "dec_types (Suc m) 0 0 (tdb_put_varint (2 ^ 61) @ [0]) (length (tdb_put_varint (2 ^ 61))) = Inl Dec_oob" for m
    by (simp add: read_varint_def)
  then have "dec_types (unat (2 ^ 61 :: u64)) 0 0 (tdb_put_varint (2 ^ 61) @ [0]) (length (tdb_put_varint (2 ^ 61))) = Inl Dec_oob" by (simp only: n)
  then show ?thesis
    using read_put_varint [of "[]" "2 ^ 61" "[0]"] by (simp add: tdb_record_decode_def Let_def)
qed

text \<open>
  C30: Two encoded keys of the same number of columns, at most \<open>key_max ki\<close>, compare as their
  first differing column does, under that column's collation and direction, and equal if no
  column differs.
\<close>

theorem record_compare_lexicographic:
  assumes "list_all value_ok xs" "list_all value_ok ys" "length xs = n" "length ys = n"
    and "n \<le> key_max ki" "ki_covers ki n"
  shows "tdb_record_compare ok (record_bytes xs) (record_bytes ys) ki =
    Some (case filter (\<lambda>j. col_cmp ki j (stored_value (xs ! j)) (stored_value (ys ! j)) \<noteq> 0) [0..<n] of
            [] \<Rightarrow> 0
          | j # _ \<Rightarrow> col_cmp ki j (stored_value (xs ! j)) (stored_value (ys ! j)))"
proof -
  let ?F = "filter (\<lambda>j. col_cmp ki j (stored_value (xs ! j)) (stored_value (ys ! j)) \<noteq> 0) [0..<n]"
  have eq: "filter (\<lambda>j. col_cmp ki j (map stored_value xs ! j) (map stored_value ys ! j) \<noteq> 0) [0..<n] = ?F"
    using assms(3,4) by (intro filter_cong) simp_all
  have cmp: "tdb_record_compare ok (record_bytes xs) (record_bytes ys) ki =
    Some (case ?F of [] \<Rightarrow> 0 | j # _ \<Rightarrow> col_cmp ki j (map stored_value xs ! j) (map stored_value ys ! j))"
    using assms cmp_cols_first [of ki 0 n "map stored_value xs" "map stored_value ys", unfolded add_0]
    by (simp add: record_compare_columns [OF assms] eq)
  show ?thesis
  proof (cases ?F)
    case Nil
    then show ?thesis using cmp by simp
  next
    case (Cons j js)
    then have "j \<in> set ?F" by simp
    then have "j < n" by simp
    with Cons cmp assms(3,4) show ?thesis by simp
  qed
qed

theorem record_compare_lexicographic_witness:
  "let ki = Some \<lparr>ki_ncol = 2, ki_coll = Some [TDB_COLL_NOCASE, TDB_COLL_BINARY], ki_desc = Some [False, True]\<rparr>
   in tdb_record_compare (\<lambda>_. True) (record_bytes [TDB_VAL_TEXT [65], TDB_VAL_INT 1])
        (record_bytes [TDB_VAL_TEXT [97], TDB_VAL_INT 2]) ki = Some 1"
proof -
  let ?ki = "Some \<lparr>ki_ncol = 2, ki_coll = Some [TDB_COLL_NOCASE, TDB_COLL_BINARY], ki_desc = Some [False, True]\<rparr>"
  have col: "col_cmp ?ki 0 (TDB_VAL_TEXT [65]) (TDB_VAL_TEXT [97]) = 0"
    "col_cmp ?ki 1 (TDB_VAL_INT 1) (TDB_VAL_INT 2) = 1"
    by (simp_all add: col_cmp_def key_coll_def key_desc_def compare_cases cmp_text_def c_tolower_def)
  show ?thesis
    using record_compare_lexicographic [of "[TDB_VAL_TEXT [65], TDB_VAL_INT 1]"
        "[TDB_VAL_TEXT [97], TDB_VAL_INT 2]" 2 ?ki "\<lambda>_. True"] col
    by (auto simp: key_max_def ki_covers_def key_coll_def key_desc_def upt_rec)
qed

text \<open>
  C39: A key with more columns than the 16 (or \<open>ncol\<close>) that are decoded makes
  \<open>tdb_record_compare\<close> use array slots it never initialised, whatever the other key is.
\<close>

theorem record_compare_too_many_columns:
  assumes "list_all value_ok xs" "key_max ki < length xs" "length xs < 2 ^ 31"
    and "list_all value_ok ys" "length ys < 2 ^ 31"
  shows "tdb_record_compare (\<lambda>_. True) (record_bytes xs) (record_bytes ys) ki = None"
  using decode_record_bytes [of xs "\<lambda>_. True" "[]" "key_max ki"]
    decode_record_bytes [of ys "\<lambda>_. True" "[]" "key_max ki"] assms
  by (auto simp: tdb_record_compare_def split: option.splits)

theorem record_compare_too_many_columns_witness:
  "tdb_record_compare (\<lambda>_. True) (record_bytes (replicate 17 (TDB_VAL_INT 1)))
     (record_bytes (replicate 17 (TDB_VAL_INT 2))) None = None"
  by (intro record_compare_too_many_columns) (simp_all add: key_max_def list_all_iff)

end
