(* ===== verification/Tdb_Bt_Page.thy ===== *)
theory Tdb_Bt_Page
  imports Tdb_Freelist Tdb_Record
begin

text \<open>
  The page layer of \<^verbatim>\<open>src/storage/tdb_btree.c\<close>: the accessors of a B-tree page, its cells, the
  space management inside a page and the search in it. A page is its image, the bytes at
  \<^verbatim>\<open>pg->data\<close>; a function that stores into it returns the new image. A cell is read from its
  pointer on. Where a page is not well formed C reads past its end or uses a length it never
  set; a malformed varint here reads as zero, and the invariant \<open>page_ok\<close> excludes it.
\<close>

section \<open>Trees and the comparison of keys\<close>

datatype tdb_btree_kind = TDB_BT_TABLE | TDB_BT_INDEX

record tdb_btree =
  bt_root :: u32
  bt_kind :: tdb_btree_kind
  bt_ki :: "tdb_keyinfo option"
  bt_ps :: nat

text \<open>
  A comparison of records whose C code reads uninitialised slots has no result; it counts as
  equal here.
\<close>

definition bt_cmp :: "(nat \<Rightarrow> bool) \<Rightarrow> tdb_btree \<Rightarrow> bytes \<Rightarrow> bytes \<Rightarrow> int" where
  "bt_cmp ok bt a b =
     (if bt_kind bt = TDB_BT_TABLE then c_memcmp (take 8 a) (take 8 b)
      else
        (case bt_ki bt of
           Some ki \<Rightarrow> (case tdb_record_compare ok a b (Some ki) of Some c \<Rightarrow> c | None \<Rightarrow> 0)
         | None \<Rightarrow>
             (let n = (if length a < length b then length a else length b);
                  c = c_memcmp (take n a) (take n b)
              in
              if c \<noteq> 0 then (if c < 0 then -1 else 1)
              else if length a = length b then 0 else if length a < length b then -1 else 1)))"

definition rowid_to_key :: "u64 \<Rightarrow> bytes" where
  "rowid_to_key r = tdb_put_u64 r"

definition key_to_rowid :: "bytes \<Rightarrow> u64" where
  "key_to_rowid k = tdb_get_u64 k"

section \<open>Page accessors\<close>

definition TDB_PAGE_INTERIOR_TABLE :: byte where "TDB_PAGE_INTERIOR_TABLE = 0x05"
definition TDB_PAGE_LEAF_TABLE :: byte where "TDB_PAGE_LEAF_TABLE = 0x0D"
definition TDB_PAGE_INTERIOR_INDEX :: byte where "TDB_PAGE_INTERIOR_INDEX = 0x02"
definition TDB_PAGE_LEAF_INDEX :: byte where "TDB_PAGE_LEAF_INDEX = 0x0A"

definition is_leaf_type :: "byte \<Rightarrow> bool" where
  "is_leaf_type t \<longleftrightarrow> t = TDB_PAGE_LEAF_TABLE \<or> t = TDB_PAGE_LEAF_INDEX"

definition pg_type :: "bytes \<Rightarrow> byte" where
  "pg_type d = d ! 0"

definition pg_is_leaf :: "bytes \<Rightarrow> bool" where
  "pg_is_leaf d = is_leaf_type (pg_type d)"

definition pg_hdrsize :: "bytes \<Rightarrow> nat" where
  "pg_hdrsize d = (if pg_is_leaf d then 8 else 12)"

definition pg_ncell :: "bytes \<Rightarrow> nat" where
  "pg_ncell d = unat (tdb_get_u16 (drop 3 d))"

definition pg_set_ncell :: "bytes \<Rightarrow> nat \<Rightarrow> bytes" where
  "pg_set_ncell d n = patch 3 (tdb_put_u16 (word_of_nat n)) d"

definition pg_content :: "nat \<Rightarrow> bytes \<Rightarrow> nat" where
  "pg_content ps d = (let c = tdb_get_u16 (drop 5 d) in if c \<noteq> 0 then unat c else ps)"

definition pg_set_content :: "nat \<Rightarrow> bytes \<Rightarrow> nat \<Rightarrow> bytes" where
  "pg_set_content ps d c = patch 5 (tdb_put_u16 (if c = ps then 0 else word_of_nat c)) d"

definition pg_right :: "bytes \<Rightarrow> u32" where
  "pg_right d = tdb_get_u32 (drop 8 d)"

definition pg_set_right :: "bytes \<Rightarrow> u32 \<Rightarrow> bytes" where
  "pg_set_right d c = patch 8 (tdb_put_u32 c) d"

definition cellptr_at :: "bytes \<Rightarrow> nat \<Rightarrow> nat" where
  "cellptr_at d i = unat (tdb_get_u16 (drop (pg_hdrsize d + i * 2) d))"

definition cellptr_set :: "bytes \<Rightarrow> nat \<Rightarrow> nat \<Rightarrow> bytes" where
  "cellptr_set d i off = patch (pg_hdrsize d + i * 2) (tdb_put_u16 (word_of_nat off)) d"

definition init_page :: "nat \<Rightarrow> byte \<Rightarrow> bytes" where
  "init_page ps type =
     pg_set_content ps (pg_set_ncell (patch 0 [type] (replicate ps 0)) 0) ps"

section \<open>Cells\<close>

record leafcell =
  lc_key :: bytes
  lc_off :: nat
  lc_lval :: bytes
  lc_local :: nat
  lc_vlen :: nat
  lc_ovfl :: u32

definition local_val_len :: "nat \<Rightarrow> nat \<Rightarrow> nat \<Rightarrow> nat" where
  "local_val_len ps klen vlen =
     (let maxpayload = (int ps - 12) div 4;
          hdr = int (tdb_varint_len (word_of_nat klen)) + int klen + int (tdb_varint_len (word_of_nat vlen))
      in
      if hdr + int vlen \<le> maxpayload then vlen
      else
        (let budget = maxpayload - hdr - 4;
             budget = (if budget < 0 then 0 else budget);
             budget = (if int vlen < budget then int vlen else budget)
         in nat budget))"

definition varint_at :: "bytes \<Rightarrow> nat \<times> nat" where
  "varint_at p = (case tdb_get_varint p 10 of Some (a, v) \<Rightarrow> (a, unat v) | None \<Rightarrow> (0, 0))"

definition leafcell_at :: "nat \<Rightarrow> bytes \<Rightarrow> leafcell" where
  "leafcell_at ps p =
     (case varint_at p of
        (a, kl) \<Rightarrow>
          (case varint_at (drop (a + kl) p) of
             (b, vl) \<Rightarrow>
               (let local = local_val_len ps kl vl; off = a + kl + b in
                \<lparr>lc_key = take kl (drop a p), lc_off = off, lc_lval = take local (drop off p), lc_local = local,
                 lc_vlen = vl, lc_ovfl = (if local < vl then tdb_get_u32 (drop (off + local) p) else 0)\<rparr>)))"

definition read_leafcell :: "nat \<Rightarrow> bytes \<Rightarrow> nat \<Rightarrow> leafcell" where
  "read_leafcell ps d i = leafcell_at ps (drop (cellptr_at d i) d)"

definition intcell_child :: "bytes \<Rightarrow> nat \<Rightarrow> u32" where
  "intcell_child d i = tdb_get_u32 (drop (cellptr_at d i) d)"

definition set_intcell_child :: "bytes \<Rightarrow> nat \<Rightarrow> u32 \<Rightarrow> bytes" where
  "set_intcell_child d i c = patch (cellptr_at d i) (tdb_put_u32 c) d"

definition intcell_key :: "bytes \<Rightarrow> nat \<Rightarrow> bytes" where
  "intcell_key d i =
     (let p = drop (cellptr_at d i + 4) d in case varint_at p of (a, l) \<Rightarrow> take l (drop a p))"

definition leaf_cell_size :: "nat \<Rightarrow> bytes \<Rightarrow> nat \<Rightarrow> nat" where
  "leaf_cell_size ps d i =
     (let lc = read_leafcell ps d i in lc_off lc + lc_local lc + (if lc_ovfl lc \<noteq> 0 then 4 else 0))"

definition int_cell_size :: "bytes \<Rightarrow> nat \<Rightarrow> nat" where
  "int_cell_size d i = (case varint_at (drop (cellptr_at d i + 4) d) of (a, l) \<Rightarrow> 4 + a + l)"

definition cell_size :: "nat \<Rightarrow> bytes \<Rightarrow> nat \<Rightarrow> nat" where
  "cell_size ps d i = (if pg_is_leaf d then leaf_cell_size ps d i else int_cell_size d i)"

definition cell_key :: "nat \<Rightarrow> bytes \<Rightarrow> nat \<Rightarrow> bytes" where
  "cell_key ps d i = (if pg_is_leaf d then lc_key (read_leafcell ps d i) else intcell_key d i)"

section \<open>Space inside a page\<close>

definition free_contig :: "nat \<Rightarrow> bytes \<Rightarrow> int" where
  "free_contig ps d = int (pg_content ps d) - int (pg_hdrsize d + pg_ncell d * 2)"

text \<open>
  The loop of \<^verbatim>\<open>pg_defrag\<close>: the scratch page, the write position and the new offsets. Without
  memory for the scratch page nothing happens.
\<close>

definition defrag_cell :: "nat \<Rightarrow> bytes \<Rightarrow> bytes \<times> nat \<times> nat list \<Rightarrow> nat \<Rightarrow> bytes \<times> nat \<times> nat list" where
  "defrag_cell ps d s i =
     (case s of
        (scratch, write, offs) \<Rightarrow>
          (let sz = cell_size ps d i; src = cellptr_at d i; write' = write - sz
           in (patch write' (slice src sz d) scratch, write', offs @ [write'])))"

definition set_ptrs :: "bytes \<Rightarrow> nat list \<Rightarrow> bytes" where
  "set_ptrs d offs = foldl (\<lambda>d i. cellptr_set d i (offs ! i)) d [0..<length offs]"

definition pg_defrag :: "(nat \<Rightarrow> bool) \<Rightarrow> nat \<Rightarrow> bytes \<Rightarrow> bytes" where
  "pg_defrag ok ps d =
     (if \<not> ok ps then d
      else
        (case foldl (defrag_cell ps d) (replicate ps 0, ps, []) [0..<pg_ncell d] of
           (scratch, write, offs) \<Rightarrow>
             pg_set_content ps (set_ptrs (patch write (drop write scratch) d) offs) write))"

definition shift_up :: "bytes \<Rightarrow> nat \<Rightarrow> nat \<Rightarrow> bytes" where
  "shift_up d index n = foldl (\<lambda>d j. cellptr_set d j (cellptr_at d (j - 1))) d (rev [Suc index..<Suc n])"

definition insert_cell :: "(nat \<Rightarrow> bool) \<Rightarrow> nat \<Rightarrow> bytes \<Rightarrow> nat \<Rightarrow> bytes \<Rightarrow> tdb_status \<times> bytes" where
  "insert_cell ok ps d index cell =
     (let csize = int (length cell);
          d1 = (if free_contig ps d < csize + 2 then pg_defrag ok ps d else d)
      in
      if free_contig ps d1 < csize + 2 then (TDB_FULL, d1)
      else
        (let off = pg_content ps d1 - length cell;
             d2 = pg_set_content ps (patch off cell d1) off;
             n = pg_ncell d2;
             d3 = cellptr_set (shift_up d2 index n) index off
         in (TDB_OK, pg_set_ncell d3 (n + 1))))"

definition shift_down :: "bytes \<Rightarrow> nat \<Rightarrow> nat \<Rightarrow> bytes" where
  "shift_down d index m = foldl (\<lambda>d j. cellptr_set d j (cellptr_at d (j + 1))) d [index..<m]"

definition delete_cell :: "bytes \<Rightarrow> nat \<Rightarrow> bytes" where
  "delete_cell d index =
     (let n = pg_ncell d in pg_set_ncell (shift_down d index (n - 1)) (n - 1))"

text \<open>The binary search; the page is not changed.\<close>

function find_loop :: "(nat \<Rightarrow> int) \<Rightarrow> nat \<Rightarrow> nat \<Rightarrow> nat" where
  "find_loop c lo hi =
     (if lo < hi then
        (let mid = (lo + hi) div 2 in
         if c mid < 0 then find_loop c (mid + 1) hi else find_loop c lo mid)
      else lo)"
  by pat_completeness auto

termination find_loop
  by (relation "measure (\<lambda>(c, lo, hi). hi - lo)") auto

declare find_loop.simps [simp del]

definition pg_find :: "(nat \<Rightarrow> bool) \<Rightarrow> tdb_btree \<Rightarrow> bytes \<Rightarrow> bytes \<Rightarrow> nat \<times> bool" where
  "pg_find ok bt d key =
     (let lo = find_loop (\<lambda>i. bt_cmp ok bt (cell_key (bt_ps bt) d i) key) 0 (pg_ncell d)
      in (lo, lo < pg_ncell d \<and> bt_cmp ok bt (cell_key (bt_ps bt) d lo) key = 0))"

section \<open>Building cells\<close>

definition leaf_cell :: "nat \<Rightarrow> bytes \<Rightarrow> bytes \<Rightarrow> bytes \<Rightarrow> bytes" where
  "leaf_cell ps key val ov =
     (let local = local_val_len ps (length key) (length val)
      in tdb_put_varint (word_of_nat (length key)) @ key @ tdb_put_varint (word_of_nat (length val)) @ take local val @
         (if local < length val then ov else []))"

definition int_cell :: "u32 \<Rightarrow> bytes \<Rightarrow> bytes" where
  "int_cell child key = tdb_put_u32 child @ tdb_put_varint (word_of_nat (length key)) @ key"

definition build_int_cell :: "(nat \<Rightarrow> bool) \<Rightarrow> u32 \<Rightarrow> bytes \<Rightarrow> tdb_status \<times> bytes" where
  "build_int_cell ok child key =
     (if \<not> ok (4 + tdb_varint_len (word_of_nat (length key)) + length key) then (TDB_NOMEM, [])
      else (TDB_OK, int_cell child key))"

end
