(* ===== verification/Tdb_Bt_Layout.thy ===== *)
theory Tdb_Bt_Layout
  imports Tdb_Bt_Page
begin

text \<open>
  What the page operations do to the cells of a page. The locale \<open>cell_format\<close> is what they need
  of a cell: that its size can be read off its first bytes. \<open>page_ok\<close> relates a page image to the
  list of its cells; insertion, deletion and defragmentation are the list operations.
\<close>

section \<open>Fields\<close>

lemma get_u16_slice: "off + 2 \<le> length d \<Longrightarrow> tdb_get_u16 (drop off d) = tdb_get_u16 (slice off 2 d)"
  by (simp add: tdb_get_u16_def slice_def)

lemma get_u16_patch_same: "off + 2 \<le> length d \<Longrightarrow> tdb_get_u16 (drop off (patch off (tdb_put_u16 v) d)) = v"
  using slice_patch_same [of off "tdb_put_u16 v" d] by (simp add: get_u16_slice)

lemma get_u16_patch_other:
  assumes "off + 2 \<le> length d" "o2 + length b \<le> length d" "off + 2 \<le> o2 \<or> o2 + length b \<le> off"
  shows "tdb_get_u16 (drop off (patch o2 b d)) = tdb_get_u16 (drop off d)"
  using assms by (auto simp: get_u16_slice slice_patch_before slice_patch_after)

text \<open>A store behind the type byte, and one behind the fixed header fields.\<close>

lemma type_patch [simp]:
  assumes "1 \<le> off" "off + length b \<le> length d"
  shows "pg_type (patch off b d) = pg_type d" "pg_is_leaf (patch off b d) = pg_is_leaf d" "pg_hdrsize (patch off b d) = pg_hdrsize d"
proof -
  have "d \<noteq> []" using assms by (cases d) auto
  then show "pg_type (patch off b d) = pg_type d" using assms by (simp add: pg_type_def patch_nth)
  then show "pg_is_leaf (patch off b d) = pg_is_leaf d" by (simp add: pg_is_leaf_def)
  then show "pg_hdrsize (patch off b d) = pg_hdrsize d" by (simp add: pg_hdrsize_def)
qed

lemma hdrsize_range: "8 \<le> pg_hdrsize d" "pg_hdrsize d \<le> 12"
  by (simp_all add: pg_hdrsize_def)

lemma fields_patch:
  assumes "7 \<le> off" "off + length b \<le> length d"
  shows "pg_ncell (patch off b d) = pg_ncell d" "pg_content ps (patch off b d) = pg_content ps d"
  using assms by (simp_all add: pg_ncell_def pg_content_def get_u16_patch_other)

lemma right_patch: "12 \<le> off \<Longrightarrow> off + length b \<le> length d \<Longrightarrow> pg_right (patch off b d) = pg_right d"
  by (simp add: pg_right_def get_u32_patch_other)

lemma ptr_patch:
  assumes "1 \<le> off" "off + length b \<le> length d" "pg_hdrsize d + i * 2 + 2 \<le> length d"
    and "off + length b \<le> pg_hdrsize d + i * 2 \<or> pg_hdrsize d + i * 2 + 2 \<le> off"
  shows "cellptr_at (patch off b d) i = cellptr_at d i"
  using assms get_u16_patch_other [of "pg_hdrsize d + i * 2" d off b] by (auto simp: cellptr_at_def)

lemma word16_nat: "n < 65536 \<Longrightarrow> unat (word_of_nat n :: u16) = n"
  by (simp add: unat_of_nat)

lemma set_ncell:
  assumes "100 \<le> length d"
  shows "length (pg_set_ncell d n) = length d" "n < 65536 \<Longrightarrow> pg_ncell (pg_set_ncell d n) = n"
    "pg_content ps (pg_set_ncell d n) = pg_content ps d" "pg_right (pg_set_ncell d n) = pg_right d"
    "pg_type (pg_set_ncell d n) = pg_type d" "pg_hdrsize (pg_set_ncell d n) = pg_hdrsize d" "pg_is_leaf (pg_set_ncell d n) = pg_is_leaf d"
    "pg_hdrsize d + i * 2 + 2 \<le> length d \<Longrightarrow> cellptr_at (pg_set_ncell d n) i = cellptr_at d i"
    "8 \<le> off \<Longrightarrow> off + k \<le> length d \<Longrightarrow> slice off k (pg_set_ncell d n) = slice off k d"
  using assms hdrsize_range [of d]
  by (auto simp: pg_set_ncell_def pg_ncell_def pg_content_def pg_right_def get_u16_patch_same get_u16_patch_other
    get_u32_patch_other word16_nat ptr_patch slice_patch_after)

lemma set_content:
  assumes "100 \<le> length d" "c \<le> length d" "length d \<le> 65536"
  shows "length (pg_set_content (length d) d c) = length d" "0 < c \<Longrightarrow> pg_content (length d) (pg_set_content (length d) d c) = c"
    "pg_ncell (pg_set_content (length d) d c) = pg_ncell d" "pg_right (pg_set_content (length d) d c) = pg_right d"
    "pg_type (pg_set_content (length d) d c) = pg_type d" "pg_hdrsize (pg_set_content (length d) d c) = pg_hdrsize d"
    "pg_is_leaf (pg_set_content (length d) d c) = pg_is_leaf d"
    "pg_hdrsize d + i * 2 + 2 \<le> length d \<Longrightarrow> cellptr_at (pg_set_content (length d) d c) i = cellptr_at d i"
    "8 \<le> off \<Longrightarrow> off + k \<le> length d \<Longrightarrow> slice off k (pg_set_content (length d) d c) = slice off k d"
proof -
  show "0 < c \<Longrightarrow> pg_content (length d) (pg_set_content (length d) d c) = c"
  proof -
    assume c: "0 < c"
    show ?thesis
    proof (cases "c = length d")
      case False
      then have u: "unat (word_of_nat c :: u16) = c" using assms by (simp add: word16_nat)
      then have "(word_of_nat c :: u16) \<noteq> 0" using c by auto
      with u False assms show ?thesis by (simp add: pg_set_content_def pg_content_def get_u16_patch_same)
    qed (use assms in \<open>simp add: pg_set_content_def pg_content_def get_u16_patch_same\<close>)
  qed
qed (use assms hdrsize_range [of d] in \<open>auto simp: pg_set_content_def pg_ncell_def pg_right_def get_u16_patch_other
    get_u32_patch_other ptr_patch slice_patch_after\<close>)

lemma set_ptr:
  assumes "100 \<le> length d" "pg_hdrsize d + i * 2 + 2 \<le> length d"
  shows "length (cellptr_set d i off) = length d" "pg_ncell (cellptr_set d i off) = pg_ncell d"
    "pg_content ps (cellptr_set d i off) = pg_content ps d" "\<not> pg_is_leaf d \<Longrightarrow> pg_right (cellptr_set d i off) = pg_right d"
    "pg_type (cellptr_set d i off) = pg_type d" "pg_hdrsize (cellptr_set d i off) = pg_hdrsize d"
    "pg_is_leaf (cellptr_set d i off) = pg_is_leaf d"
    "off < 65536 \<Longrightarrow> pg_hdrsize d + j * 2 + 2 \<le> length d \<Longrightarrow>
       cellptr_at (cellptr_set d i off) j = (if j = i then off else cellptr_at d j)"
    "pg_hdrsize d + i * 2 + 2 \<le> a \<Longrightarrow> a + k \<le> length d \<Longrightarrow> slice a k (cellptr_set d i off) = slice a k d"
proof -
  have h: "8 \<le> pg_hdrsize d" by (rule hdrsize_range)
  show "\<not> pg_is_leaf d \<Longrightarrow> pg_right (cellptr_set d i off) = pg_right d"
    using assms by (simp add: cellptr_set_def right_patch pg_hdrsize_def)
  show "off < 65536 \<Longrightarrow> pg_hdrsize d + j * 2 + 2 \<le> length d \<Longrightarrow>
       cellptr_at (cellptr_set d i off) j = (if j = i then off else cellptr_at d j)"
  proof (cases "j = i")
    case True
    then show "off < 65536 \<Longrightarrow> ?thesis"
      using assms h by (simp add: cellptr_set_def cellptr_at_def get_u16_patch_same word16_nat)
  next
    case False
    then have "pg_hdrsize d + i * 2 + 2 \<le> pg_hdrsize d + j * 2 \<or> pg_hdrsize d + j * 2 + 2 \<le> pg_hdrsize d + i * 2" by linarith
    then show "pg_hdrsize d + j * 2 + 2 \<le> length d \<Longrightarrow> ?thesis"
      using False assms h by (simp add: cellptr_set_def ptr_patch)
  qed
qed (use assms hdrsize_range [of d] in \<open>auto simp: cellptr_set_def fields_patch slice_patch_after\<close>)

lemma set_right:
  assumes "100 \<le> length d" "\<not> pg_is_leaf d"
  shows "length (pg_set_right d c) = length d" "pg_right (pg_set_right d c) = c" "pg_ncell (pg_set_right d c) = pg_ncell d"
    "pg_content ps (pg_set_right d c) = pg_content ps d" "pg_type (pg_set_right d c) = pg_type d"
    "pg_hdrsize (pg_set_right d c) = pg_hdrsize d" "pg_is_leaf (pg_set_right d c) = pg_is_leaf d"
    "pg_hdrsize d + i * 2 + 2 \<le> length d \<Longrightarrow> cellptr_at (pg_set_right d c) i = cellptr_at d i"
    "12 \<le> off \<Longrightarrow> off + k \<le> length d \<Longrightarrow> slice off k (pg_set_right d c) = slice off k d"
  using assms by (auto simp: pg_set_right_def pg_right_def get_u32_patch_same fields_patch ptr_patch pg_hdrsize_def slice_patch_after)

section \<open>Stores into the pointer array\<close>

text \<open>The two images differ at most in the first \<open>m\<close> cell pointers.\<close>

definition ptr_edit :: "nat \<Rightarrow> bytes \<Rightarrow> bytes \<Rightarrow> bool" where
  "ptr_edit m d d' \<longleftrightarrow>
     length d' = length d \<and> pg_type d' = pg_type d \<and> pg_ncell d' = pg_ncell d \<and>
     (\<forall>ps. pg_content ps d' = pg_content ps d) \<and> (\<not> pg_is_leaf d \<longrightarrow> pg_right d' = pg_right d) \<and>
     (\<forall>a k. pg_hdrsize d + m * 2 \<le> a \<longrightarrow> a + k \<le> length d \<longrightarrow> slice a k d' = slice a k d)"

lemma type_eq: "pg_type d' = pg_type d \<Longrightarrow> pg_is_leaf d' = pg_is_leaf d" "pg_type d' = pg_type d \<Longrightarrow> pg_hdrsize d' = pg_hdrsize d"
  by (simp_all add: pg_is_leaf_def pg_hdrsize_def)

lemma ptr_edit_hdr: "ptr_edit m d d' \<Longrightarrow> pg_hdrsize d' = pg_hdrsize d" "ptr_edit m d d' \<Longrightarrow> pg_is_leaf d' = pg_is_leaf d"
  using type_eq [of d' d] by (simp_all add: ptr_edit_def)

lemma ptr_edit_refl: "ptr_edit m d d"
  by (simp add: ptr_edit_def)

lemma ptr_edit_trans: "ptr_edit m d d' \<Longrightarrow> ptr_edit m d' d'' \<Longrightarrow> ptr_edit m d d''"
  using ptr_edit_hdr [of m d d'] by (simp add: ptr_edit_def)

lemma ptr_edit_mono: "ptr_edit m d d' \<Longrightarrow> m \<le> m' \<Longrightarrow> ptr_edit m' d d'"
  by (simp add: ptr_edit_def)

lemma ptr_edit_set:
  assumes "100 \<le> length d" "i < m" "pg_hdrsize d + m * 2 \<le> length d"
  shows "ptr_edit m d (cellptr_set d i off)"
proof -
  have "pg_hdrsize d + i * 2 + 2 \<le> pg_hdrsize d + m * 2" using assms(2) by simp
  then show ?thesis using set_ptr [where d = d and i = i and off = off] assms by (auto simp: ptr_edit_def)
qed

lemma ptr_less: "cellptr_at d i < 65536"
  using unat_less_2p [of "tdb_get_u16 (drop (pg_hdrsize d + i * 2) d)"] by (simp add: cellptr_at_def)

lemma shift_up_effect:
  assumes "100 \<le> length d" "index \<le> n" "pg_hdrsize d + Suc n * 2 \<le> length d"
  shows "ptr_edit (Suc n) d (shift_up d index n) \<and>
    (\<forall>j \<le> n. cellptr_at (shift_up d index n) j = (if index < j then cellptr_at d (j - 1) else cellptr_at d j))"
  using assms
proof (induction n arbitrary: d)
  case 0
  then show ?case by (simp add: shift_up_def ptr_edit_refl)
next
  case (Suc n)
  show ?case
  proof (cases "index = Suc n")
    case True
    then show ?thesis by (simp add: shift_up_def ptr_edit_refl)
  next
    case False
    define d1 where "d1 = cellptr_set d (Suc n) (cellptr_at d n)"
    have eq: "shift_up d index (Suc n) = shift_up d1 index n" using Suc.prems(2) False by (simp add: shift_up_def d1_def)
    have e1: "ptr_edit (Suc (Suc n)) d d1" unfolding d1_def by (rule ptr_edit_set) (use Suc.prems in simp_all)
    have at1: "cellptr_at d1 j = (if j = Suc n then cellptr_at d n else cellptr_at d j)" if "j \<le> Suc n" for j
      unfolding d1_def by (rule set_ptr(8)) (use Suc.prems that ptr_less in simp_all)
    have h1: "length d1 = length d" "pg_hdrsize d1 = pg_hdrsize d" using e1 ptr_edit_hdr [OF e1] by (simp_all add: ptr_edit_def)
    have IH: "ptr_edit (Suc n) d1 (shift_up d1 index n)"
      "\<forall>j \<le> n. cellptr_at (shift_up d1 index n) j = (if index < j then cellptr_at d1 (j - 1) else cellptr_at d1 j)"
      using Suc.IH [of d1] Suc.prems False h1 by simp_all
    have last: "cellptr_at (shift_up d1 index n) (Suc n) = cellptr_at d1 (Suc n)"
    proof -
      have "slice (pg_hdrsize d + Suc n * 2) 2 (shift_up d1 index n) = slice (pg_hdrsize d + Suc n * 2) 2 d1"
        using IH(1) Suc.prems(3) h1 by (simp add: ptr_edit_def)
      then show ?thesis
        using Suc.prems(3) h1 IH(1) ptr_edit_hdr [OF IH(1)] by (simp add: cellptr_at_def get_u16_slice ptr_edit_def)
    qed
    have "ptr_edit (Suc (Suc n)) d (shift_up d index (Suc n))"
      unfolding eq by (rule ptr_edit_trans [OF e1 ptr_edit_mono [OF IH(1)]]) simp
    moreover have "cellptr_at (shift_up d index (Suc n)) j = (if index < j then cellptr_at d (j - 1) else cellptr_at d j)" if "j \<le> Suc n" for j
      using that IH(2) last at1 Suc.prems(2) False unfolding eq by (cases "j = Suc n") auto
    ultimately show ?thesis by blast
  qed
qed

lemma shift_down_effect:
  assumes "100 \<le> length d" "pg_hdrsize d + Suc m * 2 \<le> length d"
  shows "ptr_edit m d (shift_down d index m) \<and>
    (\<forall>j \<le> m. cellptr_at (shift_down d index m) j = (if index \<le> j \<and> j < m then cellptr_at d (j + 1) else cellptr_at d j))"
  using assms(2)
proof (induction m)
  case 0
  then show ?case by (simp add: shift_down_def ptr_edit_refl)
next
  case (Suc m)
  show ?case
  proof (cases "index \<le> m")
    case False
    then show ?thesis by (simp add: shift_down_def ptr_edit_refl)
  next
    case True
    define d1 where "d1 = shift_down d index m"
    define d2 where "d2 = cellptr_set d1 m (cellptr_at d1 (m + 1))"
    have eq: "shift_down d index (Suc m) = d2"
      using True by (simp add: d2_def d1_def shift_down_def)
    have IH: "ptr_edit m d d1" "\<forall>j \<le> m. cellptr_at d1 j = (if index \<le> j \<and> j < m then cellptr_at d (j + 1) else cellptr_at d j)"
      using Suc by (simp_all add: d1_def)
    have h1: "length d1 = length d" "pg_hdrsize d1 = pg_hdrsize d" using IH(1) ptr_edit_hdr [OF IH(1)] by (simp_all add: ptr_edit_def)
    have far: "cellptr_at d1 (Suc m) = cellptr_at d (Suc m)"
    proof -
      have "slice (pg_hdrsize d + Suc m * 2) 2 d1 = slice (pg_hdrsize d + Suc m * 2) 2 d"
        using IH(1) Suc.prems by (simp add: ptr_edit_def)
      then show ?thesis using Suc.prems h1 by (simp add: cellptr_at_def get_u16_slice)
    qed
    have e2: "ptr_edit (Suc m) d1 d2" unfolding d2_def by (rule ptr_edit_set) (use Suc.prems assms(1) h1 in simp_all)
    have at2: "cellptr_at d2 j = (if j = m then cellptr_at d1 (m + 1) else cellptr_at d1 j)" if "j \<le> Suc m" for j
      unfolding d2_def by (rule set_ptr(8)) (use Suc.prems assms(1) h1 that ptr_less in simp_all)
    have "ptr_edit (Suc m) d d2" by (rule ptr_edit_trans [OF ptr_edit_mono [OF IH(1)] e2]) simp
    moreover have "cellptr_at d2 j = (if index \<le> j \<and> j < Suc m then cellptr_at d (j + 1) else cellptr_at d j)" if "j \<le> Suc m" for j
      using that IH(2) far at2 True by (cases "j = Suc m") auto
    ultimately show ?thesis unfolding eq by blast
  qed
qed

lemma set_ptrs_effect:
  assumes "100 \<le> length d" "pg_hdrsize d + length offs * 2 \<le> length d" "\<forall>j < length offs. offs ! j < 65536"
  shows "ptr_edit (length offs) d (set_ptrs d offs)" "j < length offs \<Longrightarrow> cellptr_at (set_ptrs d offs) j = offs ! j"
proof -
  define dk where "dk k = foldl (\<lambda>d i. cellptr_set d i (offs ! i)) d [0..<k]" for k
  have "k \<le> length offs \<Longrightarrow> ptr_edit k d (dk k) \<and> (\<forall>j < k. cellptr_at (dk k) j = offs ! j)" for k
  proof (induction k)
    case 0
    then show ?case by (simp add: dk_def ptr_edit_refl)
  next
    case (Suc k)
    have IH: "ptr_edit k d (dk k)" "\<forall>j < k. cellptr_at (dk k) j = offs ! j" using Suc by simp_all
    have h: "length (dk k) = length d" "pg_hdrsize (dk k) = pg_hdrsize d" using IH(1) ptr_edit_hdr [OF IH(1)] by (simp_all add: ptr_edit_def)
    have eq: "dk (Suc k) = cellptr_set (dk k) k (offs ! k)" by (simp add: dk_def)
    have e: "ptr_edit (Suc k) (dk k) (dk (Suc k))" unfolding eq by (rule ptr_edit_set) (use Suc.prems assms h in simp_all)
    have "cellptr_at (dk (Suc k)) j = offs ! j" if "j < Suc k" for j
      unfolding eq using set_ptr(8) [where d = "dk k" and i = k and off = "offs ! k" and j = j] assms Suc.prems h that IH(2) by auto
    then show ?case using ptr_edit_trans [OF ptr_edit_mono [OF IH(1)] e] by simp
  qed
  from this [of "length offs"] show "ptr_edit (length offs) d (set_ptrs d offs)"
    "j < length offs \<Longrightarrow> cellptr_at (set_ptrs d offs) j = offs ! j" by (simp_all add: dk_def set_ptrs_def)
qed

section \<open>Pages and their cells\<close>

definition cells_len :: "bytes list \<Rightarrow> nat" where
  "cells_len cs = sum_list (map length cs)"

definition hdr_len :: "bool \<Rightarrow> nat" where
  "hdr_len leaf = (if leaf then 8 else 12)"

text \<open>The cells fit into one page.\<close>

definition fits :: "nat \<Rightarrow> bool \<Rightarrow> bytes list \<Rightarrow> bool" where
  "fits ps leaf cs \<longleftrightarrow> hdr_len leaf + 2 * length cs + cells_len cs \<le> ps"

definition page_ok :: "(bytes \<Rightarrow> bool) \<Rightarrow> nat \<Rightarrow> bool \<Rightarrow> bytes \<Rightarrow> bytes list \<Rightarrow> bool" where
  "page_ok cok ps leaf d cs \<longleftrightarrow>
     length d = ps \<and> 100 \<le> ps \<and> ps \<le> 65536 \<and> pg_is_leaf d = leaf \<and> pg_ncell d = length cs \<and>
     hdr_len leaf + 2 * length cs \<le> pg_content ps d \<and> pg_content ps d + cells_len cs \<le> ps \<and>
     (\<forall>i < length cs. cok (cs ! i) \<and> pg_content ps d \<le> cellptr_at d i \<and> cellptr_at d i + length (cs ! i) \<le> ps \<and>
        slice (cellptr_at d i) (length (cs ! i)) d = cs ! i) \<and>
     (\<forall>i < length cs. \<forall>j < length cs. i \<noteq> j \<longrightarrow>
        cellptr_at d i + length (cs ! i) \<le> cellptr_at d j \<or> cellptr_at d j + length (cs ! j) \<le> cellptr_at d i)"

lemma cells_len_simps [simp]:
  "cells_len [] = 0" "cells_len (c # cs) = length c + cells_len cs" "cells_len (cs @ cs') = cells_len cs + cells_len cs'"
  by (simp_all add: cells_len_def)

lemma page_okD:
  assumes "page_ok cok ps leaf d cs"
  shows "length d = ps" "100 \<le> ps" "ps \<le> 65536" "pg_is_leaf d = leaf" "pg_ncell d = length cs" "pg_hdrsize d = hdr_len leaf"
    "hdr_len leaf + 2 * length cs \<le> pg_content ps d" "pg_content ps d + cells_len cs \<le> ps" "pg_content ps d \<le> ps"
    "i < length cs \<Longrightarrow> cok (cs ! i)" "i < length cs \<Longrightarrow> pg_content ps d \<le> cellptr_at d i"
    "i < length cs \<Longrightarrow> cellptr_at d i + length (cs ! i) \<le> ps"
    "i < length cs \<Longrightarrow> slice (cellptr_at d i) (length (cs ! i)) d = cs ! i"
    "i < length cs \<Longrightarrow> j < length cs \<Longrightarrow> i \<noteq> j \<Longrightarrow>
       cellptr_at d i + length (cs ! i) \<le> cellptr_at d j \<or> cellptr_at d j + length (cs ! j) \<le> cellptr_at d i"
  using assms by (auto simp: page_ok_def hdr_len_def pg_hdrsize_def)

lemma page_ok_fits: "page_ok cok ps leaf d cs \<Longrightarrow> fits ps leaf cs"
  using page_okD(7,8) [of cok ps leaf d cs] by (simp add: fits_def)

lemma slice_drop: "slice a k d = c \<Longrightarrow> drop a d = c @ drop (a + k) d"
  using append_take_drop_id [of k "drop a d"] by (simp add: slice_def add.commute)

lemma cell_drop: "page_ok cok ps leaf d cs \<Longrightarrow> i < length cs \<Longrightarrow> drop (cellptr_at d i) d = cs ! i @ drop (cellptr_at d i + length (cs ! i)) d"
  by (rule slice_drop) (rule page_okD(13))

lemma slice_patch_inside:
  assumes "off \<le> a" "a + k \<le> off + length b" "off + length b \<le> length d"
  shows "slice a k (patch off b d) = slice (a - off) k b"
proof -
  have "drop a (patch off b d) = drop (a - off) b @ drop (a - off - length b) (drop (off + length b) d)"
    using assms by (simp add: patch_def)
  then show ?thesis using assms by (simp add: slice_def)
qed

locale cell_format =
  fixes ps :: nat and leaf :: bool and sz :: "bytes \<Rightarrow> nat" and cok :: "bytes \<Rightarrow> bool"
  assumes read_size: "pg_is_leaf d = leaf \<Longrightarrow> cell_size ps d i = sz (drop (cellptr_at d i) d)"
    and size: "cok c \<Longrightarrow> sz (c @ ys) = length c"
    and nonempty: "cok c \<Longrightarrow> c \<noteq> []"
begin

lemma cell_size_ok: "page_ok cok ps leaf d cs \<Longrightarrow> i < length cs \<Longrightarrow> cell_size ps d i = length (cs ! i)"
  by (simp add: read_size page_okD(4) cell_drop size page_okD(10))

text \<open>Defragmentation packs the cells at the end of the page.\<close>

lemma defrag_fold:
  assumes "page_ok cok ps leaf d cs" "k \<le> length cs"
  shows "\<exists>scratch offs. foldl (defrag_cell ps d) (replicate ps 0, ps, []) [0..<k] = (scratch, ps - cells_len (take k cs), offs) \<and>
    length scratch = ps \<and> length offs = k \<and>
    (\<forall>j < k. ps - cells_len (take k cs) \<le> offs ! j \<and> offs ! j + length (cs ! j) \<le> ps \<and> slice (offs ! j) (length (cs ! j)) scratch = cs ! j) \<and>
    (\<forall>j < k. \<forall>i < j. offs ! j + length (cs ! j) \<le> offs ! i)"
  using assms(2)
proof (induction k)
  case 0
  then show ?case by simp
next
  case (Suc k)
  then obtain scratch offs where IH: "foldl (defrag_cell ps d) (replicate ps 0, ps, []) [0..<k] = (scratch, ps - cells_len (take k cs), offs)"
    "length scratch = ps" "length offs = k"
    "\<And>j. j < k \<Longrightarrow> ps - cells_len (take k cs) \<le> offs ! j \<and> offs ! j + length (cs ! j) \<le> ps \<and> slice (offs ! j) (length (cs ! j)) scratch = cs ! j"
    "\<And>i j. j < k \<Longrightarrow> i < j \<Longrightarrow> offs ! j + length (cs ! j) \<le> offs ! i"
    by auto
  define w where "w = ps - cells_len (take k cs)"
  define w' where "w' = ps - cells_len (take (Suc k) cs)"
  have tk: "take (Suc k) cs = take k cs @ [cs ! k]" using Suc.prems by (simp add: take_Suc_conv_app_nth)
  have "cells_len cs = cells_len (take (Suc k) cs) + cells_len (drop (Suc k) cs)" by (metis append_take_drop_id cells_len_simps(3))
  then have le: "cells_len (take (Suc k) cs) \<le> ps" using page_okD(8) [OF assms(1)] by linarith
  then have w: "w' + length (cs ! k) = w" "w \<le> ps" "w' = w - length (cs ! k)" unfolding w_def w'_def tk by simp_all
  have src: "slice (cellptr_at d k) (length (cs ! k)) d = cs ! k" "cell_size ps d k = length (cs ! k)"
    using page_okD(13) [OF assms(1)] cell_size_ok [OF assms(1)] Suc.prems by simp_all
  have "foldl (defrag_cell ps d) (replicate ps 0, ps, []) [0..<Suc k] = (patch w' (cs ! k) scratch, w', offs @ [w'])"
    using IH(1) src w(3) by (simp add: defrag_cell_def Let_def w_def [symmetric])
  moreover have "w' \<le> (offs @ [w']) ! j \<and> (offs @ [w']) ! j + length (cs ! j) \<le> ps \<and>
      slice ((offs @ [w']) ! j) (length (cs ! j)) (patch w' (cs ! k) scratch) = cs ! j" if "j < Suc k" for j
  proof (cases "j = k")
    case True
    then show ?thesis using w IH(2,3) slice_patch_same [of w' "cs ! k" scratch] by (simp add: nth_append)
  next
    case False
    then have j: "j < k" using that by simp
    note o = IH(4) [OF j, folded w_def]
    have "slice (offs ! j) (length (cs ! j)) (patch w' (cs ! k) scratch) = slice (offs ! j) (length (cs ! j)) scratch"
      by (rule slice_patch_after) (use o w IH(2) in simp_all)
    with o w j IH(3) show ?thesis by (simp add: nth_append)
  qed
  moreover have "(offs @ [w']) ! j + length (cs ! j) \<le> (offs @ [w']) ! i" if "j < Suc k" "i < j" for i j
    using that IH(3,5) IH(4) [of i, folded w_def] w(1) by (cases "j = k") (simp_all add: nth_append)
  ultimately show ?case
    using IH(2,3) w by (intro exI [of _ "patch w' (cs ! k) scratch"] exI [of _ "offs @ [w']"]) (simp add: w'_def [symmetric])
qed

lemma defrag_ok:
  assumes "page_ok cok ps leaf d cs" "ok ps"
  shows "page_ok cok ps leaf (pg_defrag ok ps d) cs" "pg_content ps (pg_defrag ok ps d) = ps - cells_len cs"
    "pg_type (pg_defrag ok ps d) = pg_type d" "\<not> leaf \<Longrightarrow> pg_right (pg_defrag ok ps d) = pg_right d"
proof -
  note pd = page_okD [OF assms(1)]
  define w where "w = ps - cells_len cs"
  obtain scratch offs where f: "foldl (defrag_cell ps d) (replicate ps 0, ps, []) [0..<length cs] = (scratch, w, offs)"
    "length scratch = ps" "length offs = length cs"
    "\<And>j. j < length cs \<Longrightarrow> w \<le> offs ! j \<and> offs ! j + length (cs ! j) \<le> ps \<and> slice (offs ! j) (length (cs ! j)) scratch = cs ! j"
    "\<And>i j. j < length cs \<Longrightarrow> i < j \<Longrightarrow> offs ! j + length (cs ! j) \<le> offs ! i"
    using defrag_fold [OF assms(1), of "length cs"] unfolding w_def by auto
  have w: "hdr_len leaf + 2 * length cs \<le> w" "w \<le> ps" "0 < w" using pd(7,8) by (auto simp: w_def hdr_len_def split: if_splits)
  define d1 where "d1 = patch w (drop w scratch) d"
  define d2 where "d2 = set_ptrs d1 offs"
  have len: "w + length (drop w scratch) = ps" using f(2) w by simp
  have hl: "8 \<le> hdr_len leaf" by (simp add: hdr_len_def)
  have d1: "length d1 = ps" "pg_type d1 = pg_type d" "pg_is_leaf d1 = leaf" "pg_hdrsize d1 = hdr_len leaf" "pg_ncell d1 = length cs"
    "\<not> leaf \<Longrightarrow> pg_right d1 = pg_right d"
    using len pd w hl by (simp_all add: d1_def fields_patch right_patch hdr_len_def)
  have sl1: "slice (offs ! j) (length (cs ! j)) d1 = cs ! j" if "j < length cs" for j
  proof -
    note o = f(4) [OF that]
    have "slice (offs ! j) (length (cs ! j)) d1 = slice (offs ! j - w) (length (cs ! j)) (drop w scratch)"
      unfolding d1_def by (rule slice_patch_inside) (use o len pd in simp_all)
    also have "\<dots> = slice (offs ! j) (length (cs ! j)) scratch" using o by (simp add: slice_def)
    finally show ?thesis using o by simp
  qed
  have small: "offs ! j < 65536" if "j < length cs" for j
    using f(4) [OF that] pd(3) nonempty [OF pd(10) [OF that]] by (cases "cs ! j") auto
  have e: "ptr_edit (length cs) d1 d2" and at: "\<And>j. j < length cs \<Longrightarrow> cellptr_at d2 j = offs ! j"
    using set_ptrs_effect [of d1 offs] d1 f(3) pd(2) w small by (simp_all add: d2_def)
  have d2: "length d2 = ps" "pg_type d2 = pg_type d" "pg_ncell d2 = length cs" "\<not> leaf \<Longrightarrow> pg_right d2 = pg_right d"
    "pg_hdrsize d2 = hdr_len leaf" "pg_is_leaf d2 = leaf"
    "hdr_len leaf + length cs * 2 \<le> a \<Longrightarrow> a + k \<le> ps \<Longrightarrow> slice a k d2 = slice a k d1" for a k
    using e d1 ptr_edit_hdr [OF e] by (simp_all add: ptr_edit_def)
  have eq: "pg_defrag ok ps d = pg_set_content ps d2 w" using assms(2) f(1) pd(5) by (simp add: pg_defrag_def d1_def d2_def)
  note sc = set_content [where d = d2 and c = w, unfolded d2(1), OF pd(2) w(2) pd(3)]
  show cont: "pg_content ps (pg_defrag ok ps d) = ps - cells_len cs" unfolding eq using sc(2) w by (simp add: w_def)
  show "pg_type (pg_defrag ok ps d) = pg_type d" unfolding eq using sc(5) d2 by simp
  show "\<not> leaf \<Longrightarrow> pg_right (pg_defrag ok ps d) = pg_right d" unfolding eq using sc(4) d2 by simp
  have "cellptr_at (pg_set_content ps d2 w) j = offs ! j \<and>
      slice (offs ! j) (length (cs ! j)) (pg_set_content ps d2 w) = cs ! j" if "j < length cs" for j
  proof -
    note o = f(4) [OF that]
    have "cellptr_at (pg_set_content ps d2 w) j = offs ! j" using sc(8) [of j] at [OF that] d2(5) w that pd(9) by simp
    moreover have "slice (offs ! j) (length (cs ! j)) (pg_set_content ps d2 w) = slice (offs ! j) (length (cs ! j)) d2"
      by (rule sc(9)) (use o w hl in simp_all)
    moreover have "slice (offs ! j) (length (cs ! j)) d2 = cs ! j" using d2(7) [of "offs ! j"] o w sl1 [OF that] by simp
    ultimately show ?thesis by simp
  qed
  moreover have "offs ! i + length (cs ! i) \<le> offs ! j \<or> offs ! j + length (cs ! j) \<le> offs ! i"
    if "i < length cs" "j < length cs" "i \<noteq> j" for i j
    using f(5) that by (metis nat_neq_iff)
  ultimately show "page_ok cok ps leaf (pg_defrag ok ps d) cs"
    unfolding page_ok_def cont unfolding eq using pd(1-13) d2 sc w f(4) w_def by auto
qed

text \<open>Insertion.\<close>

lemma place_cell:
  assumes pg: "page_ok cok ps leaf d cs" and c: "cok c" and i: "i \<le> length cs"
    and room: "hdr_len leaf + 2 * length cs + 2 + length c \<le> pg_content ps d"
  defines "off \<equiv> pg_content ps d - length c"
  defines "d2 \<equiv> pg_set_content ps (patch off c d) off"
  defines "d4 \<equiv> pg_set_ncell (cellptr_set (shift_up d2 i (length cs)) i off) (length cs + 1)"
  shows "pg_ncell d2 = length cs" "page_ok cok ps leaf d4 (take i cs @ c # drop i cs)" "pg_type d4 = pg_type d"
    "\<not> leaf \<Longrightarrow> pg_right d4 = pg_right d"
proof -
  note pd = page_okD [OF pg]
  have off: "off + length c = pg_content ps d" "hdr_len leaf + 2 * length cs + 2 \<le> off" "off \<le> ps" "0 < off"
    using room pd(9) by (auto simp: off_def)
  have hl: "8 \<le> hdr_len leaf" "\<not> leaf \<Longrightarrow> hdr_len leaf = 12" by (simp_all add: hdr_len_def)
  define d1 where "d1 = patch off c d"
  have d1: "length d1 = ps" "pg_type d1 = pg_type d" "pg_hdrsize d1 = hdr_len leaf" "pg_is_leaf d1 = leaf" "pg_ncell d1 = length cs"
    "\<not> leaf \<Longrightarrow> pg_right d1 = pg_right d"
    using pd off hl by (simp_all add: d1_def fields_patch right_patch)
  have ptr1: "cellptr_at d1 j = cellptr_at d j" if "j < length cs" for j
    unfolding d1_def by (rule ptr_patch) (use pd off hl that in simp_all)
  have sl1: "slice (cellptr_at d j) (length (cs ! j)) d1 = cs ! j" if "j < length cs" for j
    unfolding d1_def by (subst slice_patch_after) (use pd(11-13) [OF that] off pd(1) in simp_all)
  have new1: "slice off (length c) d1 = c" using slice_patch_same [of off c d] off pd by (simp add: d1_def)
  note sc = set_content [where d = d1 and c = off, unfolded d1(1), OF pd(2) off(3) pd(3), folded d1_def]
  have d2e: "d2 = pg_set_content ps d1 off" by (simp add: d2_def d1_def)
  show n2: "pg_ncell d2 = length cs" unfolding d2e using sc(3) d1 by simp
  have d2: "length d2 = ps" "pg_type d2 = pg_type d" "pg_hdrsize d2 = hdr_len leaf" "pg_is_leaf d2 = leaf" "pg_content ps d2 = off"
    "\<not> leaf \<Longrightarrow> pg_right d2 = pg_right d" unfolding d2e using sc d1 off by simp_all
  have at2: "cellptr_at d2 j = cellptr_at d j" if "j < length cs" for j
    unfolding d2e using sc(8) [of j] ptr1 [OF that] d1 that pd(7,9) by simp
  have sl2: "slice a k d2 = slice a k d1" if "8 \<le> a" "a + k \<le> ps" for a k unfolding d2e using sc(9) that by simp
  define d3 where "d3 = cellptr_set (shift_up d2 i (length cs)) i off"
  have e: "ptr_edit (Suc (length cs)) d2 (shift_up d2 i (length cs))"
    "\<And>j. j \<le> length cs \<Longrightarrow> cellptr_at (shift_up d2 i (length cs)) j = (if i < j then cellptr_at d2 (j - 1) else cellptr_at d2 j)"
    using shift_up_effect [of d2 i "length cs"] d2 i off pd(2) by simp_all
  have es: "ptr_edit (Suc (length cs)) (shift_up d2 i (length cs)) d3"
    unfolding d3_def by (rule ptr_edit_set) (use e(1) ptr_edit_hdr [OF e(1)] d2 pd(2) i off in \<open>simp_all add: ptr_edit_def\<close>)
  note e3 = ptr_edit_trans [OF e(1) es]
  have d3: "length d3 = ps" "pg_type d3 = pg_type d" "pg_hdrsize d3 = hdr_len leaf" "pg_is_leaf d3 = leaf" "pg_content ps d3 = off"
    "\<not> leaf \<Longrightarrow> pg_right d3 = pg_right d"
    using e3 d2 ptr_edit_hdr [OF e3] by (simp_all add: ptr_edit_def)
  have off_small: "off < 65536" using off(1) nonempty [OF c] pd(3,9) by (cases c) auto
  have at3: "cellptr_at d3 j = (if j = i then off else if i < j then cellptr_at d (j - 1) else cellptr_at d j)" if "j \<le> length cs" for j
  proof -
    have "cellptr_at d3 j = (if j = i then off else cellptr_at (shift_up d2 i (length cs)) j)"
      unfolding d3_def by (rule set_ptr(8)) (use e(1) ptr_edit_hdr [OF e(1)] d2 pd(2) i off off_small that in \<open>simp_all add: ptr_edit_def\<close>)
    then show ?thesis using e(2) [OF that] at2 that i by auto
  qed
  have sl3: "slice a k d3 = slice a k d1" if "off \<le> a" "a + k \<le> ps" for a k
  proof -
    have "slice a k d3 = slice a k d2" using e3 d2 that off by (simp add: ptr_edit_def)
    then show ?thesis using sl2 that off hl by simp
  qed
  have d4e: "d4 = pg_set_ncell d3 (length cs + 1)" by (simp add: d4_def d3_def)
  have few: "length cs + 1 < 65536" using off pd(3) by linarith
  note sn = set_ncell [where d = d3 and n = "length cs + 1", unfolded d3(1), OF pd(2)]
  have d4: "length d4 = ps" "pg_is_leaf d4 = leaf" "pg_content ps d4 = off" "pg_ncell d4 = length cs + 1"
    unfolding d4e using sn d3 few by simp_all
  show "pg_type d4 = pg_type d" "\<not> leaf \<Longrightarrow> pg_right d4 = pg_right d" unfolding d4e using sn d3 by simp_all
  define cs' where "cs' = take i cs @ c # drop i cs"
  have cs': "length cs' = length cs + 1" "cells_len cs' = cells_len cs + length c"
    "\<And>j. j \<le> length cs \<Longrightarrow> cs' ! j = (if j < i then cs ! j else if j = i then c else cs ! (j - 1))"
  proof -
    have "cells_len cs = cells_len (take i cs) + cells_len (drop i cs)" by (metis append_take_drop_id cells_len_simps(3))
    then show "length cs' = length cs + 1" "cells_len cs' = cells_len cs + length c" using i by (simp_all add: cs'_def)
    show "cs' ! j = (if j < i then cs ! j else if j = i then c else cs ! (j - 1))" if "j \<le> length cs" for j
      using i that by (auto simp: cs'_def nth_append nth_Cons')
  qed
  have "cok (cs' ! j) \<and> off \<le> cellptr_at d4 j \<and> cellptr_at d4 j + length (cs' ! j) \<le> ps \<and>
      slice (cellptr_at d4 j) (length (cs' ! j)) d4 = cs' ! j" if "j < length cs'" for j
  proof -
    have j: "j \<le> length cs" using that cs'(1) by simp
    have at4: "cellptr_at d4 j = cellptr_at d3 j" unfolding d4e using sn(8) [of j] d3 j off by simp
    have sl4: "slice a k d4 = slice a k d1" if "off \<le> a" "a + k \<le> ps" for a k
      unfolding d4e using sn(9) [of a k] sl3 that off hl by simp
    consider "j = i" | "j < i" "j < length cs" | "i < j" "j - 1 < length cs" using i j by fastforce
    then show ?thesis
    proof cases
      case 1
      then show ?thesis using c new1 off pd(9) at4 at3 [OF j] sl4 [of off "length c"] cs'(3) [OF j] by simp
    next
      case 2
      then show ?thesis
        using pd(10-12) [OF 2(2)] sl1 [OF 2(2)] off at4 at3 [OF j] sl4 [of "cellptr_at d j"] cs'(3) [OF j] by simp
    next
      case 3
      then show ?thesis
        using pd(10-12) [OF 3(2)] sl1 [OF 3(2)] off at4 at3 [OF j] sl4 [of "cellptr_at d (j - 1)"] cs'(3) [OF j] by simp
    qed
  qed
  moreover have "cellptr_at d4 a + length (cs' ! a) \<le> cellptr_at d4 b \<or> cellptr_at d4 b + length (cs' ! b) \<le> cellptr_at d4 a"
    if ab: "a < length cs'" "b < length cs'" "a \<noteq> b" for a b
  proof -
    have at4: "cellptr_at d4 j = (if j = i then off else if i < j then cellptr_at d (j - 1) else cellptr_at d j)" if "j \<le> length cs" for j
      unfolding d4e using sn(8) [of j] at3 [OF that] d3 that off by simp
    have old: "\<exists>r < length cs. cellptr_at d4 j = cellptr_at d r \<and> cs' ! j = cs ! r \<and> r = (if j < i then j else j - 1)" if "j < length cs'" "j \<noteq> i" for j
      using that cs'(1,3) at4 [of j] i by auto
    show ?thesis
    proof (cases "a = i \<or> b = i")
      case True
      then show ?thesis
        using ab old [of a] old [of b] cs'(1) cs'(3) [of i] at4 [of i] i off(1) pd(11) by (metis nat_neq_iff)
    next
      case False
      then obtain r s where r: "r < length cs" "cellptr_at d4 a = cellptr_at d r" "cs' ! a = cs ! r" "r = (if a < i then a else a - 1)"
        and s: "s < length cs" "cellptr_at d4 b = cellptr_at d s" "cs' ! b = cs ! s" "s = (if b < i then b else b - 1)"
        using old [of a] old [of b] ab by blast
      have "r \<noteq> s" using r(4) s(4) ab(3) False by (auto split: if_splits)
      then show ?thesis using pd(14) [OF r(1) s(1)] r s by simp
    qed
  qed
  ultimately show "page_ok cok ps leaf d4 (take i cs @ c # drop i cs)"
    unfolding cs'_def [symmetric] page_ok_def using pd(2,3,8) d4 cs'(1,2) off by auto
qed

lemma insert_cell_ok:
  assumes pg: "page_ok cok ps leaf d cs" and c: "cok c" and i: "i \<le> length cs" and ok: "ok ps" and fit: "fits ps leaf (c # cs)"
  obtains d' where "insert_cell ok ps d i c = (TDB_OK, d')" "page_ok cok ps leaf d' (take i cs @ c # drop i cs)" "pg_type d' = pg_type d"
    "\<not> leaf \<Longrightarrow> pg_right d' = pg_right d"
proof -
  define d1 where "d1 = (if free_contig ps d < int (length c) + 2 then pg_defrag ok ps d else d)"
  have d1: "page_ok cok ps leaf d1 cs" "pg_type d1 = pg_type d" "\<not> leaf \<Longrightarrow> pg_right d1 = pg_right d"
    using pg defrag_ok [OF pg, of ok] ok by (simp_all add: d1_def)
  note pd = page_okD [OF d1(1)]
  have room: "hdr_len leaf + 2 * length cs + 2 + length c \<le> pg_content ps d1"
  proof (cases "free_contig ps d < int (length c) + 2")
    case True
    then have "pg_content ps d1 = ps - cells_len cs" using defrag_ok(2) [OF pg, of ok] ok by (simp add: d1_def)
    then show ?thesis using fit by (simp add: fits_def)
  next
    case False
    then show ?thesis using page_okD [OF pg] by (simp add: d1_def free_contig_def)
  qed
  note pl = place_cell [OF d1(1) c i room]
  have fc: "\<not> free_contig ps d1 < int (length c) + 2" using room pd by (simp add: free_contig_def)
  let ?d2 = "pg_set_content ps (patch (pg_content ps d1 - length c) c d1) (pg_content ps d1 - length c)"
  let ?d' = "pg_set_ncell (cellptr_set (shift_up ?d2 i (length cs)) i (pg_content ps d1 - length c)) (length cs + 1)"
  have "insert_cell ok ps d i c = (TDB_OK, ?d')"
    using fc pl(1) unfolding insert_cell_def Let_def d1_def [symmetric] by simp
  then show thesis using that [of ?d'] pl(2-4) d1(2,3) by simp
qed

lemma insert_cell_full:
  assumes pg: "page_ok cok ps leaf d cs" and ok: "ok ps" and nofit: "\<not> fits ps leaf (c # cs)"
  obtains d' where "insert_cell ok ps d i c = (TDB_FULL, d')" "page_ok cok ps leaf d' cs" "pg_type d' = pg_type d"
    "\<not> leaf \<Longrightarrow> pg_right d' = pg_right d"
proof -
  define d1 where "d1 = (if free_contig ps d < int (length c) + 2 then pg_defrag ok ps d else d)"
  have d1: "page_ok cok ps leaf d1 cs" "pg_type d1 = pg_type d" "\<not> leaf \<Longrightarrow> pg_right d1 = pg_right d"
    using pg defrag_ok [OF pg, of ok] ok by (simp_all add: d1_def)
  note pd = page_okD [OF d1(1)]
  have "free_contig ps d1 < int (length c) + 2" using nofit pd(5-8) by (simp add: free_contig_def fits_def)
  then have "insert_cell ok ps d i c = (TDB_FULL, d1)" by (simp add: insert_cell_def Let_def d1_def)
  then show thesis using that [of d1] d1 by simp
qed

text \<open>Deletion.\<close>

lemma delete_cell_ok:
  assumes pg: "page_ok cok ps leaf d cs" and i: "i < length cs"
  shows "page_ok cok ps leaf (delete_cell d i) (take i cs @ drop (Suc i) cs)" "pg_type (delete_cell d i) = pg_type d"
    "\<not> leaf \<Longrightarrow> pg_right (delete_cell d i) = pg_right d"
proof -
  note pd = page_okD [OF pg]
  define m where "m = length cs - 1"
  have m: "length cs = Suc m" "i \<le> m" using i by (auto simp: m_def)
  have hl: "8 \<le> hdr_len leaf" by (simp add: hdr_len_def)
  define d1 where "d1 = shift_down d i m"
  have e: "ptr_edit m d d1" "\<And>j. j \<le> m \<Longrightarrow> cellptr_at d1 j = (if i \<le> j \<and> j < m then cellptr_at d (j + 1) else cellptr_at d j)"
    using shift_down_effect [of d m i] pd(1,2,6,7,9) m by (simp_all add: d1_def)
  have d1: "length d1 = ps" "pg_type d1 = pg_type d" "pg_hdrsize d1 = hdr_len leaf" "pg_is_leaf d1 = leaf" "pg_content ps d1 = pg_content ps d"
    "\<not> leaf \<Longrightarrow> pg_right d1 = pg_right d"
    using e(1) pd ptr_edit_hdr [OF e(1)] by (simp_all add: ptr_edit_def)
  have eq: "delete_cell d i = pg_set_ncell d1 m" using pd(5) m by (simp add: delete_cell_def d1_def)
  have few: "m < 65536" using m pd(3,7,9) by linarith
  note sn = set_ncell [where d = d1 and n = m, unfolded d1(1), OF pd(2)]
  show "pg_type (delete_cell d i) = pg_type d" "\<not> leaf \<Longrightarrow> pg_right (delete_cell d i) = pg_right d"
    unfolding eq using sn d1 by simp_all
  define cs' where "cs' = take i cs @ drop (Suc i) cs"
  have "cells_len cs = cells_len (take i cs @ cs ! i # drop (Suc i) cs)" using i by (simp add: id_take_nth_drop [symmetric])
  then have cs': "length cs' = m" "cells_len cs' \<le> cells_len cs" "\<And>j. j < m \<Longrightarrow> cs' ! j = (if j < i then cs ! j else cs ! (j + 1))"
    using m by (auto simp: cs'_def nth_append min_def)
  have "cok (cs' ! j) \<and> pg_content ps d \<le> cellptr_at (pg_set_ncell d1 m) j \<and> cellptr_at (pg_set_ncell d1 m) j + length (cs' ! j) \<le> ps \<and>
      slice (cellptr_at (pg_set_ncell d1 m) j) (length (cs' ! j)) (pg_set_ncell d1 m) = cs' ! j" if "j < m" for j
  proof -
    define r where "r = (if j < i then j else j + 1)"
    have r: "r < length cs" "cs' ! j = cs ! r" "cellptr_at d1 j = cellptr_at d r" using that m cs'(3) e(2) [of j] by (auto simp: r_def)
    have at: "cellptr_at (pg_set_ncell d1 m) j = cellptr_at d r" using sn(8) [of j] d1 r that m pd(7,9) by simp
    have low: "hdr_len leaf + m * 2 \<le> cellptr_at d r" using pd(7) pd(11) [OF r(1)] m by linarith
    have "slice (cellptr_at d r) (length (cs ! r)) (pg_set_ncell d1 m) = slice (cellptr_at d r) (length (cs ! r)) d1"
      by (rule sn(9)) (use low hl pd(12) [OF r(1)] in simp_all)
    also have "\<dots> = slice (cellptr_at d r) (length (cs ! r)) d"
      using e(1) low pd(1,6) pd(12) [OF r(1)] by (simp add: ptr_edit_def)
    finally show ?thesis using r at pd(10-13) [OF r(1)] by simp
  qed
  moreover have "cellptr_at (pg_set_ncell d1 m) a + length (cs' ! a) \<le> cellptr_at (pg_set_ncell d1 m) b \<or>
      cellptr_at (pg_set_ncell d1 m) b + length (cs' ! b) \<le> cellptr_at (pg_set_ncell d1 m) a" if "a < m" "b < m" "a \<noteq> b" for a b
  proof -
    define r s where "r = (if a < i then a else a + 1)" and "s = (if b < i then b else b + 1)"
    have "r < length cs" "s < length cs" "r \<noteq> s" using that m by (auto simp: r_def s_def)
    moreover have "cellptr_at (pg_set_ncell d1 m) a = cellptr_at d r" "cellptr_at (pg_set_ncell d1 m) b = cellptr_at d s"
      using sn(8) [of a] sn(8) [of b] d1 e(2) [of a] e(2) [of b] that m pd(7,9) by (auto simp: r_def s_def)
    moreover have "cs' ! a = cs ! r" "cs' ! b = cs ! s" using cs'(3) that by (auto simp: r_def s_def)
    ultimately show ?thesis using pd(14) [of r s] by simp
  qed
  ultimately show "page_ok cok ps leaf (delete_cell d i) (take i cs @ drop (Suc i) cs)"
    unfolding cs'_def [symmetric] eq page_ok_def using pd(2,3,7,8) sn d1 cs'(1,2) m few by auto
qed

end

section \<open>Empty pages\<close>

lemma init_page_ok:
  assumes "100 \<le> ps" "ps \<le> 65536" "is_leaf_type t = leaf"
  shows "page_ok cok ps leaf (init_page ps t) []" "pg_type (init_page ps t) = t"
proof -
  define d where "d = patch 0 [t] (replicate ps 0)"
  have d: "length d = ps" "d ! 0 = t" using assms by (simp_all add: d_def patch_def)
  note sn = set_ncell [where d = d and n = 0, unfolded d(1), OF assms(1)]
  have l: "length (pg_set_ncell d 0) = ps" using sn(1) by simp
  note sc = set_content [where d = "pg_set_ncell d 0" and c = ps, unfolded l, OF assms(1) order_refl assms(2)]
  have eq: "init_page ps t = pg_set_content ps (pg_set_ncell d 0) ps" by (simp add: init_page_def d_def)
  show t: "pg_type (init_page ps t) = t" unfolding eq using sc(5) sn(5) d(2) by (simp add: pg_type_def)
  then have "pg_is_leaf (init_page ps t) = leaf" using assms(3) by (simp add: pg_is_leaf_def)
  then show "page_ok cok ps leaf (init_page ps t) []"
    unfolding page_ok_def eq using assms sc sn by (auto simp: hdr_len_def)
qed

end
