(* ===== verification/Tdb_Bt_Cells.thy ===== *)
theory Tdb_Bt_Cells
  imports Tdb_Bt_Layout
begin

text \<open>
  The two cell formats and the search in a page. Leaf cells and interior cells are instances of
  \<open>cell_format\<close>; \<open>key_order\<close> is what the search needs of the comparison of keys, and both table
  keys and plain index keys provide it.
\<close>

section \<open>Cell formats\<close>

definition leaf_size :: "nat \<Rightarrow> bytes \<Rightarrow> nat" where
  "leaf_size ps p = (let lc = leafcell_at ps p in lc_off lc + lc_local lc + (if lc_ovfl lc \<noteq> 0 then 4 else 0))"

definition int_size :: "bytes \<Rightarrow> nat" where
  "int_size p = (case varint_at (drop 4 p) of (a, l) \<Rightarrow> 4 + a + l)"

definition leaf_ok :: "nat \<Rightarrow> bytes \<Rightarrow> bool" where
  "leaf_ok ps c \<longleftrightarrow>
     (\<exists>key val ov. length key < 2 ^ 32 \<and> length val < 2 ^ 32 \<and> length ov = 4 \<and> tdb_get_u32 ov \<noteq> 0 \<and> c = leaf_cell ps key val ov)"

definition int_ok :: "bytes \<Rightarrow> bool" where
  "int_ok c \<longleftrightarrow> (\<exists>child key. length key < 2 ^ 32 \<and> c = int_cell child key)"

lemma varint_at_put: "n < 2 ^ 32 \<Longrightarrow> varint_at (tdb_put_varint (word_of_nat n) @ ys) = (length (tdb_put_varint (word_of_nat n)), n)"
proof -
  assume "n < 2 ^ 32"
  then have "unat (word_of_nat n :: u64) = n" by (simp add: unat_of_nat)
  then show ?thesis using get_put_varint [OF put_varint_length_le_10] by (simp add: varint_at_def)
qed

lemma local_le: "local_val_len ps kl vl \<le> vl"
  by (auto simp: local_val_len_def Let_def)

lemma leafcell_at_cell:
  fixes ps :: nat
  assumes "length key < 2 ^ 32" "length val < 2 ^ 32" "length ov = 4"
  defines "l \<equiv> local_val_len ps (length key) (length val)"
  shows "leafcell_at ps (leaf_cell ps key val ov @ ys) =
    \<lparr>lc_key = key, lc_off = length (tdb_put_varint (word_of_nat (length key))) + length key + length (tdb_put_varint (word_of_nat (length val))),
     lc_lval = take l val, lc_local = l, lc_vlen = length val, lc_ovfl = (if l < length val then tdb_get_u32 ov else 0)\<rparr>"
proof -
  define kv vv where "kv = tdb_put_varint (word_of_nat (length key))" and "vv = tdb_put_varint (word_of_nat (length val))"
  define p where "p = leaf_cell ps key val ov @ ys"
  have p: "p = kv @ key @ vv @ take l val @ (if l < length val then ov else []) @ ys"
    by (simp add: p_def leaf_cell_def kv_def vv_def l_def Let_def)
  have v1: "varint_at p = (length kv, length key)" unfolding p kv_def by (rule varint_at_put [OF assms(1)])
  have "drop (length kv + length key) p = vv @ take l val @ (if l < length val then ov else []) @ ys" by (simp add: p)
  then have v2: "varint_at (drop (length kv + length key) p) = (length vv, length val)"
    unfolding vv_def using varint_at_put [OF assms(2)] by simp
  have key: "take (length key) (drop (length kv) p) = key" by (simp add: p)
  have d3: "drop (length kv + length key + length vv) p = take l val @ (if l < length val then ov else []) @ ys" by (simp add: p)
  have ll: "length (take l val) = l" using local_le [of ps "length key" "length val"] by (simp add: l_def)
  have d4: "drop (length kv + length key + length vv + l) p = (if l < length val then ov else []) @ ys"
  proof -
    have "drop (length kv + length key + length vv + l) p = drop l (drop (length kv + length key + length vv) p)" by (simp add: add.commute)
    then show ?thesis using ll unfolding d3 by simp
  qed
  have "tdb_get_u32 (ov @ ys) = tdb_get_u32 ov" using assms(3) by (simp add: tdb_get_u32_def nth_append)
  then show ?thesis
    using v1 v2 key d3 d4 ll unfolding p_def [symmetric] kv_def [symmetric] vv_def [symmetric]
    by (simp add: leafcell_at_def l_def [symmetric] Let_def)
qed

lemma leaf_cell_length:
  fixes ps :: nat
  fixes key val :: bytes
  assumes "length ov = 4"
  defines "l \<equiv> local_val_len ps (length key) (length val)"
  shows "length (leaf_cell ps key val ov) = length (tdb_put_varint (word_of_nat (length key))) + length key +
    length (tdb_put_varint (word_of_nat (length val))) + l + (if l < length val then 4 else 0)"
  using local_le [of ps "length key" "length val"] assms(1) by (simp add: leaf_cell_def l_def Let_def)

lemma leaf_ok_cell:
  assumes "leaf_ok ps c"
  shows "leafcell_at ps (c @ ys) = leafcell_at ps c" "leaf_size ps (c @ ys) = length c" "c \<noteq> []"
proof -
  from assms obtain key val ov where c: "length key < 2 ^ 32" "length val < 2 ^ 32" "length ov = 4" "tdb_get_u32 ov \<noteq> 0" "c = leaf_cell ps key val ov"
    by (auto simp: leaf_ok_def)
  show eq: "leafcell_at ps (c @ ys) = leafcell_at ps c" for ys
    using leafcell_at_cell [OF c(1-3), of ps ys] leafcell_at_cell [OF c(1-3), of ps "[]"] by (simp add: c(5))
  show "leaf_size ps (c @ ys) = length c"
    using leafcell_at_cell [OF c(1-3), of ps ys] leaf_cell_length [OF c(3), of ps key val] c(4) by (simp add: leaf_size_def c(5))
  show "c \<noteq> []" by (simp add: c(5) leaf_cell_def Let_def)
qed

lemma int_cell_parts:
  assumes "length key < 2 ^ 32"
  shows "tdb_get_u32 (int_cell child key @ ys) = child"
    "varint_at (drop 4 (int_cell child key @ ys)) = (length (tdb_put_varint (word_of_nat (length key))), length key)"
    "take (length key) (drop (length (tdb_put_varint (word_of_nat (length key)))) (drop 4 (int_cell child key @ ys))) = key"
  using varint_at_put [OF assms] by (simp_all add: int_cell_def get_put_u)

lemma int_ok_cell: "int_ok c \<Longrightarrow> int_size (c @ ys) = length c" "int_ok c \<Longrightarrow> c \<noteq> []"
proof -
  assume "int_ok c"
  then obtain child key where c: "length key < 2 ^ 32" "c = int_cell child key" by (auto simp: int_ok_def)
  show "int_size (c @ ys) = length c" using int_cell_parts(2) [OF c(1)] by (simp add: int_size_def c(2)) (simp add: int_cell_def)
  show "c \<noteq> []" by (simp add: c(2) int_cell_def)
qed

interpretation lf: cell_format ps True "leaf_size ps" "leaf_ok ps" for ps
proof unfold_locales
  show "cell_size ps d i = leaf_size ps (drop (cellptr_at d i) d)" if "pg_is_leaf d = True" for d i
    using that by (simp add: cell_size_def leaf_cell_size_def read_leafcell_def leaf_size_def)
qed (simp_all add: leaf_ok_cell(2,3))

interpretation nd: cell_format ps False int_size int_ok for ps
proof unfold_locales
  show "cell_size ps d i = int_size (drop (cellptr_at d i) d)" if "pg_is_leaf d = False" for d i
    using that by (simp add: cell_size_def int_cell_size_def int_size_def add.commute)
qed (simp_all add: int_ok_cell)

text \<open>Reading the cells of a page.\<close>

definition leaf_key :: "nat \<Rightarrow> bytes \<Rightarrow> bytes" where
  "leaf_key ps c = lc_key (leafcell_at ps c)"

definition int_key :: "bytes \<Rightarrow> bytes" where
  "int_key c = (case varint_at (drop 4 c) of (a, l) \<Rightarrow> take l (drop a (drop 4 c)))"

abbreviation leaf_page :: "nat \<Rightarrow> bytes \<Rightarrow> bytes list \<Rightarrow> bool" where
  "leaf_page ps \<equiv> page_ok (leaf_ok ps) ps True"

abbreviation int_page :: "nat \<Rightarrow> bytes \<Rightarrow> bytes list \<Rightarrow> bool" where
  "int_page ps \<equiv> page_ok int_ok ps False"

lemma leaf_page_read:
  assumes "leaf_page ps d cs" "i < length cs"
  shows "read_leafcell ps d i = leafcell_at ps (cs ! i)" "cell_key ps d i = leaf_key ps (cs ! i)"
proof -
  show "read_leafcell ps d i = leafcell_at ps (cs ! i)"
    unfolding read_leafcell_def cell_drop [OF assms] by (rule leaf_ok_cell(1)) (rule page_okD(10) [OF assms])
  then show "cell_key ps d i = leaf_key ps (cs ! i)" using page_okD(4) [OF assms(1)] by (simp add: cell_key_def leaf_key_def)
qed

lemma int_key_cell: "length key < 2 ^ 32 \<Longrightarrow> int_key (int_cell child key @ ys) = key" "length key < 2 ^ 32 \<Longrightarrow> int_key (int_cell child key) = key"
  using int_cell_parts [of key child ys] int_cell_parts [of key child "[]"] by (simp_all add: int_key_def)

lemma int_page_read:
  assumes "int_page ps d cs" "i < length cs" "cs ! i = int_cell child key" "length key < 2 ^ 32"
  shows "intcell_child d i = child" "intcell_key d i = key" "cell_key ps d i = key"
proof -
  note dr = cell_drop [OF assms(1,2), unfolded assms(3)]
  show "intcell_child d i = child" unfolding intcell_child_def dr by (rule int_cell_parts(1) [OF assms(4)])
  have "drop (cellptr_at d i + 4) d = drop 4 (drop (cellptr_at d i) d)" by (simp add: add.commute)
  then show "intcell_key d i = key"
    unfolding intcell_key_def Let_def by (simp only: dr int_cell_parts(2,3) [OF assms(4)] prod.case)
  then show "cell_key ps d i = key" using page_okD(4) [OF assms(1)] by (simp add: cell_key_def)
qed

text \<open>Storing a child number into a cell.\<close>

lemma set_child_ok:
  assumes pg: "int_page ps d cs" and i: "i < length cs" and c: "cs ! i = int_cell child key" "length key < 2 ^ 32"
  shows "int_page ps (set_intcell_child d i q) (cs[i := int_cell q key])" "pg_type (set_intcell_child d i q) = pg_type d"
    "pg_right (set_intcell_child d i q) = pg_right d"
proof -
  note pd = page_okD [OF pg]
  define d' where "d' = set_intcell_child d i q"
  define a where "a = cellptr_at d i"
  have d'e: "d' = patch a (tdb_put_u32 q) d" by (simp add: d'_def set_intcell_child_def a_def)
  have len: "length (cs ! i) = length (int_cell q key)" "4 \<le> length (cs ! i)" by (simp_all add: c int_cell_def)
  have a: "12 + 2 * length cs \<le> a" "a + length (cs ! i) \<le> ps" using pd(7) pd(11,12) [OF i] by (simp_all add: a_def hdr_len_def)
  have fld: "length d' = ps" "pg_type d' = pg_type d" "pg_is_leaf d' = pg_is_leaf d" "pg_hdrsize d' = pg_hdrsize d"
    "pg_ncell d' = length cs" "pg_content ps d' = pg_content ps d" "pg_right d' = pg_right d"
    using a len pd(1,5) unfolding d'e by (simp_all add: fields_patch right_patch)
  have at: "cellptr_at d' j = cellptr_at d j" if "j < length cs" for j
    unfolding d'e by (rule ptr_patch) (use a len pd(1,6) that in \<open>simp_all add: hdr_len_def\<close>)
  have "slice (cellptr_at d j) (length (cs[i := int_cell q key] ! j)) d' = cs[i := int_cell q key] ! j" if "j < length cs" for j
  proof (cases "j = i")
    case True
    have "slice a (length (cs ! i)) d' = int_cell q key"
    proof -
      have "drop a d = int_cell child key @ drop (a + length (cs ! i)) d" using cell_drop [OF pg i] c(1) by (simp add: a_def)
      then have "drop 4 (drop a d) = drop 4 (int_cell child key) @ drop (a + length (cs ! i)) d"
        using len(2) c(1) by simp
      then have "drop (a + 4) d = drop 4 (int_cell child key) @ drop (a + length (cs ! i)) d" by (simp add: add.commute)
      then have "drop a d' = tdb_put_u32 q @ drop 4 (int_cell child key) @ drop (a + length (cs ! i)) d"
        using a len pd(1) by (simp add: d'e patch_def)
      then have "drop a d' = int_cell q key @ drop (a + length (cs ! i)) d" by (simp add: int_cell_def)
      then show ?thesis using len(1) by (simp add: slice_def)
    qed
    then show ?thesis using True i len(1) by (simp add: a_def)
  next
    case False
    have "slice (cellptr_at d j) (length (cs ! j)) d' = slice (cellptr_at d j) (length (cs ! j)) d"
      using pd(14) [OF that i False] a len pd(1) pd(12) [OF that] unfolding d'e a_def [symmetric]
      by (auto intro: slice_patch_before slice_patch_after)
    then show ?thesis using False pd(13) [OF that] by simp
  qed
  moreover have "length (cs[i := int_cell q key] ! j) = length (cs ! j)" for j using len(1) i by (cases "j = i") simp_all
  moreover have "int_ok (cs[i := int_cell q key] ! j)" if "j < length cs" for j
    using pd(10) [OF that] c(2) that by (cases "j = i") (auto simp: int_ok_def)
  moreover have "cells_len (cs[i := int_cell q key]) = cells_len cs"
  proof -
    have "map length (cs[i := int_cell q key]) = (map length cs)[i := length (cs ! i)]" using len(1) by (simp add: map_update)
    also have "\<dots> = map length cs" using i by (metis list_update_id nth_map)
    finally show ?thesis by (simp add: cells_len_def)
  qed
  ultimately have "int_page ps d' (cs[i := int_cell q key])" unfolding page_ok_def using fld at pd by simp
  then show "int_page ps (set_intcell_child d i q) (cs[i := int_cell q key])" "pg_type (set_intcell_child d i q) = pg_type d"
    "pg_right (set_intcell_child d i q) = pg_right d" using fld by (simp_all add: d'_def)
qed

lemma set_right_ok:
  assumes pg: "int_page ps d cs"
  shows "int_page ps (pg_set_right d q) cs" "pg_type (pg_set_right d q) = pg_type d" "pg_right (pg_set_right d q) = q"
proof -
  note pd = page_okD [OF pg]
  note sr = set_right [of d, unfolded pd(1), OF pd(2), where c = q]
  have nl: "\<not> pg_is_leaf d" using pd(4) by simp
  have ptr: "cellptr_at (pg_set_right d q) j = cellptr_at d j" if "j < length cs" for j
    using sr(8) [OF nl, of j] pd(6,7,9) that by simp
  have sl: "slice (cellptr_at d j) (length (cs ! j)) (pg_set_right d q) = cs ! j" if "j < length cs" for j
    using sr(9) [OF nl, of "cellptr_at d j"] pd(7) pd(11-13) [OF that] by (simp add: hdr_len_def)
  show "int_page ps (pg_set_right d q) cs" unfolding page_ok_def using sr nl pd ptr sl by simp
  show "pg_type (pg_set_right d q) = pg_type d" "pg_right (pg_set_right d q) = q" using sr nl by simp_all
qed

section \<open>The search in a page\<close>

lemma find_loop_spec:
  assumes "lo \<le> hi" "\<And>i j. lo \<le> i \<Longrightarrow> i < j \<Longrightarrow> j < hi \<Longrightarrow> c j < 0 \<Longrightarrow> c i < 0"
  shows "lo \<le> find_loop c lo hi \<and> find_loop c lo hi \<le> hi \<and> (\<forall>i. lo \<le> i \<longrightarrow> i < find_loop c lo hi \<longrightarrow> c i < 0) \<and>
    (\<forall>i. find_loop c lo hi \<le> i \<longrightarrow> i < hi \<longrightarrow> \<not> c i < 0)"
  using assms
proof (induction c lo hi rule: find_loop.induct)
  case (1 c lo hi)
  show ?case
  proof (cases "lo < hi")
    case False
    then have "find_loop c lo hi = lo" by (subst find_loop.simps) simp
    then show ?thesis using False "1.prems"(1) by simp
  next
    case True
    define mid where "mid = (lo + hi) div 2"
    have mid: "lo \<le> mid" "mid < hi" using True by (simp_all add: mid_def)
    show ?thesis
    proof (cases "c mid < 0")
      case neg: True
      have eq: "find_loop c lo hi = find_loop c (mid + 1) hi"
        using True neg by (subst find_loop.simps) (simp add: mid_def Let_def)
      have IH: "mid + 1 \<le> find_loop c (mid + 1) hi \<and> find_loop c (mid + 1) hi \<le> hi \<and>
          (\<forall>i. mid + 1 \<le> i \<longrightarrow> i < find_loop c (mid + 1) hi \<longrightarrow> c i < 0) \<and> (\<forall>i. find_loop c (mid + 1) hi \<le> i \<longrightarrow> i < hi \<longrightarrow> \<not> c i < 0)"
        by (rule "1.IH"(1) [OF True mid_def neg]) (use mid "1.prems" in auto)
      have "c i < 0" if "lo \<le> i" "i < find_loop c (mid + 1) hi" for i
      proof (cases "i < mid")
        case True
        show ?thesis by (rule "1.prems"(2) [OF that(1) True mid(2) neg])
      next
        case False
        then show ?thesis using IH neg that by (cases "i = mid") auto
      qed
      then show ?thesis using IH mid unfolding eq by auto
    next
      case pos: False
      have eq: "find_loop c lo hi = find_loop c lo mid"
        using True pos by (subst find_loop.simps) (simp add: mid_def Let_def)
      have IH: "lo \<le> find_loop c lo mid \<and> find_loop c lo mid \<le> mid \<and>
          (\<forall>i. lo \<le> i \<longrightarrow> i < find_loop c lo mid \<longrightarrow> c i < 0) \<and> (\<forall>i. find_loop c lo mid \<le> i \<longrightarrow> i < mid \<longrightarrow> \<not> c i < 0)"
        by (rule "1.IH"(2) [OF True mid_def pos]) (use mid "1.prems" in auto)
      have "\<not> c i < 0" if "find_loop c lo mid \<le> i" "i < hi" for i
      proof (cases "i < mid")
        case True
        then show ?thesis using IH that by blast
      next
        case False
        then show ?thesis using "1.prems"(2) [of mid i] mid pos that by (cases "i = mid") auto
      qed
      then show ?thesis using IH mid unfolding eq by auto
    qed
  qed
qed

locale key_order =
  fixes cmp :: "bytes \<Rightarrow> bytes \<Rightarrow> int" and valid :: "bytes \<Rightarrow> bool"
  assumes eq_iff: "valid a \<Longrightarrow> valid b \<Longrightarrow> cmp a b = 0 \<longleftrightarrow> a = b"
    and swap: "valid a \<Longrightarrow> valid b \<Longrightarrow> cmp b a = - cmp a b"
    and trans: "valid a \<Longrightarrow> valid b \<Longrightarrow> valid c \<Longrightarrow> cmp a b < 0 \<Longrightarrow> cmp b c < 0 \<Longrightarrow> cmp a c < 0"
begin

definition ascending :: "bytes list \<Rightarrow> bool" where
  "ascending ks \<longleftrightarrow> sorted_wrt (\<lambda>a b. cmp a b < 0) ks \<and> (\<forall>k \<in> set ks. valid k)"

definition rank :: "bytes list \<Rightarrow> bytes \<Rightarrow> nat" where
  "rank ks key = length (takeWhile (\<lambda>k. cmp k key < 0) ks)"

lemma search_rank:
  assumes "ascending ks" "valid key" "\<And>i. i < length ks \<Longrightarrow> c i = cmp (ks ! i) key"
  shows "find_loop c 0 (length ks) = rank ks key"
proof -
  have mono: "c i < 0" if ij: "i < j" "j < length ks" "c j < 0" for i j
  proof -
    have v: "valid (ks ! i)" "valid (ks ! j)" and l: "cmp (ks ! i) (ks ! j) < 0"
      using assms(1) ij by (auto simp: ascending_def sorted_wrt_iff_nth_less)
    from trans [OF v(1,2) assms(2) l] ij assms(3) show ?thesis by simp
  qed
  define r where "r = find_loop c 0 (length ks)"
  have r: "r \<le> length ks" "\<And>i. i < r \<Longrightarrow> c i < 0" "\<And>i. r \<le> i \<Longrightarrow> i < length ks \<Longrightarrow> \<not> c i < 0"
    using find_loop_spec [of 0 "length ks" c] mono by (auto simp: r_def)
  have "takeWhile (\<lambda>k. cmp k key < 0) ks = take r ks"
    by (rule takeWhile_eq_take_P_nth) (use r assms(3) in auto)
  then show ?thesis using r(1) by (simp add: rank_def r_def [symmetric])
qed

end

lemma memcmp_less_trans:
  assumes "length a = length b" "length b = length c" "c_memcmp a b < 0" "c_memcmp b c < 0"
  shows "c_memcmp a c < 0"
proof -
  have "c_memcmp a c \<le> 0" using c_memcmp_trans [of a b c] assms by simp
  moreover have "c_memcmp a c \<noteq> 0"
  proof
    assume "c_memcmp a c = 0"
    then have "a = c" using assms by (simp add: c_memcmp_eq_0)
    then show False using assms(3,4) c_memcmp_sym [of a b] by simp
  qed
  ultimately show ?thesis by simp
qed

text \<open>The trees that \<^verbatim>\<open>tdb_btree_open\<close> makes for a table, and for an index without key description.\<close>

definition table_tree :: "u32 \<Rightarrow> nat \<Rightarrow> tdb_btree" where
  "table_tree r ps = \<lparr>bt_root = r, bt_kind = TDB_BT_TABLE, bt_ki = None, bt_ps = ps\<rparr>"

definition plain_index :: "u32 \<Rightarrow> nat \<Rightarrow> tdb_btree" where
  "plain_index r ps = \<lparr>bt_root = r, bt_kind = TDB_BT_INDEX, bt_ki = None, bt_ps = ps\<rparr>"

interpretation tk: key_order "bt_cmp ok (table_tree r ps)" "\<lambda>k. length k = 8" for ok r ps
proof unfold_locales
  show "bt_cmp ok (table_tree r ps) a b = 0 \<longleftrightarrow> a = b" if "length a = 8" "length b = 8" for a b
    using that by (simp add: bt_cmp_def table_tree_def c_memcmp_eq_0)
  show "bt_cmp ok (table_tree r ps) b a = - bt_cmp ok (table_tree r ps) a b" if "length a = 8" "length b = 8" for a b
    by (simp add: bt_cmp_def table_tree_def c_memcmp_sym [of "take 8 b"])
  show "bt_cmp ok (table_tree r ps) a c < 0" if "length a = 8" "length b = 8" "length c = 8"
    "bt_cmp ok (table_tree r ps) a b < 0" "bt_cmp ok (table_tree r ps) b c < 0" for a b c
    using that memcmp_less_trans [of a b c] by (simp add: bt_cmp_def table_tree_def)
qed

text \<open>Plain index keys compare lexicographically.\<close>

fun bytes_cmp :: "bytes \<Rightarrow> bytes \<Rightarrow> int" where
  "bytes_cmp [] [] = 0"
| "bytes_cmp [] (_ # _) = -1"
| "bytes_cmp (_ # _) [] = 1"
| "bytes_cmp (a # as) (b # bs) = (if a < b then -1 else if b < a then 1 else bytes_cmp as bs)"

lemma memcmp_common:
  "c_memcmp (take (if length a < length b then length a else length b) a) (take (if length a < length b then length a else length b) b) = c_memcmp a b"
  by (induction a b rule: c_memcmp.induct) (auto split: if_splits)

lemma plain_cmp: "bt_cmp ok (plain_index r ps) a b = bytes_cmp a b"
proof -
  have "bt_cmp ok (plain_index r ps) a b =
    (if c_memcmp a b \<noteq> 0 then (if c_memcmp a b < 0 then -1 else 1)
     else if length a = length b then 0 else if length a < length b then -1 else 1)"
    unfolding bt_cmp_def plain_index_def Let_def memcmp_common by simp
  also have "\<dots> = bytes_cmp a b" by (induction a b rule: bytes_cmp.induct) auto
  finally show ?thesis .
qed

lemma bytes_cmp_eq: "bytes_cmp a b = 0 \<longleftrightarrow> a = b"
  by (induction a b rule: bytes_cmp.induct) auto

lemma bytes_cmp_swap: "bytes_cmp b a = - bytes_cmp a b"
  by (induction a b rule: bytes_cmp.induct) auto

lemma bytes_cmp_trans: "bytes_cmp a b < 0 \<Longrightarrow> bytes_cmp b c < 0 \<Longrightarrow> bytes_cmp a c < 0"
proof (induction a b arbitrary: c rule: bytes_cmp.induct)
  case (2 y ys)
  then show ?case by (cases c) auto
next
  case (4 x xs y ys)
  then show ?case by (cases c) (auto split: if_splits)
qed simp_all

interpretation ik: key_order "bt_cmp ok (plain_index r ps)" "\<lambda>k. True" for ok r ps
  by unfold_locales (auto simp: plain_cmp bytes_cmp_eq intro: bytes_cmp_swap bytes_cmp_trans)

end
