(* ===== verification/Tdb_Btree.thy ===== *)
theory Tdb_Btree
  imports Tdb_Bt_Cells
begin

text \<open>
  The tree layer of \<^verbatim>\<open>src/storage/tdb_btree.c\<close> over the pager: overflow chains, splits, insertion,
  removal, opening and dropping of trees. The buffer of a page that a function has pinned is a
  local value while the function works on it and is put back when the function is done with
  it. Descents and chain walks that C runs for as long as the page numbers lead on are partial
  functions whose value is \<open>None\<close> if they never end.
\<close>

section \<open>Overflow chains\<close>

partial_function (option) overflow_write_loop ::
  "(nat \<Rightarrow> bool) \<Rightarrow> zbuild \<Rightarrow> nat \<Rightarrow> tdb_pager \<Rightarrow> u32 \<Rightarrow> u32 \<Rightarrow> bytes \<Rightarrow> (tdb_status \<times> u32 \<times> tdb_pager) option" where
  "overflow_write_loop ok z ps p first prev bs =
     (if bs = [] then Some (TDB_OK, first, p)
      else
        (case tdb_pager_alloc ok z p of
           (rc, cur, p1) \<Rightarrow>
             if rc \<noteq> TDB_OK then Some (rc, 0, p1)
             else
               (let chunk = take (ps - 4) bs;
                    p2 = page_put (page_put p1 cur 0 (tdb_put_u32 0)) cur 4 chunk;
                    p3 = tdb_pager_unref (snd (tdb_pager_write p2 cur)) cur;
                    first' = (if first = 0 then cur else first)
                in
                if prev \<noteq> 0 then
                  (case tdb_pager_get ok z p3 prev of
                     (rc, p4) \<Rightarrow>
                       if rc \<noteq> TDB_OK then Some (rc, 0, p4)
                       else
                         (let p5 = tdb_pager_unref (snd (tdb_pager_write (page_put p4 prev 0 (tdb_put_u32 cur)) prev)) prev
                          in overflow_write_loop ok z ps p5 first' cur (drop (ps - 4) bs)))
                else overflow_write_loop ok z ps p3 first' cur (drop (ps - 4) bs))))"

definition overflow_write :: "(nat \<Rightarrow> bool) \<Rightarrow> zbuild \<Rightarrow> nat \<Rightarrow> tdb_pager \<Rightarrow> bytes \<Rightarrow> (tdb_status \<times> u32 \<times> tdb_pager) option" where
  "overflow_write ok z ps p bs = overflow_write_loop ok z ps p 0 0 bs"

text \<open>Reads up to \<open>len\<close> bytes; the bytes read so far are \<open>acc\<close>.\<close>

partial_function (option) overflow_read_loop ::
  "(nat \<Rightarrow> bool) \<Rightarrow> zbuild \<Rightarrow> nat \<Rightarrow> tdb_pager \<Rightarrow> u32 \<Rightarrow> bytes \<Rightarrow> nat \<Rightarrow> (tdb_status \<times> bytes \<times> tdb_pager) option" where
  "overflow_read_loop ok z ps p q acc len =
     (if length acc < len \<and> q \<noteq> 0 then
        (case tdb_pager_get ok z p q of
           (rc, p1) \<Rightarrow>
             if rc \<noteq> TDB_OK then Some (rc, acc, p1)
             else
               (let chunk = (if ps - 4 < len - length acc then ps - 4 else len - length acc);
                    d = page_data p1 q
                in overflow_read_loop ok z ps (tdb_pager_unref p1 q) (tdb_get_u32 d) (acc @ slice 4 chunk d) len))
      else Some (TDB_OK, acc, p))"

definition overflow_read :: "(nat \<Rightarrow> bool) \<Rightarrow> zbuild \<Rightarrow> nat \<Rightarrow> tdb_pager \<Rightarrow> u32 \<Rightarrow> nat \<Rightarrow> (tdb_status \<times> bytes \<times> tdb_pager) option" where
  "overflow_read ok z ps p first len = overflow_read_loop ok z ps p first [] len"

partial_function (option) overflow_free :: "(nat \<Rightarrow> bool) \<Rightarrow> zbuild \<Rightarrow> tdb_pager \<Rightarrow> u32 \<Rightarrow> tdb_pager option" where
  "overflow_free ok z p q =
     (if q = 0 then Some p
      else
        (case tdb_pager_get ok z p q of
           (rc, p1) \<Rightarrow>
             if rc \<noteq> TDB_OK then Some p1
             else
               (let nxt = tdb_get_u32 (page_data p1 q)
                in overflow_free ok z (snd (tdb_pager_free ok z (tdb_pager_unref p1 q) q)) nxt)))"

definition build_leaf_cell ::
  "(nat \<Rightarrow> bool) \<Rightarrow> zbuild \<Rightarrow> tdb_btree \<Rightarrow> tdb_pager \<Rightarrow> bytes \<Rightarrow> bytes \<Rightarrow> (tdb_status \<times> bytes \<times> tdb_pager) option" where
  "build_leaf_cell ok z bt p key val =
     (let local = local_val_len (bt_ps bt) (length key) (length val);
          need = tdb_varint_len (word_of_nat (length key)) + length key + tdb_varint_len (word_of_nat (length val)) + local +
            (if local < length val then 4 else 0)
      in
      if \<not> ok need then Some (TDB_NOMEM, [], p)
      else if local < length val then
        Option.bind (overflow_write ok z (bt_ps bt) p (drop local val)) (\<lambda>(rc, first, p1).
          if rc \<noteq> TDB_OK then Some (rc, [], p1) else Some (TDB_OK, leaf_cell (bt_ps bt) key val (tdb_put_u32 first), p1))
      else Some (TDB_OK, leaf_cell (bt_ps bt) key val [], p))"

section \<open>Splits\<close>

record splitinfo =
  si_split :: bool
  si_sep :: bytes
  si_right :: u32

definition no_split :: splitinfo where
  "no_split = \<lparr>si_split = False, si_sep = [], si_right = 0\<rparr>"

text \<open>
  The cells of an overfull page with the new one at \<open>ins\<close>. Rebuilding a page ignores whether the
  cells fit.
\<close>

definition page_cells :: "nat \<Rightarrow> bytes \<Rightarrow> bytes list" where
  "page_cells ps d = map (\<lambda>i. slice (cellptr_at d i) (cell_size ps d i) d) [0..<pg_ncell d]"

definition fill_page :: "(nat \<Rightarrow> bool) \<Rightarrow> nat \<Rightarrow> bytes \<Rightarrow> bytes list \<Rightarrow> bytes" where
  "fill_page ok ps d cs = foldl (\<lambda>d i. snd (insert_cell ok ps d i (cs ! i))) d [0..<length cs]"

text \<open>
  The new contents of the split page are returned beside the pager; the right half is a new
  page. A page whose buffer is stored through \<open>page_put\<close> is written whole.
\<close>

definition split_leaf ::
  "(nat \<Rightarrow> bool) \<Rightarrow> zbuild \<Rightarrow> tdb_btree \<Rightarrow> tdb_pager \<Rightarrow> u32 \<Rightarrow> bytes \<Rightarrow> nat \<Rightarrow> bytes \<Rightarrow> tdb_status \<times> splitinfo \<times> bytes \<times> tdb_pager" where
  "split_leaf ok z bt p q d ins cell =
     (let ps = bt_ps bt; n = pg_ncell d; total = n + 1 in
      if \<not> ok (ps * 2) \<or> \<not> ok (4 * total) then (TDB_NOMEM, no_split, d, p)
      else
        (let cs = take ins (page_cells ps d) @ cell # drop ins (page_cells ps d);
             left = total div 2; left = (if left < 1 then 1 else left); left = (if total \<le> left then total - 1 else left);
             type = pg_type d
         in
         case tdb_pager_alloc ok z p of
           (rc, r, p1) \<Rightarrow>
             if rc \<noteq> TDB_OK then (rc, no_split, d, p1)
             else
               (let rd = fill_page ok ps (init_page ps type) (drop left cs);
                    d' = fill_page ok ps (init_page ps type) (take left cs);
                    sep = lc_key (leafcell_at ps (cs ! (left - 1)));
                    p2 = page_put p1 r 0 rd
                in
                if \<not> ok (length sep) then (TDB_NOMEM, no_split, d', p2)
                else
                  (let p3 = snd (tdb_pager_write p2 q);
                       p4 = tdb_pager_unref (snd (tdb_pager_write p3 r)) r
                   in (TDB_OK, \<lparr>si_split = True, si_sep = sep, si_right = r\<rparr>, d', p4)))))"

text \<open>
  Splitting an interior page: its keys with the new separator, and its children with the two
  halves of the split child. The allocations of the single cells are taken to succeed.
\<close>

definition split_keys :: "bytes \<Rightarrow> nat \<Rightarrow> bytes \<Rightarrow> bytes list" where
  "split_keys d ins sep =
     map (\<lambda>i. if i < ins then intcell_key d i else if i = ins then sep else intcell_key d (i - 1)) [0..<pg_ncell d + 1]"

definition child_at :: "bytes \<Rightarrow> nat \<Rightarrow> u32" where
  "child_at d i = (if i < pg_ncell d then intcell_child d i else pg_right d)"

definition split_children :: "bytes \<Rightarrow> nat \<Rightarrow> u32 \<Rightarrow> u32 \<Rightarrow> u32 list" where
  "split_children d ins new_left new_right =
     map (\<lambda>i. if i < ins then child_at d i else if i = ins then new_left else if i = ins + 1 then new_right else child_at d (i - 1))
       [0..<pg_ncell d + 2]"

definition split_interior ::
  "(nat \<Rightarrow> bool) \<Rightarrow> zbuild \<Rightarrow> tdb_btree \<Rightarrow> tdb_pager \<Rightarrow> u32 \<Rightarrow> bytes \<Rightarrow> nat \<Rightarrow> bytes \<Rightarrow> u32 \<Rightarrow>
     tdb_status \<times> splitinfo \<times> bytes \<times> tdb_pager" where
  "split_interior ok z bt p q d ins newcell new_right =
     (let ps = bt_ps bt; n = pg_ncell d; nk = n + 1; nc = nk + 1 in
      if \<not> ok (ps * 2) \<or> \<not> ok (4 * nk) \<or> \<not> ok (4 * nc) then (TDB_NOMEM, no_split, d, p)
      else
        (let new_left = tdb_get_u32 newcell;
             nsk = (case varint_at (drop 4 newcell) of (a, l) \<Rightarrow> take l (drop a (drop 4 newcell)));
             ks = split_keys d ins nsk;
             ch = split_children d ins new_left new_right;
             mid = nk div 2;
             type = pg_type d
         in
         case tdb_pager_alloc ok z p of
           (rc, r, p1) \<Rightarrow>
             if rc \<noteq> TDB_OK then (rc, no_split, d, p1)
             else
               (let d' = pg_set_right (fill_page ok ps (init_page ps type) (map (\<lambda>j. int_cell (ch ! j) (ks ! j)) [0..<mid])) (ch ! mid);
                    rd = pg_set_right (fill_page ok ps (init_page ps type) (map (\<lambda>j. int_cell (ch ! j) (ks ! j)) [mid + 1..<nk])) (ch ! (nc - 1));
                    p2 = page_put p1 r 0 rd
                in
                if \<not> ok (length (ks ! mid)) then (TDB_NOMEM, no_split, d', p2)
                else
                  (let p3 = snd (tdb_pager_write p2 q);
                       p4 = tdb_pager_unref (snd (tdb_pager_write p3 r)) r
                   in (TDB_OK, \<lparr>si_split = True, si_sep = ks ! mid, si_right = r\<rparr>, d', p4)))))"

section \<open>Insertion\<close>

text \<open>The end of an update of page \<open>q\<close>: the buffer is in place, and marked dirty on success.\<close>

definition finish_page :: "tdb_pager \<Rightarrow> u32 \<Rightarrow> bytes \<Rightarrow> tdb_status \<Rightarrow> tdb_pager" where
  "finish_page p q d rc =
     (let p1 = page_put p q 0 d in tdb_pager_unref (if rc = TDB_OK then snd (tdb_pager_write p1 q) else p1) q)"

definition insert_leaf ::
  "(nat \<Rightarrow> bool) \<Rightarrow> zbuild \<Rightarrow> tdb_btree \<Rightarrow> tdb_pager \<Rightarrow> u32 \<Rightarrow> bytes \<Rightarrow> bytes \<Rightarrow> (tdb_status \<times> splitinfo \<times> tdb_pager) option" where
  "insert_leaf ok z bt p q key cell =
     (let ps = bt_ps bt; d = page_data p q in
      case pg_find ok bt d key of
        (idx, exact) \<Rightarrow>
          Option.bind
            (if exact then
               (let lc = read_leafcell ps d idx in
                Option.bind (if lc_ovfl lc \<noteq> 0 then overflow_free ok z p (lc_ovfl lc) else Some p) (\<lambda>p1. Some (p1, delete_cell d idx)))
             else Some (p, d))
            (\<lambda>(p1, d1).
               case insert_cell ok ps d1 idx cell of
                 (rc, d2) \<Rightarrow>
                   if rc = TDB_FULL then
                     (case split_leaf ok z bt p1 q d2 idx cell of
                        (rc, si, d3, p2) \<Rightarrow> Some (rc, si, finish_page p2 q d3 rc))
                   else Some (rc, no_split, finish_page p1 q d2 rc)))"

definition insert_sep ::
  "(nat \<Rightarrow> bool) \<Rightarrow> zbuild \<Rightarrow> tdb_btree \<Rightarrow> tdb_pager \<Rightarrow> u32 \<Rightarrow> nat \<Rightarrow> u32 \<Rightarrow> splitinfo \<Rightarrow> tdb_status \<times> splitinfo \<times> tdb_pager" where
  "insert_sep ok z bt p q ci childpg csi =
     (let ps = bt_ps bt; d = page_data p q in
      case build_int_cell ok childpg (si_sep csi) of
        (rc, icell) \<Rightarrow>
          if rc \<noteq> TDB_OK then (rc, no_split, tdb_pager_unref p q)
          else
            (let oldn = pg_ncell d in
             case insert_cell ok ps d ci icell of
               (rc, d1) \<Rightarrow>
                 if rc = TDB_FULL then
                   (case split_interior ok z bt p q d1 ci icell (si_right csi) of
                      (rc, si, d2, p1) \<Rightarrow> (rc, si, finish_page p1 q d2 rc))
                 else if rc = TDB_OK then
                   (let d2 = (if ci < oldn then set_intcell_child d1 (ci + 1) (si_right csi) else pg_set_right d1 (si_right csi))
                    in (rc, no_split, finish_page p q d2 rc))
                 else (rc, no_split, finish_page p q d1 rc)))"

partial_function (option) insert_rec ::
  "(nat \<Rightarrow> bool) \<Rightarrow> zbuild \<Rightarrow> tdb_btree \<Rightarrow> tdb_pager \<Rightarrow> u32 \<Rightarrow> bytes \<Rightarrow> bytes \<Rightarrow> (tdb_status \<times> splitinfo \<times> tdb_pager) option" where
  "insert_rec ok z bt p q key cell =
     (case tdb_pager_get ok z p q of
        (rc, p1) \<Rightarrow>
          if rc \<noteq> TDB_OK then Some (rc, no_split, p1)
          else if pg_is_leaf (page_data p1 q) then insert_leaf ok z bt p1 q key cell
          else
            (let d = page_data p1 q; ci = fst (pg_find ok bt d key); childpg = child_at d ci in
             Option.bind (insert_rec ok z bt p1 childpg key cell) (\<lambda>(rc, csi, p2).
               if rc \<noteq> TDB_OK then Some (rc, no_split, tdb_pager_unref p2 q)
               else if si_split csi then Some (insert_sep ok z bt p2 q ci childpg csi)
               else Some (TDB_OK, no_split, tdb_pager_unref p2 q))))"

definition grow_root ::
  "(nat \<Rightarrow> bool) \<Rightarrow> zbuild \<Rightarrow> tdb_btree \<Rightarrow> tdb_pager \<Rightarrow> bytes \<Rightarrow> u32 \<Rightarrow> tdb_status \<times> tdb_pager" where
  "grow_root ok z bt p sep right =
     (let ps = bt_ps bt; q = bt_root bt in
      case tdb_pager_get ok z p q of
        (rc, p1) \<Rightarrow>
          if rc \<noteq> TDB_OK then (rc, p1)
          else
            (case tdb_pager_alloc ok z p1 of
               (rc, nl, p2) \<Rightarrow>
                 if rc \<noteq> TDB_OK then (rc, tdb_pager_unref p2 q)
                 else
                   (let p3 = page_put p2 nl 0 (page_data p2 q);
                        p4 = tdb_pager_unref (snd (tdb_pager_write p3 nl)) nl;
                        itype = (if bt_kind bt = TDB_BT_TABLE then TDB_PAGE_INTERIOR_TABLE else TDB_PAGE_INTERIOR_INDEX);
                        d = init_page ps itype
                    in
                    case build_int_cell ok nl sep of
                      (rc, ic) \<Rightarrow>
                        if rc \<noteq> TDB_OK then (rc, tdb_pager_unref (page_put p4 q 0 d) q)
                        else
                          (let d1 = pg_set_right (snd (insert_cell ok ps d 0 ic)) right
                           in (TDB_OK, tdb_pager_unref (snd (tdb_pager_write (page_put p4 q 0 d1) q)) q)))))"

definition tdb_btree_insert ::
  "(nat \<Rightarrow> bool) \<Rightarrow> zbuild \<Rightarrow> tdb_btree \<Rightarrow> tdb_pager \<Rightarrow> bytes \<Rightarrow> bytes \<Rightarrow> (tdb_status \<times> tdb_pager) option" where
  "tdb_btree_insert ok z bt p key val =
     (if bt_ps bt div 2 < length key + 16 then Some (TDB_FULL, p)
      else
        Option.bind (build_leaf_cell ok z bt p key val) (\<lambda>(rc, cell, p1).
          if rc \<noteq> TDB_OK then Some (rc, p1)
          else
            Option.bind (insert_rec ok z bt p1 (bt_root bt) key cell) (\<lambda>(rc, si, p2).
              if rc = TDB_OK \<and> si_split si then Some (grow_root ok z bt p2 (si_sep si) (si_right si)) else Some (rc, p2))))"

section \<open>Removal\<close>

partial_function (option) remove_loop ::
  "(nat \<Rightarrow> bool) \<Rightarrow> zbuild \<Rightarrow> tdb_btree \<Rightarrow> tdb_pager \<Rightarrow> u32 \<Rightarrow> bytes \<Rightarrow> (tdb_status \<times> bool \<times> tdb_pager) option" where
  "remove_loop ok z bt p q key =
     (case tdb_pager_get ok z p q of
        (rc, p1) \<Rightarrow>
          if rc \<noteq> TDB_OK then Some (rc, False, p1)
          else
            (let d = page_data p1 q in
             case pg_find ok bt d key of
               (idx, exact) \<Rightarrow>
                 if pg_is_leaf d then
                   (if exact then
                      (let lc = read_leafcell (bt_ps bt) d idx in
                       Option.bind (if lc_ovfl lc \<noteq> 0 then overflow_free ok z p1 (lc_ovfl lc) else Some p1) (\<lambda>p2.
                         Some (TDB_OK, True, finish_page p2 q (delete_cell d idx) TDB_OK)))
                    else Some (TDB_OK, False, tdb_pager_unref p1 q))
                 else remove_loop ok z bt (tdb_pager_unref p1 q) (child_at d idx) key))"

definition tdb_btree_remove ::
  "(nat \<Rightarrow> bool) \<Rightarrow> zbuild \<Rightarrow> tdb_btree \<Rightarrow> tdb_pager \<Rightarrow> bytes \<Rightarrow> (tdb_status \<times> bool \<times> tdb_pager) option" where
  "tdb_btree_remove ok z bt p key = remove_loop ok z bt p (bt_root bt) key"

section \<open>Creating, opening and dropping trees\<close>

definition tdb_btree_create :: "(nat \<Rightarrow> bool) \<Rightarrow> zbuild \<Rightarrow> tdb_pager \<Rightarrow> tdb_btree_kind \<Rightarrow> tdb_status \<times> u32 \<times> tdb_pager" where
  "tdb_btree_create ok z p kind =
     (case tdb_pager_alloc ok z p of
        (rc, q, p1) \<Rightarrow>
          if rc \<noteq> TDB_OK then (rc, 0, p1)
          else
            (let type = (if kind = TDB_BT_TABLE then TDB_PAGE_LEAF_TABLE else TDB_PAGE_LEAF_INDEX);
                 d = patch 5 (tdb_put_u16 0) (patch 3 (tdb_put_u16 0) (patch 0 [type] (replicate (page_size p1) 0)))
             in (TDB_OK, q, tdb_pager_unref (snd (tdb_pager_write (page_put p1 q 0 d) q)) q)))"

text \<open>The tree object takes 56 bytes.\<close>

definition tdb_btree_open ::
  "(nat \<Rightarrow> bool) \<Rightarrow> tdb_pager \<Rightarrow> u32 \<Rightarrow> tdb_btree_kind \<Rightarrow> tdb_keyinfo option \<Rightarrow> tdb_status \<times> tdb_btree option" where
  "tdb_btree_open ok p root kind ki =
     (if \<not> ok 56 then (TDB_NOMEM, None)
      else (TDB_OK, Some \<lparr>bt_root = root, bt_kind = kind, bt_ki = (if kind = TDB_BT_INDEX then ki else None), bt_ps = page_size p\<rparr>))"

primrec free_chains :: "(nat \<Rightarrow> bool) \<Rightarrow> zbuild \<Rightarrow> nat \<Rightarrow> bytes \<Rightarrow> tdb_pager \<Rightarrow> nat list \<Rightarrow> tdb_pager option" where
  "free_chains ok z ps d p [] = Some p"
| "free_chains ok z ps d p (i # is) =
     (let lc = read_leafcell ps d i in
      Option.bind (if lc_ovfl lc \<noteq> 0 then overflow_free ok z p (lc_ovfl lc) else Some p) (\<lambda>p1. free_chains ok z ps d p1 is))"

text \<open>
  The recursion over the children has fuel; \<open>None\<close> means that it ran out, as it does for a cyclic
  tree. The array of children takes 4 bytes each.
\<close>

fun free_subtree :: "(nat \<Rightarrow> bool) \<Rightarrow> zbuild \<Rightarrow> nat \<Rightarrow> nat \<Rightarrow> tdb_pager \<Rightarrow> u32 \<Rightarrow> (tdb_status \<times> tdb_pager) option"
  and free_kids :: "(nat \<Rightarrow> bool) \<Rightarrow> zbuild \<Rightarrow> nat \<Rightarrow> nat \<Rightarrow> tdb_pager \<Rightarrow> u32 list \<Rightarrow> (tdb_status \<times> tdb_pager) option" where
  "free_subtree ok z ps 0 p q = None"
| "free_subtree ok z ps (Suc fuel) p q =
     (case tdb_pager_get ok z p q of
        (rc, p1) \<Rightarrow>
          if rc \<noteq> TDB_OK then Some (rc, p1)
          else
            (let d = page_data p1 q; n = pg_ncell d in
             if pg_is_leaf d then
               Option.bind (free_chains ok z ps d p1 [0..<n]) (\<lambda>p2. Some (tdb_pager_free ok z (tdb_pager_unref p2 q) q))
             else if \<not> ok (4 * (n + 1)) then Some (TDB_NOMEM, tdb_pager_unref p1 q)
             else
               Option.bind (free_kids ok z ps fuel (tdb_pager_unref p1 q) (map (intcell_child d) [0..<n] @ [pg_right d])) (\<lambda>(rc, p2).
                 if rc \<noteq> TDB_OK then Some (rc, p2) else Some (tdb_pager_free ok z p2 q))))"
| "free_kids ok z ps fuel p [] = Some (TDB_OK, p)"
| "free_kids ok z ps fuel p (k # ks) =
     (if k = 0 then free_kids ok z ps fuel p ks
      else
        Option.bind (free_subtree ok z ps fuel p k) (\<lambda>(rc, p1).
          if rc \<noteq> TDB_OK then Some (rc, p1) else free_kids ok z ps fuel p1 ks))"

definition tdb_btree_destroy ::
  "(nat \<Rightarrow> bool) \<Rightarrow> zbuild \<Rightarrow> nat \<Rightarrow> tdb_pager \<Rightarrow> u32 \<Rightarrow> tdb_btree_kind \<Rightarrow> (tdb_status \<times> tdb_pager) option" where
  "tdb_btree_destroy ok z fuel p root kind =
     (if root = 0 then Some (TDB_OK, p)
      else
        (case tdb_btree_open ok p root kind None of
           (rc, None) \<Rightarrow> Some (rc, p)
         | (rc, Some bt) \<Rightarrow> free_subtree ok z (bt_ps bt) fuel p root))"

section \<open>Tables and indexes\<close>

definition tdb_btree_put :: "(nat \<Rightarrow> bool) \<Rightarrow> zbuild \<Rightarrow> tdb_btree \<Rightarrow> tdb_pager \<Rightarrow> u64 \<Rightarrow> bytes \<Rightarrow> (tdb_status \<times> tdb_pager) option" where
  "tdb_btree_put ok z bt p rowid val = tdb_btree_insert ok z bt p (rowid_to_key rowid) val"

definition tdb_btree_del :: "(nat \<Rightarrow> bool) \<Rightarrow> zbuild \<Rightarrow> tdb_btree \<Rightarrow> tdb_pager \<Rightarrow> u64 \<Rightarrow> (tdb_status \<times> bool \<times> tdb_pager) option" where
  "tdb_btree_del ok z bt p rowid = tdb_btree_remove ok z bt p (rowid_to_key rowid)"

definition tdb_index_put :: "(nat \<Rightarrow> bool) \<Rightarrow> zbuild \<Rightarrow> tdb_btree \<Rightarrow> tdb_pager \<Rightarrow> bytes \<Rightarrow> (tdb_status \<times> tdb_pager) option" where
  "tdb_index_put ok z bt p key = tdb_btree_insert ok z bt p key []"

definition tdb_index_del :: "(nat \<Rightarrow> bool) \<Rightarrow> zbuild \<Rightarrow> tdb_btree \<Rightarrow> tdb_pager \<Rightarrow> bytes \<Rightarrow> (tdb_status \<times> bool \<times> tdb_pager) option" where
  "tdb_index_del ok z bt p key = tdb_btree_remove ok z bt p key"

end
