(* ===== verification/Tdb_Bt_Cursor.thy ===== *)
theory Tdb_Bt_Cursor
  imports Tdb_Btree
begin

text \<open>
  The cursor of \<^verbatim>\<open>src/storage/tdb_btree.c\<close>: a stack of pages and child indexes from the root to a
  pinned leaf. The stack has \<open>TDB_MAXDEPTH\<close> slots and C does not check the level; an operation
  that would store beyond them, or that never ends, has the value \<open>None\<close>.
\<close>

section \<open>State\<close>

definition TDB_MAXDEPTH :: nat where
  "TDB_MAXDEPTH = 40"

record tdb_cursor =
  c_page :: "u32 list"
  c_cidx :: "nat list"
  c_depth :: nat
  c_leaf :: "u32 option"
  c_eof :: bool
  c_ovcap :: nat

text \<open>The cursor object takes 368 bytes.\<close>

definition new_cursor :: tdb_cursor where
  "new_cursor = \<lparr>c_page = replicate TDB_MAXDEPTH 0, c_cidx = replicate TDB_MAXDEPTH 0, c_depth = 0, c_leaf = None, c_eof = True, c_ovcap = 0\<rparr>"

definition tdb_cursor_open :: "(nat \<Rightarrow> bool) \<Rightarrow> tdb_status \<times> tdb_cursor option" where
  "tdb_cursor_open ok = (if \<not> ok 368 then (TDB_NOMEM, None) else (TDB_OK, Some new_cursor))"

definition drop_leaf :: "tdb_pager \<Rightarrow> tdb_cursor \<Rightarrow> tdb_pager" where
  "drop_leaf p c = (case c_leaf c of Some q \<Rightarrow> tdb_pager_unref p q | None \<Rightarrow> p)"

definition tdb_cursor_close :: "tdb_pager \<Rightarrow> tdb_cursor \<Rightarrow> tdb_pager" where
  "tdb_cursor_close p c = drop_leaf p c"

definition leaf_data :: "tdb_pager \<Rightarrow> tdb_cursor \<Rightarrow> bytes" where
  "leaf_data p c = (case c_leaf c of Some q \<Rightarrow> page_data p q | None \<Rightarrow> [])"

definition cur_idx :: "tdb_cursor \<Rightarrow> nat" where
  "cur_idx c = c_cidx c ! c_depth c"

type_synonym cursor_result = "(tdb_status \<times> tdb_cursor \<times> tdb_pager) option"

section \<open>Descents\<close>

function descend_leftmost :: "(nat \<Rightarrow> bool) \<Rightarrow> zbuild \<Rightarrow> tdb_pager \<Rightarrow> tdb_cursor \<Rightarrow> u32 \<Rightarrow> nat \<Rightarrow> cursor_result" where
  "descend_leftmost ok z p c q level =
     (if TDB_MAXDEPTH \<le> level then None
      else
        (let c1 = c\<lparr>c_page := (c_page c)[level := q]\<rparr> in
         case tdb_pager_get ok z p q of
           (rc, p1) \<Rightarrow>
             if rc \<noteq> TDB_OK then Some (rc, c1, p1)
             else
               (let d = page_data p1 q; c2 = c1\<lparr>c_cidx := (c_cidx c1)[level := 0]\<rparr> in
                if pg_is_leaf d then Some (TDB_OK, c2\<lparr>c_depth := level, c_leaf := Some q, c_eof := False\<rparr>, p1)
                else descend_leftmost ok z (tdb_pager_unref p1 q) c2 (child_at d 0) (Suc level))))"
  by pat_completeness auto

termination descend_leftmost
  by (relation "measure (\<lambda>(ok, z, p, c, q, level). TDB_MAXDEPTH - level)") auto

function descend_rightmost :: "(nat \<Rightarrow> bool) \<Rightarrow> zbuild \<Rightarrow> tdb_pager \<Rightarrow> tdb_cursor \<Rightarrow> u32 \<Rightarrow> nat \<Rightarrow> cursor_result" where
  "descend_rightmost ok z p c q level =
     (if TDB_MAXDEPTH \<le> level then None
      else
        (let c1 = c\<lparr>c_page := (c_page c)[level := q]\<rparr> in
         case tdb_pager_get ok z p q of
           (rc, p1) \<Rightarrow>
             if rc \<noteq> TDB_OK then Some (rc, c1, p1)
             else
               (let d = page_data p1 q; n = pg_ncell d in
                if pg_is_leaf d then
                  Some (TDB_OK, c1\<lparr>c_depth := level, c_cidx := (c_cidx c1)[level := (if 0 < n then n - 1 else 0)],
                                   c_leaf := Some q, c_eof := (n = 0)\<rparr>, p1)
                else descend_rightmost ok z (tdb_pager_unref p1 q) (c1\<lparr>c_cidx := (c_cidx c1)[level := n]\<rparr>) (pg_right d) (Suc level))))"
  by pat_completeness auto

termination descend_rightmost
  by (relation "measure (\<lambda>(ok, z, p, c, q, level). TDB_MAXDEPTH - level)") auto

declare descend_leftmost.simps [simp del] descend_rightmost.simps [simp del]

section \<open>Moving between leaves\<close>

text \<open>The loop over the ancestors, from the level below the argument down to the root.\<close>

primrec next_up :: "(nat \<Rightarrow> bool) \<Rightarrow> zbuild \<Rightarrow> tdb_pager \<Rightarrow> tdb_cursor \<Rightarrow> nat \<Rightarrow> cursor_result" where
  "next_up ok z p c 0 = Some (TDB_OK, c\<lparr>c_eof := True\<rparr>, p)"
| "next_up ok z p c (Suc level) =
     (let q = c_page c ! level in
      case tdb_pager_get ok z p q of
        (rc, p1) \<Rightarrow>
          if rc \<noteq> TDB_OK then Some (rc, c, p1)
          else
            (let d = page_data p1 q; nextci = c_cidx c ! level + 1 in
             if nextci \<le> pg_ncell d then
               descend_leftmost ok z (tdb_pager_unref p1 q) (c\<lparr>c_cidx := (c_cidx c)[level := nextci]\<rparr>) (child_at d nextci) (Suc level)
             else next_up ok z (tdb_pager_unref p1 q) c level))"

definition next_leaf :: "(nat \<Rightarrow> bool) \<Rightarrow> zbuild \<Rightarrow> tdb_pager \<Rightarrow> tdb_cursor \<Rightarrow> cursor_result" where
  "next_leaf ok z p c = next_up ok z (drop_leaf p c) (c\<lparr>c_leaf := None\<rparr>) (c_depth c)"

primrec prev_up :: "(nat \<Rightarrow> bool) \<Rightarrow> zbuild \<Rightarrow> tdb_pager \<Rightarrow> tdb_cursor \<Rightarrow> nat \<Rightarrow> cursor_result" where
  "prev_up ok z p c 0 = Some (TDB_OK, c\<lparr>c_eof := True\<rparr>, p)"
| "prev_up ok z p c (Suc level) =
     (let q = c_page c ! level in
      case tdb_pager_get ok z p q of
        (rc, p1) \<Rightarrow>
          if rc \<noteq> TDB_OK then Some (rc, c, p1)
          else
            (let d = page_data p1 q; ci = c_cidx c ! level in
             if 0 < ci then
               descend_rightmost ok z (tdb_pager_unref p1 q) (c\<lparr>c_cidx := (c_cidx c)[level := ci - 1]\<rparr>) (child_at d (ci - 1)) (Suc level)
             else prev_up ok z (tdb_pager_unref p1 q) c level))"

definition prev_leaf :: "(nat \<Rightarrow> bool) \<Rightarrow> zbuild \<Rightarrow> tdb_pager \<Rightarrow> tdb_cursor \<Rightarrow> cursor_result" where
  "prev_leaf ok z p c = prev_up ok z (drop_leaf p c) (c\<lparr>c_leaf := None\<rparr>) (c_depth c)"

text \<open>\<^verbatim>\<open>while (!c->eof && pg_ncell(c->leaf) == 0)\<close> with the step to the next or previous leaf.\<close>

partial_function (option) skip_empty :: "(tdb_pager \<Rightarrow> tdb_cursor \<Rightarrow> cursor_result) \<Rightarrow> tdb_pager \<Rightarrow> tdb_cursor \<Rightarrow> cursor_result" where
  "skip_empty move p c =
     (if \<not> c_eof c \<and> pg_ncell (leaf_data p c) = 0 then
        Option.bind (move p c) (\<lambda>(rc, c1, p1). if rc \<noteq> TDB_OK then Some (rc, c1, p1) else skip_empty move p1 c1)
      else Some (TDB_OK, c, p))"

definition tdb_cursor_first :: "(nat \<Rightarrow> bool) \<Rightarrow> zbuild \<Rightarrow> tdb_btree \<Rightarrow> tdb_pager \<Rightarrow> tdb_cursor \<Rightarrow> cursor_result" where
  "tdb_cursor_first ok z bt p c =
     Option.bind (descend_leftmost ok z (drop_leaf p c) (c\<lparr>c_leaf := None\<rparr>) (bt_root bt) 0) (\<lambda>(rc, c1, p1).
       if rc \<noteq> TDB_OK then Some (rc, c1, p1)
       else
         Option.bind (skip_empty (next_leaf ok z) p1 c1) (\<lambda>(rc, c2, p2).
           if rc \<noteq> TDB_OK then Some (rc, c2, p2)
           else if \<not> c_eof c2 \<and> pg_ncell (leaf_data p2 c2) \<le> cur_idx c2 then Some (TDB_OK, c2\<lparr>c_eof := True\<rparr>, p2)
           else Some (TDB_OK, c2, p2)))"

definition tdb_cursor_next :: "(nat \<Rightarrow> bool) \<Rightarrow> zbuild \<Rightarrow> tdb_pager \<Rightarrow> tdb_cursor \<Rightarrow> cursor_result" where
  "tdb_cursor_next ok z p c =
     (if c_eof c \<or> c_leaf c = None then Some (TDB_OK, c, p)
      else
        (let c1 = c\<lparr>c_cidx := (c_cidx c)[c_depth c := cur_idx c + 1]\<rparr> in
         if cur_idx c1 < pg_ncell (leaf_data p c1) then Some (TDB_OK, c1, p)
         else
           Option.bind (next_leaf ok z p c1) (\<lambda>(rc, c2, p2).
             if rc \<noteq> TDB_OK then Some (rc, c2, p2) else skip_empty (next_leaf ok z) p2 c2)))"

definition tdb_cursor_eof :: "tdb_cursor \<Rightarrow> bool" where
  "tdb_cursor_eof c = c_eof c"

definition tdb_cursor_last :: "(nat \<Rightarrow> bool) \<Rightarrow> zbuild \<Rightarrow> tdb_btree \<Rightarrow> tdb_pager \<Rightarrow> tdb_cursor \<Rightarrow> cursor_result" where
  "tdb_cursor_last ok z bt p c = descend_rightmost ok z (drop_leaf p c) (c\<lparr>c_leaf := None\<rparr>) (bt_root bt) 0"

definition tdb_cursor_prev :: "(nat \<Rightarrow> bool) \<Rightarrow> zbuild \<Rightarrow> tdb_pager \<Rightarrow> tdb_cursor \<Rightarrow> cursor_result" where
  "tdb_cursor_prev ok z p c =
     (if c_eof c \<or> c_leaf c = None then Some (TDB_OK, c, p)
      else if 0 < cur_idx c then Some (TDB_OK, c\<lparr>c_cidx := (c_cidx c)[c_depth c := cur_idx c - 1]\<rparr>, p)
      else
        Option.bind (prev_leaf ok z p c) (\<lambda>(rc, c2, p2).
          if rc \<noteq> TDB_OK then Some (rc, c2, p2) else skip_empty (prev_leaf ok z) p2 c2))"

section \<open>Seeking\<close>

text \<open>The result carries \<^verbatim>\<open>*cmp\<close>: 0 for an exact match, else 1.\<close>

function seek_loop :: "(nat \<Rightarrow> bool) \<Rightarrow> zbuild \<Rightarrow> tdb_btree \<Rightarrow> tdb_pager \<Rightarrow> tdb_cursor \<Rightarrow> u32 \<Rightarrow> nat \<Rightarrow> bytes \<Rightarrow>
    (tdb_status \<times> int \<times> tdb_cursor \<times> tdb_pager) option" where
  "seek_loop ok z bt p c q level key =
     (if TDB_MAXDEPTH \<le> level then None
      else
        (let c1 = c\<lparr>c_page := (c_page c)[level := q]\<rparr> in
         case tdb_pager_get ok z p q of
           (rc, p1) \<Rightarrow>
             if rc \<noteq> TDB_OK then Some (rc, 1, c1, p1)
             else
               (let d = page_data p1 q in
                case pg_find ok bt d key of
                  (idx, exact) \<Rightarrow>
                    (let c2 = c1\<lparr>c_cidx := (c_cidx c1)[level := idx]\<rparr> in
                     if pg_is_leaf d then
                       (let c3 = c2\<lparr>c_depth := level, c_leaf := Some q, c_eof := False\<rparr> in
                        if pg_ncell d \<le> idx then
                          Option.bind (next_leaf ok z p1 c3) (\<lambda>(rc, c4, p4).
                            if rc \<noteq> TDB_OK then Some (rc, 1, c4, p4)
                            else Option.bind (skip_empty (next_leaf ok z) p4 c4) (\<lambda>(rc, c5, p5). Some (rc, 1, c5, p5)))
                        else Some (TDB_OK, if exact then 0 else 1, c3, p1))
                     else seek_loop ok z bt (tdb_pager_unref p1 q) c2 (child_at d idx) (Suc level) key))))"
  by pat_completeness auto

termination seek_loop
  by (relation "measure (\<lambda>(ok, z, bt, p, c, q, level, key). TDB_MAXDEPTH - level)") auto

declare seek_loop.simps [simp del]

definition tdb_cursor_seek :: "(nat \<Rightarrow> bool) \<Rightarrow> zbuild \<Rightarrow> tdb_btree \<Rightarrow> tdb_pager \<Rightarrow> tdb_cursor \<Rightarrow> bytes \<Rightarrow>
    (tdb_status \<times> int \<times> tdb_cursor \<times> tdb_pager) option" where
  "tdb_cursor_seek ok z bt p c key = seek_loop ok z bt (drop_leaf p c) (c\<lparr>c_leaf := None\<rparr>) (bt_root bt) 0 key"

definition tdb_cursor_seek_rowid :: "(nat \<Rightarrow> bool) \<Rightarrow> zbuild \<Rightarrow> tdb_btree \<Rightarrow> tdb_pager \<Rightarrow> tdb_cursor \<Rightarrow> u64 \<Rightarrow>
    (tdb_status \<times> bool \<times> tdb_cursor \<times> tdb_pager) option" where
  "tdb_cursor_seek_rowid ok z bt p c rowid =
     Option.bind (tdb_cursor_seek ok z bt p c (rowid_to_key rowid)) (\<lambda>(rc, cmp, c1, p1). Some (rc, \<not> c_eof c1 \<and> cmp = 0, c1, p1))"

section \<open>Reading the current entry\<close>

definition tdb_cursor_key :: "nat \<Rightarrow> tdb_pager \<Rightarrow> tdb_cursor \<Rightarrow> tdb_status \<times> bytes" where
  "tdb_cursor_key ps p c =
     (if c_eof c \<or> c_leaf c = None then (TDB_NOTFOUND, [])
      else (TDB_OK, lc_key (read_leafcell ps (leaf_data p c) (cur_idx c))))"

definition tdb_cursor_rowid :: "nat \<Rightarrow> tdb_pager \<Rightarrow> tdb_cursor \<Rightarrow> tdb_status \<times> u64" where
  "tdb_cursor_rowid ps p c =
     (case tdb_cursor_key ps p c of (rc, k) \<Rightarrow> if rc \<noteq> TDB_OK then (rc, 0) else (TDB_OK, key_to_rowid k))"

definition tdb_cursor_data :: "(nat \<Rightarrow> bool) \<Rightarrow> zbuild \<Rightarrow> nat \<Rightarrow> tdb_pager \<Rightarrow> tdb_cursor \<Rightarrow>
    (tdb_status \<times> bytes \<times> tdb_cursor \<times> tdb_pager) option" where
  "tdb_cursor_data ok z ps p c =
     (if c_eof c \<or> c_leaf c = None then Some (TDB_NOTFOUND, [], c, p)
      else
        (let lc = read_leafcell ps (leaf_data p c) (cur_idx c) in
         if lc_ovfl lc = 0 then Some (TDB_OK, take (lc_vlen lc) (lc_lval lc), c, p)
         else if c_ovcap c < lc_vlen lc \<and> \<not> ok (lc_vlen lc) then Some (TDB_NOMEM, [], c, p)
         else
           (let c1 = c\<lparr>c_ovcap := max (c_ovcap c) (lc_vlen lc)\<rparr> in
            Option.bind (overflow_read ok z ps p (lc_ovfl lc) (lc_vlen lc - lc_local lc)) (\<lambda>(rc, b, p1).
              if rc \<noteq> TDB_OK then Some (rc, [], c1, p1) else Some (TDB_OK, lc_lval lc @ b, c1, p1)))))"

definition tdb_btree_max_rowid :: "(nat \<Rightarrow> bool) \<Rightarrow> zbuild \<Rightarrow> tdb_btree \<Rightarrow> tdb_pager \<Rightarrow> (tdb_status \<times> u64 \<times> tdb_pager) option" where
  "tdb_btree_max_rowid ok z bt p =
     (case tdb_cursor_open ok of
        (rc, None) \<Rightarrow> Some (rc, 0, p)
      | (rc, Some c) \<Rightarrow>
          Option.bind (tdb_cursor_last ok z bt p c) (\<lambda>(rc, c1, p1).
            if rc \<noteq> TDB_OK then Some (rc, 0, tdb_cursor_close p1 c1)
            else if c_eof c1 then Some (TDB_OK, 0, tdb_cursor_close p1 c1)
            else
              (case tdb_cursor_rowid (bt_ps bt) p1 c1 of (rc, r) \<Rightarrow> Some (rc, r, tdb_cursor_close p1 c1))))"

definition tdb_btree_get :: "(nat \<Rightarrow> bool) \<Rightarrow> zbuild \<Rightarrow> tdb_btree \<Rightarrow> tdb_pager \<Rightarrow> u64 \<Rightarrow> tdb_cursor \<Rightarrow>
    (tdb_status \<times> bytes \<times> tdb_cursor \<times> tdb_pager) option" where
  "tdb_btree_get ok z bt p rowid c =
     Option.bind (tdb_cursor_seek_rowid ok z bt p c rowid) (\<lambda>(rc, found, c1, p1).
       if rc \<noteq> TDB_OK then Some (rc, [], c1, p1)
       else if \<not> found then Some (TDB_NOTFOUND, [], c1, p1)
       else tdb_cursor_data ok z (bt_ps bt) p1 c1)"

end
