(* ===== verification/Tdb_Bt_Client.thy ===== *)
theory Tdb_Bt_Client
  imports Tdb_Bt_Cursor
begin

text \<open>
  The pager as the B-tree uses it. \<open>pins\<close> counts the references that keep a page in the cache,
  \<open>in_use\<close> is the set of pages that are neither free nor past the end of the file. The lemmas say
  for each of get, unref, storing a whole page and allocation what it does to the contents of
  the pages in use and to the pins.
\<close>

section \<open>Pins\<close>

definition pins :: "tdb_pager \<Rightarrow> u32 \<Rightarrow> nat" where
  "pins p q = (case cache_lookup p q of Some pg \<Rightarrow> pg_refs pg | None \<Rightarrow> 0)"

lemma pins_fields [simp]:
  "pins (p\<lparr>phdr := h\<rparr>) = pins p" "pins (p\<lparr>hdr_dirty := b\<rparr>) = pins p"
  "pins (lru_unlink p q) = pins p" "pins (lru_push_front p q) = pins p"
  by (simp_all add: pins_def fun_eq_iff)

lemma pins_upd:
  assumes "\<And>pg. pg_no (f pg) = pg_no pg" "\<And>pg. pg_refs (f pg) = pg_refs pg"
  shows "pins (page_upd p q f) = pins p"
  using assms by (simp add: pins_def fun_eq_iff lookup_upd split: option.splits)

lemma pins_put [simp]: "pins (page_put p q off b) = pins p" "pins (snd (tdb_pager_write p q)) = pins p"
  by (simp_all add: page_put_def tdb_pager_write_def pins_upd)

lemma pins_cached: "0 < pins p q \<Longrightarrow> \<exists>pg. cache_lookup p q = Some pg"
  by (auto simp: pins_def split: option.splits)

lemma pins_trim: "pager_inv z p \<Longrightarrow> pins (trim_loop p qs) = pins p"
proof (induction qs arbitrary: p)
  case Nil
  then show ?case by simp
next
  case (Cons q qs)
  have ok: "cache_ok p" using Cons.prems by (simp add: pager_inv_def)
  show ?case
  proof (cases "cache_lookup p q")
    case None
    then show ?thesis using Cons by simp
  next
    case (Some pg)
    show ?thesis
    proof (cases "pg_refs pg = 0 \<and> \<not> pg_dirty pg")
      case True
      have "pins (cache_remove p q) = pins p" using True Some by (auto simp: pins_def lookup_remove [OF ok] fun_eq_iff)
      moreover have "pager_inv z (cache_remove p q)" using trim_remove_keeps [OF Cons.prems Some] True by (simp add: keeps_def)
      ultimately show ?thesis using Cons.IH [of "cache_remove p q"] Some True by simp
    qed (use Cons Some in auto)
  qed
qed

lemma get_pins:
  assumes inv: "pager_inv z p" and get: "tdb_pager_get ok z p q = (TDB_OK, p1)"
  shows "pins p1 = (pins p)(q := Suc (pins p q))"
  using get
proof (cases rule: get_cases)
  case (cached pg)
  then show ?thesis using get_cached(2) [OF inv cached(2)] by (simp add: pins_def fun_eq_iff)
next
  case (loaded p2)
  define p3 where "p3 = page_upd p2 q (\<lambda>pg. pg\<lparr>pg_data := disk z p q, pg_refs := 1\<rparr>)"
  note g = get_loaded [OF inv loaded(2,1,3) p3_def]
  have "pins p1 = pins p3" using loaded(5) pins_trim [of z p3] g(1) by (simp add: p3_def cache_trim_def keeps_def)
  then show ?thesis using g(2) loaded(2) by (simp add: pins_def fun_eq_iff)
qed simp_all

lemma unref_pins: "pins (tdb_pager_unref p q) = (pins p)(q := pins p q - 1)"
  by (auto simp: pins_def fun_eq_iff tdb_pager_unref_def lookup_upd split: option.splits)

lemma alloc_pins:
  assumes inv: "pager_inv z p" and al: "tdb_pager_alloc ok z p = (TDB_OK, r, p')"
  shows "pins p' = (pins p)(r := 1)"
proof -
  have ro: "\<not> preadonly p" using al by (auto simp: tdb_pager_alloc_def)
  obtain rc q0 p1 where pop: "alloc_pop ok z p = (rc, q0, p1)" by (metis prod_cases3)
  then have rc: "rc = TDB_OK" and fr: "alloc_fresh ok p1 q0 = (TDB_OK, r, p')" using al ro by (auto simp: tdb_pager_alloc_def split: if_splits)
  have inv1: "pager_inv z p1"
    by (rule alloc_pop_cases [OF inv ro pop]) (use inv in \<open>auto simp: keeps_def edits_def\<close>)
  have "pins p1 = pins p"
  proof (cases "h_freelist_head (phdr p) = 0")
    case True
    then show ?thesis using pop by (auto simp: alloc_pop_def)
  next
    case False
    obtain rc2 p2 where get: "tdb_pager_get ok z p (h_freelist_head (phdr p)) = (rc2, p2)" by force
    have "rc2 = TDB_OK" using pop get False rc by (auto simp: alloc_pop_def Let_def split: if_splits)
    from get_pins [OF inv get [unfolded this]] show ?thesis
      using pop get False rc by (auto simp: alloc_pop_def Let_def unref_pins fun_eq_iff split: if_splits)
  qed
  moreover have "pins p' = (pins p1)(r := 1)"
  proof -
    have ok: "cache_ok p1" using inv1 by (simp add: pager_inv_def)
    define p2 where "p2 = (if q0 = 0 then p1\<lparr>phdr := (phdr p1)\<lparr>h_db_size := r\<rparr>, hdr_dirty := True\<rparr> else p1)"
    define p3 where "p3 = (case cache_lookup p2 r of Some _ \<Rightarrow> cache_remove p2 r | None \<Rightarrow> p2)"
    obtain p4 where new: "page_new ok p3 r = Some p4" and p': "p' = page_upd p4 r (\<lambda>pg. pg\<lparr>pg_refs := 1, pg_dirty := True\<rparr>)"
      using fr by (auto simp: alloc_fresh_def Let_def p2_def p3_def split: if_splits option.splits)
    have ok2: "cache_ok p2" using ok by (simp add: p2_def)
    have "cache_lookup p3 s = (if s = r then None else cache_lookup p1 s)" for s
      using ok2 by (auto simp: p3_def p2_def lookup_remove split: option.splits)
    then show ?thesis by (simp add: p' pins_def fun_eq_iff lookup_upd lookup_new [OF new])
  qed
  ultimately show ?thesis by simp
qed

section \<open>Pages in use\<close>

definition db_pages :: "tdb_pager \<Rightarrow> nat" where
  "db_pages p = unat (h_db_size (phdr p))"

definition in_use :: "zbuild \<Rightarrow> tdb_pager \<Rightarrow> u32 set \<Rightarrow> bool" where
  "in_use z p U \<longleftrightarrow> (\<exists>qs. free_inv z p qs \<and> U = pages_in_use (db_pages p) qs)"

lemma in_use_inv: "in_use z p U \<Longrightarrow> pager_inv z p" "in_use z p U \<Longrightarrow> \<not> preadonly p"
  by (auto simp: in_use_def free_inv_def)

lemma in_use_pos: "in_use z p U \<Longrightarrow> q \<in> U \<Longrightarrow> q \<noteq> 0"
  by (auto simp: in_use_def pages_in_use_def)

lemma free_list_frame:
  assumes "free_list z p qs" "phdr p' = phdr p" "page_size p' = page_size p" "\<And>q. q \<in> set qs \<Longrightarrow> view z p' q = view z p q"
  shows "free_list z p' qs"
proof -
  from assms(1) obtain ts where ts: "fl_chain (view z p) (h_freelist_head (phdr p)) ts" "fl_pages (view z p) ts = qs"
    "\<forall>t \<in> set ts. fl_count (view z p t) \<le> unat (per_trunk p)" "distinct qs"
    "\<forall>q \<in> set qs. 1 < q \<and> unat q \<le> unat (h_db_size (phdr p))" "h_freelist_count (phdr p) = word_of_nat (length qs)"
    by (rule free_listD) (rule that, assumption+)
  have v: "view z p' t = view z p t" if "t \<in> set ts" for t
    using assms(4) [of t] trunk_in_pages [OF that, of "view z p"] ts(2) by simp
  note fr = fl_frame [of ts "view z p'" "view z p", OF v]
  show ?thesis
    by (rule free_listI [of z p' ts]) (use ts fr v assms(2,3) in \<open>auto simp: per_trunk_def\<close>)
qed

lemma keeps_use:
  assumes "keeps z p p'" "in_use z p U"
  shows "in_use z p' U" "db_pages p' = db_pages p" "page_size p' = page_size p"
proof -
  have k: "pager_inv z p'" "view z p' = view z p" and r: "rest p' = rest p" using assms(1) by (simp_all add: keeps_def)
  note s = rest_sel [OF r]
  show db: "db_pages p' = db_pages p" "page_size p' = page_size p" using s by (simp_all add: db_pages_def)
  from assms(2) obtain qs where qs: "free_inv z p qs" "U = pages_in_use (db_pages p) qs" by (auto simp: in_use_def)
  have "free_list z p' qs" by (rule free_list_frame [of z p]) (use qs(1) s k(2) in \<open>simp_all add: free_inv_def\<close>)
  then have "free_inv z p' qs" using qs(1) k(1) s by (simp add: free_inv_def)
  then show "in_use z p' U" using qs(2) db by (auto simp: in_use_def)
qed

lemma edits_use:
  assumes "edits z p q d p'" "phdr p' = phdr p" "in_use z p U" "q \<in> U"
  shows "in_use z p' U" "db_pages p' = db_pages p"
proof -
  show db: "db_pages p' = db_pages p" using assms(2) by (simp add: db_pages_def)
  from assms(3) obtain qs where qs: "free_inv z p qs" "U = pages_in_use (db_pages p) qs" by (auto simp: in_use_def)
  have q: "q \<notin> set qs" using assms(4) qs(2) by (simp add: pages_in_use_def)
  have "free_list z p' qs"
    by (rule free_list_frame [of z p]) (use qs(1) assms(1,2) q in \<open>auto simp: free_inv_def edits_def\<close>)
  then have "free_inv z p' qs" using qs(1) assms(1) by (simp add: free_inv_def edits_def)
  then show "in_use z p' U" using qs(2) db by (auto simp: in_use_def)
qed

lemma get_use:
  assumes "in_use z p U" "q \<in> U"
  obtains p1 where "tdb_pager_get all_ok z p q = (TDB_OK, p1)" "keeps z p p1" "in_use z p1 U" "page_data p1 q = view z p q"
    "pins p1 = (pins p)(q := Suc (pins p q))" "db_pages p1 = db_pages p" "page_size p1 = page_size p" "view z p1 = view z p"
proof -
  note inv = in_use_inv(1) [OF assms(1)]
  obtain rc p1 where g: "tdb_pager_get all_ok z p q = (rc, p1)" by force
  have rc: "rc = TDB_OK" using get_succeeds [OF inv in_use_pos [OF assms]] g by simp
  have k: "keeps z p p1" by (rule get_keeps(1) [OF inv g])
  have d: "page_data p1 q = view z p q" by (rule get_view [OF inv g [unfolded rc]])
  show thesis
    using that [of p1] g rc k d get_pins [OF inv g [unfolded rc]] keeps_use [OF k assms(1)] by (simp add: keeps_def)
qed

lemma unref_use:
  assumes "in_use z p U"
  shows "keeps z p (tdb_pager_unref p q)" "in_use z (tdb_pager_unref p q) U" "db_pages (tdb_pager_unref p q) = db_pages p"
    "page_size (tdb_pager_unref p q) = page_size p" "view z (tdb_pager_unref p q) = view z p"
proof -
  show k: "keeps z p (tdb_pager_unref p q)" by (rule unref_keeps [OF in_use_inv(1) [OF assms]])
  show "in_use z (tdb_pager_unref p q) U" "db_pages (tdb_pager_unref p q) = db_pages p"
    "page_size (tdb_pager_unref p q) = page_size p" using keeps_use [OF k assms] by simp_all
  show "view z (tdb_pager_unref p q) = view z p" using k by (simp add: keeps_def)
qed

text \<open>Putting a whole page in place and marking it.\<close>

definition store_page :: "tdb_pager \<Rightarrow> u32 \<Rightarrow> bytes \<Rightarrow> tdb_pager" where
  "store_page p q d = snd (tdb_pager_write (page_put p q 0 d) q)"

lemma store_use:
  assumes "in_use z p U" "q \<in> U" "0 < pins p q" "length d = page_size p"
  shows "in_use z (store_page p q d) U" "view z (store_page p q d) = (view z p)(q := d)" "pins (store_page p q d) = pins p"
    "db_pages (store_page p q d) = db_pages p" "page_size (store_page p q d) = page_size p" "is_dirty (store_page p q d) q"
proof -
  obtain pg where pg: "cache_lookup p q = Some pg" using pins_cached [OF assms(3)] by blast
  have len: "length (pg_data pg) = page_size p" using in_use_inv(1) [OF assms(1)] pg by (auto simp: pager_inv_def dest: pages_okD)
  have p: "patch 0 d (pg_data pg) = d" using len assms(4) by (simp add: patch_def)
  have e: "edits z p q d (store_page p q d)"
    using write_edits [OF in_use_inv(1) [OF assms(1)] pg in_use_inv(2) [OF assms(1)], of "patch 0 d"] p assms(4)
    by (simp add: store_page_def page_put_def)
  have h: "phdr (store_page p q d) = phdr p" by (simp add: store_page_def tdb_pager_write_def page_put_def)
  show "in_use z (store_page p q d) U" "db_pages (store_page p q d) = db_pages p" using edits_use [OF e h assms(1,2)] by simp_all
  show "view z (store_page p q d) = (view z p)(q := d)" "page_size (store_page p q d) = page_size p" "is_dirty (store_page p q d) q"
    using e by (simp_all add: edits_def)
  show "pins (store_page p q d) = pins p" by (simp add: store_page_def)
qed

lemma put_use:
  assumes "in_use z p U" "q \<in> U" "is_dirty p q" "length d = page_size p"
  shows "in_use z (page_put p q 0 d) U" "view z (page_put p q 0 d) = (view z p)(q := d)" "pins (page_put p q 0 d) = pins p"
    "db_pages (page_put p q 0 d) = db_pages p" "page_size (page_put p q 0 d) = page_size p"
proof -
  have len: "length (view z p q) = page_size p" by (rule length_view [OF in_use_inv(1) [OF assms(1)]])
  have "patch 0 d (view z p q) = d" using len assms(4) by (simp add: patch_def)
  then have e: "edits z p q d (page_put p q 0 d)" using put_edits [OF in_use_inv(1) [OF assms(1)] assms(3), of 0 d] assms(4) by simp
  have h: "phdr (page_put p q 0 d) = phdr p" by (simp add: page_put_def)
  show "in_use z (page_put p q 0 d) U" "db_pages (page_put p q 0 d) = db_pages p" using edits_use [OF e h assms(1,2)] by simp_all
  show "view z (page_put p q 0 d) = (view z p)(q := d)" "page_size (page_put p q 0 d) = page_size p" using e by (simp_all add: edits_def)
  show "pins (page_put p q 0 d) = pins p" by simp
qed

lemma mark_use:
  assumes "in_use z p U" "q \<in> U" "0 < pins p q"
  shows "in_use z (snd (tdb_pager_write p q)) U" "view z (snd (tdb_pager_write p q)) = view z p" "pins (snd (tdb_pager_write p q)) = pins p"
    "db_pages (snd (tdb_pager_write p q)) = db_pages p" "page_size (snd (tdb_pager_write p q)) = page_size p"
proof -
  obtain pg where pg: "cache_lookup p q = Some pg" using pins_cached [OF assms(3)] by blast
  have len: "length (pg_data pg) = page_size p" using in_use_inv(1) [OF assms(1)] pg by (auto simp: pager_inv_def dest: pages_okD)
  have "page_upd p q (\<lambda>pg. pg) = p" by (simp add: page_upd_def)
  then have e: "edits z p q (view z p q) (snd (tdb_pager_write p q))"
    using write_edits [OF in_use_inv(1) [OF assms(1)] pg in_use_inv(2) [OF assms(1)], of "\<lambda>d. d"] len cached_view(1) [OF pg, of z] by simp
  have h: "phdr (snd (tdb_pager_write p q)) = phdr p" by (simp add: tdb_pager_write_def)
  show "in_use z (snd (tdb_pager_write p q)) U" "db_pages (snd (tdb_pager_write p q)) = db_pages p"
    using edits_use [OF e h assms(1,2)] by simp_all
  show "view z (snd (tdb_pager_write p q)) = view z p" "page_size (snd (tdb_pager_write p q)) = page_size p" using e by (simp_all add: edits_def)
  show "pins (snd (tdb_pager_write p q)) = pins p" by simp
qed

lemma alloc_use:
  assumes "in_use z p U" "db_pages p + 1 < 2 ^ 32"
  obtains r p1 where "tdb_pager_alloc all_ok z p = (TDB_OK, r, p1)" "r \<notin> U" "r \<noteq> 0" "in_use z p1 (insert r U)"
    "\<And>q. q \<in> U \<Longrightarrow> view z p1 q = view z p q" "pins p1 = (pins p)(r := 1)" "db_pages p1 \<le> db_pages p + 1"
    "page_size p1 = page_size p" "\<And>q. is_dirty p q \<Longrightarrow> is_dirty p1 q" "is_dirty p1 r"
proof -
  from assms(1) obtain qs where qs: "free_inv z p qs" "U = pages_in_use (db_pages p) qs" by (auto simp: in_use_def)
  obtain rc r p1 where al: "tdb_pager_alloc all_ok z p = (rc, r, p1)" by (metis prod_cases3)
  note u = fl.alloc_unused [OF qs(1) assms(2) [unfolded db_pages_def] al]
  then have rc: "rc = TDB_OK" and r: "r \<notin> U" using qs(2) by (simp_all add: db_pages_def)
  from u obtain qs' where qs': "free_inv z p1 qs'" "pages_in_use (db_pages p1) qs' = insert r U" using qs(2) by (auto simp: db_pages_def)
  then have r0: "r \<noteq> 0" by (auto simp: pages_in_use_def)
  have al': "tdb_pager_alloc all_ok z p = (TDB_OK, r, p1)" using al rc by simp
  have v: "view z p1 q = view z p q" if "q \<in> U" for q
    using alloc_view(2) [OF qs(1) al' r0, of q] that r qs(2) by (auto simp: pages_in_use_def)
  note inv = in_use_inv [OF assms(1)]
  have ev: "evolves z p p1" by (rule alloc_evolves [OF inv(1) al' r0])
  have db: "db_pages p1 \<le> db_pages p + 1"
  proof (cases qs)
    case Nil
    then show ?thesis using alloc_grows [of z p] qs(1) al' assms(2) by (auto simp: db_pages_def unat_add_lem [THEN iffD1])
  next
    case (Cons q qs1)
    then show ?thesis using alloc_pops [of z p q qs1] qs(1) al' by (auto simp: db_pages_def)
  qed
  have dirty: "is_dirty p1 r"
  proof -
    obtain q0 p2 where pop: "alloc_pop all_ok z p = (TDB_OK, q0, p2)" using alloc_pop_succeeds [OF inv(1)] by (metis prod.collapse)
    have "pager_inv z p2" by (rule alloc_pop_cases [OF inv(1,2) pop]) (use inv(1) in \<open>auto simp: keeps_def edits_def\<close>)
    moreover have "alloc_fresh all_ok p2 q0 = (TDB_OK, r, p1)" using al' pop inv(2) by (simp add: tdb_pager_alloc_def)
    ultimately show ?thesis using alloc_fresh_edits(1) [OF _ _ r0] by (simp add: edits_def)
  qed
  show thesis
    using that [of r p1] al' r r0 qs' v alloc_pins [OF inv(1) al'] db ev dirty by (auto simp: in_use_def evolves_def)
qed

end
