(* ===== verification/Tdb_Bt_Tree.thy ===== *)
theory Tdb_Bt_Tree
  imports Tdb_Bt_Client
begin

text \<open>
  B-trees as abstract trees. A node lists its children and the separators between them; the
  representation predicate ties each node to the image of its page. The order invariant bounds
  every subtree by the separators beside it, strictly from below. The locale \<open>bt_map\<close> collects
  what insertion needs: an order on the keys, and cells whose sizes vary by at most a factor of
  three halves and are at most a quarter of a page, so that splitting a page in the middle of
  its cell list always leaves two halves that fit.
\<close>

section \<open>Trees\<close>

datatype bt_tree = BLeaf u32 "bytes list" | BNode u32 "bt_tree list" "bytes list"

fun root_of :: "bt_tree \<Rightarrow> u32" where
  "root_of (BLeaf q cs) = q"
| "root_of (BNode q ts ks) = q"

fun pages :: "bt_tree \<Rightarrow> u32 list" where
  "pages (BLeaf q cs) = [q]"
| "pages (BNode q ts ks) = q # concat (map pages ts)"

fun entries :: "bt_tree \<Rightarrow> bytes list" where
  "entries (BLeaf q cs) = cs"
| "entries (BNode q ts ks) = concat (map entries ts)"

text \<open>All leaves are at depth \<open>h\<close>, and an inner node has at least two children.\<close>

fun full :: "nat \<Rightarrow> bt_tree \<Rightarrow> bool" where
  "full h (BLeaf q cs) \<longleftrightarrow> h = 0"
| "full h (BNode q ts ks) \<longleftrightarrow> (case h of 0 \<Rightarrow> False | Suc h' \<Rightarrow> 2 \<le> length ts \<and> (\<forall>t \<in> set ts. full h' t))"

definition node_cells :: "bt_tree list \<Rightarrow> bytes list \<Rightarrow> bytes list" where
  "node_cells ts ks = map2 (\<lambda>t k. int_cell (root_of t) k) ts ks"

fun tree_rep :: "(u32 \<Rightarrow> bytes) \<Rightarrow> nat \<Rightarrow> bt_tree \<Rightarrow> bool" where
  "tree_rep v ps (BLeaf q cs) \<longleftrightarrow> leaf_page ps (v q) cs"
| "tree_rep v ps (BNode q ts ks) \<longleftrightarrow>
     length ts = Suc (length ks) \<and> int_page ps (v q) (node_cells ts ks) \<and> pg_right (v q) = root_of (last ts) \<and>
     (\<forall>t \<in> set ts. tree_rep v ps t)"

lemma root_in_pages: "root_of t \<in> set (pages t)"
  by (cases t) simp_all

lemma full_pages: "full h t \<Longrightarrow> 2 ^ h \<le> length (pages t)"
proof (induction h arbitrary: t)
  case 0
  then show ?case by (cases t) auto
next
  case (Suc h)
  then obtain q ts ks where t: "t = BNode q ts ks" "2 \<le> length ts" "\<forall>t \<in> set ts. full h t" by (cases t) auto
  then obtain a b ts' where ts: "ts = a # b # ts'" by (cases ts; cases "tl ts") auto
  have "2 ^ h \<le> length (pages a)" "2 ^ h \<le> length (pages b)" using Suc.IH t(3) by (simp_all add: ts)
  then show ?case by (simp add: t(1) ts)
qed

lemma tree_rep_frame: "tree_rep v ps t \<Longrightarrow> (\<And>q. q \<in> set (pages t) \<Longrightarrow> v' q = v q) \<Longrightarrow> tree_rep v' ps t"
proof (induction t)
  case (BLeaf q cs)
  then show ?case by simp
next
  case (BNode q ts ks)
  have "tree_rep v' ps t" if "t \<in> set ts" for t
    by (rule BNode.IH [OF that]) (use BNode.prems that in auto)
  then show ?case using BNode.prems by simp
qed

lemma node_cells_nth: "i < length ks \<Longrightarrow> length ts = Suc (length ks) \<Longrightarrow> node_cells ts ks ! i = int_cell (root_of (ts ! i)) (ks ! i)"
  by (simp add: node_cells_def)

lemma length_node_cells: "length ts = Suc (length ks) \<Longrightarrow> length (node_cells ts ks) = length ks"
  by (simp add: node_cells_def)

lemma node_child_at:
  assumes "int_page ps d (node_cells ts ks)" "pg_right d = root_of (last ts)" "length ts = Suc (length ks)"
    and "\<forall>k \<in> set ks. length k < 2 ^ 32" "i \<le> length ks"
  shows "child_at d i = root_of (ts ! i)"
proof -
  have n: "pg_ncell d = length ks" using page_okD(5) [OF assms(1)] length_node_cells [OF assms(3)] by simp
  have "ts \<noteq> []" using assms(3) by auto
  then have l: "last ts = ts ! length ks" using assms(3) by (simp add: last_conv_nth)
  show ?thesis
  proof (cases "i < length ks")
    case True
    then show ?thesis
      using n int_page_read(1) [OF assms(1), of i "root_of (ts ! i)" "ks ! i"] assms(3,4) node_cells_nth [OF True assms(3)]
      by (simp add: child_at_def length_node_cells)
  next
    case False
    then show ?thesis using n assms(2,5) l by (simp add: child_at_def)
  qed
qed

lemma node_key_at:
  assumes "int_page ps d (node_cells ts ks)" "length ts = Suc (length ks)" "\<forall>k \<in> set ks. length k < 2 ^ 32" "i < length ks"
  shows "intcell_key d i = ks ! i" "cell_key ps d i = ks ! i"
  using int_page_read(2,3) [OF assms(1), of i "root_of (ts ! i)" "ks ! i"] assms(2-4) node_cells_nth [OF assms(4,2)]
  by (simp_all add: length_node_cells)

section \<open>Filling pages\<close>

context cell_format
begin

lemma page_cells_ok: "page_ok cok ps leaf d cs \<Longrightarrow> page_cells ps d = cs"
  by (rule nth_equalityI) (simp_all add: page_cells_def page_okD cell_size_ok)

lemma fits_take: "fits ps leaf cs \<Longrightarrow> fits ps leaf (take k cs)"
proof -
  assume "fits ps leaf cs"
  moreover have "cells_len cs = cells_len (take k cs) + cells_len (drop k cs)" by (metis append_take_drop_id cells_len_simps(3))
  moreover have "length (take k cs) \<le> length cs" by simp
  ultimately show ?thesis unfolding fits_def by linarith
qed

lemma fill_page_ok:
  assumes "page_ok cok ps leaf d []" "\<forall>c \<in> set cs. cok c" "fits ps leaf cs"
  shows "page_ok cok ps leaf (fill_page all_ok ps d cs) cs" "pg_type (fill_page all_ok ps d cs) = pg_type d"
proof -
  define dk where "dk k = foldl (\<lambda>d i. snd (insert_cell all_ok ps d i (cs ! i))) d [0..<k]" for k
  have "k \<le> length cs \<Longrightarrow> page_ok cok ps leaf (dk k) (take k cs) \<and> pg_type (dk k) = pg_type d" for k
  proof (induction k)
    case 0
    then show ?case using assms(1) by (simp add: dk_def)
  next
    case (Suc k)
    have IH: "page_ok cok ps leaf (dk k) (take k cs)" "pg_type (dk k) = pg_type d" using Suc by simp_all
    have tk: "take (Suc k) cs = take k cs @ [cs ! k]" using Suc.prems by (simp add: take_Suc_conv_app_nth)
    have f: "fits ps leaf (cs ! k # take k cs)" using fits_take [OF assms(3), of "Suc k"] by (simp add: tk fits_def)
    obtain d' where d': "insert_cell all_ok ps (dk k) k (cs ! k) = (TDB_OK, d')"
      "page_ok cok ps leaf d' (take k (take k cs) @ cs ! k # drop k (take k cs))" "pg_type d' = pg_type (dk k)"
      by (rule insert_cell_ok [OF IH(1), of "cs ! k" k all_ok]) (use assms(2) Suc.prems f in auto)
    have "dk (Suc k) = d'" using d'(1) by (simp add: dk_def)
    then show ?case using d'(2,3) IH(2) by (simp add: tk)
  qed
  from this [of "length cs"] show "page_ok cok ps leaf (fill_page all_ok ps d cs) cs" "pg_type (fill_page all_ok ps d cs) = pg_type d"
    by (simp_all add: dk_def fill_page_def)
qed

end

text \<open>Sizes within a factor of three halves and below a quarter page: any half of an overfull page fits.\<close>

lemma cells_len_le: "(\<And>c. c \<in> set cs \<Longrightarrow> length c \<le> M) \<Longrightarrow> cells_len cs + 2 * length cs \<le> length cs * (M + 2)"
  by (induction cs) force+

lemma cells_len_ge: "(\<And>c. c \<in> set cs \<Longrightarrow> m \<le> length c) \<Longrightarrow> length cs * (m + 2) \<le> cells_len cs + 2 * length cs"
  by (induction cs) force+

lemma half_fits:
  assumes "fits ps leaf cs" "\<And>c. c \<in> set cs \<Longrightarrow> m \<le> length c" "\<And>c. c \<in> set cs' \<Longrightarrow> length c \<le> M"
    and "2 * (M + 2) \<le> 3 * (m + 2)" "hdr_len leaf + 4 * (M + 2) \<le> ps" "2 * length cs' \<le> length cs + 2"
  shows "fits ps leaf cs'"
proof -
  have a: "hdr_len leaf + length cs * (m + 2) \<le> ps" using cells_len_ge [of cs m, OF assms(2)] assms(1) unfolding fits_def by linarith
  have "4 * (length cs' * (M + 2)) = 2 * (2 * length cs') * (M + 2)" by simp
  also have "\<dots> \<le> 2 * (length cs + 2) * (M + 2)" by (intro mult_right_mono mult_left_mono assms(6)) simp_all
  also have "\<dots> = length cs * (2 * (M + 2)) + 4 * (M + 2)" by (simp add: algebra_simps)
  also have "\<dots> \<le> length cs * (3 * (m + 2)) + 4 * (M + 2)" by (intro add_right_mono mult_left_mono assms(4)) simp
  also have "\<dots> \<le> 3 * (ps - hdr_len leaf) + (ps - hdr_len leaf)" using a assms(5) by linarith
  finally have "length cs' * (M + 2) \<le> ps - hdr_len leaf" by simp
  then have "hdr_len leaf + length cs' * (M + 2) \<le> ps" using assms(5) by linarith
  then show ?thesis using cells_len_le [of cs' M, OF assms(3)] unfolding fits_def by linarith
qed

lemma few_fit:
  assumes "\<And>c. c \<in> set cs \<Longrightarrow> length c \<le> M" "hdr_len leaf + 4 * (M + 2) \<le> ps" "length cs \<le> 4"
  shows "fits ps leaf cs"
proof -
  have "length cs * (M + 2) \<le> 4 * (M + 2)" by (rule mult_right_mono [OF assms(3)]) simp
  then show ?thesis using cells_len_le [of cs M, OF assms(1)] assms(2) unfolding fits_def by linarith
qed

section \<open>Sorted lists of keys\<close>

context key_order
begin

abbreviation lt :: "bytes \<Rightarrow> bytes \<Rightarrow> bool" where
  "lt a b \<equiv> cmp a b < 0"

lemma lt_asym: "valid a \<Longrightarrow> valid b \<Longrightarrow> lt a b \<Longrightarrow> \<not> lt b a"
  using swap [of a b] by simp

lemma not_lt: "valid a \<Longrightarrow> valid b \<Longrightarrow> \<not> lt a b \<Longrightarrow> a = b \<or> lt b a"
  using eq_iff [of a b] swap [of a b] by auto

lemma lt_irrefl: "valid a \<Longrightarrow> \<not> lt a a"
  using lt_asym [of a a] by auto

lemma ascending_simps:
  "ascending []" "ascending (k # ks) \<longleftrightarrow> valid k \<and> (\<forall>k' \<in> set ks. lt k k') \<and> ascending ks"
  "ascending (ks @ ks') \<longleftrightarrow> ascending ks \<and> ascending ks' \<and> (\<forall>k \<in> set ks. \<forall>k' \<in> set ks'. lt k k')"
  by (auto simp: ascending_def sorted_wrt_append)

text \<open>The rank of a key splits the list.\<close>

lemma rank_split:
  assumes "ascending (map f xs)" "valid key"
  defines "i \<equiv> rank (map f xs) key"
  shows "i \<le> length xs" "filter (\<lambda>x. lt (f x) key) xs = take i xs" "filter (\<lambda>x. \<not> lt (f x) key) xs = drop i xs"
proof -
  have i: "i = length (takeWhile (\<lambda>x. lt (f x) key) xs)" by (simp add: i_def rank_def takeWhile_map comp_def)
  have "takeWhile (\<lambda>x. lt (f x) key) xs = take i xs" unfolding i by (rule takeWhile_eq_take)
  moreover have "i \<le> length xs" by (simp add: i length_takeWhile_le)
  moreover have "filter (\<lambda>x. lt (f x) key) xs = takeWhile (\<lambda>x. lt (f x) key) xs \<and> filter (\<lambda>x. \<not> lt (f x) key) xs = dropWhile (\<lambda>x. lt (f x) key) xs"
    using assms(1)
  proof (induction xs)
    case (Cons x xs)
    then have x: "valid (f x)" "\<And>y. y \<in> set xs \<Longrightarrow> lt (f x) (f y) \<and> valid (f y)" "ascending (map f xs)"
      by (auto simp: ascending_simps(2) ascending_def)
    show ?case
    proof (cases "lt (f x) key")
      case True
      then show ?thesis using Cons.IH [OF x(3)] by simp
    next
      case False
      have "\<not> lt (f y) key" if "y \<in> set xs" for y
        using False x(1) x(2) [OF that] trans [of "f x" "f y" key] assms(2) by blast
      then have "filter (\<lambda>y. lt (f y) key) xs = []" "filter (\<lambda>y. \<not> lt (f y) key) xs = xs" by (auto simp: filter_empty_conv filter_id_conv)
      then show ?thesis using False by simp
    qed
  qed simp
  moreover have "dropWhile (\<lambda>x. lt (f x) key) xs = drop i xs"
    unfolding i by (rule dropWhile_eq_drop)
  ultimately show "i \<le> length xs" "filter (\<lambda>x. lt (f x) key) xs = take i xs" "filter (\<lambda>x. \<not> lt (f x) key) xs = drop i xs"
    by simp_all
qed

lemma rank_exact:
  assumes "ascending (map f xs)" "valid key"
  defines "i \<equiv> rank (map f xs) key"
  shows "filter (\<lambda>x. lt key (f x)) xs = (if i < length xs \<and> cmp (f (xs ! i)) key = 0 then drop (Suc i) xs else drop i xs)"
proof -
  note rs = rank_split [OF assms(1,2)]
  have v: "valid (f x)" if "x \<in> set xs" for x using assms(1) that by (auto simp: ascending_def)
  have flt: "filter (\<lambda>x. lt key (f x)) xs = filter (\<lambda>x. lt key (f x)) (filter (\<lambda>x. \<not> lt (f x) key) xs)"
    using v assms(2) lt_asym by (auto intro: filter_cong)
  then have eq: "filter (\<lambda>x. lt key (f x)) xs = filter (\<lambda>x. lt key (f x)) (drop i xs)" using rs(3) by (simp add: i_def)
  show ?thesis
  proof (cases "i < length xs")
    case False
    then show ?thesis using eq by simp
  next
    case True
    have d: "drop i xs = xs ! i # drop (Suc i) xs" using True by (simp add: Cons_nth_drop_Suc)
    have asc: "ascending (map f (drop i xs))" using assms(1) append_take_drop_id [of i xs]
      by (metis ascending_simps(3) map_append)
    have "xs ! i \<in> set (filter (\<lambda>x. \<not> lt (f x) key) xs)" unfolding rs(3) [folded i_def] d by simp
    then have nl: "\<not> lt (f (xs ! i)) key" by simp
    have vi: "valid (f (xs ! i))" using v True by simp
    have gt: "lt key (f y)" if "y \<in> set (drop (Suc i) xs)" for y
    proof -
      have "lt (f (xs ! i)) (f y)" "valid (f y)" using asc that by (auto simp: d ascending_simps(2) ascending_def)
      then show ?thesis using not_lt [OF vi assms(2) nl] trans [OF assms(2) vi, of "f y"] by auto
    qed
    have tl: "filter (\<lambda>x. lt key (f x)) (drop (Suc i) xs) = drop (Suc i) xs" using gt by (auto simp: filter_id_conv)
    show ?thesis using eq d tl True not_lt [OF vi assms(2) nl] eq_iff [OF vi assms(2)] lt_irrefl [OF assms(2)] by auto
  qed
qed

lemma rank_found:
  assumes "ascending (map f xs)" "valid key"
  defines "i \<equiv> rank (map f xs) key"
  shows "key \<in> f ` set xs \<longleftrightarrow> i < length xs \<and> cmp (f (xs ! i)) key = 0"
proof
  assume "key \<in> f ` set xs"
  then obtain x where x: "x \<in> set xs" "f x = key" by auto
  have "x \<in> set (filter (\<lambda>x. \<not> lt (f x) key) xs)" "x \<notin> set (filter (\<lambda>x. lt key (f x)) xs)" using x lt_irrefl [OF assms(2)] by auto
  then show "i < length xs \<and> cmp (f (xs ! i)) key = 0"
    unfolding rank_split(3) [OF assms(1,2)] rank_exact [OF assms(1,2)] i_def by (auto split: if_splits)
next
  assume a: "i < length xs \<and> cmp (f (xs ! i)) key = 0"
  then have "valid (f (xs ! i))" using assms(1) by (auto simp: ascending_def)
  then show "key \<in> f ` set xs" using a eq_iff [OF _ assms(2)] by force
qed

end

section \<open>Ordered trees\<close>

text \<open>
  What a tree promises about its cells and separators: every cell is proper, the keys of a
  subtree are above the separator to its left and at most the one to its right, and the
  separators of a node are strictly inside the bounds of the node.
\<close>

locale tree_order = key_order cmp valid for cmp valid +
  fixes kof :: "bytes \<Rightarrow> bytes" and cellok keyok :: "bytes \<Rightarrow> bool"
  assumes cell_key_ok: "cellok c \<Longrightarrow> keyok (kof c)"
    and key_valid: "keyok k \<Longrightarrow> valid k"
begin

definition above :: "bytes option \<Rightarrow> bytes \<Rightarrow> bool" where
  "above lo k \<longleftrightarrow> (case lo of None \<Rightarrow> True | Some l \<Rightarrow> valid l \<and> lt l k)"

definition upto :: "bytes option \<Rightarrow> bytes \<Rightarrow> bool" where
  "upto hi k \<longleftrightarrow> (case hi of None \<Rightarrow> True | Some h \<Rightarrow> valid h \<and> \<not> lt h k)"

definition below :: "bytes option \<Rightarrow> bytes \<Rightarrow> bool" where
  "below hi k \<longleftrightarrow> (case hi of None \<Rightarrow> True | Some h \<Rightarrow> valid h \<and> lt k h)"

fun tree_ok :: "bytes option \<Rightarrow> bytes option \<Rightarrow> bt_tree \<Rightarrow> bool"
  and kids_ok :: "bytes option \<Rightarrow> bytes option \<Rightarrow> bt_tree list \<Rightarrow> bytes list \<Rightarrow> bool" where
  "tree_ok lo hi (BLeaf q cs) \<longleftrightarrow> ascending (map kof cs) \<and> (\<forall>c \<in> set cs. cellok c \<and> above lo (kof c) \<and> upto hi (kof c))"
| "tree_ok lo hi (BNode q ts ks) \<longleftrightarrow> kids_ok lo hi ts ks"
| "kids_ok lo hi [] ks \<longleftrightarrow> False"
| "kids_ok lo hi (t # ts) [] \<longleftrightarrow> ts = [] \<and> tree_ok lo hi t"
| "kids_ok lo hi (t # ts) (k # ks) \<longleftrightarrow> tree_ok lo (Some k) t \<and> keyok k \<and> above lo k \<and> below hi k \<and> kids_ok (Some k) hi ts ks"

definition ins :: "bytes \<Rightarrow> bytes \<Rightarrow> bytes list \<Rightarrow> bytes list" where
  "ins key cell es = filter (\<lambda>c. lt (kof c) key) es @ cell # filter (\<lambda>c. lt key (kof c)) es"

definition del :: "bytes \<Rightarrow> bytes list \<Rightarrow> bytes list" where
  "del key es = filter (\<lambda>c. lt (kof c) key) es @ filter (\<lambda>c. lt key (kof c)) es"

lemma below_upto: "below hi k \<Longrightarrow> keyok k \<Longrightarrow> upto hi k"
  using lt_asym key_valid by (auto simp: below_def upto_def split: option.splits)

lemma above_trans: "above lo k \<Longrightarrow> lt k k' \<Longrightarrow> keyok k \<Longrightarrow> keyok k' \<Longrightarrow> above lo k'"
  using trans key_valid by (auto simp: above_def split: option.splits)

lemma below_trans: "below hi k \<Longrightarrow> lt k' k \<Longrightarrow> keyok k \<Longrightarrow> keyok k' \<Longrightarrow> below hi k'"
  using trans key_valid by (auto simp: below_def split: option.splits)

lemma upto_below: "below hi k \<Longrightarrow> \<not> lt k k' \<Longrightarrow> keyok k \<Longrightarrow> keyok k' \<Longrightarrow> upto hi k'"
  using below_upto not_lt [of k k'] below_trans key_valid by blast

lemma kids_ok_length: "kids_ok lo hi ts ks \<Longrightarrow> length ts = Suc (length ks)"
proof (induction ks arbitrary: lo ts)
  case Nil
  then show ?case by (cases ts) auto
next
  case (Cons k ks)
  then show ?case by (cases ts) auto
qed

text \<open>Joining and splitting the children at a separator.\<close>

lemma kids_append:
  assumes "length ts1 = Suc (length ks1)"
  shows "kids_ok lo hi (ts1 @ ts2) (ks1 @ k # ks2) \<longleftrightarrow>
    kids_ok lo (Some k) ts1 ks1 \<and> keyok k \<and> above lo k \<and> below hi k \<and> kids_ok (Some k) hi ts2 ks2"
  using assms
proof (induction ks1 arbitrary: lo ts1)
  case Nil
  then obtain t where "ts1 = [t]" by (cases ts1) auto
  then show ?case by auto
next
  case (Cons a ks1)
  then obtain t ts where ts: "ts1 = t # ts" "length ts = Suc (length ks1)" by (cases ts1) auto
  have "below hi a" "above lo k" if "above (Some a) k" "below hi k" "above lo a" "keyok a" "keyok k"
    using that above_trans [of lo a k] below_trans [of hi k a] by (auto simp: above_def)
  moreover have "below (Some k) a \<longleftrightarrow> above (Some a) k" if "keyok a" "keyok k" using that key_valid by (auto simp: above_def below_def)
  ultimately show ?case using Cons.IH [OF ts(2), of "Some a"] by (auto simp: ts(1))
qed

definition left_bound :: "bytes option \<Rightarrow> bytes list \<Rightarrow> bytes option" where
  "left_bound lo ks = (if ks = [] then lo else Some (last ks))"

definition right_bound :: "bytes option \<Rightarrow> bytes list \<Rightarrow> bytes option" where
  "right_bound hi ks = (if ks = [] then hi else Some (hd ks))"

lemma kids_context:
  assumes "length ts1 = length ks1" "length ts2 = length ks2" "kids_ok lo hi (ts1 @ t # ts2) (ks1 @ ks2)"
  shows "tree_ok (left_bound lo ks1) (right_bound hi ks2) t"
    "kids_ok (left_bound lo ks1) (right_bound hi ks2) ts' ks' \<Longrightarrow> kids_ok lo hi (ts1 @ ts' @ ts2) (ks1 @ ks' @ ks2)"
proof -
  have right: "tree_ok lo (right_bound hi ks2) t \<and>
      (kids_ok lo (right_bound hi ks2) ts' ks' \<longrightarrow> kids_ok lo hi (ts' @ ts2) (ks' @ ks2))" if "kids_ok lo hi (t # ts2) ks2" for lo
  proof (cases ks2)
    case Nil
    then show ?thesis using that assms(2) by (auto simp: right_bound_def)
  next
    case (Cons k ks)
    then show ?thesis using that kids_append [of "[t]" "[]" lo hi ts2 k ks] kids_append [of ts' ks' lo hi ts2 k ks] kids_ok_length [of lo "Some k" ts' ks']
      by (auto simp: right_bound_def)
  qed
  have "tree_ok (left_bound lo ks1) (right_bound hi ks2) t \<and>
      (kids_ok (left_bound lo ks1) (right_bound hi ks2) ts' ks' \<longrightarrow> kids_ok lo hi (ts1 @ ts' @ ts2) (ks1 @ ks' @ ks2))"
  proof (cases ks1 rule: rev_cases)
    case Nil
    then show ?thesis using right [of lo] assms(1,3) by (auto simp: left_bound_def)
  next
    case (snoc ks k)
    then have l: "length ts1 = Suc (length ks)" using assms(1) by simp
    note a = kids_append [OF l, of lo hi]
    show ?thesis
      using right [of "Some k"] assms(3) a [of "t # ts2" k ks2] a [of "ts' @ ts2" k "ks' @ ks2"] by (auto simp: left_bound_def snoc)
  qed
  then show "tree_ok (left_bound lo ks1) (right_bound hi ks2) t"
    "kids_ok (left_bound lo ks1) (right_bound hi ks2) ts' ks' \<Longrightarrow> kids_ok lo hi (ts1 @ ts' @ ts2) (ks1 @ ks' @ ks2)" by blast+
qed

text \<open>The cells of a subtree, in order.\<close>

lemma entries_ok:
  "tree_ok lo hi t \<Longrightarrow> c \<in> set (entries t) \<Longrightarrow> cellok c \<and> above lo (kof c) \<and> upto hi (kof c)"
  "kids_ok lo hi ts ks \<Longrightarrow> c \<in> set (concat (map entries ts)) \<Longrightarrow> cellok c \<and> above lo (kof c) \<and> upto hi (kof c)"
proof (induction lo hi t and lo hi ts ks rule: tree_ok_kids_ok.induct)
  case (5 lo hi t ts k ks)
  show ?case
  proof (cases "c \<in> set (entries t)")
    case True
    then have "cellok c \<and> above lo (kof c) \<and> upto (Some k) (kof c)" using "5.IH"(1) "5.prems"(1) by simp
    then show ?thesis using upto_below [of hi k "kof c"] "5.prems"(1) cell_key_ok by (auto simp: upto_def)
  next
    case False
    then have "cellok c \<and> above (Some k) (kof c) \<and> upto hi (kof c)" using "5.IH"(2) "5.prems" by simp
    then show ?thesis using above_trans [of lo k "kof c"] "5.prems"(1) cell_key_ok by (auto simp: above_def)
  qed
qed auto

lemma entries_asc:
  "tree_ok lo hi t \<Longrightarrow> ascending (map kof (entries t))"
  "kids_ok lo hi ts ks \<Longrightarrow> ascending (map kof (concat (map entries ts)))"
proof (induction lo hi t and lo hi ts ks rule: tree_ok_kids_ok.induct)
  case (5 lo hi t ts k ks)
  have "lt (kof c) (kof c')" if c: "c \<in> set (entries t)" "c' \<in> set (concat (map entries ts))" for c c'
  proof -
    have "cellok c" "\<not> lt k (kof c)" using entries_ok(1) [of lo "Some k" t c] "5.prems" c(1) by (auto simp: upto_def)
    moreover have "cellok c'" "lt k (kof c')" using entries_ok(2) [of "Some k" hi ts ks c'] "5.prems" c(2) by (auto simp: above_def)
    moreover have "valid k" "valid (kof c)" "valid (kof c')" using "5.prems" key_valid cell_key_ok \<open>cellok c\<close> \<open>cellok c'\<close> by auto
    ultimately show ?thesis using not_lt [of k "kof c"] trans [of "kof c" k "kof c'"] by auto
  qed
  then show ?case using "5.IH" "5.prems" by (auto simp: ascending_simps)
qed (auto simp: ascending_simps)

lemma kids_asc: "kids_ok lo hi ts ks \<Longrightarrow> ascending ks \<and> (\<forall>k \<in> set ks. keyok k \<and> above lo k \<and> below hi k)"
proof (induction ks arbitrary: lo ts)
  case (Cons k ks)
  then obtain t ts' where ts: "ts = t # ts'" by (cases ts) auto
  then have k: "keyok k" "above lo k" "below hi k" "kids_ok (Some k) hi ts' ks" using Cons.prems by auto
  from Cons.IH [OF k(4)] have "ascending ks" "\<forall>k' \<in> set ks. keyok k' \<and> lt k k' \<and> below hi k'" by (auto simp: above_def)
  then show ?case using k above_trans [of lo k] key_valid by (auto simp: ascending_simps)
qed (simp add: ascending_simps)

text \<open>The child that a search enters.\<close>

lemma kids_locate:
  assumes kids: "kids_ok lo hi ts ks" and key: "keyok key" "above lo key" "upto hi key"
  defines "i \<equiv> rank ks key"
  obtains ts1 t ts2 ks1 ks2 where "ts = ts1 @ t # ts2" "ks = ks1 @ ks2" "length ts1 = i" "length ks1 = i" "length ts2 = length ks2"
    "above (left_bound lo ks1) key" "upto (right_bound hi ks2) key"
    "\<forall>c \<in> set (concat (map entries ts1)). lt (kof c) key" "\<forall>c \<in> set (concat (map entries ts2)). lt key (kof c)"
proof -
  have len: "length ts = Suc (length ks)" by (rule kids_ok_length [OF kids])
  have asc: "ascending ks" "\<forall>k \<in> set ks. keyok k" using kids_asc [OF kids] by auto
  have kv: "valid key" by (rule key_valid [OF key(1)])
  note rs = rank_split [of id ks key, simplified, OF asc(1) kv, folded i_def]
  define ts1 t ts2 where "ts1 = take i ts" and "t = ts ! i" and "ts2 = drop (Suc i) ts"
  define ks1 ks2 where "ks1 = take i ks" and "ks2 = drop i ks"
  have ts: "ts = ts1 @ t # ts2" using rs(1) len by (simp add: ts1_def t_def ts2_def id_take_nth_drop)
  have ks: "ks = ks1 @ ks2" by (simp add: ks1_def ks2_def)
  have l: "length ts1 = i" "length ks1 = i" "length ts2 = length ks2" using rs(1) len by (simp_all add: ts1_def ts2_def ks1_def ks2_def)
  have lt1: "lt k key" if "k \<in> set ks1" for k using that unfolding ks1_def rs(2) [symmetric] by simp
  have ge2: "\<not> lt k key" if "k \<in> set ks2" for k using that unfolding ks2_def rs(3) [symmetric] by simp
  have kok: "keyok k \<and> valid k" if "k \<in> set ks" for k using asc(2) that key_valid by auto
  have left: "above (left_bound lo ks1) key \<and> (\<forall>c \<in> set (concat (map entries ts1)). lt (kof c) key)"
  proof (cases ks1 rule: rev_cases)
    case Nil
    then show ?thesis using l key(2) by (auto simp: left_bound_def)
  next
    case (snoc ks' k)
    have k: "lt k key" "keyok k" "valid k" using lt1 [of k] kok [of k] by (simp_all add: ks snoc)
    have kt: "kids_ok lo (Some k) ts1 ks'" using kids_append [of ts1 ks' lo hi "t # ts2" k ks2] kids l ts ks snoc by simp
    have "lt (kof c) key" if "c \<in> set (concat (map entries ts1))" for c
      using entries_ok(2) [OF kt that] not_lt [of k "kof c"] trans [of "kof c" k key] k kv cell_key_ok key_valid by (auto simp: upto_def)
    then show ?thesis using k by (auto simp: left_bound_def snoc above_def)
  qed
  have right: "upto (right_bound hi ks2) key \<and> (\<forall>c \<in> set (concat (map entries ts2)). lt key (kof c))"
  proof (cases ks2)
    case Nil
    then show ?thesis using l key(3) by (auto simp: right_bound_def)
  next
    case (Cons k ks')
    have k: "\<not> lt k key" "keyok k" "valid k" using ge2 [of k] kok [of k] by (simp_all add: ks Cons)
    have kt: "kids_ok (Some k) hi ts2 ks'" using kids_append [of "ts1 @ [t]" ks1 lo hi ts2 k ks'] kids l ts ks Cons by simp
    have "lt key (kof c)" if "c \<in> set (concat (map entries ts2))" for c
      using entries_ok(2) [OF kt that] not_lt [OF k(3) kv k(1)] trans [of key k "kof c"] k kv cell_key_ok key_valid by (auto simp: above_def)
    then show ?thesis using k by (auto simp: right_bound_def Cons upto_def)
  qed
  show thesis by (rule that [OF ts ks l]) (use left right in auto)
qed

lemma filter_mid:
  assumes "valid key" "\<And>c. c \<in> set (A @ C) \<Longrightarrow> valid (kof c)" "\<forall>c \<in> set A. lt (kof c) key" "\<forall>c \<in> set C. lt key (kof c)"
  shows "filter (\<lambda>c. lt (kof c) key) (A @ B @ C) = A @ filter (\<lambda>c. lt (kof c) key) B"
    "filter (\<lambda>c. lt key (kof c)) (A @ B @ C) = filter (\<lambda>c. lt key (kof c)) B @ C"
proof -
  have "\<forall>c \<in> set C. \<not> lt (kof c) key" "\<forall>c \<in> set A. \<not> lt key (kof c)" using assms lt_asym by auto
  then show "filter (\<lambda>c. lt (kof c) key) (A @ B @ C) = A @ filter (\<lambda>c. lt (kof c) key) B"
    "filter (\<lambda>c. lt key (kof c)) (A @ B @ C) = filter (\<lambda>c. lt key (kof c)) B @ C"
    using assms(3,4) by (simp_all add: filter_id_conv [THEN iffD2] filter_empty_conv [THEN iffD2])
qed

lemma ins_mid:
  assumes "valid key" "\<And>c. c \<in> set (A @ C) \<Longrightarrow> valid (kof c)" "\<forall>c \<in> set A. lt (kof c) key" "\<forall>c \<in> set C. lt key (kof c)"
  shows "ins key cell (A @ B @ C) = A @ ins key cell B @ C" "del key (A @ B @ C) = A @ del key B @ C"
proof -
  note f = filter_mid [OF assms, of B]
  show "ins key cell (A @ B @ C) = A @ ins key cell B @ C" "del key (A @ B @ C) = A @ del key B @ C"
    by (simp_all only: ins_def del_def f append_assoc append_Cons)
qed

text \<open>Leaves.\<close>

lemma leaf_ins_ok:
  assumes "tree_ok lo hi (BLeaf q cs)" "cellok cell" "above lo (kof cell)" "upto hi (kof cell)"
  shows "tree_ok lo hi (BLeaf q (ins (kof cell) cell cs))"
proof -
  have v: "valid (kof c)" if "c \<in> set (cell # cs)" for c using assms(1,2) that cell_key_ok key_valid by auto
  have s: "sorted_wrt (\<lambda>a b. lt (kof a) (kof b)) cs" using assms(1) by (simp add: ascending_def sorted_wrt_map)
  have "lt (kof a) (kof b)" if "a \<in> set cs" "b \<in> set cs" "lt (kof a) (kof cell)" "lt (kof cell) (kof b)" for a b
    using that v trans [of "kof a" "kof cell" "kof b"] by auto
  then have "ascending (map kof (ins (kof cell) cell cs))"
    using s v by (auto simp: ins_def ascending_def sorted_wrt_append sorted_wrt_map sorted_wrt_filter)
  then show ?thesis using assms by (auto simp: ins_def)
qed

lemma leaf_del_ok:
  assumes "tree_ok lo hi (BLeaf q cs)" "keyok key"
  shows "tree_ok lo hi (BLeaf q (del key cs))"
proof -
  have v: "valid (kof c)" if "c \<in> set cs" for c using assms(1) that cell_key_ok key_valid by auto
  have s: "sorted_wrt (\<lambda>a b. lt (kof a) (kof b)) cs" using assms(1) by (simp add: ascending_def sorted_wrt_map)
  have "lt (kof a) (kof b)" if "a \<in> set cs" "b \<in> set cs" "lt (kof a) key" "lt key (kof b)" for a b
    using that v trans [of "kof a" key "kof b"] key_valid [OF assms(2)] by auto
  then have "ascending (map kof (del key cs))"
    using s v by (auto simp: del_def ascending_def sorted_wrt_append sorted_wrt_map sorted_wrt_filter)
  then show ?thesis using assms by (auto simp: del_def)
qed

lemma leaf_split_ok:
  assumes "tree_ok lo hi (BLeaf q cs)" "0 < l" "l < length cs"
  defines "sep \<equiv> kof (cs ! (l - 1))"
  shows "tree_ok lo (Some sep) (BLeaf q (take l cs))" "tree_ok (Some sep) hi (BLeaf r (drop l cs))"
    "keyok sep" "above lo sep" "below hi sep"
proof -
  have cs: "ascending (map kof cs)" "\<And>c. c \<in> set cs \<Longrightarrow> cellok c \<and> above lo (kof c) \<and> upto hi (kof c)" using assms(1) by auto
  have l: "l - 1 < length cs" using assms(2,3) by simp
  have v: "valid (kof c)" if "c \<in> set cs" for c using cs(2) that cell_key_ok key_valid by auto
  show sep: "keyok sep" "above lo sep" using cs(2) [OF nth_mem [OF l]] cell_key_ok by (auto simp: sep_def)
  have sv: "valid sep" by (rule key_valid [OF sep(1)])
  have nth: "lt (kof (cs ! i)) (kof (cs ! j))" if "i < j" "j < length cs" for i j
    using cs(1) that by (auto simp: ascending_def sorted_wrt_iff_nth_less)
  have tk: "\<not> lt sep (kof c)" if "c \<in> set (take l cs)" for c
  proof -
    from that obtain i where i: "i < l" "c = cs ! i" using assms(3) by (auto simp: in_set_conv_nth)
    show ?thesis
    proof (cases "i = l - 1")
      case True
      then show ?thesis using lt_irrefl [OF sv] i by (simp add: sep_def)
    next
      case False
      then have "lt (kof c) sep" using nth [of i "l - 1"] i l by (simp add: sep_def)
      then show ?thesis using lt_asym [of "kof c" sep] v [of c] sv that by (auto dest: in_set_takeD)
    qed
  qed
  have dp: "lt sep (kof c)" if "c \<in> set (drop l cs)" for c
  proof -
    from that obtain i where "i < length (drop l cs)" "c = drop l cs ! i" unfolding in_set_conv_nth by auto
    then have "l + i < length cs" "c = cs ! (l + i)" by simp_all
    then show ?thesis using nth [of "l - 1" "l + i"] assms(2) by (simp add: sep_def)
  qed
  have asc: "ascending (map kof (take l cs))" "ascending (map kof (drop l cs))"
    using cs(1) append_take_drop_id [of l cs] by (metis ascending_simps(3) map_append)+
  show "tree_ok lo (Some sep) (BLeaf q (take l cs))"
    using asc(1) tk cs(2) sv by (auto simp: upto_def dest: in_set_takeD)
  show "tree_ok (Some sep) hi (BLeaf r (drop l cs))"
    using asc(2) dp cs(2) sv by (auto simp: above_def dest: in_set_dropD)
  have c: "cs ! l \<in> set (drop l cs)" using assms(3) by (metis Cons_nth_drop_Suc list.set_intros(1))
  have "upto hi (kof (cs ! l))" using cs(2) assms(3) by simp
  then show "below hi sep"
    using dp [OF c] v [of "cs ! l"] assms(3) sv not_lt trans [of sep "kof (cs ! l)"] by (auto simp: upto_def below_def split: option.splits)
qed

end

end
