(* ===== verification/Tdb_Bt_Stored.thy ===== *)
theory Tdb_Bt_Stored
  imports Tdb_Bt_Tree
begin

text \<open>
  Trees stored in pages. \<open>bt_store\<close> fixes an open tree whose comparison orders the keys; \<open>tree_at\<close>
  says that a subtree is on its pages, ordered within bounds and of even depth. Removal and
  creation need no more than that.
\<close>

section \<open>Pager steps\<close>

text \<open>
  From \<open>p\<close> to \<open>p'\<close> only pages of \<open>A\<close> change, at most \<open>n\<close> pages are added, and what is pinned stays pinned.
\<close>

definition grows :: "zbuild \<Rightarrow> tdb_pager \<Rightarrow> u32 set \<Rightarrow> u32 set \<Rightarrow> nat \<Rightarrow> tdb_pager \<Rightarrow> u32 set \<Rightarrow> bool" where
  "grows z p U A n p' U' \<longleftrightarrow>
     in_use z p' U' \<and> U \<subseteq> U' \<and> (\<forall>q \<in> U - A. view z p' q = view z p q) \<and> (\<forall>q \<in> U. pins p' q = pins p q) \<and>
     page_size p' = page_size p \<and> db_pages p' \<le> db_pages p + n"

lemma grows_trans: "grows z p U A n p1 U1 \<Longrightarrow> grows z p1 U1 B m p2 U2 \<Longrightarrow> grows z p U (A \<union> B) (n + m) p2 U2"
  unfolding grows_def by (auto simp: subset_iff)

lemma grows_mono: "grows z p U A n p' U' \<Longrightarrow> A \<inter> U \<subseteq> B \<Longrightarrow> n \<le> m \<Longrightarrow> grows z p U B m p' U'"
  unfolding grows_def by auto

lemma pinned_data: "0 < pins p q \<Longrightarrow> page_data p q = view z p q"
  using pins_cached [of p q] cached_view by fastforce

lemma finish_use:
  assumes "in_use z p U" "q \<in> U" "0 < pins p q" "length d = page_size p"
  shows "in_use z (finish_page p q d TDB_OK) U" "view z (finish_page p q d TDB_OK) = (view z p)(q := d)"
    "pins (finish_page p q d TDB_OK) = (pins p)(q := pins p q - 1)" "db_pages (finish_page p q d TDB_OK) = db_pages p"
    "page_size (finish_page p q d TDB_OK) = page_size p"
proof -
  have e: "finish_page p q d TDB_OK = tdb_pager_unref (store_page p q d) q" by (simp add: finish_page_def store_page_def)
  note s = store_use [OF assms]
  note u = unref_use [OF s(1), of q]
  show "in_use z (finish_page p q d TDB_OK) U" "view z (finish_page p q d TDB_OK) = (view z p)(q := d)"
    "pins (finish_page p q d TDB_OK) = (pins p)(q := pins p q - 1)" "db_pages (finish_page p q d TDB_OK) = db_pages p"
    "page_size (finish_page p q d TDB_OK) = page_size p"
    using s u by (simp_all add: e unref_pins)
qed

text \<open>A fresh page that is filled, marked together with a pinned page and released.\<close>

definition add_page :: "tdb_pager \<Rightarrow> u32 \<Rightarrow> u32 \<Rightarrow> bytes \<Rightarrow> tdb_pager" where
  "add_page p q r rd = tdb_pager_unref (snd (tdb_pager_write (snd (tdb_pager_write (page_put p r 0 rd) q)) r)) r"

lemma add_page_use:
  assumes use: "in_use z p U" and q: "q \<in> U" "0 < pins p q" and room: "db_pages p + 1 < 2 ^ 32" and rd: "length rd = page_size p"
    and al: "tdb_pager_alloc all_ok z p = (rc, r, p1)"
  shows "rc = TDB_OK" "r \<notin> U" "r \<noteq> 0" "grows z p U {} 1 (add_page p1 q r rd) (insert r U)" "view z (add_page p1 q r rd) r = rd"
    "pins (add_page p1 q r rd) r = 0"
proof -
  obtain r' p1' where a: "tdb_pager_alloc all_ok z p = (TDB_OK, r', p1')" "r' \<notin> U" "r' \<noteq> 0" "in_use z p1' (insert r' U)"
    "\<And>q. q \<in> U \<Longrightarrow> view z p1' q = view z p q" "pins p1' = (pins p)(r' := 1)" "db_pages p1' \<le> db_pages p + 1" "page_size p1' = page_size p"
    "is_dirty p1' r'"
    by (rule alloc_use [OF use room]) (rule that, assumption+)
  have eqs: "rc = TDB_OK" "r' = r" "p1' = p1" using al a(1) by simp_all
  note a = a [unfolded eqs(2,3)]
  have qr: "q \<noteq> r" using q(1) a(2) by auto
  note p2 = put_use [OF a(4) insertI1 a(9), of rd, unfolded a(8), OF rd]
  have pq: "0 < pins (page_put p1 r 0 rd) q" using p2(3) a(6) qr q(2) by simp
  note p3 = mark_use [OF p2(1) insertI2 [OF q(1)] pq]
  have pr: "0 < pins (snd (tdb_pager_write (page_put p1 r 0 rd) q)) r" using p3(3) p2(3) a(6) by simp
  note p4 = mark_use [OF p3(1) insertI1 pr]
  note p5 = unref_use [OF p4(1), of r]
  show "rc = TDB_OK" "r \<notin> U" "r \<noteq> 0" using eqs(1) a(2,3) by simp_all
  have v: "view z (add_page p1 q r rd) = (view z p1)(r := rd)" using p5(5) p4(2) p3(2) p2(2) by (simp add: add_page_def)
  have pn: "pins (add_page p1 q r rd) = (pins p)(r := 0)" using p4(3) p3(3) p2(3) a(6) by (simp add: add_page_def unref_pins)
  show "grows z p U {} 1 (add_page p1 q r rd) (insert r U)"
    using p5 p4 p3 p2 a v pn unfolding grows_def add_page_def [symmetric] by auto
  show "view z (add_page p1 q r rd) r = rd" "pins (add_page p1 q r rd) r = 0" using v pn by simp_all
qed

section \<open>The search in a stored node\<close>

locale bt_store = tree_order "bt_cmp all_ok bt" valid "leaf_key (bt_ps bt)" cellok keyok for bt valid cellok keyok +
  assumes cell_form: "cellok c \<Longrightarrow> leaf_ok (bt_ps bt) c \<and> lc_ovfl (leafcell_at (bt_ps bt) c) = 0"
    and key_form: "keyok k \<Longrightarrow> length k < 2 ^ 32 \<and> 14 + length (int_cell q k) \<le> bt_ps bt"
begin

abbreviation ps :: nat where
  "ps \<equiv> bt_ps bt"

abbreviation kf :: "bytes \<Rightarrow> bytes" where
  "kf \<equiv> leaf_key (bt_ps bt)"

lemma find_leaf:
  assumes "leaf_page ps d cs" "ascending (map kf cs)" "valid key"
  defines "i \<equiv> rank (map kf cs) key"
  shows "pg_find all_ok bt d key = (i, i < length cs \<and> bt_cmp all_ok bt (kf (cs ! i)) key = 0)" "i \<le> length cs"
proof -
  have n: "pg_ncell d = length (map kf cs)" using page_okD(5) [OF assms(1)] by simp
  have k: "cell_key ps d j = kf (cs ! j)" if "j < length cs" for j by (rule leaf_page_read(2) [OF assms(1) that])
  have "find_loop (\<lambda>j. bt_cmp all_ok bt (cell_key ps d j) key) 0 (pg_ncell d) = i"
    unfolding n i_def by (rule search_rank [OF assms(2,3)]) (simp add: k)
  then show "pg_find all_ok bt d key = (i, i < length cs \<and> bt_cmp all_ok bt (kf (cs ! i)) key = 0)"
    using n k by (auto simp: pg_find_def Let_def)
  show "i \<le> length cs" using rank_split(1) [OF assms(2,3)] by (simp add: i_def)
qed

lemma find_node:
  assumes "int_page ps d (node_cells ts ks)" "length ts = Suc (length ks)" "ascending ks" "\<forall>k \<in> set ks. keyok k" "valid key"
  shows "fst (pg_find all_ok bt d key) = rank ks key"
proof -
  have n: "pg_ncell d = length ks" using page_okD(5) [OF assms(1)] length_node_cells [OF assms(2)] by simp
  have k: "cell_key ps d j = ks ! j" if "j < length ks" for j
    by (rule node_key_at(2) [OF assms(1,2) _ that]) (use assms(4) key_form in auto)
  have "find_loop (\<lambda>j. bt_cmp all_ok bt (cell_key ps d j) key) 0 (length ks) = rank ks key"
    by (rule search_rank [OF assms(3,5)]) (simp add: k)
  then show ?thesis using n by (simp add: pg_find_def Let_def)
qed

text \<open>A page with all cells but the one of the key, and the new cell in its place.\<close>

lemma replaced:
  assumes "leaf_page ps d cs" "ascending (map kf cs)" "valid key"
  defines "i \<equiv> rank (map kf cs) key"
  defines "ex \<equiv> i < length cs \<and> bt_cmp all_ok bt (kf (cs ! i)) key = 0"
  defines "d1 \<equiv> if ex then delete_cell d i else d"
  shows "leaf_page ps d1 (del key cs)" "pg_type d1 = pg_type d" "i \<le> length (del key cs)"
    "take i (del key cs) @ cell # drop i (del key cs) = ins key cell cs"
proof -
  note rs = rank_split [OF assms(2,3), folded i_def] and re = rank_exact [OF assms(2,3), folded i_def, folded ex_def]
  have dl: "del key cs = take i cs @ (if ex then drop (Suc i) cs else drop i cs)" unfolding del_def rs(2) re by simp
  show "leaf_page ps d1 (del key cs)" "pg_type d1 = pg_type d"
    using assms(1) lf.delete_cell_ok [OF assms(1), of i] unfolding d1_def dl by (auto simp: ex_def)
  show "i \<le> length (del key cs)" using rs(1) by (simp add: dl)
  have "ins key cell cs = take i cs @ cell # (if ex then drop (Suc i) cs else drop i cs)" unfolding ins_def rs(2) re by simp
  then show "take i (del key cs) @ cell # drop i (del key cs) = ins key cell cs" using rs(1) by (simp add: dl)
qed

section \<open>Stored trees\<close>

definition tree_at :: "zbuild \<Rightarrow> tdb_pager \<Rightarrow> u32 set \<Rightarrow> nat \<Rightarrow> bytes option \<Rightarrow> bytes option \<Rightarrow> bt_tree \<Rightarrow> bool" where
  "tree_at z p U h lo hi t \<longleftrightarrow>
     tree_rep (view z p) ps t \<and> tree_ok lo hi t \<and> full h t \<and> distinct (pages t) \<and> set (pages t) \<subseteq> U"

lemma tree_at_leaf:
  "tree_at z p U h lo hi (BLeaf q cs) \<longleftrightarrow> leaf_page ps (view z p q) cs \<and> tree_ok lo hi (BLeaf q cs) \<and> h = 0 \<and> q \<in> U"
  by (auto simp: tree_at_def)

definition node_page :: "bytes \<Rightarrow> bt_tree list \<Rightarrow> bytes list \<Rightarrow> bool" where
  "node_page d ts ks \<longleftrightarrow> length ts = Suc (length ks) \<and> int_page ps d (node_cells ts ks) \<and> pg_right d = root_of (last ts)"

lemma node_page_ncell: "node_page d ts ks \<Longrightarrow> pg_ncell d = length ks"
  using page_okD(5) [of int_ok ps False d "node_cells ts ks"] by (simp add: node_page_def length_node_cells)

lemma node_cells_simps:
  "length ts1 = length ks1 \<Longrightarrow> node_cells (ts1 @ ts2) (ks1 @ ks2) = node_cells ts1 ks1 @ node_cells ts2 ks2"
  "node_cells (t # ts) (k # ks) = int_cell (root_of t) k # node_cells ts ks" "node_cells ts [] = []"
  by (simp_all add: node_cells_def)

lemma node_cells_split:
  assumes "length ts1 = i" "length ks1 = i"
  shows "take i (node_cells (ts1 @ t # ts2) (ks1 @ ks2)) = node_cells ts1 ks1"
    "drop i (node_cells (ts1 @ t # ts2) (ks1 @ ks2)) = node_cells (t # ts2) ks2"
  using assms by (simp_all add: node_cells_simps(1)) (simp_all add: node_cells_def)

lemma node_cells_roots: "map root_of ts = map root_of ts' \<Longrightarrow> node_cells ts ks = node_cells ts' ks"
proof -
  assume "map root_of ts = map root_of ts'"
  moreover have "node_cells ts ks = map2 int_cell (map root_of ts) ks" for ts
    by (simp add: node_cells_def zip_map1 comp_def case_prod_unfold)
  ultimately show ?thesis by simp
qed

text \<open>The children of a node, as a forest.\<close>

definition forest :: "zbuild \<Rightarrow> tdb_pager \<Rightarrow> u32 set \<Rightarrow> nat \<Rightarrow> bt_tree list \<Rightarrow> bool" where
  "forest z p U h ts \<longleftrightarrow>
     (\<forall>t \<in> set ts. tree_rep (view z p) ps t \<and> full h t) \<and> distinct (concat (map pages ts)) \<and> set (concat (map pages ts)) \<subseteq> U"

lemma tree_at_node:
  "tree_at z p U (Suc h) lo hi (BNode q ts ks) \<longleftrightarrow>
     node_page (view z p q) ts ks \<and> kids_ok lo hi ts ks \<and> 2 \<le> length ts \<and> q \<in> U \<and> q \<notin> set (concat (map pages ts)) \<and> forest z p U h ts"
  by (auto simp: tree_at_def node_page_def forest_def)

lemma forest_simps:
  "forest z p U h (ts1 @ ts2) \<longleftrightarrow>
     forest z p U h ts1 \<and> forest z p U h ts2 \<and> set (concat (map pages ts1)) \<inter> set (concat (map pages ts2)) = {}"
  "forest z p U h [t] \<longleftrightarrow> tree_rep (view z p) ps t \<and> full h t \<and> distinct (pages t) \<and> set (pages t) \<subseteq> U" "forest z p U h []"
  by (auto simp: forest_def)

lemma tree_at_forest: "tree_at z p U h lo hi t \<longleftrightarrow> forest z p U h [t] \<and> tree_ok lo hi t"
  by (auto simp: tree_at_def forest_simps)

lemma forest_frame:
  assumes "forest z p U h ts" "\<And>q. q \<in> set (concat (map pages ts)) \<Longrightarrow> view z p' q = view z p q" "U \<subseteq> U'"
  shows "forest z p' U' h ts"
proof -
  have "tree_rep (view z p') ps t" if "t \<in> set ts" for t
    by (rule tree_rep_frame [of "view z p"]) (use assms(1,2) that in \<open>auto simp: forest_def\<close>)
  then show ?thesis using assms(1,3) by (auto simp: forest_def)
qed

lemma forest_grows:
  assumes "forest z p U h ts" "grows z p U A n p' U'" "A \<inter> set (concat (map pages ts)) = {}"
  shows "forest z p' U' h ts"
proof (rule forest_frame [OF assms(1)])
  have sub: "set (concat (map pages ts)) \<subseteq> U" using assms(1) by (simp add: forest_def)
  show "view z p' q = view z p q" if "q \<in> set (concat (map pages ts))" for q
    using assms(2,3) that subsetD [OF sub that] unfolding grows_def by blast
  show "U \<subseteq> U'" using assms(2) by (simp add: grows_def)
qed

lemma forest_replace:
  assumes old: "forest z p U h (ts1 @ tc # ts2)" and gr: "grows z p U (set (pages tc)) n p' U'"
    and new: "forest z p' U' h ts'" "set (concat (map pages ts')) \<subseteq> set (pages tc) \<union> (U' - U)"
  shows "forest z p' U' h (ts1 @ ts' @ ts2)"
    "set (concat (map pages (ts1 @ ts' @ ts2))) \<subseteq> set (concat (map pages (ts1 @ tc # ts2))) \<union> (U' - U)"
proof -
  have o: "forest z p U h ts1" "forest z p U h ts2" "set (pages tc) \<inter> set (concat (map pages (ts1 @ ts2))) = {}"
    "set (concat (map pages ts1)) \<inter> set (concat (map pages ts2)) = {}" "set (concat (map pages (ts1 @ ts2))) \<subseteq> U"
    using old by (auto simp: forest_def)
  have "forest z p' U' h ts1" by (rule forest_grows [OF o(1) gr]) (use o(3) in auto)
  moreover have "forest z p' U' h ts2" by (rule forest_grows [OF o(2) gr]) (use o(3) in auto)
  moreover have "set (concat (map pages ts')) \<inter> set (concat (map pages (ts1 @ ts2))) = {}" using new(2) o(3,5) by blast
  ultimately show "forest z p' U' h (ts1 @ ts' @ ts2)" using new(1) o(4) by (auto simp: forest_simps)
  show "set (concat (map pages (ts1 @ ts' @ ts2))) \<subseteq> set (concat (map pages (ts1 @ tc # ts2))) \<union> (U' - U)" using new(2) by auto
qed

lemma node_one:
  assumes "forest z p U h ts" "kids_ok lo hi ts ks" "node_page (view z p q) ts ks" "ks \<noteq> []" "q \<in> U" "q \<notin> set (concat (map pages ts))"
  shows "tree_at z p U (Suc h) lo hi (BNode q ts ks)"
proof -
  have "2 \<le> length ts" using kids_ok_length [OF assms(2)] assms(4) by (cases ks) auto
  then show ?thesis using assms by (simp add: tree_at_node)
qed

lemma kids_mid:
  assumes "kids_ok lo hi (ts1 @ tc # ts2) ks" "keyok key" "\<forall>c \<in> set (concat (map entries ts1)). lt (kf c) key" "\<forall>c \<in> set (concat (map entries ts2)). lt key (kf c)"
  shows "ins key cell (concat (map entries (ts1 @ tc # ts2))) = concat (map entries ts1) @ ins key cell (entries tc) @ concat (map entries ts2)"
    "del key (concat (map entries (ts1 @ tc # ts2))) = concat (map entries ts1) @ del key (entries tc) @ concat (map entries ts2)"
proof -
  have v: "valid (kf c)" if "c \<in> set (concat (map entries ts1) @ concat (map entries ts2))" for c
    using entries_ok(2) [OF assms(1), of c] that cell_key_ok key_valid by auto
  show "ins key cell (concat (map entries (ts1 @ tc # ts2))) = concat (map entries ts1) @ ins key cell (entries tc) @ concat (map entries ts2)"
    "del key (concat (map entries (ts1 @ tc # ts2))) = concat (map entries ts1) @ del key (entries tc) @ concat (map entries ts2)"
    using ins_mid [OF key_valid [OF assms(2)] v assms(3,4)] by simp_all
qed

text \<open>A node whose child has become a list of trees.\<close>

lemma node_rebuild:
  assumes t: "tree_at z p U (Suc h) lo hi (BNode q (ts1 @ tc # ts2) (ks1 @ ks2))" and l: "length ts1 = length ks1" "length ts2 = length ks2"
    and gr: "grows z p U (set (pages tc)) n p' U'" and f: "forest z p' U' h ts'"
    and new: "set (concat (map pages ts')) \<subseteq> set (pages tc) \<union> (U' - U)" "kids_ok (left_bound lo ks1) (right_bound hi ks2) ts' ks'"
  shows "forest z p' U' h (ts1 @ ts' @ ts2)" "kids_ok lo hi (ts1 @ ts' @ ts2) (ks1 @ ks' @ ks2)"
    "q \<notin> set (concat (map pages (ts1 @ ts' @ ts2)))" "q \<in> U'" "view z p' q = view z p q"
    "set (concat (map pages (ts1 @ ts' @ ts2))) \<subseteq> set (pages (BNode q (ts1 @ tc # ts2) (ks1 @ ks2))) \<union> (U' - U)"
proof -
  note n = t [unfolded tree_at_node]
  have fo: "forest z p U h (ts1 @ tc # ts2)" and q: "q \<in> U" "q \<notin> set (concat (map pages (ts1 @ tc # ts2)))" using n by blast+
  note fr = forest_replace [OF fo gr f new(1)]
  show "forest z p' U' h (ts1 @ ts' @ ts2)" by (rule fr(1))
  show "kids_ok lo hi (ts1 @ ts' @ ts2) (ks1 @ ks' @ ks2)" by (rule kids_context(2) [OF l]) (use n new(2) in blast)+
  show "q \<notin> set (concat (map pages (ts1 @ ts' @ ts2)))" using fr(2) q by blast
  show "q \<in> U'" "view z p' q = view z p q" using gr q by (auto simp: grows_def)
  show "set (concat (map pages (ts1 @ ts' @ ts2))) \<subseteq> set (pages (BNode q (ts1 @ tc # ts2) (ks1 @ ks2))) \<union> (U' - U)"
    using fr(2) by auto
qed

lemma child_replaced:
  assumes t: "tree_at z p U (Suc h) lo hi (BNode q (ts1 @ tc # ts2) (ks1 @ ks2))" and l: "length ts1 = length ks1" "length ts2 = length ks2"
    and gr: "grows z p U (set (pages tc)) n p' U'"
    and t': "tree_at z p' U' h (left_bound lo ks1) (right_bound hi ks2) t'" "set (pages t') \<subseteq> set (pages tc) \<union> (U' - U)" "root_of t' = root_of tc"
  shows "tree_at z p' U' (Suc h) lo hi (BNode q (ts1 @ t' # ts2) (ks1 @ ks2))"
    "set (pages (BNode q (ts1 @ t' # ts2) (ks1 @ ks2))) \<subseteq> set (pages (BNode q (ts1 @ tc # ts2) (ks1 @ ks2))) \<union> (U' - U)"
proof -
  let ?ts = "ts1 @ t' # ts2" and ?ks = "ks1 @ ks2"
  have "forest z p' U' h [t']" "kids_ok (left_bound lo ks1) (right_bound hi ks2) [t'] []" using t'(1) by (simp_all add: tree_at_forest)
  note nr = node_rebuild [OF t l gr this(1) _ this(2), simplified, OF t'(2)]
  have np: "node_page (view z p q) (ts1 @ tc # ts2) (ks1 @ ks2)" and k: "2 \<le> length (ts1 @ tc # ts2)" using t unfolding tree_at_node by blast+
  have "node_cells ?ts ?ks = node_cells (ts1 @ tc # ts2) (ks1 @ ks2)" using node_cells_roots [of ?ts "ts1 @ tc # ts2"] t'(3) by simp
  then have "node_page (view z p' q) ?ts ?ks" using np nr(5) t'(3) by (auto simp: node_page_def)
  then show "tree_at z p' U' (Suc h) lo hi (BNode q ?ts ?ks)" using nr k l by (intro node_one) auto
  show "set (pages (BNode q ?ts ?ks)) \<subseteq> set (pages (BNode q (ts1 @ tc # ts2) (ks1 @ ks2))) \<union> (U' - U)" using nr(6) by auto
qed

text \<open>Entering a node on the way to a key.\<close>

lemma enter_node:
  assumes use: "in_use z p U" and t: "tree_at z p U (Suc h) lo hi (BNode q ts ks)" and key: "keyok key" "above lo key" "upto hi key"
  obtains p1 ts1 tc ts2 ks1 ks2 where "tdb_pager_get all_ok z p q = (TDB_OK, p1)" "in_use z p1 U" "page_data p1 q = view z p q"
    "pins p1 = (pins p)(q := Suc (pins p q))" "db_pages p1 = db_pages p" "page_size p1 = page_size p" "view z p1 = view z p"
    "\<not> pg_is_leaf (view z p q)" "fst (pg_find all_ok bt (view z p q) key) = length ts1" "child_at (view z p q) (length ts1) = root_of tc"
    "ts = ts1 @ tc # ts2" "ks = ks1 @ ks2" "length ks1 = length ts1" "length ts2 = length ks2"
    "above (left_bound lo ks1) key" "upto (right_bound hi ks2) key"
    "\<forall>c \<in> set (concat (map entries ts1)). lt (kf c) key" "\<forall>c \<in> set (concat (map entries ts2)). lt key (kf c)"
    "tree_at z p1 U h (left_bound lo ks1) (right_bound hi ks2) tc"
proof -
  note n = t [unfolded tree_at_node]
  have q: "q \<in> U" and np: "node_page (view z p q) ts ks" and kids: "kids_ok lo hi ts ks" and fo: "forest z p U h ts" using n by blast+
  have ks: "ascending ks" "\<forall>k \<in> set ks. keyok k" using kids_asc [OF kids] by auto
  obtain p1 where g: "tdb_pager_get all_ok z p q = (TDB_OK, p1)" "in_use z p1 U" "page_data p1 q = view z p q"
    "pins p1 = (pins p)(q := Suc (pins p q))" "db_pages p1 = db_pages p" "page_size p1 = page_size p" "view z p1 = view z p"
    by (rule get_use [OF use q]) (rule that, assumption+)
  define i where "i = rank ks key"
  obtain ts1 tc ts2 ks1 ks2 where loc: "ts = ts1 @ tc # ts2" "ks = ks1 @ ks2" "length ts1 = i" "length ks1 = i" "length ts2 = length ks2"
    "above (left_bound lo ks1) key" "upto (right_bound hi ks2) key"
    "\<forall>c \<in> set (concat (map entries ts1)). lt (kf c) key" "\<forall>c \<in> set (concat (map entries ts2)). lt key (kf c)"
    by (rule kids_locate [OF kids key, folded i_def]) (rule that, assumption+)
  have fi: "fst (pg_find all_ok bt (view z p q) key) = length ts1"
    unfolding loc(3) i_def by (rule find_node) (use np ks key(1) key_valid in \<open>auto simp: node_page_def\<close>)
  have ch: "child_at (view z p q) (length ts1) = root_of tc"
    using node_child_at [of ps "view z p q" ts ks i] np ks(2) key_form loc by (auto simp: node_page_def)
  have nl: "\<not> pg_is_leaf (view z p q)" using np page_okD(4) [of int_ok ps False "view z p q"] by (auto simp: node_page_def)
  have kc: "tree_ok (left_bound lo ks1) (right_bound hi ks2) tc"
    by (rule kids_context(1) [OF _ loc(5) kids [unfolded loc(1,2)]]) (simp add: loc)
  have at: "tree_at z p1 U h (left_bound lo ks1) (right_bound hi ks2) tc"
    using kc fo g(7) by (auto simp: tree_at_forest forest_def loc(1))
  have l: "length ks1 = length ts1" by (simp add: loc)
  show thesis by (rule that [OF g nl fi ch loc(1,2) l loc(5-9) at])
qed

text \<open>The tree that is stored at the root of \<open>bt\<close>.\<close>

definition stored :: "zbuild \<Rightarrow> tdb_pager \<Rightarrow> u32 set \<Rightarrow> bt_tree \<Rightarrow> bool" where
  "stored z p U t \<longleftrightarrow> in_use z p U \<and> page_size p = ps \<and> root_of t = bt_root bt \<and> (\<exists>h. tree_at z p U h None None t)"

lemma bounds_none: "above None k" "upto None k" "below None k"
  by (simp_all add: above_def upto_def below_def)

text \<open>The pages of a tree are numbered with 32 bits, so a full tree has at most 31 levels of inner nodes.\<close>

lemma tree_height: "tree_at z p U h lo hi t \<Longrightarrow> in_use z p U \<Longrightarrow> h < 32"
proof -
  assume t: "tree_at z p U h lo hi t" and u: "in_use z p U"
  have d: "distinct (pages t)" "0 \<notin> set (pages t)" using t in_use_pos [OF u] by (auto simp: tree_at_def)
  then have "length (pages t) = card (set (pages t))" by (simp add: distinct_card)
  also have "\<dots> < card (UNIV :: u32 set)" by (rule psubset_card_mono) (use d in auto)
  also have "\<dots> = 2 ^ 32" by (simp add: card_word)
  finally have l: "length (pages t) < 2 ^ 32" .
  have "full h t" using t by (simp add: tree_at_def)
  from full_pages [OF this] l have "2 ^ h < (2 ^ 32 :: nat)" by (rule le_less_trans)
  then show ?thesis using power_less_imp_less_exp [of "2 :: nat" h 32] by linarith
qed

section \<open>Removal\<close>

text \<open>Removal takes the cell out of its leaf and changes nothing else in the tree.\<close>

fun del_tree :: "bytes \<Rightarrow> bt_tree \<Rightarrow> bt_tree" where
  "del_tree key (BLeaf q cs) = BLeaf q (del key cs)"
| "del_tree key (BNode q ts ks) = BNode q (map (del_tree key) ts) ks"

lemma del_tree_simps [simp]: "root_of (del_tree key t) = root_of t" "pages (del_tree key t) = pages t"
proof -
  show "root_of (del_tree key t) = root_of t" by (cases t) simp_all
  show "pages (del_tree key t) = pages t"
  proof (induction t)
    case (BNode q ts ks)
    then have "map (pages \<circ> del_tree key) ts = map pages ts" by simp
    then show ?case by (simp only: del_tree.simps pages.simps map_map)
  qed simp
qed

lemma del_absent:
  assumes "ascending (map kf es)" "valid key" "key \<notin> kf ` set es"
  shows "del key es = es"
  using rank_found [OF assms(1,2)] assms(3) unfolding del_def rank_split(2) [OF assms(1,2)] rank_exact [OF assms(1,2)] by auto

lemma del_tree_absent:
  "tree_ok lo hi t \<Longrightarrow> valid key \<Longrightarrow> key \<notin> kf ` set (entries t) \<Longrightarrow> del_tree key t = t"
  "kids_ok lo hi ts ks \<Longrightarrow> valid key \<Longrightarrow> key \<notin> kf ` set (concat (map entries ts)) \<Longrightarrow> map (del_tree key) ts = ts"
  by (induction lo hi t and lo hi ts ks rule: tree_ok_kids_ok.induct) (auto simp: del_absent)

lemma kids_tree_ok: "kids_ok lo hi ts ks \<Longrightarrow> t \<in> set ts \<Longrightarrow> \<exists>lo hi. tree_ok lo hi t"
proof (induction ks arbitrary: lo ts)
  case Nil
  then show ?case by (cases ts) auto
next
  case (Cons k ks)
  then show ?case by (cases ts) auto
qed

lemma del_tree_mid:
  assumes k: "kids_ok lo hi (ts1 @ tc # ts2) ks" and key: "keyok key"
    and s: "\<forall>c \<in> set (concat (map entries ts1)). lt (kf c) key" "\<forall>c \<in> set (concat (map entries ts2)). lt key (kf c)"
  shows "map (del_tree key) (ts1 @ tc # ts2) = ts1 @ del_tree key tc # ts2"
proof -
  note kv = key_valid [OF key]
  have "del_tree key t = t" if "t \<in> set ts1 \<union> set ts2" for t
  proof -
    have "t \<in> set (ts1 @ tc # ts2)" using that by auto
    then obtain lo' hi' where "tree_ok lo' hi' t" using kids_tree_ok [OF k] by blast
    then show ?thesis by (rule del_tree_absent(1) [OF _ kv]) (use that s lt_irrefl [OF kv] in auto)
  qed
  then show ?thesis by (auto intro: map_idI)
qed

lemma removes_leaf:
  assumes use: "in_use z p U" and psz: "page_size p = ps" and t: "tree_at z p U 0 lo hi (BLeaf q cs)" and key: "keyok key"
  obtains p' where "remove_loop all_ok z bt p q key = Some (TDB_OK, key \<in> kf ` set cs, p')" "grows z p U {q} 0 p' U"
    "tree_at z p' U 0 lo hi (BLeaf q (del key cs))"
proof -
  have q: "q \<in> U" and pg: "leaf_page ps (view z p q) cs" and tok: "tree_ok lo hi (BLeaf q cs)" using t by (simp_all add: tree_at_leaf)
  have asc: "ascending (map kf cs)" using tok by simp
  have kv: "valid key" by (rule key_valid [OF key])
  obtain p1 where g: "tdb_pager_get all_ok z p q = (TDB_OK, p1)" "in_use z p1 U" "page_data p1 q = view z p q"
    "pins p1 = (pins p)(q := Suc (pins p q))" "db_pages p1 = db_pages p" "page_size p1 = page_size p" "view z p1 = view z p"
    by (rule get_use [OF use q]) (rule that, assumption+)
  define i ex where "i = rank (map kf cs) key" and "ex = (i < length cs \<and> bt_cmp all_ok bt (kf (cs ! i)) key = 0)"
  define d1 where "d1 = (if ex then delete_cell (view z p q) i else view z p q)"
  note fl = find_leaf [OF pg asc kv, folded i_def, folded ex_def]
  note rp = replaced [OF pg asc kv, folded i_def, folded ex_def, folded d1_def]
  have noov: "lc_ovfl (read_leafcell ps (view z p q) i) = 0" if ex
    using that leaf_page_read(1) [OF pg, of i] tok cell_form by (auto simp: ex_def)
  have found: "key \<in> kf ` set cs \<longleftrightarrow> ex" by (rule rank_found [OF asc kv, folded i_def, folded ex_def])
  have step: "remove_loop all_ok z bt p q key =
      (if ex then Some (TDB_OK, True, finish_page p1 q d1 TDB_OK) else Some (TDB_OK, False, tdb_pager_unref p1 q))"
    using g(1,3) page_okD(4) [OF pg] fl(1) noov by (subst remove_loop.simps) (simp add: Let_def d1_def)
  have lok: "tree_ok lo hi (BLeaf q (del key cs))" by (rule leaf_del_ok [OF tok key])
  have pin: "0 < pins p1 q" using g(4) by simp
  show thesis
  proof (cases ex)
    case True
    have len: "length d1 = page_size p1" using page_okD(1) [OF rp(1)] g(6) psz by simp
    note f = finish_use [OF g(2) q pin len]
    show thesis by (rule that [of "finish_page p1 q d1 TDB_OK"])
      (use step True found f g(4-7) rp(1) lok q in \<open>simp_all add: grows_def tree_at_leaf\<close>)
  next
    case False
    note u = unref_use [OF g(2), of q]
    show thesis by (rule that [of "tdb_pager_unref p1 q"])
      (use step False found u g(4-7) rp(1) lok q in \<open>simp_all add: grows_def tree_at_leaf unref_pins d1_def\<close>)
  qed
qed

lemma found_mid:
  assumes "kids_ok lo hi (ts1 @ tc # ts2) ks" "keyok key" "\<forall>c \<in> set (concat (map entries ts1)). lt (kf c) key" "\<forall>c \<in> set (concat (map entries ts2)). lt key (kf c)"
  shows "key \<in> kf ` set (concat (map entries (ts1 @ tc # ts2))) \<longleftrightarrow> key \<in> kf ` set (entries tc)"
  using assms(3,4) lt_irrefl [OF key_valid [OF assms(2)]] by auto

lemma remove_loop_ok:
  assumes "in_use z p U" "page_size p = ps" "tree_at z p U h lo hi t" "keyok key" "above lo key" "upto hi key"
  shows "\<exists>p'. remove_loop all_ok z bt p (root_of t) key = Some (TDB_OK, key \<in> kf ` set (entries t), p') \<and>
    grows z p U (set (pages t)) 0 p' U \<and> tree_at z p' U h lo hi (del_tree key t) \<and> entries (del_tree key t) = del key (entries t)"
  using assms
proof (induction h arbitrary: p lo hi t)
  case 0
  then obtain q cs where t: "t = BLeaf q cs" by (cases t) (auto simp: tree_at_def)
  obtain p' where "remove_loop all_ok z bt p q key = Some (TDB_OK, key \<in> kf ` set cs, p')" "grows z p U {q} 0 p' U"
    "tree_at z p' U 0 lo hi (BLeaf q (del key cs))" using removes_leaf 0 unfolding t by blast
  then show ?case by (intro exI [of _ p']) (simp add: t)
next
  case (Suc h)
  then obtain q ts ks where t: "t = BNode q ts ks" by (cases t) (auto simp: tree_at_def)
  note ta = Suc.prems(3) [unfolded t]
  obtain p1 ts1 tc ts2 ks1 ks2 where g: "tdb_pager_get all_ok z p q = (TDB_OK, p1)" "in_use z p1 U" "page_data p1 q = view z p q"
      "pins p1 = (pins p)(q := Suc (pins p q))" "db_pages p1 = db_pages p" "page_size p1 = page_size p" "view z p1 = view z p"
      "\<not> pg_is_leaf (view z p q)" "fst (pg_find all_ok bt (view z p q) key) = length ts1" "child_at (view z p q) (length ts1) = root_of tc"
    and loc: "ts = ts1 @ tc # ts2" "ks = ks1 @ ks2" "length ks1 = length ts1" "length ts2 = length ks2"
      "above (left_bound lo ks1) key" "upto (right_bound hi ks2) key"
      "\<forall>c \<in> set (concat (map entries ts1)). lt (kf c) key" "\<forall>c \<in> set (concat (map entries ts2)). lt key (kf c)"
    and tc: "tree_at z p1 U h (left_bound lo ks1) (right_bound hi ks2) tc"
    by (rule enter_node [OF Suc.prems(1) ta Suc.prems(4-6)]) (rule that, assumption+)
  define p2 where "p2 = tdb_pager_unref p1 q"
  note u = unref_use [OF g(2), of q, folded p2_def]
  have tc2: "tree_at z p2 U h (left_bound lo ks1) (right_bound hi ks2) tc" using tc u(5) by (simp add: tree_at_def)
  have psz: "page_size p2 = ps" using u(4) g(6) Suc.prems(2) by simp
  obtain p' where r: "remove_loop all_ok z bt p2 (root_of tc) key = Some (TDB_OK, key \<in> kf ` set (entries tc), p')"
    "grows z p2 U (set (pages tc)) 0 p' U" "tree_at z p' U h (left_bound lo ks1) (right_bound hi ks2) (del_tree key tc)"
    "entries (del_tree key tc) = del key (entries tc)"
    using Suc.IH [OF u(2) psz tc2 Suc.prems(4) loc(5,6)] by blast
  have step: "remove_loop all_ok z bt p q key = remove_loop all_ok z bt p2 (root_of tc) key"
    using g(1,3,8-10) by (subst remove_loop.simps) (auto simp: Let_def p2_def split: prod.splits)
  have gr: "grows z p U (set (pages tc)) 0 p' U" using r(2) u g(4-7) by (auto simp: grows_def p2_def unref_pins)
  have kids: "kids_ok lo hi (ts1 @ tc # ts2) ks" using ta loc(1) by (simp add: tree_at_node)
  note mid = kids_mid(2) [OF kids Suc.prems(4) loc(7,8)] and fm = found_mid [OF kids Suc.prems(4) loc(7,8)]
  have dt: "del_tree key t = BNode q (ts1 @ del_tree key tc # ts2) (ks1 @ ks2)"
    using del_tree_mid [OF kids Suc.prems(4) loc(7,8)] by (simp add: t loc(1,2))
  have "tree_at z p' U (Suc h) lo hi (del_tree key t)"
    unfolding dt by (rule child_replaced(1) [OF ta [unfolded loc(1,2)] _ _ gr r(3)]) (use loc(3,4) in auto)
  moreover have "grows z p U (set (pages t)) 0 p' U" by (rule grows_mono [OF gr]) (auto simp: t loc(1))
  moreover have "entries (del_tree key t) = del key (entries t)" using mid r(4) unfolding dt by (simp add: t loc(1))
  ultimately show ?case using step r(1) fm by (intro exI [of _ p']) (simp add: t loc(1))
qed

lemma tdb_btree_remove_ok:
  assumes st: "stored z p U t" and key: "keyok key"
  obtains p' where "tdb_btree_remove all_ok z bt p key = Some (TDB_OK, key \<in> kf ` set (entries t), p')"
    "grows z p U (set (pages t)) 0 p' U" "stored z p' U (del_tree key t)" "entries (del_tree key t) = del key (entries t)"
proof -
  obtain h where s: "in_use z p U" "page_size p = ps" "root_of t = bt_root bt" "tree_at z p U h None None t" using st by (auto simp: stored_def)
  obtain p' where "remove_loop all_ok z bt p (bt_root bt) key = Some (TDB_OK, key \<in> kf ` set (entries t), p')"
    "grows z p U (set (pages t)) 0 p' U" "tree_at z p' U h None None (del_tree key t)" "entries (del_tree key t) = del key (entries t)"
    using remove_loop_ok [OF s(1,2,4) key bounds_none(1,2)] s(3) by auto
  then show thesis using that [of p'] s(2,3) by (auto simp: stored_def tdb_btree_remove_def grows_def)
qed

end

section \<open>Creation\<close>

lemma tdb_btree_create_ok:
  assumes use: "in_use z p U" and room: "db_pages p + 1 < 2 ^ 32" and ps: "100 \<le> page_size p" "page_size p \<le> 65536"
  obtains q p' where "tdb_btree_create all_ok z p kind = (TDB_OK, q, p')" "q \<notin> U" "grows z p U {} 1 p' (insert q U)"
    "leaf_page (page_size p) (view z p' q) []"
proof -
  obtain q p1 where a: "tdb_pager_alloc all_ok z p = (TDB_OK, q, p1)" "q \<notin> U" "q \<noteq> 0" "in_use z p1 (insert q U)"
    "\<And>x. x \<in> U \<Longrightarrow> view z p1 x = view z p x" "pins p1 = (pins p)(q := 1)" "db_pages p1 \<le> db_pages p + 1" "page_size p1 = page_size p"
    by (rule alloc_use [OF use room]) (rule that, assumption+)
  define type where "type = (if kind = TDB_BT_TABLE then TDB_PAGE_LEAF_TABLE else TDB_PAGE_LEAF_INDEX)"
  define d where "d = init_page (page_size p) type"
  have lt: "is_leaf_type type = True" by (simp add: type_def is_leaf_type_def)
  note ip = init_page_ok(1) [OF ps lt, folded d_def]
  have len: "length d = page_size p1" using page_okD(1) [OF ip] a(8) by simp
  have d: "d = patch 5 (tdb_put_u16 0) (patch 3 (tdb_put_u16 0) (patch 0 [type] (replicate (page_size p1) 0)))"
    by (simp add: d_def init_page_def pg_set_ncell_def pg_set_content_def a(8))
  have pin: "0 < pins p1 q" using a(6) by simp
  note f = finish_use [OF a(4) insertI1 pin len]
  have eq: "tdb_btree_create all_ok z p kind = (TDB_OK, q, finish_page p1 q d TDB_OK)"
    using a(1) by (simp add: tdb_btree_create_def type_def [symmetric] d Let_def finish_page_def)
  show thesis by (rule that [OF eq a(2)]) (use f a ip in \<open>auto simp: grows_def\<close>)
qed

end
