(* ===== verification/Tdb_Bt_Scan.thy ===== *)
theory Tdb_Bt_Scan
  imports Tdb_Bt_Stored
begin

text \<open>
  The cursor on a stored tree. A cursor stands on the leaf with number \<open>j\<close> of the tree; moving on
  from there enumerates the cells in order, and seeking a key leaves the cells whose key is not
  smaller. The stack of 40 levels is deep enough for every stored tree.
\<close>

section \<open>Leaves in order\<close>

fun leaf_list :: "bt_tree \<Rightarrow> (u32 \<times> bytes list) list" where
  "leaf_list (BLeaf q cs) = [(q, cs)]"
| "leaf_list (BNode q ts ks) = concat (map leaf_list ts)"

abbreviation nleaves :: "bt_tree \<Rightarrow> nat" where
  "nleaves t \<equiv> length (leaf_list t)"

lemma entries_leaves: "entries t = concat (map snd (leaf_list t))"
proof (induction t)
  case (BNode q ts ks)
  then have "concat (map entries ts) = concat (map snd (concat (map leaf_list ts)))" by (induction ts) auto
  then show ?case by simp
qed simp

text \<open>The stack of \<open>c\<close> from level \<open>L\<close> on leads to leaf \<open>j\<close> of the subtree.\<close>

inductive at_leaf :: "tdb_cursor \<Rightarrow> nat \<Rightarrow> bt_tree \<Rightarrow> nat \<Rightarrow> bool" for c where
  leaf: "c_page c ! L = q \<Longrightarrow> c_depth c = L \<Longrightarrow> at_leaf c L (BLeaf q cs) 0"
| node: "c_page c ! L = q \<Longrightarrow> c_cidx c ! L = i \<Longrightarrow> i < length ts \<Longrightarrow> at_leaf c (Suc L) (ts ! i) j \<Longrightarrow>
    at_leaf c L (BNode q ts ks) (length (concat (map leaf_list (take i ts))) + j)"

inductive_cases at_leafE: "at_leaf c L (BLeaf q cs) j"
inductive_cases at_nodeE: "at_leaf c L (BNode q ts ks) j"

lemma concat_nth_part:
  assumes "i < length xss" "j < length (xss ! i)"
  shows "concat xss ! (length (concat (take i xss)) + j) = xss ! i ! j" "length (concat (take i xss)) + j < length (concat xss)"
proof -
  have s: "concat xss = concat (take i xss) @ xss ! i @ concat (drop (Suc i) xss)"
    by (subst id_take_nth_drop [OF assms(1)]) simp
  show "concat xss ! (length (concat (take i xss)) + j) = xss ! i ! j" by (subst s) (simp add: nth_append assms(2))
  show "length (concat (take i xss)) + j < length (concat xss)" by (subst s) (use assms(2) in simp)
qed

lemma at_leaf_bound: "at_leaf c L t j \<Longrightarrow> j < nleaves t"
proof (induction rule: at_leaf.induct)
  case (node L q i ts j ks)
  then show ?case using concat_nth_part(2) [of i "map leaf_list ts" j] by (simp add: take_map)
qed simp

lemma at_leaf_depth: "at_leaf c L t j \<Longrightarrow> full h t \<Longrightarrow> c_depth c = L + h"
proof (induction arbitrary: h rule: at_leaf.induct)
  case (node L q i ts j ks)
  then obtain h' where "h = Suc h'" "full h' (ts ! i)" by (cases h) auto
  then show ?case using node.IH by simp
qed simp

lemma at_leaf_frame:
  assumes "at_leaf c L t j" "c_depth c' = c_depth c" "\<And>l. L \<le> l \<Longrightarrow> c_page c' ! l = c_page c ! l"
    "\<And>l. L \<le> l \<Longrightarrow> l < c_depth c \<Longrightarrow> c_cidx c' ! l = c_cidx c ! l"
  shows "at_leaf c' L t j"
  using assms
proof (induction rule: at_leaf.induct)
  case (leaf L q cs)
  then show ?case by (auto intro: at_leaf.leaf)
next
  case (node L q i ts j ks)
  have d: "L < c_depth c" using node(4)
  proof -
    have "at_leaf c (Suc L) t j \<Longrightarrow> Suc L \<le> c_depth c" for L t j by (induction "Suc L" t j arbitrary: L rule: at_leaf.induct) auto
    then show ?thesis using node(4) by (meson Suc_le_lessD)
  qed
  have "at_leaf c' (Suc L) (ts ! i) j" by (rule node.IH) (use node.prems in auto)
  then show ?case using node d by (intro at_leaf.node) auto
qed

section \<open>Reading\<close>

definition looks :: "zbuild \<Rightarrow> u32 set \<Rightarrow> tdb_pager \<Rightarrow> tdb_pager \<Rightarrow> bool" where
  "looks z U p p' \<longleftrightarrow> in_use z p' U \<and> view z p' = view z p \<and> page_size p' = page_size p \<and> db_pages p' = db_pages p"

definition wf_cursor :: "tdb_cursor \<Rightarrow> bool" where
  "wf_cursor c \<longleftrightarrow> length (c_page c) = TDB_MAXDEPTH \<and> length (c_cidx c) = TDB_MAXDEPTH"

definition agree :: "nat \<Rightarrow> tdb_cursor \<Rightarrow> tdb_cursor \<Rightarrow> bool" where
  "agree L c c' \<longleftrightarrow> (\<forall>l < L. c_page c' ! l = c_page c ! l \<and> c_cidx c' ! l = c_cidx c ! l)"

text \<open>The cursor \<open>c'\<close> stands on leaf \<open>j\<close> of a subtree at level \<open>L\<close>, whose page it has pinned; above, it is \<open>c\<close>.\<close>

definition lands :: "zbuild \<Rightarrow> u32 set \<Rightarrow> tdb_pager \<Rightarrow> bt_tree \<Rightarrow> nat \<Rightarrow> nat \<Rightarrow> nat \<Rightarrow> tdb_cursor \<Rightarrow> tdb_cursor \<Rightarrow> tdb_pager \<Rightarrow> bool" where
  "lands z U p t L j i c c' p' \<longleftrightarrow>
     (let q = fst (leaf_list t ! j) in
      wf_cursor c' \<and> at_leaf c' L t j \<and> agree L c c' \<and> c_leaf c' = Some q \<and> \<not> c_eof c' \<and> cur_idx c' = i \<and>
      looks z U p p' \<and> pins p' = (pins p)(q := Suc (pins p q)))"

lemma looks_trans: "looks z U p p1 \<Longrightarrow> looks z U p1 p2 \<Longrightarrow> looks z U p p2"
  by (simp add: looks_def)

lemma lands_from: "lands z U p1 t L j i c c' p' \<Longrightarrow> looks z U p p1 \<Longrightarrow> pins p1 = pins p \<Longrightarrow> lands z U p t L j i c c' p'"
  by (auto simp: lands_def Let_def intro: looks_trans)

lemma lands_lift:
  assumes "lands z U p (ts ! i) (Suc L) j k c2 c' p'" "i < length ts" "c_page c2 ! L = q" "c_cidx c2 ! L = i" "agree L c c2"
  shows "lands z U p (BNode q ts ks) L (length (concat (map leaf_list (take i ts))) + j) k c c' p'"
proof -
  note l = assms(1) [unfolded lands_def Let_def]
  have j: "j < nleaves (ts ! i)" using l at_leaf_bound by blast
  have n: "leaf_list (BNode q ts ks) ! (length (concat (map leaf_list (take i ts))) + j) = leaf_list (ts ! i) ! j"
    using concat_nth_part(1) [of i "map leaf_list ts" j] assms(2) j by (simp add: take_map)
  have "at_leaf c' L (BNode q ts ks) (length (concat (map leaf_list (take i ts))) + j)"
    by (rule at_leaf.node) (use l assms(2-4) in \<open>auto simp: agree_def\<close>)
  then show ?thesis using l assms(5) n by (auto simp: lands_def Let_def agree_def)
qed

context bt_store
begin

definition tree_in :: "zbuild \<Rightarrow> tdb_pager \<Rightarrow> u32 set \<Rightarrow> nat \<Rightarrow> bt_tree \<Rightarrow> bool" where
  "tree_in z p U h t \<longleftrightarrow> (\<exists>lo hi. tree_at z p U h lo hi t)"

lemma tree_in_looks: "tree_in z p U h t \<Longrightarrow> looks z U p p' \<Longrightarrow> tree_in z p' U h t"
  by (simp add: tree_in_def looks_def tree_at_def)

lemma tree_in_leaf:
  assumes "tree_in z p U h (BLeaf q cs)"
  shows "h = 0" "q \<in> U" "leaf_page ps (view z p q) cs"
  using assms by (auto simp: tree_in_def tree_at_leaf)

lemma tree_in_node:
  assumes "tree_in z p U h (BNode q ts ks)"
  obtains h' where "h = Suc h'" "q \<in> U" "\<not> pg_is_leaf (view z p q)" "pg_ncell (view z p q) = length ks" "length ts = Suc (length ks)"
    "\<And>i. i < length ts \<Longrightarrow> tree_in z p U h' (ts ! i)" "\<And>i. i < length ts \<Longrightarrow> child_at (view z p q) i = root_of (ts ! i)"
proof -
  obtain lo hi where t: "tree_at z p U h lo hi (BNode q ts ks)" using assms by (auto simp: tree_in_def)
  then obtain h' where h: "h = Suc h'" by (cases h) (auto simp: tree_at_def)
  note n = t [unfolded h tree_at_node]
  have kids: "kids_ok lo hi ts ks" and fo: "forest z p U h' ts" and np: "node_page (view z p q) ts ks" using n by blast+
  have len: "length ts = Suc (length ks)" by (rule kids_ok_length [OF kids])
  have "tree_in z p U h' (ts ! i)" if "i < length ts" for i
  proof -
    have ts: "ts = take i ts @ ts ! i # drop (Suc i) ts" using that by (simp add: id_take_nth_drop)
    have "kids_ok lo hi (take i ts @ ts ! i # drop (Suc i) ts) (take i ks @ drop i ks)" using kids ts by simp
    then have "tree_ok (left_bound lo (take i ks)) (right_bound hi (drop i ks)) (ts ! i)"
      by (rule kids_context(1) [rotated 2]) (use len that in auto)
    moreover have "forest z p U h' [ts ! i]" using fo that forest_simps(1) [of z p U h' "take i ts" "ts ! i # drop (Suc i) ts"]
        forest_simps(1) [of z p U h' "[ts ! i]" "drop (Suc i) ts"] ts by auto
    ultimately show ?thesis by (auto simp: tree_in_def tree_at_forest)
  qed
  moreover have "child_at (view z p q) i = root_of (ts ! i)" if "i < length ts" for i
    using node_child_at [of ps "view z p q" ts ks i] np kids_asc [OF kids] key_form len that by (auto simp: node_page_def)
  moreover have "\<not> pg_is_leaf (view z p q)" using np page_okD(4) [of int_ok ps False "view z p q"] by (auto simp: node_page_def)
  ultimately show thesis using that [OF h] n node_page_ncell [OF np] len by blast
qed

lemma looks_get:
  assumes "in_use z p U" "q \<in> U"
  obtains p1 where "tdb_pager_get all_ok z p q = (TDB_OK, p1)" "looks z U p p1" "page_data p1 q = view z p q"
    "pins p1 = (pins p)(q := Suc (pins p q))" "looks z U p (tdb_pager_unref p1 q)" "pins (tdb_pager_unref p1 q) = pins p"
proof -
  obtain p1 where g: "tdb_pager_get all_ok z p q = (TDB_OK, p1)" "in_use z p1 U" "page_data p1 q = view z p q"
    "pins p1 = (pins p)(q := Suc (pins p q))" "db_pages p1 = db_pages p" "page_size p1 = page_size p" "view z p1 = view z p"
    by (rule get_use [OF assms]) (rule that, assumption+)
  show thesis by (rule that [OF g(1) _ g(3,4)]) (use g unref_use [OF g(2), of q] in \<open>auto simp: looks_def unref_pins\<close>)
qed

section \<open>Descending and moving on\<close>

lemma descend_left_ok:
  assumes "tree_in z p U h t" "in_use z p U" "wf_cursor c" "L + h < TDB_MAXDEPTH"
  shows "\<exists>c' p'. descend_leftmost all_ok z p c (root_of t) L = Some (TDB_OK, c', p') \<and> lands z U p t L 0 0 c c' p'"
  using assms
proof (induction h arbitrary: t p c L)
  case 0
  then obtain q cs where t: "t = BLeaf q cs" by (cases t) (auto elim: tree_in_node)
  note lf = tree_in_leaf [OF "0.prems"(1) [unfolded t]]
  obtain p1 where g: "tdb_pager_get all_ok z p q = (TDB_OK, p1)" "looks z U p p1" "page_data p1 q = view z p q"
    "pins p1 = (pins p)(q := Suc (pins p q))" by (rule looks_get [OF "0.prems"(2) lf(2)]) (rule that, assumption+)
  let ?c = "c\<lparr>c_page := (c_page c)[L := q], c_cidx := (c_cidx c)[L := 0], c_depth := L, c_leaf := Some q, c_eof := False\<rparr>"
  have "descend_leftmost all_ok z p c q L = Some (TDB_OK, ?c, p1)"
    using g(1,3) page_okD(4) [OF lf(3)] "0.prems"(4) by (subst descend_leftmost.simps) (simp add: Let_def)
  moreover have "lands z U p t L 0 0 c ?c p1"
    using g(2,4) "0.prems"(3,4) by (auto simp: lands_def t wf_cursor_def agree_def cur_idx_def intro: at_leaf.leaf)
  ultimately show ?case by (simp add: t)
next
  case (Suc h)
  then obtain q ts ks where t: "t = BNode q ts ks" by (cases t) (auto dest: tree_in_leaf(1))
  obtain n: "q \<in> U" "\<not> pg_is_leaf (view z p q)" "pg_ncell (view z p q) = length ks" "length ts = Suc (length ks)"
    "\<And>i. i < length ts \<Longrightarrow> tree_in z p U h (ts ! i)" "\<And>i. i < length ts \<Longrightarrow> child_at (view z p q) i = root_of (ts ! i)"
    using tree_in_node [OF Suc.prems(1) [unfolded t]] by (metis nat.inject)
  obtain p1 where g: "tdb_pager_get all_ok z p q = (TDB_OK, p1)" "page_data p1 q = view z p q" "looks z U p (tdb_pager_unref p1 q)"
    "pins (tdb_pager_unref p1 q) = pins p" by (rule looks_get [OF Suc.prems(2) n(1)]) (rule that, assumption+)
  let ?p = "tdb_pager_unref p1 q" and ?c = "c\<lparr>c_page := (c_page c)[L := q], c_cidx := (c_cidx c)[L := 0]\<rparr>"
  have step: "descend_leftmost all_ok z p c q L = descend_leftmost all_ok z ?p ?c (root_of (ts ! 0)) (Suc L)"
    using g(1,2) n Suc.prems(4) by (subst descend_leftmost.simps) (simp add: Let_def)
  have "\<exists>c' p'. descend_leftmost all_ok z ?p ?c (root_of (ts ! 0)) (Suc L) = Some (TDB_OK, c', p') \<and> lands z U ?p (ts ! 0) (Suc L) 0 0 ?c c' p'"
    by (rule Suc.IH) (use n tree_in_looks [OF _ g(3)] g(3) Suc.prems in \<open>auto simp: looks_def wf_cursor_def\<close>)
  then obtain c' p' where d: "descend_leftmost all_ok z ?p ?c (root_of (ts ! 0)) (Suc L) = Some (TDB_OK, c', p')"
    "lands z U ?p (ts ! 0) (Suc L) 0 0 ?c c' p'" by blast
  have "lands z U ?p t L 0 0 c c' p'"
    using lands_lift [OF d(2), of q c ks] n(4) Suc.prems(3,4) by (simp add: t agree_def wf_cursor_def)
  from lands_from [OF this g(3,4)] d(1) step show ?case by (auto simp: t)
qed

lemma next_up_ok:
  assumes "at_leaf c L t j" "tree_in z p U h t" "in_use z p U" "wf_cursor c" "L + h < TDB_MAXDEPTH"
  shows "if Suc j < nleaves t then (\<exists>c' p'. next_up all_ok z p c (c_depth c) = Some (TDB_OK, c', p') \<and> lands z U p t L (Suc j) 0 c c' p')
    else (\<exists>p'. next_up all_ok z p c (c_depth c) = next_up all_ok z p' c L \<and> looks z U p p' \<and> pins p' = pins p)"
  using assms
proof (induction arbitrary: h p rule: at_leaf.induct)
  case (leaf L q cs)
  then show ?case by (auto simp: looks_def)
next
  case (node L q i ts j ks)
  obtain h' where n: "h = Suc h'" "q \<in> U" "\<not> pg_is_leaf (view z p q)" "pg_ncell (view z p q) = length ks" "length ts = Suc (length ks)"
    "\<And>i. i < length ts \<Longrightarrow> tree_in z p U h' (ts ! i)" "\<And>i. i < length ts \<Longrightarrow> child_at (view z p q) i = root_of (ts ! i)"
    by (rule tree_in_node [OF node.prems(1)]) (rule that, assumption+)
  let ?b = "length (concat (map leaf_list (take i ts)))"
  note IH = node.IH [OF n(6) [OF node(3)] node.prems(2,3)]
  have lvl: "Suc L + h' < TDB_MAXDEPTH" using node.prems(4) n(1) by simp
  show ?case
  proof (cases "Suc j < nleaves (ts ! i)")
    case True
    then obtain c' p' where d: "next_up all_ok z p c (c_depth c) = Some (TDB_OK, c', p')" "lands z U p (ts ! i) (Suc L) (Suc j) 0 c c' p'"
      using IH [OF lvl] by auto
    have "lands z U p (BNode q ts ks) L (?b + Suc j) 0 c c' p'" by (rule lands_lift [OF d(2)]) (use node in \<open>auto simp: agree_def\<close>)
    moreover have "?b + Suc j < nleaves (BNode q ts ks)" using concat_nth_part(2) [of i "map leaf_list ts" "Suc j"] True node(3) by (simp add: take_map)
    ultimately show ?thesis using d(1) by auto
  next
    case False
    have jj: "Suc j = nleaves (ts ! i)" using False at_leaf_bound [OF node(4)] by simp
    obtain p0 where p0: "next_up all_ok z p c (c_depth c) = next_up all_ok z p0 c (Suc L)" "looks z U p p0" "pins p0 = pins p"
      using IH [OF lvl] False by auto
    have u0: "in_use z p0 U" "view z p0 = view z p" using p0(2) by (simp_all add: looks_def)
    obtain p1 where g: "tdb_pager_get all_ok z p0 q = (TDB_OK, p1)" "page_data p1 q = view z p0 q" "looks z U p0 (tdb_pager_unref p1 q)"
      "pins (tdb_pager_unref p1 q) = pins p0" by (rule looks_get [OF u0(1) n(2)]) (rule that, assumption+)
    let ?p = "tdb_pager_unref p1 q" and ?c = "c\<lparr>c_cidx := (c_cidx c)[L := Suc i]\<rparr>"
    have lk: "looks z U p ?p" "pins ?p = pins p" using looks_trans [OF p0(2) g(3)] g(4) p0(3) by simp_all
    have st: "next_up all_ok z p0 c (Suc L) =
        (if Suc i \<le> length ks then descend_leftmost all_ok z ?p ?c (child_at (view z p q) (Suc i)) (Suc L) else next_up all_ok z ?p c L)"
      using g(1,2) node(1,2) n(4) u0(2) by (simp add: Let_def)
    have b: "length (concat (map leaf_list (take (Suc i) ts))) = ?b + Suc j" using node(3) jj by (simp add: take_Suc_conv_app_nth)
    show ?thesis
    proof (cases "Suc i < length ts")
      case True
      have "\<exists>c' p'. descend_leftmost all_ok z ?p ?c (root_of (ts ! Suc i)) (Suc L) = Some (TDB_OK, c', p') \<and> lands z U ?p (ts ! Suc i) (Suc L) 0 0 ?c c' p'"
        by (rule descend_left_ok) (use tree_in_looks [OF n(6) [OF True] lk(1)] lk(1) node.prems(3) lvl in \<open>auto simp: looks_def wf_cursor_def\<close>)
      then obtain c' p' where d: "descend_leftmost all_ok z ?p ?c (root_of (ts ! Suc i)) (Suc L) = Some (TDB_OK, c', p')"
        "lands z U ?p (ts ! Suc i) (Suc L) 0 0 ?c c' p'" by blast
      have "lands z U ?p (BNode q ts ks) L (length (concat (map leaf_list (take (Suc i) ts))) + 0) 0 c c' p'"
        by (rule lands_lift [OF d(2) True]) (use node lvl in \<open>auto simp: agree_def wf_cursor_def\<close>)
      note ln = lands_from [OF this lk]
      have "nleaves (BNode q ts ks) > ?b + Suc j" using ln b at_leaf_bound [of c' L "BNode q ts ks"] by (auto simp: lands_def Let_def)
      then show ?thesis using ln b p0(1) st d(1) n(5,7) True by auto
    next
      case F: False
      then have "nleaves (BNode q ts ks) = ?b + Suc j" using b node(3) by simp
      then show ?thesis using p0(1) st F n(5) lk by auto
    qed
  qed
qed

section \<open>The cells ahead of a cursor\<close>

text \<open>
  A cursor was opened when the pager was \<open>p0\<close>. It stands on a leaf, whose pin is the only change,
  or it is at the end and has pinned nothing. The list is what it will still deliver.
\<close>

abbreviation on_leaf :: "zbuild \<Rightarrow> u32 set \<Rightarrow> tdb_pager \<Rightarrow> bt_tree \<Rightarrow> nat \<Rightarrow> nat \<Rightarrow> tdb_cursor \<Rightarrow> tdb_pager \<Rightarrow> bool" where
  "on_leaf z U p0 t j i c p \<equiv> lands z U p0 t 0 j i c c p"

definition at_end :: "zbuild \<Rightarrow> u32 set \<Rightarrow> tdb_pager \<Rightarrow> tdb_cursor \<Rightarrow> tdb_pager \<Rightarrow> bool" where
  "at_end z U p0 c p \<longleftrightarrow> wf_cursor c \<and> c_leaf c = None \<and> c_eof c \<and> looks z U p0 p \<and> pins p = pins p0"

definition showing :: "zbuild \<Rightarrow> u32 set \<Rightarrow> tdb_pager \<Rightarrow> bt_tree \<Rightarrow> tdb_cursor \<Rightarrow> tdb_pager \<Rightarrow> bytes list \<Rightarrow> bool" where
  "showing z U p0 t c p es \<longleftrightarrow>
     (if es = [] then at_end z U p0 c p
      else (\<exists>j i. on_leaf z U p0 t j i c p \<and> i < length (snd (leaf_list t ! j)) \<and>
              es = drop i (snd (leaf_list t ! j)) @ concat (map snd (drop (Suc j) (leaf_list t)))))"

lemma on_leafI: "lands z U p t 0 j i c c' p' \<Longrightarrow> on_leaf z U p t j i c' p'"
  by (simp add: lands_def agree_def)

lemma showingI:
  assumes "on_leaf z U p0 t j i c p" "i < length (snd (leaf_list t ! j))"
    "es = drop i (snd (leaf_list t ! j)) @ concat (map snd (drop (Suc j) (leaf_list t)))"
  shows "showing z U p0 t c p es"
proof -
  have "es \<noteq> []" using assms(2,3) by simp
  then show ?thesis unfolding showing_def using assms by (simp only: if_False) blast
qed

lemma leaf_pages:
  assumes "tree_in z p U h t" "(q, cs) \<in> set (leaf_list t)"
  shows "q \<in> U \<and> leaf_page ps (view z p q) cs \<and> tree_in z p U 0 (BLeaf q cs)"
  using assms
proof (induction h arbitrary: t)
  case 0
  then obtain q' cs' where "t = BLeaf q' cs'" by (cases t) (auto elim: tree_in_node)
  then show ?case using tree_in_leaf [of z p U 0 q' cs'] 0 by auto
next
  case (Suc h)
  then obtain r ts ks where t: "t = BNode r ts ks" by (cases t) (auto dest: tree_in_leaf(1))
  then obtain i where i: "i < length ts" "(q, cs) \<in> set (leaf_list (ts ! i))" using Suc.prems(2) by (auto simp: in_set_conv_nth) (metis in_set_conv_nth)
  have "tree_in z p U h (ts ! i)" using tree_in_node [OF Suc.prems(1) [unfolded t]] i(1) by (metis nat.inject)
  then show ?case using Suc.IH i(2) by blast
qed

lemma on_leaf_page:
  assumes "tree_in z p0 U h t" "on_leaf z U p0 t j i c p"
  shows "j < nleaves t" "leaf_data p c = view z p0 (fst (leaf_list t ! j))" "leaf_page ps (leaf_data p c) (snd (leaf_list t ! j))"
proof -
  note l = assms(2) [unfolded lands_def Let_def]
  show j: "j < nleaves t" using l at_leaf_bound by blast
  have "page_data p (fst (leaf_list t ! j)) = view z p (fst (leaf_list t ! j))" by (rule pinned_data) (use l in simp)
  then show d: "leaf_data p c = view z p0 (fst (leaf_list t ! j))" using l by (simp add: leaf_data_def looks_def)
  show "leaf_page ps (leaf_data p c) (snd (leaf_list t ! j))"
    unfolding d using leaf_pages [OF assms(1), of "fst (leaf_list t ! j)" "snd (leaf_list t ! j)"] j by simp
qed

lemma drop_on_leaf:
  assumes "on_leaf z U p0 t j i c p"
  shows "looks z U p0 (drop_leaf p c)" "pins (drop_leaf p c) = pins p0"
proof -
  note l = assms [unfolded lands_def Let_def]
  have d: "drop_leaf p c = tdb_pager_unref p (fst (leaf_list t ! j))" using l by (simp add: drop_leaf_def)
  show "looks z U p0 (drop_leaf p c)" using l unref_use [of z p U] unfolding d by (auto simp: looks_def)
  show "pins (drop_leaf p c) = pins p0" using l unfolding d by (simp add: unref_pins)
qed

lemma next_leaf_ok:
  assumes t: "tree_in z p0 U h t" "h < TDB_MAXDEPTH" and c: "on_leaf z U p0 t j i c p"
  shows "\<exists>c' p'. next_leaf all_ok z p c = Some (TDB_OK, c', p') \<and>
    (if Suc j < nleaves t then on_leaf z U p0 t (Suc j) 0 c' p' else at_end z U p0 c' p')"
proof -
  note l = c [unfolded lands_def Let_def]
  let ?c = "c\<lparr>c_leaf := None\<rparr>" and ?p = "drop_leaf p c"
  note d = drop_on_leaf [OF c]
  have al: "at_leaf ?c 0 t j" by (rule at_leaf_frame [of c]) (use l in auto)
  have w: "wf_cursor ?c" using l by (simp add: wf_cursor_def)
  have u: "in_use z ?p U" using d(1) by (simp add: looks_def)
  note nu = next_up_ok [OF al tree_in_looks [OF t(1) d(1)] u w, simplified, OF t(2)]
  show ?thesis
  proof (cases "Suc j < nleaves t")
    case True
    then obtain c' p' where n: "next_up all_ok z ?p ?c (c_depth c) = Some (TDB_OK, c', p')" "lands z U ?p t 0 (Suc j) 0 ?c c' p'"
      using nu by auto
    from on_leafI [OF lands_from [OF n(2) d]] show ?thesis using True n(1) by (simp add: next_leaf_def)
  next
    case False
    then obtain p' where n: "next_up all_ok z ?p ?c (c_depth c) = next_up all_ok z p' ?c 0" "looks z U ?p p'" "pins p' = pins ?p" using nu by auto
    then have "at_end z U p0 (?c\<lparr>c_eof := True\<rparr>) p'" using looks_trans [OF d(1) n(2)] d(2) w by (simp add: at_end_def wf_cursor_def)
    then show ?thesis using False n(1) by (simp add: next_leaf_def)
  qed
qed

lemma skip_ok:
  assumes t: "tree_in z p0 U h t" "h < TDB_MAXDEPTH" and c: "on_leaf z U p0 t j 0 c p"
  shows "\<exists>c' p'. skip_empty (next_leaf all_ok z) p c = Some (TDB_OK, c', p') \<and> showing z U p0 t c' p' (concat (map snd (drop j (leaf_list t))))"
  using c
proof (induction "nleaves t - j" arbitrary: j c p)
  case 0
  then show ?case using on_leaf_page(1) [OF t(1) 0(2)] by simp
next
  case (Suc n)
  note lp = on_leaf_page [OF t(1) Suc.prems]
  have nc: "pg_ncell (leaf_data p c) = length (snd (leaf_list t ! j))" by (rule page_okD(5) [OF lp(3)])
  have ne: "\<not> c_eof c" using Suc.prems by (simp add: lands_def Let_def)
  have dj: "drop j (leaf_list t) = leaf_list t ! j # drop (Suc j) (leaf_list t)" using lp(1) by (simp add: Cons_nth_drop_Suc)
  show ?case
  proof (cases "snd (leaf_list t ! j) = []")
    case False
    have "skip_empty (next_leaf all_ok z) p c = Some (TDB_OK, c, p)" using False nc by (subst skip_empty.simps) simp
    moreover have "showing z U p0 t c p (concat (map snd (drop j (leaf_list t))))"
      by (rule showingI [OF Suc.prems]) (use False in \<open>auto simp: dj\<close>)
    ultimately show ?thesis by blast
  next
    case True
    obtain c' p' where n: "next_leaf all_ok z p c = Some (TDB_OK, c', p')"
      "if Suc j < nleaves t then on_leaf z U p0 t (Suc j) 0 c' p' else at_end z U p0 c' p'" using next_leaf_ok [OF t Suc.prems] by blast
    have st: "skip_empty (next_leaf all_ok z) p c = skip_empty (next_leaf all_ok z) p' c'"
      using True nc ne n(1) by (subst skip_empty.simps) simp
    show ?thesis
    proof (cases "Suc j < nleaves t")
      case T: True
      have "n = nleaves t - Suc j" using Suc.hyps(2) by simp
      from Suc.hyps(1) [OF this] n(2) T st True show ?thesis by (simp add: dj)
    next
      case False
      then have "at_end z U p0 c' p'" "drop (Suc j) (leaf_list t) = []" using n(2) by simp_all
      moreover from this have "skip_empty (next_leaf all_ok z) p' c' = Some (TDB_OK, c', p')" by (subst skip_empty.simps) (simp add: at_end_def)
      ultimately show ?thesis using st True by (simp add: dj showing_def)
    qed
  qed
qed

lemma showing_drop:
  assumes "showing z U p0 t c p es"
  shows "looks z U p0 (drop_leaf p c)" "pins (drop_leaf p c) = pins p0" "wf_cursor c"
proof -
  have "at_end z U p0 c p \<or> (\<exists>j i. on_leaf z U p0 t j i c p)" using assms by (auto simp: showing_def split: if_splits)
  then show "looks z U p0 (drop_leaf p c)" "pins (drop_leaf p c) = pins p0" "wf_cursor c"
    using drop_on_leaf by (auto simp: at_end_def drop_leaf_def lands_def Let_def)
qed

lemma showing_eof: "showing z U p0 t c p es \<Longrightarrow> tdb_cursor_eof c = (es = [])"
  by (auto simp: showing_def tdb_cursor_eof_def at_end_def lands_def Let_def split: if_splits)

lemma tdb_cursor_first_ok:
  assumes t: "tree_in z p0 U h t" "h < TDB_MAXDEPTH" and root: "root_of t = bt_root bt" and c: "showing z U p0 t c p es"
  shows "\<exists>c' p'. tdb_cursor_first all_ok z bt p c = Some (TDB_OK, c', p') \<and> showing z U p0 t c' p' (entries t)"
proof -
  note d = showing_drop [OF c]
  let ?c = "c\<lparr>c_leaf := None\<rparr>" and ?p = "drop_leaf p c"
  have "\<exists>c' p'. descend_leftmost all_ok z ?p ?c (root_of t) 0 = Some (TDB_OK, c', p') \<and> lands z U ?p t 0 0 0 ?c c' p'"
    by (rule descend_left_ok) (use tree_in_looks [OF t(1) d(1)] d t(2) in \<open>auto simp: looks_def wf_cursor_def\<close>)
  then obtain c1 p1 where d1: "descend_leftmost all_ok z ?p ?c (bt_root bt) 0 = Some (TDB_OK, c1, p1)" "lands z U ?p t 0 0 0 ?c c1 p1"
    using root by auto
  have "on_leaf z U p0 t 0 0 c1 p1" by (rule on_leafI [OF lands_from [OF d1(2) d(1,2)]])
  then obtain c2 p2 where s: "skip_empty (next_leaf all_ok z) p1 c1 = Some (TDB_OK, c2, p2)" "showing z U p0 t c2 p2 (entries t)"
    using skip_ok [OF t] by (force simp: entries_leaves)
  have "\<not> (\<not> c_eof c2 \<and> pg_ncell (leaf_data p2 c2) \<le> cur_idx c2)"
  proof (cases "entries t = []")
    case True
    then show ?thesis using s(2) by (simp add: showing_def at_end_def)
  next
    case False
    then obtain j i where o: "on_leaf z U p0 t j i c2 p2" "i < length (snd (leaf_list t ! j))" using s(2) by (auto simp: showing_def)
    then show ?thesis using page_okD(5) [OF on_leaf_page(3) [OF t(1) o(1)]] by (simp add: lands_def Let_def)
  qed
  then show ?thesis using d1(1) s by (auto simp: tdb_cursor_first_def)
qed

lemma tdb_cursor_next_ok:
  assumes t: "tree_in z p0 U h t" "h < TDB_MAXDEPTH" and c: "showing z U p0 t c p (e # es)"
  shows "\<exists>c' p'. tdb_cursor_next all_ok z p c = Some (TDB_OK, c', p') \<and> showing z U p0 t c' p' es"
proof -
  obtain j i where o: "on_leaf z U p0 t j i c p" "i < length (snd (leaf_list t ! j))"
    "e # es = drop i (snd (leaf_list t ! j)) @ concat (map snd (drop (Suc j) (leaf_list t)))" using c by (auto simp: showing_def)
  have es: "es = drop (Suc i) (snd (leaf_list t ! j)) @ concat (map snd (drop (Suc j) (leaf_list t)))"
    using o(2,3) by (simp add: Cons_nth_drop_Suc [symmetric])
  note l = o(1) [unfolded lands_def Let_def]
  have dep: "c_depth c < TDB_MAXDEPTH" using l at_leaf_depth [of c 0 t j h] t by (auto simp: tree_in_def tree_at_def)
  let ?c = "c\<lparr>c_cidx := (c_cidx c)[c_depth c := i + 1]\<rparr>"
  have al: "at_leaf ?c 0 t j" by (rule at_leaf_frame [of c]) (use l in auto)
  have ci: "cur_idx ?c = Suc i" using dep l by (simp add: cur_idx_def wf_cursor_def)
  have o1: "on_leaf z U p0 t j (Suc i) ?c p" using l al ci by (simp add: lands_def Let_def wf_cursor_def agree_def)
  have nc: "pg_ncell (leaf_data p ?c) = length (snd (leaf_list t ! j))" by (rule page_okD(5) [OF on_leaf_page(3) [OF t(1) o1]])
  have st: "tdb_cursor_next all_ok z p c = (if Suc i < length (snd (leaf_list t ! j)) then Some (TDB_OK, ?c, p)
      else Option.bind (next_leaf all_ok z p ?c) (\<lambda>(rc, c2, p2). if rc \<noteq> TDB_OK then Some (rc, c2, p2) else skip_empty (next_leaf all_ok z) p2 c2))"
    using l ci nc by (simp add: tdb_cursor_next_def Let_def)
  show ?thesis
  proof (cases "Suc i < length (snd (leaf_list t ! j))")
    case True
    then show ?thesis using st showingI [OF o1 True es] by simp
  next
    case False
    then have es': "es = concat (map snd (drop (Suc j) (leaf_list t)))" using es by simp
    obtain c2 p2 where n: "next_leaf all_ok z p ?c = Some (TDB_OK, c2, p2)"
      "if Suc j < nleaves t then on_leaf z U p0 t (Suc j) 0 c2 p2 else at_end z U p0 c2 p2" using next_leaf_ok [OF t o1] by blast
    show ?thesis
    proof (cases "Suc j < nleaves t")
      case True
      then show ?thesis using skip_ok [OF t, of "Suc j" c2 p2] n st False es' by simp
    next
      case F: False
      then have "at_end z U p0 c2 p2" "es = []" using n(2) es' by simp_all
      moreover from this have "skip_empty (next_leaf all_ok z) p2 c2 = Some (TDB_OK, c2, p2)" by (subst skip_empty.simps) (simp add: at_end_def)
      ultimately show ?thesis using st False n(1) by (simp add: showing_def)
    qed
  qed
qed

lemma cursor_reads:
  assumes t: "tree_in z p0 U h t" and c: "showing z U p0 t c p (e # es)"
  shows "tdb_cursor_key ps p c = (TDB_OK, kf e)"
    "lc_ovfl (leafcell_at ps e) = 0 \<Longrightarrow> tdb_cursor_data all_ok z ps p c = Some (TDB_OK, take (lc_vlen (leafcell_at ps e)) (lc_lval (leafcell_at ps e)), c, p)"
proof -
  obtain j i where o: "on_leaf z U p0 t j i c p" "i < length (snd (leaf_list t ! j))"
    "e # es = drop i (snd (leaf_list t ! j)) @ concat (map snd (drop (Suc j) (leaf_list t)))" using c by (auto simp: showing_def)
  have e: "snd (leaf_list t ! j) ! i = e" using o(2,3) by (simp add: Cons_nth_drop_Suc [symmetric])
  note l = o(1) [unfolded lands_def Let_def]
  note rd = leaf_page_read(1) [OF on_leaf_page(3) [OF t o(1)] o(2), unfolded e]
  have c': "\<not> (c_eof c \<or> c_leaf c = None)" "cur_idx c = i" using l by auto
  show "tdb_cursor_key ps p c = (TDB_OK, kf e)" unfolding tdb_cursor_key_def c'(2) rd using c'(1) by (simp add: leaf_key_def)
  show "tdb_cursor_data all_ok z ps p c = Some (TDB_OK, take (lc_vlen (leafcell_at ps e)) (lc_lval (leafcell_at ps e)), c, p)"
    if "lc_ovfl (leafcell_at ps e) = 0" unfolding tdb_cursor_data_def c'(2) rd using c'(1) that by (simp add: Let_def)
qed

section \<open>Seeking\<close>

text \<open>What \<^verbatim>\<open>tdb_cursor_seek\<close> does once it has reached a leaf.\<close>

definition seek_end :: "zbuild \<Rightarrow> tdb_pager \<Rightarrow> tdb_cursor \<Rightarrow> bool \<Rightarrow> bool \<Rightarrow> (tdb_status \<times> int \<times> tdb_cursor \<times> tdb_pager) option" where
  "seek_end z p c past exact =
     (if past then
        Option.bind (next_leaf all_ok z p c) (\<lambda>(rc, c4, p4).
          if rc \<noteq> TDB_OK then Some (rc, 1, c4, p4)
          else Option.bind (skip_empty (next_leaf all_ok z) p4 c4) (\<lambda>(rc, c5, p5). Some (rc, 1, c5, p5)))
      else Some (TDB_OK, if exact then 0 else 1, c, p))"

definition seeks :: "zbuild \<Rightarrow> u32 set \<Rightarrow> tdb_pager \<Rightarrow> bt_tree \<Rightarrow> nat \<Rightarrow> tdb_cursor \<Rightarrow> bytes \<Rightarrow> bool" where
  "seeks z U p t L c key \<longleftrightarrow>
     (\<exists>c' p' j. j < nleaves t \<and>
        (let cs = snd (leaf_list t ! j); i = rank (map kf cs) key in
         lands z U p t L j i c c' p' \<and>
         seek_loop all_ok z bt p c (root_of t) L key = seek_end z p' c' (length cs \<le> i) (key \<in> kf ` set cs) \<and>
         (\<forall>c \<in> set (concat (map snd (take j (leaf_list t)))). lt (kf c) key) \<and>
         (\<forall>c \<in> set (concat (map snd (drop (Suc j) (leaf_list t)))). lt key (kf c))))"

lemma seeks_leaf:
  assumes use: "in_use z p U" and t: "tree_at z p U 0 lo hi (BLeaf q cs)" and wf: "wf_cursor c" "L < TDB_MAXDEPTH" and key: "keyok key"
  shows "seeks z U p (BLeaf q cs) L c key"
proof -
  have q: "q \<in> U" and pg: "leaf_page ps (view z p q) cs" and asc: "ascending (map kf cs)" using t by (simp_all add: tree_at_leaf)
  have kv: "valid key" by (rule key_valid [OF key])
  obtain p1 where g: "tdb_pager_get all_ok z p q = (TDB_OK, p1)" "looks z U p p1" "page_data p1 q = view z p q"
    "pins p1 = (pins p)(q := Suc (pins p q))" by (rule looks_get [OF use q]) (rule that, assumption+)
  define i where "i = rank (map kf cs) key"
  note fl = find_leaf [OF pg asc kv, folded i_def, folded rank_found [OF asc kv, folded i_def]]
  let ?c = "c\<lparr>c_page := (c_page c)[L := q], c_cidx := (c_cidx c)[L := i], c_depth := L, c_leaf := Some q, c_eof := False\<rparr>"
  have "seek_loop all_ok z bt p c q L key = seek_end z p1 ?c (length cs \<le> i) (key \<in> kf ` set cs)"
    using g(1,3) page_okD(4,5) [OF pg] fl(1) wf(2) by (subst seek_loop.simps) (simp add: Let_def seek_end_def)
  moreover have "lands z U p (BLeaf q cs) L 0 i c ?c p1"
    using g(2,4) wf by (auto simp: lands_def wf_cursor_def agree_def cur_idx_def intro: at_leaf.leaf)
  ultimately show ?thesis unfolding seeks_def by (intro exI [of _ ?c] exI [of _ p1] exI [of _ 0]) (simp add: i_def)
qed

lemma seeks_ok:
  assumes "in_use z p U" "tree_at z p U h lo hi t" "wf_cursor c" "L + h < TDB_MAXDEPTH" "keyok key" "above lo key" "upto hi key"
  shows "seeks z U p t L c key"
  using assms
proof (induction h arbitrary: p lo hi t c L)
  case 0
  then obtain q cs where t: "t = BLeaf q cs" by (cases t) (auto simp: tree_at_def)
  show ?case unfolding t by (rule seeks_leaf) (use 0 t in auto)
next
  case (Suc h)
  then obtain q ts ks where t: "t = BNode q ts ks" by (cases t) (auto simp: tree_at_def)
  obtain p1 ts1 tc ts2 ks1 ks2 where g: "tdb_pager_get all_ok z p q = (TDB_OK, p1)" "in_use z p1 U" "page_data p1 q = view z p q"
      "pins p1 = (pins p)(q := Suc (pins p q))" "db_pages p1 = db_pages p" "page_size p1 = page_size p" "view z p1 = view z p"
      "\<not> pg_is_leaf (view z p q)" "fst (pg_find all_ok bt (view z p q) key) = length ts1" "child_at (view z p q) (length ts1) = root_of tc"
    and loc: "ts = ts1 @ tc # ts2" "ks = ks1 @ ks2" "length ks1 = length ts1" "length ts2 = length ks2"
      "above (left_bound lo ks1) key" "upto (right_bound hi ks2) key"
      "\<forall>c \<in> set (concat (map entries ts1)). lt (kf c) key" "\<forall>c \<in> set (concat (map entries ts2)). lt key (kf c)"
    and tc: "tree_at z p1 U h (left_bound lo ks1) (right_bound hi ks2) tc"
    by (rule enter_node [OF Suc.prems(1) Suc.prems(2) [unfolded t] Suc.prems(5-7)]) (rule that, assumption+)
  let ?p = "tdb_pager_unref p1 q" and ?i = "length ts1"
  let ?c = "c\<lparr>c_page := (c_page c)[L := q], c_cidx := (c_cidx c)[L := ?i]\<rparr>"
  note u = unref_use [OF g(2), of q]
  have lk: "looks z U p ?p" "pins ?p = pins p" using u g(4-7) by (auto simp: looks_def unref_pins)
  have st: "seek_loop all_ok z bt p c q L key = seek_loop all_ok z bt ?p ?c (root_of tc) (Suc L) key"
    using g(1,3,8-10) Suc.prems(4) by (subst seek_loop.simps) (auto simp: Let_def split: prod.splits)
  have "seeks z U ?p tc (Suc L) ?c key"
    by (rule Suc.IH) (use u tc Suc.prems(3-5) loc(5,6) in \<open>auto simp: tree_at_def wf_cursor_def\<close>)
  then obtain c' p' j where j: "j < nleaves tc" and ld: "lands z U ?p tc (Suc L) j (rank (map kf (snd (leaf_list tc ! j))) key) ?c c' p'"
    and sk: "seek_loop all_ok z bt ?p ?c (root_of tc) (Suc L) key =
        seek_end z p' c' (length (snd (leaf_list tc ! j)) \<le> rank (map kf (snd (leaf_list tc ! j))) key) (key \<in> kf ` set (snd (leaf_list tc ! j)))"
    and bd: "\<forall>c \<in> set (concat (map snd (take j (leaf_list tc)))). lt (kf c) key" "\<forall>c \<in> set (concat (map snd (drop (Suc j) (leaf_list tc)))). lt key (kf c)"
    unfolding seeks_def Let_def by blast
  define b where "b = length (concat (map leaf_list ts1))"
  have ll: "leaf_list t = concat (map leaf_list ts1) @ leaf_list tc @ concat (map leaf_list ts2)" by (simp add: t loc(1))
  have n: "leaf_list t ! (b + j) = leaf_list tc ! j" "b + j < nleaves t" unfolding ll using j by (simp_all add: b_def nth_append)
  have es: "concat (map entries ts') = concat (map snd (concat (map leaf_list ts')))" for ts' by (induction ts') (auto simp: entries_leaves)
  have "lands z U ?p t L (b + j) (rank (map kf (snd (leaf_list tc ! j))) key) c c' p'"
    using lands_lift [of z U ?p ts ?i L j _ ?c c' p' q c ks] ld Suc.prems(3,4) by (simp add: t loc(1) b_def agree_def wf_cursor_def)
  then have ld': "lands z U p t L (b + j) (rank (map kf (snd (leaf_list t ! (b + j)))) key) c c' p'" unfolding n by (rule lands_from [OF _ lk])
  have before: "\<forall>c \<in> set (concat (map snd (take (b + j) (leaf_list t)))). lt (kf c) key"
    using loc(7) bd(1) j unfolding ll b_def es by auto
  have after: "\<forall>c \<in> set (concat (map snd (drop (Suc (b + j)) (leaf_list t)))). lt key (kf c)"
    using loc(8) bd(2) j unfolding ll b_def es by (auto simp: Suc_diff_le)
  show ?case unfolding seeks_def Let_def
    by (rule exI [of _ c'], rule exI [of _ p'], rule exI [of _ "b + j"]) (use n ld' before after st sk in \<open>simp add: t\<close>)
qed

lemma tdb_cursor_seek_ok:
  assumes t: "tree_at z p0 U h None None t" "h < TDB_MAXDEPTH" and root: "root_of t = bt_root bt" and c: "showing z U p0 t c p es" and key: "keyok key"
  shows "\<exists>c' p'. tdb_cursor_seek all_ok z bt p c key = Some (TDB_OK, if key \<in> kf ` set (entries t) then 0 else 1, c', p') \<and>
    showing z U p0 t c' p' (filter (\<lambda>e. \<not> lt (kf e) key) (entries t))"
proof -
  note d = showing_drop [OF c]
  have ti: "tree_in z p0 U h t" using t(1) by (auto simp: tree_in_def)
  let ?c = "c\<lparr>c_leaf := None\<rparr>" and ?p = "drop_leaf p c"
  have "seeks z U ?p t 0 ?c key"
    by (rule seeks_ok) (use d t key bounds_none in \<open>auto simp: looks_def wf_cursor_def tree_at_def\<close>)
  then obtain c1 p1 j where j: "j < nleaves t" and l0: "lands z U ?p t 0 j (rank (map kf (snd (leaf_list t ! j))) key) ?c c1 p1"
    and sk: "tdb_cursor_seek all_ok z bt p c key =
        seek_end z p1 c1 (length (snd (leaf_list t ! j)) \<le> rank (map kf (snd (leaf_list t ! j))) key) (key \<in> kf ` set (snd (leaf_list t ! j)))"
    and bd: "\<forall>c \<in> set (concat (map snd (take j (leaf_list t)))). lt (kf c) key" "\<forall>c \<in> set (concat (map snd (drop (Suc j) (leaf_list t)))). lt key (kf c)"
    unfolding seeks_def Let_def tdb_cursor_seek_def root by blast
  define cs i rest where "cs = snd (leaf_list t ! j)" and "i = rank (map kf cs) key" and "rest = concat (map snd (drop (Suc j) (leaf_list t)))"
  note ol = on_leafI [OF lands_from [OF l0 d(1,2)], folded cs_def, folded i_def]
  have ent: "entries t = concat (map snd (take j (leaf_list t))) @ cs @ rest"
    unfolding entries_leaves cs_def rest_def by (subst id_take_nth_drop [OF j]) simp
  have v: "valid (kf e)" if "e \<in> set (entries t)" for e using entries_ok(1) [OF _ that] t(1) cell_key_ok key_valid by (auto simp: tree_at_def)
  have kv: "valid key" by (rule key_valid [OF key])
  have asc: "ascending (map kf cs)" using entries_asc(1) [of None None t] t(1) by (auto simp: tree_at_def ent ascending_simps)
  note rs = rank_split [OF asc kv, folded i_def]
  have f1: "filter (\<lambda>e. \<not> lt (kf e) key) (concat (map snd (take j (leaf_list t)))) = []" using bd(1) by (auto simp: filter_empty_conv)
  have f2: "filter (\<lambda>e. \<not> lt (kf e) key) rest = rest" using bd(2) v lt_asym [OF kv] by (auto simp: filter_id_conv rest_def ent)
  have fl: "filter (\<lambda>e. \<not> lt (kf e) key) (entries t) = drop i cs @ rest" unfolding ent filter_append f1 f2 rs(3) by simp
  have mem: "key \<in> kf ` set (entries t) \<longleftrightarrow> key \<in> kf ` set cs"
    using bd lt_irrefl [OF kv] unfolding ent rest_def by auto
  show ?thesis
  proof (cases "length cs \<le> i")
    case False
    have "showing z U p0 t c1 p1 (drop i cs @ rest)" by (rule showingI [OF ol]) (use False in \<open>auto simp: cs_def rest_def\<close>)
    then show ?thesis using sk False mem unfolding fl by (simp add: seek_end_def cs_def [symmetric] i_def [symmetric])
  next
    case True
    then have nk: "key \<notin> kf ` set cs" using rank_found [OF asc kv, folded i_def] by simp
    obtain c2 p2 where n: "next_leaf all_ok z p1 c1 = Some (TDB_OK, c2, p2)"
      "if Suc j < nleaves t then on_leaf z U p0 t (Suc j) 0 c2 p2 else at_end z U p0 c2 p2" using next_leaf_ok [OF ti t(2) ol] by blast
    have "\<exists>c' p'. skip_empty (next_leaf all_ok z) p2 c2 = Some (TDB_OK, c', p') \<and> showing z U p0 t c' p' rest"
    proof (cases "Suc j < nleaves t")
      case T: True
      then show ?thesis using skip_ok [OF ti t(2), of "Suc j" c2 p2] n(2) by (simp add: rest_def)
    next
      case F: False
      then have "at_end z U p0 c2 p2" "rest = []" using n(2) by (simp_all add: rest_def)
      moreover from this have "skip_empty (next_leaf all_ok z) p2 c2 = Some (TDB_OK, c2, p2)" by (subst skip_empty.simps) (simp add: at_end_def)
      ultimately show ?thesis by (simp add: showing_def)
    qed
    then show ?thesis using sk True mem nk n(1) unfolding fl by (auto simp: seek_end_def cs_def [symmetric] i_def [symmetric])
  qed
qed

end

end
