(* ===== verification/Tdb_Bt_Insert.thy ===== *)
theory Tdb_Bt_Insert
  imports Tdb_Bt_Stored
begin

text \<open>
  Insertion into a stored tree. \<open>bt_map\<close> adds to \<open>bt_store\<close> sizes of cells and separators for which
  every half of an overfull page fits. Under it \<^verbatim>\<open>insert_rec\<close> always succeeds, replaces or adds
  exactly one cell, and touches no page of any other structure; a split of the root grows the
  tree by one level.
\<close>

section \<open>Leaves\<close>

lemma fits_insert: "fits ps leaf (take i cs @ c # drop i cs) \<longleftrightarrow> fits ps leaf (c # cs)"
proof -
  have "cells_len cs = cells_len (take i cs) + cells_len (drop i cs)" by (metis append_take_drop_id cells_len_simps(3))
  moreover have "length (take i cs @ c # drop i cs) = Suc (length cs)" by simp
  ultimately show ?thesis unfolding fits_def by (simp add: add.left_commute)
qed

text \<open>
  The rightmost leaf, where the greatest key of a tree is found. Insertion leaves it with a cell
  if it had one, or if the tree is a single leaf.
\<close>

function last_leaf :: "bt_tree \<Rightarrow> bytes list" where
  "last_leaf (BLeaf q cs) = cs"
| "last_leaf (BNode q ts ks) = (if ts = [] then [] else last_leaf (last ts))"
  by pat_completeness auto

termination last_leaf
proof (relation "measure size", goal_cases)
  case (2 q ts ks)
  then have "size (last ts) \<le> size_list size ts" by (intro size_list_estimation' [of "last ts"]) auto
  then show ?case by simp
qed simp

definition right_edge :: "bt_tree \<Rightarrow> bool" where
  "right_edge t \<longleftrightarrow> (\<exists>q cs. t = BLeaf q cs) \<or> last_leaf t \<noteq> []"

lemma last_leaf_mid [simp]: "last_leaf (BNode q (ts1 @ t # ts2) ks) = (if ts2 = [] then last_leaf t else last_leaf (last ts2))"
  by simp

lemma right_edge_leaf [simp]: "right_edge (BLeaf q cs)"
  by (simp add: right_edge_def)

context bt_store
begin

text \<open>Insertion at a leaf: the old cell of the key goes, then the new one is placed or the page split.\<close>

lemma leaf_step:
  assumes use: "in_use z p U" and t: "tree_at z p U 0 lo hi (BLeaf q cs)" and key: "keyok key"
  obtains p1 d1 i where "in_use z p1 U" "0 < pins p1 q" "pins p1 = (pins p)(q := Suc (pins p q))" "db_pages p1 = db_pages p"
    "page_size p1 = page_size p" "view z p1 = view z p" "leaf_page ps d1 (del key cs)" "i \<le> length (del key cs)"
    "\<And>cell. take i (del key cs) @ cell # drop i (del key cs) = ins key cell cs"
    "\<And>cell. insert_rec all_ok z bt p q key cell =
      (case insert_cell all_ok ps d1 i cell of
         (rc, d2) \<Rightarrow>
           if rc = TDB_FULL then
             (case split_leaf all_ok z bt p1 q d2 i cell of (rc, si, d3, p2) \<Rightarrow> Some (rc, si, finish_page p2 q d3 rc))
           else Some (rc, no_split, finish_page p1 q d2 rc))"
proof -
  have q: "q \<in> U" and pg: "leaf_page ps (view z p q) cs" and tok: "tree_ok lo hi (BLeaf q cs)" using t by (simp_all add: tree_at_leaf)
  have asc: "ascending (map kf cs)" using tok by simp
  note kv = key_valid [OF key]
  obtain p1 where g: "tdb_pager_get all_ok z p q = (TDB_OK, p1)" "in_use z p1 U" "page_data p1 q = view z p q"
    "pins p1 = (pins p)(q := Suc (pins p q))" "db_pages p1 = db_pages p" "page_size p1 = page_size p" "view z p1 = view z p"
    by (rule get_use [OF use q]) (rule that, assumption+)
  define i ex where "i = rank (map kf cs) key" and "ex = (i < length cs \<and> bt_cmp all_ok bt (kf (cs ! i)) key = 0)"
  define d1 where "d1 = (if ex then delete_cell (view z p q) i else view z p q)"
  note fl = find_leaf [OF pg asc kv, folded i_def, folded ex_def]
  note rp = replaced [OF pg asc kv, folded i_def, folded ex_def, folded d1_def]
  have noov: "lc_ovfl (read_leafcell ps (view z p q) i) = 0" if ex
    using that leaf_page_read(1) [OF pg, of i] tok cell_form by (auto simp: ex_def)
  have "insert_rec all_ok z bt p q key cell =
      (case insert_cell all_ok ps d1 i cell of
         (rc, d2) \<Rightarrow>
           if rc = TDB_FULL then
             (case split_leaf all_ok z bt p1 q d2 i cell of (rc, si, d3, p2) \<Rightarrow> Some (rc, si, finish_page p2 q d3 rc))
           else Some (rc, no_split, finish_page p1 q d2 rc))" for cell
    using g(1,3) page_okD(4) [OF pg] fl(1) noov by (subst insert_rec.simps) (simp add: insert_leaf_def Let_def d1_def)
  then show thesis by (intro that [OF g(2) _ g(4-7) rp(1,3,4)]) (use g(4) in auto)
qed

lemma insert_leaf_fits:
  assumes use: "in_use z p U" and psz: "page_size p = ps" and t: "tree_at z p U 0 lo hi (BLeaf q cs)"
    and cell: "cellok cell" "above lo (kf cell)" "upto hi (kf cell)" and fit: "fits ps True (cell # del (kf cell) cs)"
  shows "\<exists>p'. insert_rec all_ok z bt p q (kf cell) cell = Some (TDB_OK, no_split, p') \<and> grows z p U {q} 0 p' U \<and>
    tree_at z p' U 0 lo hi (BLeaf q (ins (kf cell) cell cs))"
proof -
  have q: "q \<in> U" and tok: "tree_ok lo hi (BLeaf q cs)" using t by (simp_all add: tree_at_leaf)
  obtain p1 d1 i where g: "in_use z p1 U" "0 < pins p1 q" "pins p1 = (pins p)(q := Suc (pins p q))" "db_pages p1 = db_pages p"
      "page_size p1 = page_size p" "view z p1 = view z p" "leaf_page ps d1 (del (kf cell) cs)" "i \<le> length (del (kf cell) cs)"
      "\<And>c. take i (del (kf cell) cs) @ c # drop i (del (kf cell) cs) = ins (kf cell) c cs"
    and step: "\<And>c. insert_rec all_ok z bt p q (kf cell) c =
      (case insert_cell all_ok ps d1 i c of
         (rc, d2) \<Rightarrow>
           if rc = TDB_FULL then
             (case split_leaf all_ok z bt p1 q d2 i c of (rc, si, d3, p2) \<Rightarrow> Some (rc, si, finish_page p2 q d3 rc))
           else Some (rc, no_split, finish_page p1 q d2 rc))"
    by (rule leaf_step [OF use t cell_key_ok [OF cell(1)]]) (rule that, assumption+)
  obtain d2 where d2: "insert_cell all_ok ps d1 i cell = (TDB_OK, d2)" "leaf_page ps d2 (ins (kf cell) cell cs)"
    by (rule lf.insert_cell_ok [OF g(7) _ g(8) _ fit]) (use cell(1) cell_form g(9) in auto)
  have len: "length d2 = page_size p1" using page_okD(1) [OF d2(2)] g(5) psz by simp
  note f = finish_use [OF g(1) q g(2) len]
  show ?thesis
    by (rule exI [of _ "finish_page p1 q d2 TDB_OK"])
      (use f g(3-6) d2 step [of cell] leaf_ins_ok [OF tok cell] q in \<open>simp add: grows_def tree_at_leaf\<close>)
qed

end

locale bt_map = bt_store bt valid cellok keyok for bt valid cellok keyok +
  fixes ml Ml mi Mi :: nat
  assumes cell_sizes: "cellok c \<Longrightarrow> ml \<le> length c \<and> length c \<le> Ml"
    and key_sizes: "keyok k \<Longrightarrow> mi \<le> length (int_cell q k) \<and> length (int_cell q k) \<le> Mi"
    and leaf_room: "cellok c \<Longrightarrow> 2 * (Ml + 2) \<le> 3 * (ml + 2) \<and> 8 + 4 * (Ml + 2) \<le> bt_ps bt"
    and int_room: "keyok k \<Longrightarrow> 2 * (Mi + 2) \<le> 3 * (mi + 2) \<and> 12 + 4 * (Mi + 2) \<le> bt_ps bt"
begin

lemma cell_class: "cellok c \<Longrightarrow> leaf_ok ps c \<and> lc_ovfl (leafcell_at ps c) = 0 \<and> ml \<le> length c \<and> length c \<le> Ml"
  using cell_form cell_sizes by blast

lemma key_class: "keyok k \<Longrightarrow> length k < 2 ^ 32 \<and> mi \<le> length (int_cell q k) \<and> length (int_cell q k) \<le> Mi"
  using key_form key_sizes by blast

lemma split_leaf_ok:
  assumes use: "in_use z p U" and q: "q \<in> U" "0 < pins p q" and room: "db_pages p + 1 < 2 ^ 32" and psz: "page_size p = ps"
    and pg: "leaf_page ps d cs" and cells: "\<And>c. c \<in> set (cell # cs) \<Longrightarrow> cellok c" and full: "\<not> fits ps True (cell # cs)"
    and i: "i \<le> length cs"
  defines "cs2 \<equiv> take i cs @ cell # drop i cs"
  defines "l \<equiv> length cs2 div 2"
  obtains r d' p' where "split_leaf all_ok z bt p q d i cell = (TDB_OK, \<lparr>si_split = True, si_sep = kf (cs2 ! (l - 1)), si_right = r\<rparr>, d', p')"
    "0 < l" "l < length cs2" "r \<notin> U" "r \<noteq> 0" "grows z p U {} 1 p' (insert r U)" "pins p' r = 0"
    "leaf_page ps d' (take l cs2)" "leaf_page ps (view z p' r) (drop l cs2)"
proof -
  note pd = page_okD [OF pg]
  have lr: "2 * (Ml + 2) \<le> 3 * (ml + 2)" "8 + 4 * (Ml + 2) \<le> ps" using leaf_room [of cell] cells [of cell] by auto
  have st: "set cs2 = set (cell # cs)" unfolding cs2_def using set_append [of "take i cs" "drop i cs"] by auto
  have n2: "length cs2 = length cs + 1" using i by (simp add: cs2_def)
  have big: "4 < length cs2"
  proof (rule ccontr)
    assume "\<not> 4 < length cs2"
    then have "fits ps True cs2" using few_fit [of cs2 Ml True ps] cells st cell_class lr by (auto simp: hdr_len_def)
    then show False using full by (simp add: cs2_def fits_insert)
  qed
  then have l: "0 < l" "l < length cs2" by (simp_all add: l_def)
  have half: "fits ps True cs'" if h: "set cs' \<subseteq> set cs2" "2 * length cs' \<le> length cs + 2" for cs'
    by (rule half_fits [OF page_ok_fits [OF pg], of ml _ Ml]) (use h st cells cell_class lr in \<open>auto simp: hdr_len_def subset_iff\<close>)
  have tl: "fits ps True (take l cs2)" "fits ps True (drop l cs2)"
    using half [of "take l cs2"] half [of "drop l cs2"] n2 by (auto simp: l_def set_take_subset set_drop_subset)
  have ok: "\<forall>c \<in> set cs2. leaf_ok ps c" using st cells cell_class by auto
  have lt: "is_leaf_type (pg_type d) = True" using pd(4) by (simp add: pg_is_leaf_def)
  note ip = init_page_ok(1) [OF pd(2,3) lt]
  define d' rd where "d' = fill_page all_ok ps (init_page ps (pg_type d)) (take l cs2)"
    and "rd = fill_page all_ok ps (init_page ps (pg_type d)) (drop l cs2)"
  have d': "leaf_page ps d' (take l cs2)" unfolding d'_def
    by (rule lf.fill_page_ok(1) [OF ip]) (use ok tl in \<open>auto dest: in_set_takeD\<close>)
  have rd: "leaf_page ps rd (drop l cs2)" unfolding rd_def
    by (rule lf.fill_page_ok(1) [OF ip]) (use ok tl in \<open>auto dest: in_set_dropD\<close>)
  obtain rc r p1 where al: "tdb_pager_alloc all_ok z p = (rc, r, p1)" by (metis prod_cases3)
  note ap = add_page_use [OF use q room _ al, of rd, unfolded psz, OF page_okD(1) [OF rd]]
  have nle: "\<not> Suc (length cs) \<le> Suc (length cs) div 2" by simp
  have pc: "page_cells ps d = cs" by (rule lf.page_cells_ok [OF pg])
  have "split_leaf all_ok z bt p q d i cell = (TDB_OK, \<lparr>si_split = True, si_sep = kf (cs2 ! (l - 1)), si_right = r\<rparr>, d', add_page p1 q r rd)"
    using al ap(1) l n2 pd(5) nle unfolding split_leaf_def Let_def pc cs2_def [symmetric]
    by (simp add: add_page_def d'_def rd_def leaf_key_def l_def)
  then show thesis by (rule that) (use l ap d' rd in auto)
qed

text \<open>
  What insertion into a subtree leaves behind: one tree in its place, or two with a separator.
  Their pages are pages of the subtree or new.
\<close>

definition inserted ::
  "zbuild \<Rightarrow> tdb_pager \<Rightarrow> u32 set \<Rightarrow> nat \<Rightarrow> bytes option \<Rightarrow> bytes option \<Rightarrow> u32 set \<Rightarrow> u32 \<Rightarrow> bytes list \<Rightarrow> bool \<Rightarrow> splitinfo \<Rightarrow> bool" where
  "inserted z p U h lo hi A q es e si \<longleftrightarrow>
     (if si_split si then
        (\<exists>t1 t2. tree_at z p U h lo (Some (si_sep si)) t1 \<and> tree_at z p U h (Some (si_sep si)) hi t2 \<and>
           keyok (si_sep si) \<and> above lo (si_sep si) \<and> below hi (si_sep si) \<and> set (pages t1) \<inter> set (pages t2) = {} \<and>
           set (pages t1) \<union> set (pages t2) \<subseteq> A \<and> root_of t1 = q \<and> root_of t2 = si_right si \<and> entries t1 @ entries t2 = es \<and>
           (e \<longrightarrow> last_leaf t2 \<noteq> []))
      else (\<exists>t. tree_at z p U h lo hi t \<and> set (pages t) \<subseteq> A \<and> root_of t = q \<and> entries t = es \<and> (e \<longrightarrow> last_leaf t \<noteq> [])))"

definition inserts :: "zbuild \<Rightarrow> tdb_pager \<Rightarrow> u32 set \<Rightarrow> nat \<Rightarrow> bytes option \<Rightarrow> bytes option \<Rightarrow> bt_tree \<Rightarrow> bytes \<Rightarrow> bool" where
  "inserts z p U h lo hi t cell \<longleftrightarrow>
     (\<exists>si p' U'. insert_rec all_ok z bt p (root_of t) (kf cell) cell = Some (TDB_OK, si, p') \<and>
        grows z p U (set (pages t)) (Suc h) p' U' \<and>
        inserted z p' U' h lo hi (set (pages t) \<union> (U' - U)) (root_of t) (ins (kf cell) cell (entries t)) (right_edge t) si)"

lemma inserted_one:
  "tree_at z p U h lo hi t \<Longrightarrow> set (pages t) \<subseteq> A \<Longrightarrow> e \<longrightarrow> last_leaf t \<noteq> [] \<Longrightarrow>
    inserted z p U h lo hi A (root_of t) (entries t) e no_split"
  by (auto simp: inserted_def no_split_def)

lemma inserted_two:
  assumes "tree_at z p U h lo (Some sep) t1" "tree_at z p U h (Some sep) hi t2" "keyok sep" "above lo sep" "below hi sep"
    "set (pages t1) \<inter> set (pages t2) = {}" "set (pages t1) \<union> set (pages t2) \<subseteq> A" "e \<longrightarrow> last_leaf t2 \<noteq> []"
  shows "inserted z p U h lo hi A (root_of t1) (entries t1 @ entries t2) e \<lparr>si_split = True, si_sep = sep, si_right = root_of t2\<rparr>"
  unfolding inserted_def using assms by simp blast

lemma insertsI:
  assumes "insert_rec all_ok z bt p (root_of t) (kf cell) cell = Some (TDB_OK, si, p')" "grows z p U (set (pages t)) (Suc h) p' U'"
    "inserted z p' U' h lo hi (set (pages t) \<union> (U' - U)) (root_of t) (ins (kf cell) cell (entries t)) (right_edge t) si"
  shows "inserts z p U h lo hi t cell"
  unfolding inserts_def using assms by blast

lemma insert_rec_leaf:
  assumes use: "in_use z p U" and room: "db_pages p + 1 < 2 ^ 32" and psz: "page_size p = ps"
    and t: "tree_at z p U 0 lo hi (BLeaf q cs)" and cell: "cellok cell" "above lo (kf cell)" "upto hi (kf cell)"
  shows "inserts z p U 0 lo hi (BLeaf q cs) cell"
proof (cases "fits ps True (cell # del (kf cell) cs)")
  case True
  obtain p' where r: "insert_rec all_ok z bt p q (kf cell) cell = Some (TDB_OK, no_split, p')" "grows z p U {q} 0 p' U"
    "tree_at z p' U 0 lo hi (BLeaf q (ins (kf cell) cell cs))" using insert_leaf_fits [OF use psz t cell True] by blast
  show ?thesis
    by (rule insertsI [of z p _ cell no_split p' U 0 U])
      (use r grows_mono [OF r(2), of "{q}" 1] inserted_one [OF r(3), of "{q}" True] in \<open>simp_all add: ins_def\<close>)
next
  case False
  define key where "key = kf cell"
  have q: "q \<in> U" and tok: "tree_ok lo hi (BLeaf q cs)" using t by (simp_all add: tree_at_leaf)
  obtain p1 d1 i where g: "in_use z p1 U" "0 < pins p1 q" "pins p1 = (pins p)(q := Suc (pins p q))" "db_pages p1 = db_pages p"
      "page_size p1 = page_size p" "view z p1 = view z p" "leaf_page ps d1 (del key cs)" "i \<le> length (del key cs)"
      "\<And>c. take i (del key cs) @ c # drop i (del key cs) = ins key c cs"
    and step: "\<And>c. insert_rec all_ok z bt p q key c =
      (case insert_cell all_ok ps d1 i c of
         (rc, d2) \<Rightarrow>
           if rc = TDB_FULL then
             (case split_leaf all_ok z bt p1 q d2 i c of (rc, si, d3, p2) \<Rightarrow> Some (rc, si, finish_page p2 q d3 rc))
           else Some (rc, no_split, finish_page p1 q d2 rc))"
    by (rule leaf_step [OF use t cell_key_ok [OF cell(1)], folded key_def]) (rule that, assumption+)
  obtain d2 where d2: "insert_cell all_ok ps d1 i cell = (TDB_FULL, d2)" "leaf_page ps d2 (del key cs)"
    by (rule lf.insert_cell_full [OF g(7) _ False [folded key_def], of all_ok i]) (use that in auto)
  have cells: "cellok c" if "c \<in> set (cell # del key cs)" for c using that tok cell(1) by (auto simp: del_def)
  have lok: "tree_ok lo hi (BLeaf q (ins key cell cs))" using leaf_ins_ok [OF tok cell] by (simp add: key_def)
  define cs2 l where "cs2 = ins key cell cs" and "l = length cs2 div 2"
  define sep where "sep = kf (cs2 ! (l - 1))"
  obtain r d3 p2 where sp: "split_leaf all_ok z bt p1 q d2 i cell = (TDB_OK, \<lparr>si_split = True, si_sep = sep, si_right = r\<rparr>, d3, p2)"
    "0 < l" "l < length cs2" "r \<notin> U" "grows z p1 U {} 1 p2 (insert r U)"
    "leaf_page ps d3 (take l cs2)" "leaf_page ps (view z p2 r) (drop l cs2)"
    by (rule split_leaf_ok [OF g(1) q g(2) _ _ d2(2) cells False [folded key_def] g(8), unfolded g(9), folded cs2_def, folded l_def, folded sep_def])
      (use that room g(4,5) psz in auto)
  have u2: "in_use z p2 (insert r U)" "page_size p2 = ps" "pins p2 q = pins p1 q" using sp(5) g(5) psz q by (simp_all add: grows_def)
  have len: "length d3 = page_size p2" using page_okD(1) [OF sp(6)] u2(2) by simp
  have pin2: "0 < pins p2 q" using u2(3) g(2) by simp
  note f = finish_use [OF u2(1) insertI2 [OF q] pin2 len]
  have qr: "q \<noteq> r" using q sp(4) by auto
  note ls = leaf_split_ok [OF lok [folded cs2_def] sp(2,3), folded sep_def]
  define p3 where "p3 = finish_page p2 q d3 TDB_OK"
  have gr: "grows z p U {q} 1 p3 (insert r U)" using f sp(5) g(3-6) by (auto simp: grows_def p3_def)
  have t1: "tree_at z p3 (insert r U) 0 lo (Some sep) (BLeaf q (take l cs2))" using f(2) sp(6) ls(1) q unfolding tree_at_leaf p3_def by simp
  have t2: "tree_at z p3 (insert r U) 0 (Some sep) hi (BLeaf r (drop l cs2))"
    using f(2) sp(7) ls(2) qr unfolding tree_at_leaf p3_def by simp
  have "inserted z p3 (insert r U) 0 lo hi ({q} \<union> (insert r U - U)) q cs2 True \<lparr>si_split = True, si_sep = sep, si_right = r\<rparr>"
    using inserted_two [OF t1 t2 ls(3-5), of "{q} \<union> (insert r U - U)" True] qr sp(3,4) by simp
  then show ?thesis
    using insertsI [of z p "BLeaf q cs" cell "\<lparr>si_split = True, si_sep = sep, si_right = r\<rparr>" p3 U 0 "insert r U" lo hi] gr step [of cell] d2(1) sp(1)
    by (simp add: key_def [symmetric] cs2_def p3_def)
qed

section \<open>Inner nodes\<close>

lemma node_room_fit:
  assumes d: "node_page d (ts1 @ tc # ts2) (ks1 @ ks2)" and l: "length ts1 = i" "length ks1 = i" "length ts2 = length ks2"
    and ok: "\<forall>k \<in> set (sep # ks1 @ ks2). keyok k" and r1: "root_of t1 = root_of tc"
    and d1: "int_page ps d1 (take i (node_cells (ts1 @ tc # ts2) (ks1 @ ks2)) @ int_cell (root_of tc) sep # drop i (node_cells (ts1 @ tc # ts2) (ks1 @ ks2)))"
      "pg_right d1 = pg_right d"
  shows "node_page (if i < pg_ncell d then set_intcell_child d1 (i + 1) (root_of t2) else pg_set_right d1 (root_of t2))
    (ts1 @ t1 # t2 # ts2) (ks1 @ sep # ks2)"
proof -
  have n: "pg_ncell d = length (ks1 @ ks2)" by (rule node_page_ncell [OF d])
  have r: "pg_right d = root_of (last (tc # ts2))" using d by (simp add: node_page_def)
  have c1: "int_page ps d1 (node_cells ts1 ks1 @ int_cell (root_of t1) sep # node_cells (tc # ts2) ks2)"
    using d1(1) l r1 by (simp add: node_cells_split)
  have nl: "length (node_cells ts1 ks1) = i" using l by (simp add: node_cells_def)
  have tgt: "node_cells (ts1 @ t1 # t2 # ts2) (ks1 @ sep # ks2) = node_cells ts1 ks1 @ int_cell (root_of t1) sep # node_cells (t2 # ts2) ks2"
    using l by (simp add: node_cells_simps)
  show ?thesis
  proof (cases ks2)
    case Nil
    then have "node_cells (tc # ts2) ks2 = []" "node_cells (t2 # ts2) ks2 = []" by (simp_all add: node_cells_simps)
    then show ?thesis using Nil l n set_right_ok [OF c1, of "root_of t2"] tgt by (simp add: node_page_def)
  next
    case (Cons k ks)
    have kl: "length k < 2 ^ 32" using ok key_class [of k] by (simp add: Cons)
    then obtain t3 ts3 where ts2: "ts2 = t3 # ts3" using l(3) Cons by (cases ts2) auto
    let ?cs = "node_cells ts1 ks1 @ int_cell (root_of t1) sep # int_cell (root_of tc) k # node_cells ts2 ks"
    have c2: "int_page ps d1 ?cs" using c1 by (simp add: Cons node_cells_simps)
    have at: "i + 1 < length ?cs" "?cs ! (i + 1) = int_cell (root_of tc) k" using nl by (simp_all add: nth_append)
    have upd: "?cs[i + 1 := int_cell (root_of t2) k] = node_cells (ts1 @ t1 # t2 # ts2) (ks1 @ sep # ks2)"
      using nl tgt by (simp add: Cons node_cells_simps list_update_append)
    have "i < pg_ncell d" using n l by (simp add: Cons)
    then show ?thesis using set_child_ok [OF c2 at kl, of "root_of t2"] upd d1(2) r l by (simp add: node_page_def ts2)
  qed
qed

text \<open>Splitting a node in the middle of its keys.\<close>

lemma node_halves:
  assumes "length ts = Suc (length ks)" "m < length ks"
  shows "map (\<lambda>j. int_cell (map root_of ts ! j) (ks ! j)) [0..<m] = node_cells (take (Suc m) ts) (take m ks)"
    "map (\<lambda>j. int_cell (map root_of ts ! j) (ks ! j)) [m + 1..<length ks] = node_cells (drop (Suc m) ts) (drop (Suc m) ks)"
    "map root_of ts ! m = root_of (last (take (Suc m) ts))" "map root_of ts ! length ks = root_of (last (drop (Suc m) ts))"
proof -
  show "map (\<lambda>j. int_cell (map root_of ts ! j) (ks ! j)) [0..<m] = node_cells (take (Suc m) ts) (take m ks)"
    "map (\<lambda>j. int_cell (map root_of ts ! j) (ks ! j)) [m + 1..<length ks] = node_cells (drop (Suc m) ts) (drop (Suc m) ks)"
    by (rule nth_equalityI; use assms in \<open>simp add: node_cells_def\<close>)+
  show "map root_of ts ! m = root_of (last (take (Suc m) ts))" using assms by (simp add: take_Suc_conv_app_nth)
  have "ts \<noteq> []" using assms by auto
  then have "last ts = ts ! length ks" using assms(1) by (simp add: last_conv_nth)
  moreover have "last (drop (Suc m) ts) = last ts" using assms by (intro last_drop) simp
  ultimately have "last (drop (Suc m) ts) = ts ! length ks" by simp
  then show "map root_of ts ! length ks = root_of (last (drop (Suc m) ts))" using assms by simp
qed

lemma split_lists:
  assumes d: "node_page d (ts1 @ tc # ts2) (ks1 @ ks2)" and l: "length ts1 = i" "length ks1 = i" "length ts2 = length ks2"
    and ok: "\<forall>k \<in> set (ks1 @ ks2). keyok k" and r1: "root_of t1 = root_of tc"
  shows "split_keys d i sep = ks1 @ sep # ks2" "split_children d i (root_of tc) (root_of t2) = map root_of (ts1 @ t1 # t2 # ts2)"
proof -
  note nd = d [unfolded node_page_def]
  have n: "pg_ncell d = i + length ks2" using node_page_ncell [OF d] l by simp
  have kl: "\<forall>k \<in> set (ks1 @ ks2). length k < 2 ^ 32" using ok key_class by blast
  have key: "intcell_key d j = (ks1 @ ks2) ! j" if "j < i + length ks2" for j
    by (rule node_key_at(1) [of ps d "ts1 @ tc # ts2" "ks1 @ ks2"]) (use nd kl that l in auto)
  have ch: "child_at d j = root_of ((ts1 @ tc # ts2) ! j)" if "j \<le> i + length ks2" for j
    by (rule node_child_at [of ps d "ts1 @ tc # ts2" "ks1 @ ks2"]) (use nd kl that l in auto)
  show "split_keys d i sep = ks1 @ sep # ks2"
    by (rule nth_equalityI) (use n key l in \<open>auto simp: split_keys_def nth_append nth_Cons' simp del: upt_Suc\<close>)
  show "split_children d i (root_of tc) (root_of t2) = map root_of (ts1 @ t1 # t2 # ts2)"
    by (rule nth_equalityI) (use n ch l r1 in \<open>auto simp: split_children_def nth_append nth_Cons' simp del: upt_Suc\<close>)
qed

lemma node_cell_ok: "\<forall>k \<in> set ks. keyok k \<Longrightarrow> c \<in> set (node_cells ts ks) \<Longrightarrow> int_ok c \<and> mi \<le> length c \<and> length c \<le> Mi"
  using key_class by (fastforce simp: node_cells_def int_ok_def dest: set_zip_rightD)

lemma split_interior_ok:
  fixes t2 :: bt_tree
  assumes use: "in_use z p U" and q: "q \<in> U" "0 < pins p q" and room: "db_pages p + 1 < 2 ^ 32" and psz: "page_size p = ps"
    and d: "node_page d (ts1 @ tc # ts2) (ks1 @ ks2)" and l: "length ts1 = i" "length ks1 = i" "length ts2 = length ks2"
    and ok: "\<forall>k \<in> set (sep # ks1 @ ks2). keyok k" and r1: "root_of t1 = root_of tc"
    and full: "\<not> fits ps False (int_cell (root_of tc) sep # node_cells (ts1 @ tc # ts2) (ks1 @ ks2))"
  defines "ts \<equiv> ts1 @ t1 # t2 # ts2" and "ks \<equiv> ks1 @ sep # ks2"
  defines "m \<equiv> length ks div 2"
  obtains r d' p' where "split_interior all_ok z bt p q d i (int_cell (root_of tc) sep) (root_of t2) =
      (TDB_OK, \<lparr>si_split = True, si_sep = ks ! m, si_right = r\<rparr>, d', p')"
    "0 < m" "Suc m < length ks" "r \<notin> U" "grows z p U {} 1 p' (insert r U)"
    "node_page d' (take (Suc m) ts) (take m ks)" "node_page (view z p' r) (drop (Suc m) ts) (drop (Suc m) ks)"
proof -
  let ?old = "node_cells (ts1 @ tc # ts2) (ks1 @ ks2)" and ?ic = "int_cell (root_of tc) sep"
  have ip: "int_page ps d ?old" using d by (simp add: node_page_def)
  note pd = page_okD [OF ip]
  have ir: "2 * (Mi + 2) \<le> 3 * (mi + 2)" "12 + 4 * (Mi + 2) \<le> ps" using int_room [of sep] ok by auto
  have len: "length ts = Suc (length ks)" using l by (simp add: ts_def ks_def)
  have ncell: "length ks = pg_ncell d + 1" using node_page_ncell [OF d] l by (simp add: ks_def)
  have no: "length ?old = pg_ncell d" using pd(5) by simp
  have kok: "\<forall>k \<in> set ks. keyok k" using ok by (auto simp: ks_def)
  have ook: "int_ok c \<and> mi \<le> length c \<and> length c \<le> Mi" if "c \<in> set (?ic # ?old)" for c
    using that node_cell_ok [of "ks1 @ ks2" c "ts1 @ tc # ts2"] node_cell_ok [of "[sep]" c "[tc]"] ok by (auto simp: node_cells_simps)
  have big: "4 < length ks"
  proof (rule ccontr)
    assume "\<not> 4 < length ks"
    then have "fits ps False (?ic # ?old)" using few_fit [of "?ic # ?old" Mi False ps] ook no ncell ir by (auto simp: hdr_len_def)
    then show False using full by simp
  qed
  then have m: "0 < m" "m < length ks" "Suc m < length ks" by (simp_all add: m_def)
  note nh = node_halves [OF len m(2)]
  have half: "fits ps False (node_cells ts' ks')" if h: "set ks' \<subseteq> set ks" "2 * length (node_cells ts' ks') \<le> length ?old + 2" for ts' ks'
    by (rule half_fits [OF page_ok_fits [OF ip], of mi _ Mi])
      (use ook h node_cell_ok [of ks' _ ts'] kok ir in \<open>auto simp: hdr_len_def subset_iff\<close>)
  have tl: "fits ps False (node_cells (take (Suc m) ts) (take m ks))" "fits ps False (node_cells (drop (Suc m) ts) (drop (Suc m) ks))"
    using half [of "take m ks"] half [of "drop (Suc m) ks"] len no ncell
    by (auto simp: length_node_cells set_take_subset set_drop_subset m_def)
  have lt: "is_leaf_type (pg_type d) = False" using pd(4) by (simp add: pg_is_leaf_def)
  note ip0 = init_page_ok(1) [OF pd(2,3) lt]
  define L R where "L = fill_page all_ok ps (init_page ps (pg_type d)) (node_cells (take (Suc m) ts) (take m ks))"
    and "R = fill_page all_ok ps (init_page ps (pg_type d)) (node_cells (drop (Suc m) ts) (drop (Suc m) ks))"
  have L: "int_page ps L (node_cells (take (Suc m) ts) (take m ks))" unfolding L_def
    by (rule nd.fill_page_ok(1) [OF ip0 _ tl(1)]) (use node_cell_ok [of "take m ks"] kok in \<open>auto dest: in_set_takeD\<close>)
  have R: "int_page ps R (node_cells (drop (Suc m) ts) (drop (Suc m) ks))" unfolding R_def
    by (rule nd.fill_page_ok(1) [OF ip0 _ tl(2)]) (use node_cell_ok [of "drop (Suc m) ks"] kok in \<open>auto dest: in_set_dropD\<close>)
  define d' rd where "d' = pg_set_right L (map root_of ts ! m)" and "rd = pg_set_right R (map root_of ts ! length ks)"
  have d': "node_page d' (take (Suc m) ts) (take m ks)"
    using set_right_ok [OF L, of "map root_of ts ! m"] nh(3) len m by (simp add: node_page_def d'_def)
  have rd: "node_page rd (drop (Suc m) ts) (drop (Suc m) ks)"
    using set_right_ok [OF R, of "map root_of ts ! length ks"] nh(4) len m by (simp add: node_page_def rd_def)
  have rdl: "length rd = ps" using rd page_okD(1) by (auto simp: node_page_def)
  obtain rc r p1 where al: "tdb_pager_alloc all_ok z p = (rc, r, p1)" by (metis prod_cases3)
  note ap = add_page_use [OF use q room _ al, of rd, unfolded psz, OF rdl]
  have kl: "length sep < 2 ^ 32" using ok key_class by auto
  note parts = int_cell_parts [OF kl, of "root_of tc" "[]", unfolded append_Nil2]
  have ok': "\<forall>k \<in> set (ks1 @ ks2). keyok k" using ok by simp
  note sl = split_lists(1) [OF d l ok' r1, of sep, folded ks_def] split_lists(2) [OF d l ok' r1, of t2, folded ts_def]
  have "split_interior all_ok z bt p q d i ?ic (root_of t2) =
      (TDB_OK, \<lparr>si_split = True, si_sep = ks ! m, si_right = r\<rparr>, d', add_page p1 q r rd)"
    using al ap(1) unfolding split_interior_def Let_def parts(1) prod.case parts(2,3) sl ncell [symmetric] m_def [symmetric] nh(1)
    by (simp add: nh(2) [simplified] L_def [symmetric] R_def [symmetric] d'_def [symmetric] rd_def [symmetric] add_page_def)
  then show thesis by (rule that) (use m ap d' rd in auto)
qed

text \<open>Putting a separator and its right half into the node of a pinned page.\<close>

lemma insert_sep_ok:
  assumes use: "in_use z p U" and q: "q \<in> U" "0 < pins p q" and room: "db_pages p + 1 < 2 ^ 32" and psz: "page_size p = ps"
    and d: "node_page (view z p q) (ts1 @ tc # ts2) (ks1 @ ks2)" and l: "length ts1 = i" "length ks1 = i" "length ts2 = length ks2"
    and ok: "\<forall>k \<in> set (si_sep csi # ks1 @ ks2). keyok k" and r1: "root_of t1 = root_of tc" and r2: "root_of t2 = si_right csi"
  defines "ts \<equiv> ts1 @ t1 # t2 # ts2" and "ks \<equiv> ks1 @ si_sep csi # ks2"
  obtains (one) p' where "insert_sep all_ok z bt p q i (root_of tc) csi = (TDB_OK, no_split, p')"
      "grows z (tdb_pager_unref p q) U {q} 1 p' U" "node_page (view z p' q) ts ks"
  | (two) r m p' where "insert_sep all_ok z bt p q i (root_of tc) csi = (TDB_OK, \<lparr>si_split = True, si_sep = ks ! m, si_right = r\<rparr>, p')"
      "grows z (tdb_pager_unref p q) U {q} 1 p' (insert r U)" "r \<notin> U" "0 < m" "Suc m < length ks"
      "node_page (view z p' q) (take (Suc m) ts) (take m ks)" "node_page (view z p' r) (drop (Suc m) ts) (drop (Suc m) ks)"
proof -
  let ?d = "view z p q" and ?old = "node_cells (ts1 @ tc # ts2) (ks1 @ ks2)" and ?ic = "int_cell (root_of tc) (si_sep csi)"
  have ip: "int_page ps ?d ?old" using d by (simp add: node_page_def)
  have io: "int_ok ?ic" using ok node_cell_ok [of "[si_sep csi]" ?ic "[tc]"] by (simp add: node_cells_simps)
  have il: "i \<le> length ?old" using page_okD(5) [OF ip] node_page_ncell [OF d] l by simp
  have u0: "grows z (tdb_pager_unref p q) U {q} n p' U'" if "in_use z p' U'" "U \<subseteq> U'" "\<forall>s \<in> U - {q}. view z p' s = view z p s"
    "\<forall>s \<in> U. pins p' s = ((pins p)(q := pins p q - 1)) s" "page_size p' = page_size p" "db_pages p' \<le> db_pages p + n" for n p' U'
    using that unref_use [OF use, of q] by (auto simp: grows_def unref_pins)
  have e: "insert_sep all_ok z bt p q i (root_of tc) csi =
      (case insert_cell all_ok ps ?d i ?ic of
         (rc, d1) \<Rightarrow>
           if rc = TDB_FULL then
             (case split_interior all_ok z bt p q d1 i ?ic (si_right csi) of (rc, si, d2, p1) \<Rightarrow> (rc, si, finish_page p1 q d2 rc))
           else if rc = TDB_OK then
             (rc, no_split, finish_page p q (if i < pg_ncell ?d then set_intcell_child d1 (i + 1) (si_right csi) else pg_set_right d1 (si_right csi)) rc)
           else (rc, no_split, finish_page p q d1 rc))"
    unfolding insert_sep_def build_int_cell_def pinned_data [OF q(2), of z] Let_def by simp
  show thesis
  proof (cases "fits ps False (?ic # ?old)")
    case True
    obtain d1 where d1: "insert_cell all_ok ps ?d i ?ic = (TDB_OK, d1)" "int_page ps d1 (take i ?old @ ?ic # drop i ?old)" "pg_right d1 = pg_right ?d"
      by (rule nd.insert_cell_ok [OF ip io il _ True]) (use that in auto)
    define d2 where "d2 = (if i < pg_ncell ?d then set_intcell_child d1 (i + 1) (root_of t2) else pg_set_right d1 (root_of t2))"
    have np: "node_page d2 ts ks" unfolding d2_def ts_def ks_def by (rule node_room_fit [OF d l ok r1 d1(2,3)])
    have len: "length d2 = page_size p" using np psz page_okD(1) by (auto simp: node_page_def)
    note f = finish_use [OF use q len]
    show thesis
      by (rule one [of "finish_page p q d2 TDB_OK"]) (use e d1(1) r2 u0 [of "finish_page p q d2 TDB_OK" U 1] f np in \<open>auto simp: d2_def\<close>)
  next
    case False
    obtain d1 where d1: "insert_cell all_ok ps ?d i ?ic = (TDB_FULL, d1)" "int_page ps d1 ?old" "pg_right d1 = pg_right ?d"
      by (rule nd.insert_cell_full [OF ip _ False, of all_ok i]) (use that in auto)
    have d1n: "node_page d1 (ts1 @ tc # ts2) (ks1 @ ks2)" using d d1(2,3) by (simp add: node_page_def)
    define m where "m = length ks div 2"
    obtain r d2 p1 where sp: "split_interior all_ok z bt p q d1 i ?ic (root_of t2) =
        (TDB_OK, \<lparr>si_split = True, si_sep = ks ! m, si_right = r\<rparr>, d2, p1)"
      "0 < m" "Suc m < length ks" "r \<notin> U" "grows z p U {} 1 p1 (insert r U)"
      "node_page d2 (take (Suc m) ts) (take m ks)" "node_page (view z p1 r) (drop (Suc m) ts) (drop (Suc m) ks)"
      by (rule split_interior_ok [OF use q room psz d1n l ok r1 False, of t2, folded ts_def ks_def, folded m_def]) (use that in auto)
    have u1: "in_use z p1 (insert r U)" "page_size p1 = ps" "pins p1 q = pins p q" using sp(5) psz q(1) by (simp_all add: grows_def)
    have len: "length d2 = page_size p1" using sp(6) u1(2) page_okD(1) by (auto simp: node_page_def)
    have pin: "0 < pins p1 q" using u1(3) q(2) by simp
    note f = finish_use [OF u1(1) insertI2 [OF q(1)] pin len]
    have qr: "q \<noteq> r" using q(1) sp(4) by auto
    let ?p' = "finish_page p1 q d2 TDB_OK"
    have "grows z (tdb_pager_unref p q) U {q} 1 ?p' (insert r U)"
      by (rule u0) (use f sp(5) u1(3) in \<open>auto simp: grows_def\<close>)
    then show thesis by (rule two [of m r ?p', rotated]) (use e d1(1) sp r2 f(2) qr in auto)
  qed
qed

section \<open>Insertion into a tree\<close>

lemma node_two:
  assumes f: "forest z p U h ts" and k: "kids_ok lo hi ts ks" and m: "0 < m" "Suc m < length ks"
    and pg: "node_page (view z p q) (take (Suc m) ts) (take m ks)" "node_page (view z p r) (drop (Suc m) ts) (drop (Suc m) ks)"
    and q: "q \<in> U" "q \<notin> set (concat (map pages ts))" "r \<in> U" "r \<notin> set (concat (map pages ts))" "q \<noteq> r"
    and A: "insert q (insert r (set (concat (map pages ts)))) \<subseteq> A" and E: "e \<longrightarrow> last_leaf (last ts) \<noteq> []"
  shows "inserted z p U (Suc h) lo hi A q (concat (map entries ts)) e \<lparr>si_split = True, si_sep = ks ! m, si_right = r\<rparr>"
proof -
  have ts: "ts = take (Suc m) ts @ drop (Suc m) ts" by simp
  have ks: "ks = take m ks @ ks ! m # drop (Suc m) ks" using m(2) by (simp add: id_take_nth_drop)
  have len: "length ts = Suc (length ks)" by (rule kids_ok_length [OF k])
  have l: "length (take (Suc m) ts) = Suc (length (take m ks))" using m(2) len by simp
  have "kids_ok lo hi (take (Suc m) ts @ drop (Suc m) ts) (take m ks @ ks ! m # drop (Suc m) ks)"
    using k ks by simp
  note ka = this [unfolded kids_append [OF l]]
  have fa: "forest z p U h (take (Suc m) ts)" "forest z p U h (drop (Suc m) ts)"
    "set (concat (map pages (take (Suc m) ts))) \<inter> set (concat (map pages (drop (Suc m) ts))) = {}"
    using f forest_simps(1) [of z p U h "take (Suc m) ts" "drop (Suc m) ts"] by simp_all
  have pgs: "set (concat (map pages ts)) = set (concat (map pages (take (Suc m) ts))) \<union> set (concat (map pages (drop (Suc m) ts)))"
    by (subst ts) (simp only: map_append concat_append set_append)
  have t1: "tree_at z p U (Suc h) lo (Some (ks ! m)) (BNode q (take (Suc m) ts) (take m ks))"
    by (rule node_one) (use fa ka pg m q pgs in auto)
  have t2: "tree_at z p U (Suc h) (Some (ks ! m)) hi (BNode r (drop (Suc m) ts) (drop (Suc m) ks))"
    by (rule node_one) (use fa ka pg m q pgs in auto)
  have es: "concat (map entries ts) = concat (map entries (take (Suc m) ts)) @ concat (map entries (drop (Suc m) ts))"
    by (subst ts) (simp only: map_append concat_append)
  have dj: "set (pages (BNode q (take (Suc m) ts) (take m ks))) \<inter> set (pages (BNode r (drop (Suc m) ts) (drop (Suc m) ks))) = {}"
    "set (pages (BNode q (take (Suc m) ts) (take m ks))) \<union> set (pages (BNode r (drop (Suc m) ts) (drop (Suc m) ks))) \<subseteq> A"
    using fa(3) q(2,4,5) A unfolding pgs pages.simps(2) list.set(2) by blast+
  have "e \<longrightarrow> last_leaf (BNode r (drop (Suc m) ts) (drop (Suc m) ks)) \<noteq> []" using E m(2) len by simp
  then show ?thesis using inserted_two [OF t1 t2 _ _ _ dj] ka unfolding es by simp
qed

lemma insert_up_one:
  assumes t: "tree_at z p U (Suc h) lo hi (BNode q (ts1 @ tc # ts2) (ks1 @ ks2))" and l: "length ts1 = length ks1" "length ts2 = length ks2"
    and gr: "grows z p U (set (pages tc)) n p' U'"
    and t': "tree_at z p' U' h (left_bound lo ks1) (right_bound hi ks2) t'" "set (pages t') \<subseteq> set (pages tc) \<union> (U' - U)" "root_of t' = root_of tc"
    and E: "right_edge tc \<longrightarrow> last_leaf t' \<noteq> []"
  shows "inserted z p' U' (Suc h) lo hi (set (pages (BNode q (ts1 @ tc # ts2) (ks1 @ ks2))) \<union> (U' - U)) q
    (concat (map entries ts1) @ entries t' @ concat (map entries ts2)) (right_edge (BNode q (ts1 @ tc # ts2) (ks1 @ ks2))) no_split"
  using inserted_one [OF child_replaced [OF t l gr t']] E by (auto simp: right_edge_def)

lemma insert_up_two:
  assumes t: "tree_at z p U (Suc h) lo hi (BNode q (ts1 @ tc # ts2) (ks1 @ ks2))" and l: "length ts1 = i" "length ks1 = i" "length ts2 = length ks2"
    and gr: "grows z p U (set (pages tc)) (Suc h) (tdb_pager_unref p2 q) U2"
    and p2: "in_use z p2 U2" "0 < pins p2 q" "page_size p2 = ps" "db_pages p2 + 1 < 2 ^ 32"
    and t12: "tree_at z p2 U2 h (left_bound lo ks1) (Some (si_sep csi)) t1" "tree_at z p2 U2 h (Some (si_sep csi)) (right_bound hi ks2) t2"
      "keyok (si_sep csi)" "above (left_bound lo ks1) (si_sep csi)" "below (right_bound hi ks2) (si_sep csi)" "set (pages t1) \<inter> set (pages t2) = {}"
      "set (pages t1) \<union> set (pages t2) \<subseteq> set (pages tc) \<union> (U2 - U)" "root_of t1 = root_of tc" "root_of t2 = si_right csi"
    and E: "right_edge tc \<longrightarrow> last_leaf t2 \<noteq> []"
  defines "t0 \<equiv> BNode q (ts1 @ tc # ts2) (ks1 @ ks2)"
  obtains si p' U' where "insert_sep all_ok z bt p2 q i (root_of tc) csi = (TDB_OK, si, p')" "grows z p U (set (pages t0)) (Suc (Suc h)) p' U'"
    "inserted z p' U' (Suc h) lo hi (set (pages t0) \<union> (U' - U)) q
       (concat (map entries ts1) @ (entries t1 @ entries t2) @ concat (map entries ts2)) (right_edge t0) si"
proof -
  let ?p = "tdb_pager_unref p2 q" and ?ts = "ts1 @ t1 # t2 # ts2" and ?ks = "ks1 @ si_sep csi # ks2"
  have v: "view z ?p = view z p2" by (rule unref_use(5) [OF p2(1)])
  have "forest z p2 U2 h [t1, t2]" using t12(1,2,6) forest_simps(1) [of z p2 U2 h "[t1]" "[t2]"] by (simp add: tree_at_forest)
  then have f: "forest z ?p U2 h [t1, t2]" by (rule forest_frame) (simp_all add: v)
  have k: "kids_ok (left_bound lo ks1) (right_bound hi ks2) [t1, t2] [si_sep csi]" using t12(1-5) by (simp add: tree_at_def)
  note nr = node_rebuild [OF t _ l(3) gr f _ k, unfolded l(1,2), simplified, OF t12(7) [simplified]]
  have np: "node_page (view z p2 q) (ts1 @ tc # ts2) (ks1 @ ks2)" and ko: "kids_ok lo hi (ts1 @ tc # ts2) (ks1 @ ks2)"
    using t nr(5) v unfolding tree_at_node by auto
  have ok: "\<forall>k \<in> set (si_sep csi # ks1 @ ks2). keyok k" using kids_asc [OF ko] t12(3) by auto
  have q2: "q \<in> U2" by (rule nr(4))
  have U: "U \<subseteq> U2" using gr by (simp add: grows_def)
  have grow: "grows z p U (set (pages t0)) (Suc (Suc h)) p' U'" if "grows z ?p U2 {q} 1 p' U'" for p' U'
    using grows_mono [OF grows_trans [OF gr that], of "set (pages t0)" "Suc (Suc h)"] by (auto simp: t0_def)
  have fo: "forest z p' U' h ?ts" if "grows z ?p U2 {q} 1 p' U'" for p' U'
    by (rule forest_grows [OF nr(1) that]) (use nr(3) in auto)
  have e: "right_edge t0 \<longrightarrow> last_leaf (last ?ts) \<noteq> []" using E by (auto simp: t0_def right_edge_def)
  show thesis
  proof (cases rule: insert_sep_ok [OF p2(1) q2 p2(2,4,3) np l ok t12(8,9)])
    case one: (1 p')
    have "tree_at z p' U2 (Suc h) lo hi (BNode q ?ts ?ks)" by (rule node_one [OF fo [OF one(2)] nr(2) one(3)]) (use nr q2 in auto)
    from inserted_one [OF this, of "set (pages t0) \<union> (U2 - U)" "right_edge t0"] e show ?thesis
      using that [OF one(1) grow [OF one(2)]] nr(6) by (auto simp: t0_def)
  next
    case two: (2 r m p')
    have r: "r \<notin> set (concat (map pages ?ts))" "q \<noteq> r" using two(3) nr(1) q2 by (auto simp: forest_def)
    have "inserted z p' (insert r U2) (Suc h) lo hi (set (pages t0) \<union> (insert r U2 - U)) q (concat (map entries ?ts)) (right_edge t0)
        \<lparr>si_split = True, si_sep = ?ks ! m, si_right = r\<rparr>"
      by (rule node_two [OF fo [OF two(2)] nr(2) two(4-7)]) (use nr q2 r two(3) U e in \<open>auto simp: t0_def\<close>)
    then show ?thesis using that [OF two(1) grow [OF two(2)]] by simp
  qed
qed

lemma insert_rec_node:
  assumes IH: "\<And>p U lo hi t. \<lbrakk>in_use z p U; db_pages p + Suc h < 2 ^ 32; page_size p = ps; tree_at z p U h lo hi t;
      above lo (kf cell); upto hi (kf cell)\<rbrakk> \<Longrightarrow> inserts z p U h lo hi t cell"
    and use: "in_use z p U" and room: "db_pages p + Suc (Suc h) < 2 ^ 32" and psz: "page_size p = ps"
    and t: "tree_at z p U (Suc h) lo hi (BNode q ts ks)" and cell: "cellok cell" "above lo (kf cell)" "upto hi (kf cell)"
  shows "inserts z p U (Suc h) lo hi (BNode q ts ks) cell"
proof -
  define key where "key = kf cell"
  have kok: "keyok key" using cell_key_ok [OF cell(1)] by (simp add: key_def)
  have q: "q \<in> U" and kids: "kids_ok lo hi ts ks" and qn: "q \<notin> set (concat (map pages ts))" using t [unfolded tree_at_node] by blast+
  obtain p1 ts1 tc ts2 ks1 ks2 where g: "tdb_pager_get all_ok z p q = (TDB_OK, p1)" "in_use z p1 U" "page_data p1 q = view z p q"
      "pins p1 = (pins p)(q := Suc (pins p q))" "db_pages p1 = db_pages p" "page_size p1 = page_size p" "view z p1 = view z p"
      "\<not> pg_is_leaf (view z p q)" "fst (pg_find all_ok bt (view z p q) key) = length ts1" "child_at (view z p q) (length ts1) = root_of tc"
    and loc: "ts = ts1 @ tc # ts2" "ks = ks1 @ ks2" "length ks1 = length ts1" "length ts2 = length ks2"
      "above (left_bound lo ks1) key" "upto (right_bound hi ks2) key"
      "\<forall>c \<in> set (concat (map entries ts1)). lt (kf c) key" "\<forall>c \<in> set (concat (map entries ts2)). lt key (kf c)"
    and tc: "tree_at z p1 U h (left_bound lo ks1) (right_bound hi ks2) tc"
    by (rule enter_node [OF use t kok cell(2,3) [folded key_def]]) (rule that, assumption+)
  have "inserts z p1 U h (left_bound lo ks1) (right_bound hi ks2) tc cell"
    by (rule IH) (use g tc room psz loc(5,6) in \<open>auto simp: key_def\<close>)
  then obtain csi p2 U2 where rec: "insert_rec all_ok z bt p1 (root_of tc) key cell = Some (TDB_OK, csi, p2)"
    "grows z p1 U (set (pages tc)) (Suc h) p2 U2"
    "inserted z p2 U2 h (left_bound lo ks1) (right_bound hi ks2) (set (pages tc) \<union> (U2 - U)) (root_of tc) (ins key cell (entries tc)) (right_edge tc) csi"
    by (auto simp: inserts_def key_def)
  have step: "insert_rec all_ok z bt p q key cell =
      (if si_split csi then Some (insert_sep all_ok z bt p2 q (length ts1) (root_of tc) csi) else Some (TDB_OK, no_split, tdb_pager_unref p2 q))"
    using g(1,3,8-10) rec(1) by (subst insert_rec.simps) (auto simp: Let_def)
  have l': "length ts1 = length ks1" "length ts2 = length ks2" using loc(3,4) by simp_all
  have t0: "tree_at z p U (Suc h) lo hi (BNode q (ts1 @ tc # ts2) (ks1 @ ks2))" using t by (simp add: loc(1,2))
  have qtc: "q \<notin> set (pages tc)" using qn by (simp add: loc(1))
  have u2: "in_use z p2 U2" "U \<subseteq> U2" "view z p2 q = view z p q" "pins p2 q = Suc (pins p q)" "page_size p2 = ps" "db_pages p2 \<le> db_pages p + Suc h"
    using rec(2) q qtc g(4-7) psz by (simp_all add: grows_def)
  have es: "ins key cell (entries (BNode q ts ks)) = concat (map entries ts1) @ ins key cell (entries tc) @ concat (map entries ts2)"
    using kids_mid(1) [OF kids [unfolded loc(1)] kok loc(7,8), of cell] by (simp add: loc(1))
  have p2u: "grows z p U (set (pages tc)) (Suc h) (tdb_pager_unref p2 q) U2"
    using rec(2) g(4-7) unref_use [OF u2(1), of q] by (auto simp: grows_def unref_pins)
  show ?thesis
  proof (cases "si_split csi")
    case False
    then obtain t' where t': "tree_at z p2 U2 h (left_bound lo ks1) (right_bound hi ks2) t'" "set (pages t') \<subseteq> set (pages tc) \<union> (U2 - U)"
      "root_of t' = root_of tc" "entries t' = ins key cell (entries tc)"
      "right_edge tc \<longrightarrow> last_leaf t' \<noteq> []" using rec(3) by (auto simp: inserted_def)
    have t'u: "tree_at z (tdb_pager_unref p2 q) U2 h (left_bound lo ks1) (right_bound hi ks2) t'"
      using t'(1) unref_use(5) [OF u2(1)] by (simp add: tree_at_def)
    show ?thesis
      using insertsI [of z p "BNode q ts ks" cell no_split "tdb_pager_unref p2 q" U "Suc h" U2 lo hi] step False
        grows_mono [OF p2u, of "set (pages (BNode q ts ks))" "Suc (Suc h)"] insert_up_one [OF t0 l' p2u t'u t'(2,3,5)] es t'(4)
      by (auto simp: key_def loc(1,2))
  next
    case True
    then obtain t1 t2 where t12: "tree_at z p2 U2 h (left_bound lo ks1) (Some (si_sep csi)) t1" "tree_at z p2 U2 h (Some (si_sep csi)) (right_bound hi ks2) t2"
      "keyok (si_sep csi)" "above (left_bound lo ks1) (si_sep csi)" "below (right_bound hi ks2) (si_sep csi)" "set (pages t1) \<inter> set (pages t2) = {}"
      "set (pages t1) \<union> set (pages t2) \<subseteq> set (pages tc) \<union> (U2 - U)" "root_of t1 = root_of tc" "root_of t2 = si_right csi"
      "entries t1 @ entries t2 = ins key cell (entries tc)" "right_edge tc \<longrightarrow> last_leaf t2 \<noteq> []" using rec(3) unfolding inserted_def by auto
    have p2: "0 < pins p2 q" "db_pages p2 + 1 < 2 ^ 32" using u2(4,6) room by simp_all
    obtain si p' U' where up: "insert_sep all_ok z bt p2 q (length ts1) (root_of tc) csi = (TDB_OK, si, p')"
      "grows z p U (set (pages (BNode q ts ks))) (Suc (Suc h)) p' U'"
      "inserted z p' U' (Suc h) lo hi (set (pages (BNode q ts ks)) \<union> (U' - U)) q (ins key cell (entries (BNode q ts ks))) (right_edge (BNode q ts ks)) si"
      by (rule insert_up_two [OF t0 refl loc(3,4) p2u u2(1) p2(1) u2(5) p2(2) t12(1-9,11), folded loc(1,2), unfolded t12(10), folded es]) (rule that)
    then show ?thesis using insertsI [of z p "BNode q ts ks" cell si p' U "Suc h" U' lo hi] step True by (simp add: key_def)
  qed
qed

lemma insert_rec_ok:
  assumes "in_use z p U" "db_pages p + Suc h < 2 ^ 32" "page_size p = ps" "tree_at z p U h lo hi t"
    and "cellok cell" "above lo (kf cell)" "upto hi (kf cell)"
  shows "inserts z p U h lo hi t cell"
  using assms
proof (induction h arbitrary: p U lo hi t)
  case 0
  then obtain q cs where "t = BLeaf q cs" by (cases t) (auto simp: tree_at_def)
  then show ?case using insert_rec_leaf [of z p U lo hi q cs cell] 0 by simp
next
  case (Suc h)
  then obtain q ts ks where t: "t = BNode q ts ks" by (cases t) (auto simp: tree_at_def)
  show ?case unfolding t by (rule insert_rec_node [OF Suc.IH [OF _ _ _ _ Suc.prems(5)]]) (use Suc.prems t in auto)
qed

end

section \<open>Growing the root\<close>

fun reroot :: "u32 \<Rightarrow> bt_tree \<Rightarrow> bt_tree" where
  "reroot r (BLeaf q cs) = BLeaf r cs"
| "reroot r (BNode q ts ks) = BNode r ts ks"

lemma reroot_simps [simp]:
  "root_of (reroot r t) = r" "entries (reroot r t) = entries t" "full h (reroot r t) = full h t" "pages (reroot r t) = r # tl (pages t)"
  by (cases t; simp)+

lemma reroot_rep:
  assumes "tree_rep v ps t" "v' r = v (root_of t)" "\<And>q. q \<in> set (tl (pages t)) \<Longrightarrow> v' q = v q"
  shows "tree_rep v' ps (reroot r t)"
proof (cases t)
  case (BLeaf q cs)
  then show ?thesis using assms by simp
next
  case (BNode q ts ks)
  have "tree_rep v' ps t'" if "t' \<in> set ts" for t'
    by (rule tree_rep_frame [of v]) (use assms that BNode in auto)
  then show ?thesis using assms BNode by simp
qed

context bt_store
begin

lemma reroot_ok: "tree_ok lo hi (reroot r t) = tree_ok lo hi t"
  by (cases t) simp_all

lemma grow_root_pages:
  assumes use: "in_use z p U" and room: "db_pages p + 1 < 2 ^ 32" and psz: "page_size p = ps" "100 \<le> ps" "ps \<le> 65536"
    and sep: "keyok sep" and q: "bt_root bt \<in> U"
  obtains nl p' where "grow_root all_ok z bt p sep right = (TDB_OK, p')" "nl \<notin> U" "grows z p U {bt_root bt} 1 p' (insert nl U)"
    "view z p' nl = view z p (bt_root bt)" "int_page ps (view z p' (bt_root bt)) [int_cell nl sep]" "pg_right (view z p' (bt_root bt)) = right"
proof -
  let ?q = "bt_root bt"
  obtain p1 where g: "tdb_pager_get all_ok z p ?q = (TDB_OK, p1)" "in_use z p1 U" "page_data p1 ?q = view z p ?q"
    "pins p1 = (pins p)(?q := Suc (pins p ?q))" "db_pages p1 = db_pages p" "page_size p1 = page_size p" "view z p1 = view z p"
    by (rule get_use [OF use q]) (rule that, assumption+)
  obtain nl p2 where a: "tdb_pager_alloc all_ok z p1 = (TDB_OK, nl, p2)" "nl \<notin> U" "nl \<noteq> 0" "in_use z p2 (insert nl U)"
    "\<And>q. q \<in> U \<Longrightarrow> view z p2 q = view z p1 q" "pins p2 = (pins p1)(nl := 1)" "db_pages p2 \<le> db_pages p1 + 1" "page_size p2 = page_size p1"
    using alloc_use [OF g(2)] room g(5) by metis
  have qn: "?q \<noteq> nl" using q a(2) by auto
  have dat: "page_data p2 ?q = view z p ?q" using pinned_data [of p2 ?q z] a(5,6) g(4,7) q qn by simp
  have lenv: "length (view z p ?q) = page_size p2" using length_view [OF in_use_inv(1) [OF use]] a(8) g(6) by simp
  have pn: "0 < pins p2 nl" using a(6) by simp
  note s = store_use [OF a(4) insertI1 pn lenv]
  define p4 where "p4 = tdb_pager_unref (store_page p2 nl (view z p ?q)) nl"
  note u = unref_use [OF s(1), of nl, folded p4_def]
  have p4: "pins p4 = (pins p1)(nl := 0)" using s(3) a(6) by (simp add: p4_def unref_pins)
  define itype where "itype = (if bt_kind bt = TDB_BT_TABLE then TDB_PAGE_INTERIOR_TABLE else TDB_PAGE_INTERIOR_INDEX)"
  have it: "is_leaf_type itype = False"
    by (simp add: itype_def is_leaf_type_def TDB_PAGE_INTERIOR_TABLE_def TDB_PAGE_INTERIOR_INDEX_def TDB_PAGE_LEAF_TABLE_def TDB_PAGE_LEAF_INDEX_def)
  note ip = init_page_ok(1) [OF psz(2,3) it, of int_ok]
  have io: "int_ok (int_cell nl sep)" using sep key_form by (auto simp: int_ok_def)
  have fit: "fits ps False [int_cell nl sep]" using key_form [OF sep, of nl] by (simp add: fits_def hdr_len_def)
  obtain d0 where d0: "insert_cell all_ok ps (init_page ps itype) 0 (int_cell nl sep) = (TDB_OK, d0)" "int_page ps d0 [int_cell nl sep]"
    by (rule nd.insert_cell_ok [OF ip io _ _ fit, of 0 all_ok]) (use that in auto)
  define d1 where "d1 = pg_set_right d0 right"
  note sr = set_right_ok [OF d0(2), of right, folded d1_def]
  have p4u: "in_use z p4 (insert nl U)" "0 < pins p4 ?q" "page_size p4 = ps" using u p4 g(4,6) qn s(5) a(8) psz by simp_all
  have len: "length d1 = page_size p4" using page_okD(1) [OF sr(1)] p4u(3) by simp
  note f = finish_use [OF p4u(1) insertI2 [OF q] p4u(2) len]
  define p' where "p' = finish_page p4 ?q d1 TDB_OK"
  have eq: "grow_root all_ok z bt p sep right = (TDB_OK, p')"
    using g(1) a(1) dat d0(1) unfolding grow_root_def Let_def
    by (simp add: build_int_cell_def itype_def [symmetric] d1_def [symmetric] store_page_def [symmetric] p4_def [symmetric])
      (simp add: p'_def finish_page_def store_page_def [symmetric] p4_def [symmetric])
  have v: "view z p' = (view z p2)(nl := view z p ?q, ?q := d1)" using f(2) u(5) s(2) qn by (simp add: p'_def fun_upd_twist)
  have vU: "view z p' x = view z p x" if "x \<in> U" "x \<noteq> ?q" for x using that v a(2,5) g(7) by auto
  have gr: "grows z p U {?q} 1 p' (insert nl U)"
    using f u s p4 a g vU qn by (auto simp: grows_def p'_def)
  show thesis by (rule that [OF eq a(2) gr]) (use v qn sr in auto)
qed

lemma grow_root_ok:
  assumes use: "in_use z p U" and room: "db_pages p + 1 < 2 ^ 32" and psz: "page_size p = ps"
    and t1: "tree_at z p U h None (Some sep) t1" and t2: "tree_at z p U h (Some sep) None t2" and sep: "keyok sep"
    and dj: "set (pages t1) \<inter> set (pages t2) = {}" and root: "root_of t1 = bt_root bt"
  obtains nl p' where "grow_root all_ok z bt p sep (root_of t2) = (TDB_OK, p')" "nl \<notin> U" "grows z p U {bt_root bt} 1 p' (insert nl U)"
    "tree_at z p' (insert nl U) (Suc h) None None (BNode (bt_root bt) [reroot nl t1, t2] [sep])"
proof -
  let ?q = "bt_root bt"
  have q: "?q \<in> U" using t1 root root_in_pages [of t1] by (auto simp: tree_at_def)
  have pss: "100 \<le> ps" "ps \<le> 65536" using t1 by (cases t1; auto simp: tree_at_def dest: page_okD(2,3))+
  obtain nl p' where g: "grow_root all_ok z bt p sep (root_of t2) = (TDB_OK, p')" "nl \<notin> U" "grows z p U {?q} 1 p' (insert nl U)"
    "view z p' nl = view z p ?q" "int_page ps (view z p' ?q) [int_cell nl sep]" "pg_right (view z p' ?q) = root_of t2"
    by (rule grow_root_pages [OF use room psz pss sep q]) (rule that, assumption+)
  have vU: "view z p' x = view z p x" if "x \<in> U" "x \<noteq> ?q" for x using that g(3) by (simp add: grows_def)
  have sub: "set (pages t1) \<subseteq> U" "set (pages t2) \<subseteq> U" "distinct (pages t1)" "distinct (pages t2)" using t1 t2 by (simp_all add: tree_at_def)
  have tl1: "?q \<notin> set (tl (pages t1))" "set (tl (pages t1)) \<subseteq> U" "distinct (tl (pages t1))"
    using sub(1,3) root by (cases t1; simp)+
  have q2: "?q \<notin> set (pages t2)" "set (tl (pages t1)) \<inter> set (pages t2) = {}"
    using dj root by (cases t1; auto)+
  have r1: "tree_rep (view z p') ps (reroot nl t1)"
    by (rule reroot_rep [of "view z p"]) (use t1 root vU tl1(1,2) g(4) in \<open>auto simp: tree_at_def\<close>)
  have r2: "tree_rep (view z p') ps t2"
    by (rule tree_rep_frame [of "view z p"]) (use t2 vU sub(2) q2 in \<open>auto simp: tree_at_def\<close>)
  have fo: "forest z p' (insert nl U) h [reroot nl t1, t2]"
    using r1 r2 t1 t2 sub tl1 g(2) q2 by (auto simp: forest_def tree_at_def)
  have np: "node_page (view z p' ?q) [reroot nl t1, t2] [sep]" using g(5,6) by (simp add: node_page_def node_cells_def)
  have ki: "kids_ok None None [reroot nl t1, t2] [sep]"
    using t1 t2 sep by (simp add: tree_at_def reroot_ok) (simp add: above_def below_def)
  have "tree_at z p' (insert nl U) (Suc h) None None (BNode ?q [reroot nl t1, t2] [sep])"
    by (rule node_one [OF fo ki np]) (use q g(2) tl1(1) q2 in auto)
  with g(1-3) show thesis by (rule that)
qed

end

context bt_map
begin

lemma tdb_btree_insert_ok:
  assumes st: "stored z p U t" and room: "db_pages p + 33 < 2 ^ 32"
    and key: "length key + 16 \<le> ps div 2" "local_val_len ps (length key) (length val) = length val"
    and cell: "cellok (leaf_cell ps key val [])" "kf (leaf_cell ps key val []) = key"
  obtains p' U' t' where "tdb_btree_insert all_ok z bt p key val = Some (TDB_OK, p')" "grows z p U (set (pages t)) 33 p' U'"
    "stored z p' U' t'" "entries t' = ins key (leaf_cell ps key val []) (entries t)" "set (pages t') \<subseteq> set (pages t) \<union> (U' - U)"
    "right_edge t \<Longrightarrow> right_edge t'"
proof -
  let ?c = "leaf_cell ps key val []"
  obtain h where s: "in_use z p U" "page_size p = ps" "root_of t = bt_root bt" "tree_at z p U h None None t" using st by (auto simp: stored_def)
  have h: "h < 32" by (rule tree_height [OF s(4,1)])
  have "inserts z p U h None None t ?c" by (rule insert_rec_ok) (use s h room cell bounds_none in auto)
  then obtain si p1 U1 where r: "insert_rec all_ok z bt p (bt_root bt) key ?c = Some (TDB_OK, si, p1)" "grows z p U (set (pages t)) (Suc h) p1 U1"
    "inserted z p1 U1 h None None (set (pages t) \<union> (U1 - U)) (bt_root bt) (ins key ?c (entries t)) (right_edge t) si"
    using cell(2) s(3) by (auto simp: inserts_def)
  have b: "tdb_btree_insert all_ok z bt p key val =
      (if si_split si then Some (grow_root all_ok z bt p1 (si_sep si) (si_right si)) else Some (TDB_OK, p1))"
    using key r(1) by (simp add: tdb_btree_insert_def build_leaf_cell_def Let_def)
  have u1: "in_use z p1 U1" "U \<subseteq> U1" "page_size p1 = ps" "db_pages p1 \<le> db_pages p + Suc h" using r(2) s(2) by (simp_all add: grows_def)
  show thesis
  proof (cases "si_split si")
    case False
    then obtain t' where t': "tree_at z p1 U1 h None None t'" "set (pages t') \<subseteq> set (pages t) \<union> (U1 - U)" "root_of t' = bt_root bt"
      "entries t' = ins key ?c (entries t)" "right_edge t \<longrightarrow> last_leaf t' \<noteq> []" using r(3) by (auto simp: inserted_def)
    have "stored z p1 U1 t'" using t' u1 by (auto simp: stored_def)
    then show thesis using that [of p1 U1 t'] b False t' grows_mono [OF r(2), of "set (pages t)" 33] h by (auto simp: right_edge_def)
  next
    case True
    then obtain t1 t2 where t12: "tree_at z p1 U1 h None (Some (si_sep si)) t1" "tree_at z p1 U1 h (Some (si_sep si)) None t2" "keyok (si_sep si)"
      "set (pages t1) \<inter> set (pages t2) = {}" "set (pages t1) \<union> set (pages t2) \<subseteq> set (pages t) \<union> (U1 - U)" "root_of t1 = bt_root bt"
      "root_of t2 = si_right si" "entries t1 @ entries t2 = ins key ?c (entries t)" "right_edge t \<longrightarrow> last_leaf t2 \<noteq> []" using r(3) by (auto simp: inserted_def)
    have room1: "db_pages p1 + 1 < 2 ^ 32" using u1(4) h room by simp
    obtain nl p2 where g: "grow_root all_ok z bt p1 (si_sep si) (si_right si) = (TDB_OK, p2)" "nl \<notin> U1"
      "grows z p1 U1 {bt_root bt} 1 p2 (insert nl U1)" "tree_at z p2 (insert nl U1) (Suc h) None None (BNode (bt_root bt) [reroot nl t1, t2] [si_sep si])"
      by (rule grow_root_ok [OF u1(1) room1 u1(3) t12(1-4,6), unfolded t12(7)]) (rule that, assumption+)
    have gr: "grows z p U (set (pages t)) 33 p2 (insert nl U1)"
      using grows_mono [OF grows_trans [OF r(2) g(3)], of "set (pages t)" 33] h s(3) root_in_pages [of t] by auto
    then have st': "stored z p2 (insert nl U1) (BNode (bt_root bt) [reroot nl t1, t2] [si_sep si])"
      using g(4) s(2) by (auto simp: stored_def grows_def)
    have "set (tl (pages t1)) \<subseteq> set (pages t1)" by (cases "pages t1") auto
    then have sub: "set (pages (BNode (bt_root bt) [reroot nl t1, t2] [si_sep si])) \<subseteq> set (pages t) \<union> (insert nl U1 - U)"
      using t12(5) g(2) u1(2) s(3) root_in_pages [of t] by auto
    show thesis by (rule that [OF _ gr st' _ sub]) (use b True g(1) t12(8,9) in \<open>auto simp: right_edge_def\<close>)
  qed
qed

end

end
