(* ===== verification/Tdb_Bt_Table.thy ===== *)
theory Tdb_Bt_Table
  imports Tdb_Bt_Scan Tdb_Bt_Insert
begin

text \<open>
  Table trees as finite maps from rowids to values. Rows whose cells vary in size by at most a
  factor of three halves and take at most about a quarter of a page instantiate \<open>bt_map\<close>; for
  them a table built by puts and deletes behaves as a map under every sequence of operations,
  and a cursor enumerates it in rowid order. The size condition is needed: a page is split in
  the middle of its cell list, and the halves of an uneven page need not fit.
\<close>

section \<open>Rows\<close>

definition row_size :: "bytes \<Rightarrow> nat" where
  "row_size v = 9 + tdb_varint_len (word_of_nat (length v)) + length v"

definition row_room :: "nat \<Rightarrow> nat \<Rightarrow> nat \<Rightarrow> bool" where
  "row_room ps m M \<longleftrightarrow> 2 * (M + 2) \<le> 3 * (m + 2) \<and> 8 + 4 * (M + 2) \<le> ps \<and> 100 \<le> ps \<and> ps \<le> 65536"

definition row_fits :: "nat \<Rightarrow> nat \<Rightarrow> nat \<Rightarrow> bytes \<Rightarrow> bool" where
  "row_fits ps m M v \<longleftrightarrow> row_room ps m M \<and> m \<le> row_size v \<and> row_size v \<le> M"

definition row_cell :: "nat \<Rightarrow> u64 \<Rightarrow> bytes \<Rightarrow> bytes" where
  "row_cell ps r v = leaf_cell ps (rowid_to_key r) v []"

text \<open>A row that needs no overflow pages.\<close>

definition row_plain :: "nat \<Rightarrow> bytes \<Rightarrow> bool" where
  "row_plain ps v \<longleftrightarrow> local_val_len ps 8 (length v) = length v \<and> length v < 2 ^ 32 \<and> 100 \<le> ps \<and> ps \<le> 65536"

definition plain_row :: "nat \<Rightarrow> bytes \<Rightarrow> bool" where
  "plain_row ps c \<longleftrightarrow> (\<exists>r v. row_plain ps v \<and> c = row_cell ps r v)"

definition row_ok :: "nat \<Rightarrow> nat \<Rightarrow> nat \<Rightarrow> bytes \<Rightarrow> bool" where
  "row_ok ps m M c \<longleftrightarrow> (\<exists>r v. row_fits ps m M v \<and> c = row_cell ps r v)"

definition rowid_ok :: "nat \<Rightarrow> bytes \<Rightarrow> bool" where
  "rowid_ok ps k \<longleftrightarrow> length k = 8 \<and> 72 \<le> ps"

lemma varint_len_small: "v < 128 \<Longrightarrow> tdb_varint_len v = 1"
  using not_le [of 128 v] by (subst tdb_varint_len.simps) simp

lemma length_rowid_key [simp]: "length (rowid_to_key r) = 8"
  by (simp add: rowid_to_key_def)

lemma plain_size: "4 * row_size v + 12 \<le> ps \<Longrightarrow> 100 \<le> ps \<Longrightarrow> ps \<le> 65536 \<Longrightarrow> row_plain ps v"
proof -
  assume b: "4 * row_size v + 12 \<le> ps" "100 \<le> ps" "ps \<le> 65536"
  then have "4 * int (row_size v) \<le> int ps - 12" by simp
  then have "int (row_size v) \<le> (int ps - 12) div 4" by simp
  then have "local_val_len ps 8 (length v) = length v" by (simp add: local_val_len_def Let_def varint_len_small row_size_def)
  moreover have "length v < 2 ^ 32" using b by (simp add: row_size_def)
  ultimately show ?thesis using b by (simp add: row_plain_def)
qed

lemma fits_plain: "row_fits ps m M v \<Longrightarrow> row_plain ps v"
  by (rule plain_size) (auto simp: row_fits_def row_room_def)

lemma ok_plain: "row_ok ps m M c \<Longrightarrow> plain_row ps c"
  unfolding row_ok_def plain_row_def using fits_plain by blast

lemma row_cell_read:
  assumes "row_plain ps v"
  shows "leafcell_at ps (row_cell ps r v) = \<lparr>lc_key = rowid_to_key r, lc_off = 9 + tdb_varint_len (word_of_nat (length v)),
      lc_lval = v, lc_local = length v, lc_vlen = length v, lc_ovfl = 0\<rparr>"
    "leaf_key ps (row_cell ps r v) = rowid_to_key r" "length (row_cell ps r v) = row_size v" "leaf_ok ps (row_cell ps r v)"
proof -
  have l: "local_val_len ps 8 (length v) = length v" and v: "length v < 2 ^ 32" using assms by (simp_all add: row_plain_def)
  have c: "row_cell ps r v = leaf_cell ps (rowid_to_key r) v (tdb_put_u32 1)" by (simp add: row_cell_def leaf_cell_def l Let_def)
  have one: "length (tdb_put_varint (8 :: u64)) = 1" using varint_len_small [of 8] by (simp add: varint_len_put)
  show rd: "leafcell_at ps (row_cell ps r v) = \<lparr>lc_key = rowid_to_key r, lc_off = 9 + tdb_varint_len (word_of_nat (length v)),
      lc_lval = v, lc_local = length v, lc_vlen = length v, lc_ovfl = 0\<rparr>"
    using leafcell_at_cell [of "rowid_to_key r" v "tdb_put_u32 1" ps "[]"] v l one by (simp add: c varint_len_put)
  then show "leaf_key ps (row_cell ps r v) = rowid_to_key r" by (simp add: leaf_key_def)
  show "length (row_cell ps r v) = row_size v"
    using leaf_cell_length [of "tdb_put_u32 1" ps "rowid_to_key r" v] l one by (simp add: c row_size_def varint_len_put)
  show "leaf_ok ps (row_cell ps r v)" unfolding leaf_ok_def c using v
    by (intro exI [of _ "rowid_to_key r"] exI [of _ v] exI [of _ "tdb_put_u32 1"]) simp
qed

lemma int_cell_rowid: "length k = 8 \<Longrightarrow> length (int_cell q k) = 13"
  using varint_len_small [of 8] by (simp add: int_cell_def varint_len_put)

text \<open>Tables with plain rows of any size can be read; with rows of similar size they can be written.\<close>

interpretation ts: bt_store "table_tree root ps" "\<lambda>k. length k = 8" "plain_row ps" "rowid_ok ps" for root ps
proof unfold_locales
  have bt: "bt_ps (table_tree root ps) = ps" by (simp add: table_tree_def)
  show "rowid_ok ps (leaf_key (bt_ps (table_tree root ps)) c)" if "plain_row ps c" for c
    using that row_cell_read(2) by (auto simp: bt plain_row_def rowid_ok_def row_plain_def)
  show "length k = 8" if "rowid_ok ps k" for k using that by (simp add: rowid_ok_def)
  show "leaf_ok (bt_ps (table_tree root ps)) c \<and> lc_ovfl (leafcell_at (bt_ps (table_tree root ps)) c) = 0"
    if "plain_row ps c" for c using that row_cell_read by (auto simp: bt plain_row_def)
  show "length k < 2 ^ 32 \<and> 14 + length (int_cell q k) \<le> bt_ps (table_tree root ps)" if "rowid_ok ps k" for k q
    using that int_cell_rowid by (simp add: rowid_ok_def bt)
qed

interpretation tb: bt_map "table_tree root ps" "\<lambda>k. length k = 8" "row_ok ps m M" "rowid_ok ps" m M 13 13 for root ps m M
proof unfold_locales
  have bt: "bt_ps (table_tree root ps) = ps" by (simp add: table_tree_def)
  show "rowid_ok ps (leaf_key (bt_ps (table_tree root ps)) c)" if "row_ok ps m M c" for c
    using ts.cell_key_ok [OF ok_plain [OF that]] by simp
  show "leaf_ok (bt_ps (table_tree root ps)) c \<and> lc_ovfl (leafcell_at (bt_ps (table_tree root ps)) c) = 0" if "row_ok ps m M c" for c
    by (rule ts.cell_form [OF ok_plain [OF that]])
  show "m \<le> length c \<and> length c \<le> M" if "row_ok ps m M c" for c
    using that row_cell_read(3) fits_plain by (auto simp: row_ok_def row_fits_def)
  show "13 \<le> length (int_cell q k) \<and> length (int_cell q k) \<le> 13" if "rowid_ok ps k" for k q
    using that int_cell_rowid by (simp add: rowid_ok_def)
  show "2 * (M + 2) \<le> 3 * (m + 2) \<and> 8 + 4 * (M + 2) \<le> bt_ps (table_tree root ps)" if "row_ok ps m M c" for c
    using that by (auto simp: bt row_ok_def row_fits_def row_room_def)
  show "2 * (13 + 2 :: nat) \<le> 3 * (13 + 2) \<and> 12 + 4 * (13 + 2) \<le> bt_ps (table_tree root ps)" if "rowid_ok ps k" for k :: bytes
    using that by (simp add: bt rowid_ok_def)
qed (use ts.key_form ts.key_valid in auto)

lemma bt_ps_table [simp]: "bt_ps (table_tree root ps) = ps" "bt_root (table_tree root ps) = root"
  by (simp_all add: table_tree_def)

lemma rowid_cmp: "bt_cmp ok (table_tree root ps) (rowid_to_key a) (rowid_to_key b) < 0 \<longleftrightarrow> a < b"
  by (simp add: bt_cmp_def table_tree_def rowid_to_key_def memcmp_put_u64)

lemma key_rowid [simp]: "key_to_rowid (rowid_to_key r) = r"
  by (simp add: key_to_rowid_def rowid_to_key_def)

lemma rowid_key_inj: "rowid_to_key a = rowid_to_key b \<longleftrightarrow> a = b"
  by (metis key_rowid)

section \<open>The rows of a tree\<close>

definition row_of :: "nat \<Rightarrow> bytes \<Rightarrow> u64 \<times> bytes" where
  "row_of ps c = (key_to_rowid (leaf_key ps c), lc_lval (leafcell_at ps c))"

definition table_rows :: "nat \<Rightarrow> bt_tree \<Rightarrow> (u64 \<times> bytes) list" where
  "table_rows ps t = map (row_of ps) (entries t)"

abbreviation table_at :: "zbuild \<Rightarrow> tdb_pager \<Rightarrow> u32 set \<Rightarrow> u32 \<Rightarrow> nat \<Rightarrow> nat \<Rightarrow> nat \<Rightarrow> bt_tree \<Rightarrow> bool" where
  "table_at z p U root ps m M t \<equiv> tb.stored root ps m M z p U t"

abbreviation table_in :: "zbuild \<Rightarrow> tdb_pager \<Rightarrow> u32 set \<Rightarrow> u32 \<Rightarrow> nat \<Rightarrow> bt_tree \<Rightarrow> bool" where
  "table_in z p U root ps t \<equiv> ts.stored root ps z p U t"

lemmas row_tree_simps = tb.tree_ok.simps [simplified] tb.kids_ok.simps [simplified] ts.tree_ok.simps [simplified] ts.kids_ok.simps [simplified]

lemma tree_ok_plain:
  "tb.tree_ok root ps m M lo hi t \<Longrightarrow> ts.tree_ok root ps lo hi t"
  "tb.kids_ok root ps m M lo hi us ks \<Longrightarrow> ts.kids_ok root ps lo hi us ks"
  by (induction lo hi t and lo hi us ks rule: tb.tree_ok_kids_ok.induct) (auto simp: row_tree_simps dest: ok_plain)

lemma table_plain: "table_at z p U root ps m M t \<Longrightarrow> table_in z p U root ps t"
  using tree_ok_plain(1) by (auto simp: ts.stored_def tb.stored_def ts.tree_at_def tb.tree_at_def)

lemma row_of_cell: "row_plain ps v \<Longrightarrow> row_of ps (row_cell ps r v) = (r, v)"
  by (simp add: row_of_def row_cell_read)

lemma row_key: "plain_row ps c \<Longrightarrow> leaf_key ps c = rowid_to_key (fst (row_of ps c))"
  using row_cell_read(2) by (auto simp: plain_row_def row_of_def)

lemma rows_dom:
  assumes "\<forall>c \<in> set es. plain_row ps c"
  shows "rowid_to_key r \<in> leaf_key ps ` set es \<longleftrightarrow> r \<in> dom (map_of (map (row_of ps) es))"
proof -
  have "leaf_key ps ` set es = (\<lambda>c. rowid_to_key (fst (row_of ps c))) ` set es" by (rule image_cong) (use assms row_key in auto)
  then show ?thesis by (auto simp: dom_map_of_conv_image_fst rowid_key_inj image_iff)
qed

lemma map_of_filter_key: "map_of (filter (\<lambda>x. P (fst x)) xs) k = (if P k then map_of xs k else None)"
  by (induction xs) auto

lemma map_of_sides:
  fixes r :: u64
  shows "map_of (filter (\<lambda>x. fst x < r) xs @ (r, v) # filter (\<lambda>x. r < fst x) xs) = (map_of xs)(r \<mapsto> v)"
    "map_of (filter (\<lambda>x. fst x < r) xs @ filter (\<lambda>x. r < fst x) xs) = (map_of xs)(r := None)"
  using map_of_filter_key [of "\<lambda>x. x < r" xs] map_of_filter_key [of "\<lambda>x. r < x" xs]
  by (auto simp: fun_eq_iff map_add_def split: option.splits)

lemma filter_rows:
  assumes "\<forall>c \<in> set es. plain_row ps c"
  shows "map (row_of ps) (filter (\<lambda>c. bt_cmp all_ok (table_tree root ps) (leaf_key ps c) (rowid_to_key r) < 0) es) =
      filter (\<lambda>x. fst x < r) (map (row_of ps) es)"
    "map (row_of ps) (filter (\<lambda>c. bt_cmp all_ok (table_tree root ps) (rowid_to_key r) (leaf_key ps c) < 0) es) =
      filter (\<lambda>x. r < fst x) (map (row_of ps) es)"
    "map (row_of ps) (filter (\<lambda>c. \<not> bt_cmp all_ok (table_tree root ps) (leaf_key ps c) (rowid_to_key r) < 0) es) =
      filter (\<lambda>x. \<not> fst x < r) (map (row_of ps) es)"
proof -
  have "leaf_key ps c = rowid_to_key (fst (row_of ps c))" if "c \<in> set es" for c
    using assms that row_key by auto
  then show "map (row_of ps) (filter (\<lambda>c. bt_cmp all_ok (table_tree root ps) (leaf_key ps c) (rowid_to_key r) < 0) es) =
      filter (\<lambda>x. fst x < r) (map (row_of ps) es)"
    "map (row_of ps) (filter (\<lambda>c. bt_cmp all_ok (table_tree root ps) (rowid_to_key r) (leaf_key ps c) < 0) es) =
      filter (\<lambda>x. r < fst x) (map (row_of ps) es)"
    "map (row_of ps) (filter (\<lambda>c. \<not> bt_cmp all_ok (table_tree root ps) (leaf_key ps c) (rowid_to_key r) < 0) es) =
      filter (\<lambda>x. \<not> fst x < r) (map (row_of ps) es)"
    by (auto simp: filter_map comp_def rowid_cmp intro!: map_cong filter_cong)
qed

lemma table_cells:
  assumes "table_in z p U root ps t"
  shows "\<forall>c \<in> set (entries t). plain_row ps c" "sorted_wrt (<) (map fst (table_rows ps t))"
proof -
  have t: "ts.tree_ok root ps None None t" using assms by (auto simp: ts.stored_def ts.tree_at_def)
  show r: "\<forall>c \<in> set (entries t). plain_row ps c" using ts.entries_ok(1) [OF t] by auto
  have asc: "sorted_wrt (\<lambda>a b. bt_cmp all_ok (table_tree root ps) (leaf_key ps a) (leaf_key ps b) < 0) (entries t)"
    using ts.entries_asc(1) [OF t] by (simp add: tk.ascending_def sorted_wrt_map)
  have k: "leaf_key ps c = rowid_to_key (fst (row_of ps c))" if "c \<in> set (entries t)" for c
    using r that row_key by auto
  show "sorted_wrt (<) (map fst (table_rows ps t))"
    unfolding table_rows_def sorted_wrt_map by (rule sorted_wrt_mono_rel [OF _ asc]) (use k in \<open>simp add: rowid_cmp\<close>)
qed

section \<open>Operations on a table\<close>

lemma table_put:
  assumes t: "table_at z p U root ps m M t" and room: "db_pages p + 33 < 2 ^ 32" and v: "row_fits ps m M v"
  obtains p' U' t' where "tdb_btree_put all_ok z (table_tree root ps) p r v = Some (TDB_OK, p')" "grows z p U (set (pages t)) 33 p' U'"
    "table_at z p' U' root ps m M t'" "map_of (table_rows ps t') = (map_of (table_rows ps t))(r \<mapsto> v)" "set (pages t') \<subseteq> set (pages t) \<union> (U' - U)"
    "right_edge t \<Longrightarrow> right_edge t'"
proof -
  note rd = row_cell_read [OF fits_plain [OF v], of r]
  have ps: "100 \<le> ps" using v by (simp add: row_fits_def row_room_def)
  have c: "row_ok ps m M (row_cell ps r v)" using v by (auto simp: row_ok_def)
  have lv: "local_val_len ps (length (rowid_to_key r)) (length v) = length v" using fits_plain [OF v] by (simp add: row_plain_def)
  obtain p' U' t' where i: "tdb_btree_insert all_ok z (table_tree root ps) p (rowid_to_key r) v = Some (TDB_OK, p')"
    "grows z p U (set (pages t)) 33 p' U'" "table_at z p' U' root ps m M t'"
    "entries t' = tree_order.ins (bt_cmp all_ok (table_tree root ps)) (leaf_key ps) (rowid_to_key r) (row_cell ps r v) (entries t)"
    "set (pages t') \<subseteq> set (pages t) \<union> (U' - U)" "right_edge t \<Longrightarrow> right_edge t'"
    by (rule tb.tdb_btree_insert_ok [OF t room, where key = "rowid_to_key r" and val = v])
      (use that ps lv c rd(2) in \<open>auto simp: row_cell_def\<close>)
  have "table_rows ps t' = filter (\<lambda>x. fst x < r) (table_rows ps t) @ (r, v) # filter (\<lambda>x. r < fst x) (table_rows ps t)"
    unfolding table_rows_def i(4) tb.ins_def [simplified] using filter_rows(1,2) [OF table_cells(1) [OF table_plain [OF t]], of root r] row_of_cell [OF fits_plain [OF v]] by simp
  then have "map_of (table_rows ps t') = (map_of (table_rows ps t))(r \<mapsto> v)"
    by (simp only: map_of_sides)
  then show thesis using that i by (simp add: tdb_btree_put_def)
qed

lemma table_del:
  assumes t: "table_at z p U root ps m M t" and ps: "72 \<le> ps"
  obtains p' where "tdb_btree_del all_ok z (table_tree root ps) p r = Some (TDB_OK, r \<in> dom (map_of (table_rows ps t)), p')"
    "grows z p U (set (pages t)) 0 p' U" "table_at z p' U root ps m M (ts.del_tree root ps (rowid_to_key r) t)"
    "map_of (table_rows ps (ts.del_tree root ps (rowid_to_key r) t)) = (map_of (table_rows ps t))(r := None)"
proof -
  let ?t = "ts.del_tree root ps (rowid_to_key r) t"
  obtain p' where d: "tdb_btree_remove all_ok z (table_tree root ps) p (rowid_to_key r) =
      Some (TDB_OK, rowid_to_key r \<in> leaf_key ps ` set (entries t), p')"
    "grows z p U (set (pages t)) 0 p' U" "table_at z p' U root ps m M ?t"
    "entries ?t = tree_order.del (bt_cmp all_ok (table_tree root ps)) (leaf_key ps) (rowid_to_key r) (entries t)"
    by (rule tb.tdb_btree_remove_ok [OF t, where key = "rowid_to_key r"]) (use that ps in \<open>auto simp: rowid_ok_def\<close>)
  note cells = table_cells(1) [OF table_plain [OF t]]
  have "table_rows ps ?t = filter (\<lambda>x. fst x < r) (table_rows ps t) @ filter (\<lambda>x. r < fst x) (table_rows ps t)"
    unfolding table_rows_def d(4) ts.del_def [simplified] using filter_rows(1,2) [OF cells, of root r] by simp
  then have m: "map_of (table_rows ps ?t) = (map_of (table_rows ps t))(r := None)"
    by (simp only: map_of_sides)
  have "rowid_to_key r \<in> leaf_key ps ` set (entries t) \<longleftrightarrow> r \<in> dom (map_of (table_rows ps t))"
    unfolding table_rows_def by (rule rows_dom [OF cells])
  then show thesis using that [of p'] d m by (simp add: tdb_btree_del_def)
qed

text \<open>A cursor on a table: what is ahead of it after a seek.\<close>

lemma table_seek:
  fixes r :: u64
  assumes t: "table_in z p U root ps t" and ps: "72 \<le> ps"
  defines "es \<equiv> filter (\<lambda>e. \<not> bt_cmp all_ok (table_tree root ps) (leaf_key ps e) (rowid_to_key r) < 0) (entries t)"
  obtains c' p' where "tdb_cursor_seek_rowid all_ok z (table_tree root ps) p new_cursor r = Some (TDB_OK, r \<in> dom (map_of (table_rows ps t)), c', p')"
    "ts.showing z U p t c' p' es" "map (row_of ps) es = filter (\<lambda>x. \<not> fst x < r) (table_rows ps t)"
proof -
  let ?k = "rowid_to_key r"
  obtain h where h: "ts.tree_at root ps z p U h None None t" "in_use z p U" "root_of t = root" using t by (auto simp: ts.stored_def)
  have hd: "h < TDB_MAXDEPTH" using ts.tree_height [OF h(1,2)] by (simp add: TDB_MAXDEPTH_def)
  have s0: "ts.showing z U p t new_cursor p []"
    using h(2) by (simp add: ts.showing_def ts.at_end_def wf_cursor_def new_cursor_def looks_def)
  obtain c' p' where s: "tdb_cursor_seek all_ok z (table_tree root ps) p new_cursor ?k =
      Some (TDB_OK, if ?k \<in> leaf_key ps ` set (entries t) then 0 else 1, c', p')" "ts.showing z U p t c' p' es"
    using ts.tdb_cursor_seek_ok [OF h(1) hd _ s0, where key = ?k] h(3) ps by (auto simp: rowid_ok_def es_def)
  note cells = table_cells(1) [OF t]
  have rows: "map (row_of ps) es = filter (\<lambda>x. \<not> fst x < r) (table_rows ps t)"
    unfolding es_def table_rows_def by (rule filter_rows(3) [OF cells])
  have "\<not> c_eof c' \<longleftrightarrow> es \<noteq> []" using ts.showing_eof [OF s(2)] by (simp add: tdb_cursor_eof_def)
  moreover have "es \<noteq> []" if "?k \<in> leaf_key ps ` set (entries t)"
    using that rowid_cmp [of all_ok root ps r r] by (auto simp: filter_empty_conv es_def)
  ultimately have "tdb_cursor_seek_rowid all_ok z (table_tree root ps) p new_cursor r = Some (TDB_OK, r \<in> dom (map_of (table_rows ps t)), c', p')"
    using s(1) rows_dom [OF cells, of r] by (auto simp: tdb_cursor_seek_rowid_def table_rows_def)
  then show thesis by (rule that [OF _ s(2) rows])
qed

lemma table_get:
  assumes t: "table_in z p U root ps t" and ps: "72 \<le> ps"
  obtains c' p' where "tdb_btree_get all_ok z (table_tree root ps) p r new_cursor =
      (case map_of (table_rows ps t) r of Some v \<Rightarrow> Some (TDB_OK, v, c', p') | None \<Rightarrow> Some (TDB_NOTFOUND, [], c', p'))"
    "looks z U p (tdb_cursor_close p' c')" "pins (tdb_cursor_close p' c') = pins p"
proof -
  define es where "es = filter (\<lambda>e. \<not> bt_cmp all_ok (table_tree root ps) (leaf_key ps e) (rowid_to_key r) < 0) (entries t)"
  obtain c' p' where s: "tdb_cursor_seek_rowid all_ok z (table_tree root ps) p new_cursor r = Some (TDB_OK, r \<in> dom (map_of (table_rows ps t)), c', p')"
    "ts.showing z U p t c' p' es" "map (row_of ps) es = filter (\<lambda>x. \<not> fst x < r) (table_rows ps t)"
    by (rule table_seek [OF t ps, of r, folded es_def]) (rule that, assumption+)
  obtain h where ti: "ts.tree_in root ps z p U h t" using t by (auto simp: ts.stored_def ts.tree_in_def)
  have at: "map_of (map (row_of ps) es) r = map_of (table_rows ps t) r"
    unfolding s(3) using map_of_filter_key [of "\<lambda>x. \<not> x < r" "table_rows ps t" r] by simp
  have get: "tdb_btree_get all_ok z (table_tree root ps) p r new_cursor =
      (case map_of (table_rows ps t) r of Some v \<Rightarrow> Some (TDB_OK, v, c', p') | None \<Rightarrow> Some (TDB_NOTFOUND, [], c', p'))"
  proof (cases "map_of (table_rows ps t) r")
    case None
    then show ?thesis using s(1) by (simp add: tdb_btree_get_def domIff)
  next
    case (Some v)
    then obtain e es' where e: "es = e # es'" using at by (cases es) auto
    have "set es \<subseteq> set (entries t)" by (auto simp: es_def)
    then obtain r' v' where c: "row_plain ps v'" "e = row_cell ps r' v'" using table_cells(1) [OF t] by (auto simp: e plain_row_def)
    have "row_of ps e \<in> set (map (row_of ps) es)" by (simp add: e)
    then have ge: "\<not> r' < r" unfolding s(3) using row_of_cell [OF c(1), of r'] by (simp add: c(2))
    have "sorted_wrt (<) (map fst (map (row_of ps) es))"
      unfolding s(3) using table_cells(2) [OF t] by (simp add: sorted_wrt_map sorted_wrt_filter)
    moreover have "(r, v) \<in> set (map (row_of ps) es)" using at Some map_of_SomeD by fastforce
    ultimately have "r' = r \<or> r' < r" using row_of_cell [OF c(1), of r'] by (auto simp: e c(2)) (metis fst_conv)
    with ge have r': "r' = r" by simp
    then have v': "v' = v" using at Some row_of_cell [OF c(1), of r'] by (simp add: e c(2))
    show ?thesis
      using s(1) Some ts.cursor_reads(2) [OF ti s(2) [unfolded e]] row_cell_read(1) [OF c(1), of r']
      by (simp add: tdb_btree_get_def c(2) v' domIff)
  qed
  show thesis by (rule that [OF get]) (use ts.showing_drop [OF s(2)] in \<open>simp_all add: tdb_cursor_close_def\<close>)
qed

section \<open>Sequences of operations\<close>

datatype bt_op = Bt_put u64 bytes | Bt_del u64 | Bt_get u64
datatype bt_result = Bt_done | Bt_found bool | Bt_row "bytes option"

text \<open>A client of the table; a read opens a cursor and closes it again.\<close>

definition bt_step :: "zbuild \<Rightarrow> tdb_btree \<Rightarrow> tdb_pager \<Rightarrow> bt_op \<Rightarrow> (bt_result \<times> tdb_pager) option" where
  "bt_step z bt p op =
     (case op of
        Bt_put r v \<Rightarrow>
          (case tdb_btree_put all_ok z bt p r v of Some (rc, p') \<Rightarrow> if rc = TDB_OK then Some (Bt_done, p') else None | None \<Rightarrow> None)
      | Bt_del r \<Rightarrow>
          (case tdb_btree_del all_ok z bt p r of
             Some (rc, found, p') \<Rightarrow> if rc = TDB_OK then Some (Bt_found found, p') else None | None \<Rightarrow> None)
      | Bt_get r \<Rightarrow>
          (case tdb_btree_get all_ok z bt p r new_cursor of
             Some (rc, v, c, p') \<Rightarrow>
               if rc = TDB_OK then Some (Bt_row (Some v), tdb_cursor_close p' c)
               else if rc = TDB_NOTFOUND then Some (Bt_row None, tdb_cursor_close p' c) else None
           | None \<Rightarrow> None))"

primrec bt_run :: "zbuild \<Rightarrow> tdb_btree \<Rightarrow> tdb_pager \<Rightarrow> bt_op list \<Rightarrow> (bt_result list \<times> tdb_pager) option" where
  "bt_run z bt p [] = Some ([], p)"
| "bt_run z bt p (op # ops) =
     Option.bind (bt_step z bt p op) (\<lambda>(r, p1). map_option (\<lambda>(rs, p2). (r # rs, p2)) (bt_run z bt p1 ops))"

text \<open>The same operations on a finite map.\<close>

fun map_step :: "(u64 \<rightharpoonup> bytes) \<Rightarrow> bt_op \<Rightarrow> bt_result \<times> (u64 \<rightharpoonup> bytes)" where
  "map_step f (Bt_put r v) = (Bt_done, f(r \<mapsto> v))"
| "map_step f (Bt_del r) = (Bt_found (r \<in> dom f), f(r := None))"
| "map_step f (Bt_get r) = (Bt_row (f r), f)"

primrec map_run :: "(u64 \<rightharpoonup> bytes) \<Rightarrow> bt_op list \<Rightarrow> bt_result list \<times> (u64 \<rightharpoonup> bytes)" where
  "map_run f [] = ([], f)"
| "map_run f (op # ops) = (case map_step f op of (r, f1) \<Rightarrow> case map_run f1 ops of (rs, f2) \<Rightarrow> (r # rs, f2))"

definition puts_ok :: "nat \<Rightarrow> nat \<Rightarrow> nat \<Rightarrow> bt_op list \<Rightarrow> bool" where
  "puts_ok ps m M ops \<longleftrightarrow> (\<forall>r v. Bt_put r v \<in> set ops \<longrightarrow> row_fits ps m M v)"

lemma bt_step_ok:
  assumes t: "table_at z p U root ps m M t" and room: "db_pages p + 33 < 2 ^ 32" and ps: "72 \<le> ps"
    and op: "\<And>r v. op = Bt_put r v \<Longrightarrow> row_fits ps m M v"
  obtains p' U' t' where "bt_step z (table_tree root ps) p op = Some (fst (map_step (map_of (table_rows ps t)) op), p')"
    "grows z p U (set (pages t)) 33 p' U'" "table_at z p' U' root ps m M t'" "map_of (table_rows ps t') = snd (map_step (map_of (table_rows ps t)) op)"
    "set (pages t') \<subseteq> set (pages t) \<union> (U' - U)"
proof (cases op)
  case (Bt_put r v)
  show thesis
    by (rule table_put [OF t room op [OF Bt_put], of r]) (use that Bt_put in \<open>simp add: bt_step_def\<close>)
next
  case (Bt_del r)
  show thesis
    by (rule table_del [OF t ps, of r], rule that [OF _ grows_mono])
      (use Bt_del in \<open>auto simp: bt_step_def\<close>)
next
  case (Bt_get r)
  obtain c' p' where g: "tdb_btree_get all_ok z (table_tree root ps) p r new_cursor =
      (case map_of (table_rows ps t) r of Some v \<Rightarrow> Some (TDB_OK, v, c', p') | None \<Rightarrow> Some (TDB_NOTFOUND, [], c', p'))"
    "looks z U p (tdb_cursor_close p' c')" "pins (tdb_cursor_close p' c') = pins p" by (rule table_get [OF table_plain [OF t] ps, of r]) (rule that, assumption+)
  let ?p = "tdb_cursor_close p' c'"
  have "grows z p U (set (pages t)) 33 ?p U" using g(2,3) by (simp add: grows_def looks_def)
  moreover have "table_at z ?p U root ps m M t" using t g(2) by (simp add: tb.stored_def tb.tree_at_def looks_def)
  moreover have "bt_step z (table_tree root ps) p op = Some (Bt_row (map_of (table_rows ps t) r), ?p)"
    using g(1) Bt_get by (simp add: bt_step_def split: option.splits)
  ultimately show thesis by (intro that [of ?p U t]) (auto simp: Bt_get)
qed

lemma bt_run_ok:
  assumes "table_at z p U root ps m M t" "db_pages p + 33 * length ops < 2 ^ 32" "72 \<le> ps" "puts_ok ps m M ops"
  shows "\<exists>p' U' t'. bt_run z (table_tree root ps) p ops = Some (fst (map_run (map_of (table_rows ps t)) ops), p') \<and>
    grows z p U (set (pages t)) (33 * length ops) p' U' \<and> table_at z p' U' root ps m M t' \<and>
    map_of (table_rows ps t') = snd (map_run (map_of (table_rows ps t)) ops)"
  using assms
proof (induction ops arbitrary: p U t)
  case Nil
  then have "in_use z p U" by (simp add: tb.stored_def)
  then show ?case using Nil by (auto simp: grows_def)
next
  case (Cons op ops)
  obtain p1 U1 t1 where s: "bt_step z (table_tree root ps) p op = Some (fst (map_step (map_of (table_rows ps t)) op), p1)"
    "grows z p U (set (pages t)) 33 p1 U1" "table_at z p1 U1 root ps m M t1" "map_of (table_rows ps t1) = snd (map_step (map_of (table_rows ps t)) op)"
    "set (pages t1) \<subseteq> set (pages t) \<union> (U1 - U)"
    by (rule bt_step_ok [OF Cons.prems(1) _ Cons.prems(3), where op = op]) (use Cons.prems that in \<open>auto simp: puts_ok_def\<close>)
  have room: "db_pages p1 + 33 * length ops < 2 ^ 32" using s(2) Cons.prems(2) by (simp add: grows_def)
  have po: "puts_ok ps m M ops" using Cons.prems(4) by (simp add: puts_ok_def)
  obtain p' U' t' where r: "bt_run z (table_tree root ps) p1 ops = Some (fst (map_run (map_of (table_rows ps t1)) ops), p')"
    "grows z p1 U1 (set (pages t1)) (33 * length ops) p' U'" "table_at z p' U' root ps m M t'"
    "map_of (table_rows ps t') = snd (map_run (map_of (table_rows ps t1)) ops)"
    using Cons.IH [OF s(3) room Cons.prems(3) po] by blast
  have "grows z p U (set (pages t)) (33 * length (op # ops)) p' U'"
    by (rule grows_mono [OF grows_trans [OF s(2) r(2)]]) (use s(5) in auto)
  then show ?case
    using s(1,4) r by (intro exI [of _ p'] exI [of _ U'] exI [of _ t']) (simp add: case_prod_unfold)
qed

end
