(* ===== verification/Tdb_Bt_Props.thy ===== *)
theory Tdb_Bt_Props
  imports Tdb_Bt_Table
begin

text \<open>
  The properties of table trees: they refine a finite map, and a cursor delivers the rows in
  rowid order from the start or from any rowid.
\<close>

section \<open>Scans\<close>

text \<open>Reads rowid and value at the cursor and moves on, until the end; \<open>None\<close> after \<open>n\<close> rows or on an error.\<close>

primrec scan_rows :: "zbuild \<Rightarrow> nat \<Rightarrow> nat \<Rightarrow> tdb_pager \<Rightarrow> tdb_cursor \<Rightarrow> (u64 \<times> bytes) list option" where
  "scan_rows z ps 0 p c = None"
| "scan_rows z ps (Suc n) p c =
     (if tdb_cursor_eof c then Some []
      else
        (case tdb_cursor_rowid ps p c of
           (rc, r) \<Rightarrow>
             if rc \<noteq> TDB_OK then None
             else
               Option.bind (tdb_cursor_data all_ok z ps p c) (\<lambda>(rc, v, c1, p1).
                 if rc \<noteq> TDB_OK then None
                 else
                   Option.bind (tdb_cursor_next all_ok z p1 c1) (\<lambda>(rc, c2, p2).
                     if rc \<noteq> TDB_OK then None else map_option ((#) (r, v)) (scan_rows z ps n p2 c2)))))"

lemma scan_showing:
  assumes "ts.tree_in root ps z p0 U h t" "h < TDB_MAXDEPTH" "ts.showing z U p0 t c p es" "length es < n" "\<forall>e \<in> set es. plain_row ps e"
  shows "scan_rows z ps n p c = Some (map (row_of ps) es)"
  using assms(3-5)
proof (induction n arbitrary: c p es)
  case (Suc n)
  note eof = ts.showing_eof [OF Suc.prems(1)]
  show ?case
  proof (cases es)
    case Nil
    then show ?thesis using eof by simp
  next
    case (Cons e es')
    then obtain r v where e: "row_plain ps v" "e = row_cell ps r v" using Suc.prems(3) by (auto simp: plain_row_def)
    note sh = Suc.prems(1) [unfolded Cons]
    note rd = ts.cursor_reads [OF assms(1) sh] and rc = row_cell_read [OF e(1), of r]
    obtain c2 p2 where n: "tdb_cursor_next all_ok z p c = Some (TDB_OK, c2, p2)" "ts.showing z U p0 t c2 p2 es'"
      using ts.tdb_cursor_next_ok [OF assms(1,2) sh] by blast
    have "scan_rows z ps n p2 c2 = Some (map (row_of ps) es')" by (rule Suc.IH [OF n(2)]) (use Suc.prems(2,3) Cons in auto)
    then show ?thesis
      using eof rd rc n(1) row_of_cell [OF e(1), of r] by (simp add: Cons e(2) tdb_cursor_rowid_def)
  qed
qed simp

lemma open_table: "tdb_btree_open all_ok p root TDB_BT_TABLE None = (rc, Some bt) \<Longrightarrow> bt = table_tree root (page_size p)"
  by (simp add: tdb_btree_open_def table_tree_def)

text \<open>A new table: an empty leaf, beside everything that was there.\<close>

lemma create_table:
  assumes use: "in_use z p U" and room: "row_room (page_size p) m M" "db_pages p + 1 < 2 ^ 32"
    and cr: "tdb_btree_create all_ok z p TDB_BT_TABLE = (rc, root, p0)"
  shows "rc = TDB_OK" "root \<notin> U" "grows z p U {} 1 p0 (insert root U)" "page_size p0 = page_size p"
    "table_at z p0 (insert root U) root (page_size p) m M (BLeaf root [])"
proof -
  have ps: "100 \<le> page_size p" "page_size p \<le> 65536" using room(1) by (simp_all add: row_room_def)
  obtain q p' where c: "tdb_btree_create all_ok z p TDB_BT_TABLE = (TDB_OK, q, p')" "q \<notin> U" "grows z p U {} 1 p' (insert q U)"
    "leaf_page (page_size p) (view z p' q) []" by (rule tdb_btree_create_ok [OF use room(2) ps]) (rule that, assumption+)
  have e: "rc = TDB_OK" "q = root" "p' = p0" using cr c(1) by auto
  note c = c [unfolded e]
  show "rc = TDB_OK" "root \<notin> U" "grows z p U {} 1 p0 (insert root U)" "page_size p0 = page_size p" using c e by (simp_all add: grows_def)
  show "table_at z p0 (insert root U) root (page_size p) m M (BLeaf root [])"
    using c(3,4) tk.ascending_simps(1) by (simp add: tb.stored_def tb.tree_at_leaf row_tree_simps) (simp add: grows_def)
qed

lemma blank_facts: "page_size (blank_pager None 512) = 512" "db_pages (blank_pager None 512) = 1"
  by (simp_all add: db_pages_def new_hdr_def)

lemma blank_in_use: "in_use None (blank_pager None 512) (pages_in_use 1 [])"
proof -
  have "free_inv None (blank_pager None 512) []" by (rule blank_free_inv) (simp_all add: codec_ok_def)
  then show ?thesis unfolding in_use_def blank_facts(2) by blast
qed

section \<open>Properties\<close>

lemma table_run:
  assumes use: "in_use z p U" "row_room (page_size p) m M" "puts_ok (page_size p) m M ops" "db_pages p + 33 * length ops + 1 < 2 ^ 32"
    and cr: "tdb_btree_create all_ok z p TDB_BT_TABLE = (rc, root, p0)" "tdb_btree_open all_ok p0 root TDB_BT_TABLE None = (rc', Some bt)"
  shows "rc = TDB_OK" "bt = table_tree root (page_size p)"
    "\<exists>p' U' t'. bt_run z bt p0 ops = Some (fst (map_run Map.empty ops), p') \<and> (\<forall>q \<in> U. view z p' q = view z p q) \<and>
      table_at z p' U' root (page_size p) m M t' \<and> map_of (table_rows (page_size p) t') = snd (map_run Map.empty ops)"
proof -
  have r1: "db_pages p + 1 < 2 ^ 32" using use(4) by simp
  note c = create_table [OF use(1,2) r1 cr(1)]
  show "rc = TDB_OK" by (rule c(1))
  show bt: "bt = table_tree root (page_size p)" using open_table [OF cr(2)] c(4) by simp
  have r2: "db_pages p0 + 33 * length ops < 2 ^ 32" using c(3) use(4) by (simp add: grows_def)
  have ps: "72 \<le> page_size p" using use(2) by (simp add: row_room_def)
  have e: "map_of (table_rows (page_size p) (BLeaf root [])) = Map.empty" by (simp add: table_rows_def)
  obtain p' U' t' where r: "bt_run z (table_tree root (page_size p)) p0 ops = Some (fst (map_run Map.empty ops), p')"
    "grows z p0 (insert root U) {root} (33 * length ops) p' U'" "table_at z p' U' root (page_size p) m M t'"
    "map_of (table_rows (page_size p) t') = snd (map_run Map.empty ops)"
    using bt_run_ok [OF c(5) r2 ps use(3), unfolded e] by auto
  have "view z p' q = view z p q" if "q \<in> U" for q using r(2) c(2,3) that by (auto simp: grows_def)
  then show "\<exists>p' U' t'. bt_run z bt p0 ops = Some (fst (map_run Map.empty ops), p') \<and> (\<forall>q \<in> U. view z p' q = view z p q) \<and>
      table_at z p' U' root (page_size p) m M t' \<and> map_of (table_rows (page_size p) t') = snd (map_run Map.empty ops)"
    using r bt by blast
qed

text \<open>
  C4: A table tree refines a finite map from rowids to values. On a new table, every sequence
  of puts, deletes and reads of rows returns what the map returns, including whether a deleted
  row was there; every operation ends and succeeds; and the contents of all pages that were in
  use before the table was created stay as they were. The rows' cells are within a factor of
  three halves of each other and take at most about a quarter of a page.
\<close>

theorem btree_refines_map:
  assumes "in_use z p U" "row_room (page_size p) m M" "puts_ok (page_size p) m M ops" "db_pages p + 33 * length ops + 1 < 2 ^ 32"
    and "tdb_btree_create all_ok z p TDB_BT_TABLE = (rc, root, p0)" "tdb_btree_open all_ok p0 root TDB_BT_TABLE None = (rc', Some bt)"
  shows "rc = TDB_OK \<and> (\<exists>p'. bt_run z bt p0 ops = Some (fst (map_run Map.empty ops), p') \<and> (\<forall>q \<in> U. view z p' q = view z p q))"
  using table_run [OF assms] by blast

theorem btree_refines_map_witness:
  "\<exists>root p0 p'. tdb_btree_create all_ok None (blank_pager None 512) TDB_BT_TABLE = (TDB_OK, root, p0) \<and>
     bt_run None (table_tree root 512) p0
       [Bt_put 7 (replicate 10 1), Bt_put 3 (replicate 12 2), Bt_get 7, Bt_del 3, Bt_get 3, Bt_del 3, Bt_put 7 (replicate 9 5), Bt_get 7] =
     Some ([Bt_done, Bt_done, Bt_row (Some (replicate 10 1)), Bt_found True, Bt_row None, Bt_found False, Bt_done, Bt_row (Some (replicate 9 5))], p')"
proof -
  let ?p = "blank_pager None 512"
  let ?ops = "[Bt_put 7 (replicate 10 1), Bt_put 3 (replicate 12 2), Bt_get 7, Bt_del 3, Bt_get 3, Bt_del 3, Bt_put 7 (replicate 9 5), Bt_get 7]"
  obtain rc root p0 where cr: "tdb_btree_create all_ok None ?p TDB_BT_TABLE = (rc, root, p0)" by (metis prod_cases3)
  have po: "puts_ok 512 19 22 ?ops" by (auto simp: puts_ok_def row_fits_def row_room_def row_size_def varint_len_small)
  have rm: "row_room 512 19 22" by (simp add: row_room_def)
  have op: "tdb_btree_open all_ok p0 root TDB_BT_TABLE None = (TDB_OK, Some (table_tree root (page_size p0)))"
    by (simp add: tdb_btree_open_def table_tree_def)
  have "rc = TDB_OK \<and> (\<exists>p'. bt_run None (table_tree root (page_size p0)) p0 ?ops = Some (fst (map_run Map.empty ?ops), p') \<and>
      (\<forall>q \<in> pages_in_use 1 []. view None p' q = view None ?p q))"
    by (rule btree_refines_map [OF blank_in_use _ _ _ cr op, of 19 22]) (use po rm blank_facts in simp_all)
  moreover have "page_size p0 = 512" using create_table(4) [OF blank_in_use _ _ cr, of 19 22] rm blank_facts by simp
  ultimately show ?thesis using cr by auto
qed

text \<open>
  C6: A cursor delivers a table in order. After every sequence of operations, a scan from the
  first row returns exactly the rows of the map in ascending rowid order, and a scan from a
  sought rowid returns those from that rowid on; the seek says whether the row exists. No scan
  overflows the cursor's stack of 40 levels or fails to end.
\<close>

theorem btree_scan_in_order:
  assumes "in_use z p U" "row_room (page_size p) m M" "puts_ok (page_size p) m M ops" "db_pages p + 33 * length ops + 1 < 2 ^ 32"
    and "tdb_btree_create all_ok z p TDB_BT_TABLE = (rc, root, p0)" "tdb_btree_open all_ok p0 root TDB_BT_TABLE None = (rc', Some bt)"
    and "bt_run z bt p0 ops = Some (rs, p')"
  shows "\<exists>rows. sorted_wrt (<) (map fst rows) \<and> map_of rows = snd (map_run Map.empty ops) \<and>
    (\<exists>c p1. tdb_cursor_first all_ok z bt p' new_cursor = Some (TDB_OK, c, p1) \<and>
       scan_rows z (page_size p) (Suc (length rows)) p1 c = Some rows) \<and>
    (\<exists>c p1. tdb_cursor_seek_rowid all_ok z bt p' new_cursor r = Some (TDB_OK, r \<in> dom (map_of rows), c, p1) \<and>
       scan_rows z (page_size p) (Suc (length rows)) p1 c = Some (filter (\<lambda>x. r \<le> fst x) rows))"
proof -
  let ?ps = "page_size p"
  note tr = table_run [OF assms(1-6)]
  obtain U' t where at: "table_at z p' U' root ?ps m M t" and m: "map_of (table_rows ?ps t) = snd (map_run Map.empty ops)" using tr(3) assms(7) by auto
  note t = table_plain [OF at]
  obtain h where h: "ts.tree_at root ?ps z p' U' h None None t" "in_use z p' U'" "root_of t = root" using t by (auto simp: ts.stored_def)
  have hd: "h < TDB_MAXDEPTH" using ts.tree_height [OF h(1,2)] by (simp add: TDB_MAXDEPTH_def)
  have ti: "ts.tree_in root ?ps z p' U' h t" using h(1) by (auto simp: ts.tree_in_def)
  note cells = table_cells [OF t]
  have s0: "ts.showing z U' p' t new_cursor p' []"
    using h(2) by (simp add: ts.showing_def ts.at_end_def wf_cursor_def new_cursor_def looks_def)
  obtain c p1 where f: "tdb_cursor_first all_ok z bt p' new_cursor = Some (TDB_OK, c, p1)" "ts.showing z U' p' t c p1 (entries t)"
    using ts.tdb_cursor_first_ok [OF ti hd _ s0] h(3) tr(2) by auto
  have ps: "72 \<le> ?ps" using assms(2) by (simp add: row_room_def)
  define es where "es = filter (\<lambda>e. \<not> bt_cmp all_ok (table_tree root ?ps) (leaf_key ?ps e) (rowid_to_key r) < 0) (entries t)"
  obtain c2 p2 where s: "tdb_cursor_seek_rowid all_ok z bt p' new_cursor r = Some (TDB_OK, r \<in> dom (map_of (table_rows ?ps t)), c2, p2)"
    "ts.showing z U' p' t c2 p2 es" "map (row_of ?ps) es = filter (\<lambda>x. r \<le> fst x) (table_rows ?ps t)"
    by (rule table_seek [OF t ps, of r, folded es_def tr(2), unfolded not_less]) (rule that, assumption+)
  have sc1: "scan_rows z ?ps (Suc (length (table_rows ?ps t))) p1 c = Some (table_rows ?ps t)"
    unfolding table_rows_def by (rule scan_showing [OF ti hd f(2)]) (use cells(1) in auto)
  have sc2: "scan_rows z ?ps (Suc (length (table_rows ?ps t))) p2 c2 = Some (map (row_of ?ps) es)"
    by (rule scan_showing [OF ti hd s(2)]) (use cells(1) in \<open>auto simp: table_rows_def le_imp_less_Suc es_def\<close>)
  show ?thesis
    by (intro exI [of _ "table_rows ?ps t"] conjI) (use cells(2) m f(1) sc1 sc2 s in auto)
qed

theorem btree_scan_in_order_witness:
  "\<exists>root p0 rs p' rows. tdb_btree_create all_ok None (blank_pager None 512) TDB_BT_TABLE = (TDB_OK, root, p0) \<and>
     bt_run None (table_tree root 512) p0 [Bt_put 7 (replicate 10 1), Bt_put 3 (replicate 12 2), Bt_put 5 (replicate 9 3), Bt_del 7] = Some (rs, p') \<and>
     sorted_wrt (<) (map fst rows) \<and> map_of rows = [3 \<mapsto> replicate 12 2, 5 \<mapsto> replicate 9 3] \<and>
     (\<exists>c p1. tdb_cursor_first all_ok None (table_tree root 512) p' new_cursor = Some (TDB_OK, c, p1) \<and>
        scan_rows None 512 (Suc (length rows)) p1 c = Some rows)"
proof -
  let ?p = "blank_pager None 512"
  let ?ops = "[Bt_put 7 (replicate 10 1), Bt_put 3 (replicate 12 2), Bt_put 5 (replicate 9 3), Bt_del 7]"
  obtain rc root p0 where cr: "tdb_btree_create all_ok None ?p TDB_BT_TABLE = (rc, root, p0)" by (metis prod_cases3)
  have po: "puts_ok 512 19 22 ?ops" by (auto simp: puts_ok_def row_fits_def row_room_def row_size_def varint_len_small)
  have rm: "row_room 512 19 22" by (simp add: row_room_def)
  have op: "tdb_btree_open all_ok p0 root TDB_BT_TABLE None = (TDB_OK, Some (table_tree root (page_size p0)))"
    by (simp add: tdb_btree_open_def table_tree_def)
  have hyps: "row_room (page_size ?p) 19 22" "puts_ok (page_size ?p) 19 22 ?ops" "db_pages ?p + 33 * length ?ops + 1 < 2 ^ 32"
    using rm po blank_facts by simp_all
  note tr = table_run [OF blank_in_use hyps cr op]
  have ps: "page_size p0 = 512" using create_table(4) [OF blank_in_use hyps(1) _ cr] blank_facts by simp
  obtain rs p' where run: "bt_run None (table_tree root (page_size p0)) p0 ?ops = Some (rs, p')" using tr(3) by blast
  obtain rows where "sorted_wrt (<) (map fst rows)" "map_of rows = snd (map_run Map.empty ?ops)"
    "\<exists>c p1. tdb_cursor_first all_ok None (table_tree root (page_size p0)) p' new_cursor = Some (TDB_OK, c, p1) \<and>
       scan_rows None (page_size ?p) (Suc (length rows)) p1 c = Some rows"
    using btree_scan_in_order [OF blank_in_use hyps cr op run] by blast
  then show ?thesis using cr tr(1) run ps blank_facts(1) by (intro exI [of _ root] exI [of _ p0] exI [of _ rs] exI [of _ p'] exI [of _ rows]) (auto simp: fun_upd_twist)
qed

end
