(* ===== verification/Tdb_Token.thy ===== *)
theory Tdb_Token
  imports Tdb_Value
begin

text \<open>
  \<^verbatim>\<open>src/sql/tdb_token.h\<close> and the keyword tables of \<^verbatim>\<open>src/sql/tdb_lexer.c\<close>: the token
  kinds, the reserved words with their kinds, and the list behind the keyword interface. The
  enumerator of a keyword, such as \<^verbatim>\<open>TK_SELECT\<close>, is \<open>TK ''SELECT''\<close>.
\<close>

section \<open>Token kinds\<close>

datatype tdb_token_kind =
  TK_EOF | TK_ILLEGAL
| TK_ID | TK_STRING | TK_INTEGER | TK_FLOAT | TK_BLOB | TK_PARAM
| TK_LP | TK_RP | TK_COMMA | TK_SEMI | TK_DOT | TK_STAR
| TK_PLUS | TK_MINUS | TK_SLASH | TK_PERCENT
| TK_EQ | TK_NE | TK_LT | TK_LE | TK_GT | TK_GE | TK_CONCAT
| TK_BITAND | TK_BITOR | TK_BITNOT | TK_SHL | TK_SHR
| TK string

definition c_strlen :: "bytes \<Rightarrow> nat" where
  "c_strlen z = length (takeWhile (\<lambda>b. b \<noteq> 0) z)"

section \<open>Keywords\<close>

definition k_keywords :: "(string \<times> tdb_token_kind) list" where
  "k_keywords = [
    (''SELECT'', TK ''SELECT''), (''FROM'', TK ''FROM''), (''WHERE'', TK ''WHERE''), (''GROUP'', TK ''GROUP''),
    (''BY'', TK ''BY''), (''HAVING'', TK ''HAVING''), (''ORDER'', TK ''ORDER''), (''ASC'', TK ''ASC''),
    (''DESC'', TK ''DESC''), (''LIMIT'', TK ''LIMIT''), (''OFFSET'', TK ''OFFSET''),
    (''DISTINCT'', TK ''DISTINCT''), (''ALL'', TK ''ALL''), (''AS'', TK ''AS''), (''JOIN'', TK ''JOIN''),
    (''INNER'', TK ''INNER''), (''LEFT'', TK ''LEFT''), (''RIGHT'', TK ''RIGHT''), (''FULL'', TK ''FULL''),
    (''OUTER'', TK ''OUTER''), (''CROSS'', TK ''CROSS''), (''ON'', TK ''ON''), (''USING'', TK ''USING''),
    (''AND'', TK ''AND''), (''OR'', TK ''OR''), (''NOT'', TK ''NOT''), (''NULL'', TK ''NULL''),
    (''IS'', TK ''IS''), (''IN'', TK ''IN''), (''LIKE'', TK ''LIKE''), (''BETWEEN'', TK ''BETWEEN''),
    (''EXISTS'', TK ''EXISTS''), (''CASE'', TK ''CASE''), (''WHEN'', TK ''WHEN''), (''THEN'', TK ''THEN''),
    (''ELSE'', TK ''ELSE''), (''END'', TK ''END''), (''CAST'', TK ''CAST''), (''TRUE'', TK ''TRUE''),
    (''FALSE'', TK ''FALSE''), (''INSERT'', TK ''INSERT''), (''INTO'', TK ''INTO''), (''VALUES'', TK ''VALUES''),
    (''UPDATE'', TK ''UPDATE''), (''SET'', TK ''SET''), (''DELETE'', TK ''DELETE''), (''CREATE'', TK ''CREATE''),
    (''TABLE'', TK ''TABLE''), (''INDEX'', TK ''INDEX''), (''UNIQUE'', TK ''UNIQUE''), (''VIEW'', TK ''VIEW''),
    (''MATERIALIZED'', TK ''MATERIALIZED''), (''DROP'', TK ''DROP''), (''IF'', TK ''IF''),
    (''TEMP'', TK ''TEMP''), (''TEMPORARY'', TK ''TEMP''), (''PRIMARY'', TK ''PRIMARY''), (''KEY'', TK ''KEY''),
    (''FOREIGN'', TK ''FOREIGN''), (''REFERENCES'', TK ''REFERENCES''), (''DEFAULT'', TK ''DEFAULT''),
    (''CHECK'', TK ''CHECK''), (''COLLATE'', TK ''COLLATE''), (''CONSTRAINT'', TK ''CONSTRAINT''),
    (''AUTOINCREMENT'', TK ''AUTOINCREMENT''), (''GENERATED'', TK ''GENERATED''), (''ALWAYS'', TK ''ALWAYS''),
    (''STORED'', TK ''STORED''), (''VIRTUAL'', TK ''VIRTUAL''), (''WITH'', TK ''WITH''),
    (''SYSTEM'', TK ''SYSTEM''), (''VERSIONING'', TK ''VERSIONING''), (''PERIOD'', TK ''PERIOD''),
    (''FOR'', TK ''FOR''), (''BEGIN'', TK ''BEGIN''), (''COMMIT'', TK ''COMMIT''),
    (''ROLLBACK'', TK ''ROLLBACK''), (''TRANSACTION'', TK ''TRANSACTION''), (''SAVEPOINT'', TK ''SAVEPOINT''),
    (''RELEASE'', TK ''RELEASE''), (''TO'', TK ''TO''), (''FUNCTION'', TK ''FUNCTION''),
    (''PROCEDURE'', TK ''PROCEDURE''), (''LANGUAGE'', TK ''LANGUAGE''), (''RETURNS'', TK ''RETURNS''),
    (''CALL'', TK ''CALL''), (''PREPARE'', TK ''PREPARE''), (''ALTER'', TK ''ALTER''), (''ADD'', TK ''ADD''),
    (''COLUMN'', TK ''COLUMN''), (''RENAME'', TK ''RENAME''), (''UNION'', TK ''UNION''),
    (''EXCEPT'', TK ''EXCEPT''), (''INTERSECT'', TK ''INTERSECT''), (''EXPLAIN'', TK ''EXPLAIN''),
    (''VACUUM'', TK ''VACUUM''), (''RETURNING'', TK ''RETURNING''), (''GLOB'', TK ''GLOB''),
    (''ESCAPE'', TK ''ESCAPE''), (''TABLESPACE'', TK ''TABLESPACE''), (''PARTITION'', TK ''PARTITION''),
    (''TRUNCATE'', TK ''TRUNCATE''), (''ANALYZE'', TK ''ANALYZE''), (''REINDEX'', TK ''REINDEX''),
    (''COMMENT'', TK ''COMMENT''), (''COMPRESSION'', TK ''COMPRESSION''), (''GRANT'', TK ''GRANT''),
    (''REVOKE'', TK ''REVOKE''), (''ATTACH'', TK ''ATTACH''), (''DETACH'', TK ''DETACH''),
    (''DATABASE'', TK ''DATABASE''), (''LOCK'', TK ''LOCK''), (''LOCATION'', TK ''LOCATION'')]"

text \<open>\<^verbatim>\<open>strncasecmp\<close> equal over \<open>n\<close> bytes with a name of length \<open>n\<close>.\<close>

definition ci_eq :: "bytes \<Rightarrow> string \<Rightarrow> bool" where
  "ci_eq z name \<longleftrightarrow> map (c_tolower \<circ> unat) z = str_ci name"

primrec kw_loop :: "bytes \<Rightarrow> (string \<times> tdb_token_kind) list \<Rightarrow> tdb_token_kind" where
  "kw_loop z [] = TK_ID"
| "kw_loop z (kw # kws) = (if length (fst kw) = length z \<and> ci_eq z (fst kw) then snd kw else kw_loop z kws)"

definition tdb_keyword_lookup :: "bytes \<Rightarrow> tdb_token_kind" where
  "tdb_keyword_lookup z = kw_loop z k_keywords"

definition k_all_keywords :: "string list" where
  "k_all_keywords = [
   ''ABORT'', ''ACTION'', ''ADD'', ''AFTER'', ''ALL'', ''ALTER'', ''ALWAYS'', ''ANALYZE'', ''AND'', ''AS'',
   ''ASC'', ''ATTACH'', ''AUTOINCREMENT'', ''BEFORE'', ''BEGIN'', ''BETWEEN'', ''BIT'', ''BY'', ''CALL'',
   ''CASCADE'', ''CASE'', ''CAST'', ''CHECK'', ''COLLATE'', ''COLUMN'', ''COMMENT'', ''COMMIT'',
   ''COMPRESSION'', ''CONFLICT'', ''CONSTRAINT'', ''CREATE'', ''CROSS'', ''CURRENT'', ''CURRENT_DATE'',
   ''CURRENT_TIME'', ''CURRENT_TIMESTAMP'', ''DATABASE'', ''DEFAULT'', ''DEFERRABLE'', ''DEFERRED'',
   ''DELETE'', ''DESC'', ''DETACH'', ''DISTINCT'', ''DO'', ''DROP'', ''EACH'', ''ELSE'', ''ELSIF'', ''END'',
   ''ESCAPE'', ''EXCEPT'', ''EXCLUDE'', ''EXCLUSIVE'', ''EXISTS'', ''EXPLAIN'', ''FAIL'', ''FILTER'',
   ''FIRST'', ''FOLLOWING'', ''FOR'', ''FOREIGN'', ''FROM'', ''FULL'', ''FUNCTION'', ''GENERATED'', ''GLOB'',
   ''GRANT'', ''GROUP'', ''GROUPS'', ''HASH'', ''HAVING'', ''IF'', ''IGNORE'', ''IMMEDIATE'', ''IN'',
   ''INDEX'', ''INDEXED'', ''INITIALLY'', ''INNER'', ''INSERT'', ''INSTEAD'', ''INTERSECT'', ''INTERVAL'',
   ''INTO'', ''IS'', ''ISNULL'', ''JOIN'', ''KEY'', ''LANGUAGE'', ''LAST'', ''LEFT'', ''LIKE'', ''LIMIT'',
   ''LIST'', ''LOCATION'', ''LOCK'', ''LOOP'', ''MATCH'', ''MATERIALIZED'', ''NATURAL'', ''NO'', ''NOT'',
   ''NOTHING'', ''NOTNULL'', ''NULL'', ''NULLS'', ''OF'', ''OFFSET'', ''ON'', ''OR'', ''ORDER'', ''OTHERS'',
   ''OUTER'', ''OVER'', ''OWNED'', ''PARTITION'', ''PERIOD'', ''PLAN'', ''PRAGMA'', ''PRECEDING'', ''PREPARE'',
   ''PRIMARY'', ''PRIVILEGES'', ''PROCEDURE'', ''QUERY'', ''RAISE'', ''RANGE'', ''RECURSIVE'', ''REFERENCES'',
   ''REGEXP'', ''REINDEX'', ''RELEASE'', ''RENAME'', ''REPLACE'', ''RESTRICT'', ''RETURNING'', ''RETURNS'',
   ''REVOKE'', ''RIGHT'', ''ROLE'', ''ROLLBACK'', ''ROW'', ''ROWS'', ''SAVEPOINT'', ''SELECT'', ''SEQUENCE'',
   ''SET'', ''STORED'', ''SYSTEM'', ''TABLE'', ''TABLESPACE'', ''TEMP'', ''TEMPORARY'', ''THEN'', ''TIES'',
   ''TO'', ''TRANSACTION'', ''TRIGGER'', ''TRUNCATE'', ''TYPE'', ''UNBOUNDED'', ''UNION'', ''UNIQUE'',
   ''UPDATE'', ''USER'', ''USING'', ''VACUUM'', ''VALUES'', ''VARBIT'', ''VERSIONING'', ''VIEW'', ''VIRTUAL'',
   ''WHEN'', ''WHERE'', ''WHILE'', ''WINDOW'', ''WITH'', ''WITHOUT'', ''XML'']"

definition tdb_keyword_count :: nat where
  "tdb_keyword_count = length k_all_keywords"

definition tdb_keyword_name :: "int \<Rightarrow> tdb_status \<times> (string \<times> nat) option" where
  "tdb_keyword_name i =
     (if i < 0 \<or> int tdb_keyword_count \<le> i then (TDB_RANGE, None)
      else (TDB_OK, Some (k_all_keywords ! nat i, length (k_all_keywords ! nat i))))"

definition tdb_keyword_check :: "bytes option \<Rightarrow> int \<Rightarrow> bool" where
  "tdb_keyword_check z n =
     (case z of
        None \<Rightarrow> False
      | Some z \<Rightarrow>
          (let n = (if n < 0 then int (c_strlen z) else n) in
           list_ex (\<lambda>kw. int (length kw) = n \<and> ci_eq (take (nat n) z) kw) k_all_keywords))"

end
