(* ===== verification/Tdb_Lexer.thy ===== *)
theory Tdb_Lexer
  imports Tdb_Token
begin

text \<open>
  \<^verbatim>\<open>src/sql/tdb_lexer.c\<close>: the SQL tokenizer. The source text is the byte list \<open>lx_z\<close>
  before its terminating NUL, so reading at its length gives NUL; a token is the offset and
  length of its text. \<^verbatim>\<open>int\<close> lengths are natural numbers (texts shorter than \<open>2 ^ 31\<close>).
  Number literals are converted as \<^verbatim>\<open>strtoll\<close> with base 0 and the decimal form of
  \<^verbatim>\<open>strtod\<close> do, with doubles as bit patterns; these are the only forms a literal can have.
\<close>

section \<open>Tokens\<close>

record tdb_token =
  tk_kind :: tdb_token_kind
  tk_off :: nat
  tk_n :: nat
  tk_ival :: u64
  tk_rval :: u64

record tdb_lexer =
  lx_z :: bytes
  lx_len :: nat
  lx_pos :: nat

abbreviation ch :: "char \<Rightarrow> byte" where
  "ch c \<equiv> of_char c"

definition tdb_lex_init :: "bytes option \<Rightarrow> nat \<Rightarrow> tdb_lexer" where
  "tdb_lex_init sql len =
     (case sql of
        None \<Rightarrow> \<lparr>lx_z = [], lx_len = len, lx_pos = 0\<rparr>
      | Some z \<Rightarrow> \<lparr>lx_z = z, lx_len = (if len \<noteq> 0 then len else c_strlen z), lx_pos = 0\<rparr>)"

section \<open>Helpers\<close>

definition is_id_start :: "nat \<Rightarrow> bool" where
  "is_id_start c \<longleftrightarrow> c_isalpha c \<or> c = of_char CHR ''_''"

definition is_id_char :: "nat \<Rightarrow> bool" where
  "is_id_char c \<longleftrightarrow> c_isalnum c \<or> c = of_char CHR ''_'' \<or> c = of_char CHR ''$''"

text \<open>\<^verbatim>\<open>lx->z[i]\<close>; the byte after the text is its NUL.\<close>

definition zat :: "tdb_lexer \<Rightarrow> nat \<Rightarrow> byte" where
  "zat lx i = (if i < length (lx_z lx) then lx_z lx ! i else 0)"

text \<open>\<^verbatim>\<open>while (lx->pos < lx->len && P(lx->z[lx->pos])) lx->pos++\<close>\<close>

function skip_while :: "(byte \<Rightarrow> bool) \<Rightarrow> tdb_lexer \<Rightarrow> tdb_lexer" where
  "skip_while P lx = (if lx_pos lx < lx_len lx \<and> P (zat lx (lx_pos lx)) then skip_while P (lx\<lparr>lx_pos := Suc (lx_pos lx)\<rparr>) else lx)"
  by pat_completeness auto

termination skip_while
  by (relation "measure (\<lambda>(P, lx). lx_len lx - lx_pos lx)") auto

declare skip_while.simps [simp del]

text \<open>The loop to the end of a block comment.\<close>

function skip_comment :: "tdb_lexer \<Rightarrow> tdb_lexer" where
  "skip_comment lx =
     (if lx_pos lx + 1 < lx_len lx \<and> \<not> (zat lx (lx_pos lx) = ch CHR ''*'' \<and> zat lx (lx_pos lx + 1) = ch CHR ''/'')
      then skip_comment (lx\<lparr>lx_pos := Suc (lx_pos lx)\<rparr>) else lx)"
  by pat_completeness auto

termination skip_comment
  by (relation "measure (\<lambda>lx. lx_len lx - lx_pos lx)") auto

declare skip_comment.simps [simp del]

lemma skip_while_facts:
  "lx_z (skip_while P lx) = lx_z lx \<and> lx_len (skip_while P lx) = lx_len lx \<and> lx_pos lx \<le> lx_pos (skip_while P lx) \<and>
   (lx_pos lx \<le> lx_len lx \<longrightarrow> lx_pos (skip_while P lx) \<le> lx_len lx)"
proof (induction P lx rule: skip_while.induct)
  case (1 P lx)
  then show ?case by (subst (1 2 3 4) skip_while.simps) auto
qed

lemma skip_comment_facts:
  "lx_z (skip_comment lx) = lx_z lx \<and> lx_len (skip_comment lx) = lx_len lx \<and> lx_pos lx \<le> lx_pos (skip_comment lx) \<and>
   (lx_pos lx \<le> lx_len lx \<longrightarrow> lx_pos (skip_comment lx) \<le> lx_len lx)"
proof (induction lx rule: skip_comment.induct)
  case (1 lx)
  then show ?case by (subst (1 2 3 4) skip_comment.simps) auto
qed

lemmas skip_simps [simp] = skip_while_facts [THEN conjunct1] skip_while_facts [THEN conjunct2, THEN conjunct1]
  skip_comment_facts [THEN conjunct1] skip_comment_facts [THEN conjunct2, THEN conjunct1]

text \<open>The body of one round of \<open>skip_trivia\<close>: the lexer after it and whether it goes round again.\<close>

definition trivia_step :: "tdb_lexer \<Rightarrow> bool \<times> tdb_lexer" where
  "trivia_step lx0 =
     (let lx = skip_while (c_isspace \<circ> unat) lx0; i = lx_pos lx in
      if i + 1 < lx_len lx \<and> zat lx i = ch CHR ''-'' \<and> zat lx (i + 1) = ch CHR ''-'' then
        (True, skip_while (\<lambda>b. b \<noteq> 10) (lx\<lparr>lx_pos := i + 2\<rparr>))
      else if i + 1 < lx_len lx \<and> zat lx i = ch CHR ''/'' \<and> zat lx (i + 1) = ch CHR ''*'' then
        (let lx1 = skip_comment (lx\<lparr>lx_pos := i + 2\<rparr>) in
         (True, lx1\<lparr>lx_pos := (if lx_pos lx1 + 1 < lx_len lx1 then lx_pos lx1 + 2 else lx_len lx1)\<rparr>))
      else (False, lx))"

lemma trivia_step_facts:
  assumes "trivia_step lx = (again, lx')"
  shows "lx_z lx' = lx_z lx" "lx_len lx' = lx_len lx" "lx_pos lx \<le> lx_len lx \<Longrightarrow> lx_pos lx' \<le> lx_len lx"
    "lx_pos lx \<le> lx_pos lx'" "again \<Longrightarrow> lx_pos lx < lx_pos lx' \<and> lx_pos lx < lx_len lx"
proof -
  let ?a = "skip_while (c_isspace \<circ> unat) lx"
  note sw = skip_while_facts [of "c_isspace \<circ> unat" lx]
    skip_while_facts [of "\<lambda>b. b \<noteq> 10" "?a\<lparr>lx_pos := lx_pos ?a + 2\<rparr>"] skip_comment_facts [of "?a\<lparr>lx_pos := lx_pos ?a + 2\<rparr>"]
  show "lx_z lx' = lx_z lx" "lx_len lx' = lx_len lx" "lx_pos lx \<le> lx_len lx \<Longrightarrow> lx_pos lx' \<le> lx_len lx"
    "lx_pos lx \<le> lx_pos lx'" "again \<Longrightarrow> lx_pos lx < lx_pos lx' \<and> lx_pos lx < lx_len lx"
    using assms sw by (auto simp: trivia_step_def Let_def split: if_splits)
qed

function skip_trivia :: "tdb_lexer \<Rightarrow> tdb_lexer" where
  "skip_trivia lx = (case trivia_step lx of (again, lx') \<Rightarrow> if again then skip_trivia lx' else lx')"
  by pat_completeness auto

termination skip_trivia
proof (relation "measure (\<lambda>lx. lx_len lx - lx_pos lx)", goal_cases)
  case (2 lx x y)
  then show ?case using trivia_step_facts(2,5) [of lx x y] by auto
qed simp

declare skip_trivia.simps [simp del]

definition at_off :: "tdb_lexer \<Rightarrow> nat \<Rightarrow> nat" where
  "at_off lx off = (if lx_pos lx + off < lx_len lx then unat (zat lx (lx_pos lx + off)) else 0)"

section \<open>Number literals\<close>

definition digit_val :: "byte \<Rightarrow> nat" where
  "digit_val b =
     (let c = unat b in
      if 48 \<le> c \<and> c \<le> 57 then c - 48 else if 97 \<le> c \<and> c \<le> 122 then c - 87 else if 65 \<le> c \<and> c \<le> 90 then c - 55 else 36)"

definition digits_val :: "nat \<Rightarrow> bytes \<Rightarrow> nat" where
  "digits_val base ds = foldl (\<lambda>v d. v * base + digit_val d) 0 ds"

text \<open>\<^verbatim>\<open>strtoll(buf, NULL, 0)\<close> on a text that starts with a digit: it saturates, and a leading 0 means octal.\<close>

definition c_strtoll0 :: "bytes \<Rightarrow> u64" where
  "c_strtoll0 bs =
     (let (base, ds) =
        (if 2 < length bs \<and> bs ! 0 = ch CHR ''0'' \<and> (bs ! 1 = ch CHR ''x'' \<or> bs ! 1 = ch CHR ''X'') \<and> digit_val (bs ! 2) < 16
         then (16, drop 2 bs)
         else if bs \<noteq> [] \<and> bs ! 0 = ch CHR ''0'' then (8, bs) else (10, bs))
      in word_of_int (min (int (digits_val base (takeWhile (\<lambda>b. digit_val b < base) ds))) (2 ^ 63 - 1)))"

text \<open>The double nearest to \<open>n / d\<close>, ties to even: \<open>q\<close> is the exponent of the last mantissa bit.\<close>

definition ratio_exp :: "nat \<Rightarrow> nat \<Rightarrow> int" where
  "ratio_exp n d =
     (let e = int (ilog2 n) - int (ilog2 d) in
      if (0 \<le> e \<and> n < d * 2 ^ nat e) \<or> (e < 0 \<and> n * 2 ^ nat (- e) < d) then e - 1 else e)"

definition round_ratio :: "nat \<Rightarrow> nat \<Rightarrow> nat" where
  "round_ratio n d = (let q = n div d; r = n mod d in if d < 2 * r \<or> (2 * r = d \<and> odd q) then Suc q else q)"

definition dbl_of_ratio :: "nat \<Rightarrow> nat \<Rightarrow> u64" where
  "dbl_of_ratio n d =
     (if n = 0 then 0
      else
        (let q = max (ratio_exp n d - 52) (-1074);
             m = (if 0 \<le> q then round_ratio n (d * 2 ^ nat q) else round_ratio (n * 2 ^ nat (- q)) d)
         in word_of_nat (min (nat (q + 1074) * 2 ^ 52 + m) 0x7FF0000000000000)))"

text \<open>\<^verbatim>\<open>strtod\<close> on a decimal literal.\<close>

definition c_strtod :: "bytes \<Rightarrow> u64" where
  "c_strtod bs =
     (let dig = (\<lambda>b. c_isdigit (unat b));
          ip = takeWhile dig bs; r1 = dropWhile dig bs;
          r2 = (if r1 \<noteq> [] \<and> r1 ! 0 = ch CHR ''.'' then drop 1 r1 else []);
          fp = takeWhile dig r2;
          r3 = (if r1 \<noteq> [] \<and> r1 ! 0 = ch CHR ''.'' then dropWhile dig r2 else r1);
          ex = (if r3 \<noteq> [] \<and> (r3 ! 0 = ch CHR ''e'' \<or> r3 ! 0 = ch CHR ''E'') then drop 1 r3 else []);
          neg = (ex \<noteq> [] \<and> ex ! 0 = ch CHR ''-'');
          ed = takeWhile dig (if ex \<noteq> [] \<and> (ex ! 0 = ch CHR ''-'' \<or> ex ! 0 = ch CHR ''+'') then drop 1 ex else ex);
          e = (if neg then - int (digits_val 10 ed) else int (digits_val 10 ed)) - int (length fp);
          m = digits_val 10 (ip @ fp)
      in if 0 \<le> e then dbl_of_ratio (m * 10 ^ nat e) 1 else dbl_of_ratio m (10 ^ nat (- e)))"

text \<open>
  \<^verbatim>\<open>(int64_t)d\<close> for a double that is not negative: rounding towards 0. Where C leaves the result
  undefined it is the \<open>- 2 ^ 63\<close> of the x86-64 conversion.
\<close>

definition dbl_trunc :: "u64 \<Rightarrow> u64" where
  "dbl_trunc d =
     (let e = unat d div 2 ^ 52 mod 2048; f = unat d mod 2 ^ 52 in
      if e < 1023 then 0 else if 1086 \<le> e then 2 ^ 63 else word_of_nat ((2 ^ 52 + f) * 2 ^ (e - 1023) div 2 ^ 52))"

text \<open>Only the first 79 bytes of a literal are converted.\<close>

definition parse_number :: "bytes \<Rightarrow> tdb_token \<Rightarrow> tdb_token" where
  "parse_number z out =
     (let buf = take 79 z in
      if tk_kind out = TK_INTEGER then
        (let i = c_strtoll0 buf in out\<lparr>tk_ival := i, tk_rval := dbl_of_int (sint i)\<rparr>)
      else (let r = c_strtod buf in out\<lparr>tk_rval := r, tk_ival := dbl_trunc r\<rparr>))"

section \<open>The next token\<close>

definition lx_tok :: "tdb_token_kind \<Rightarrow> nat \<Rightarrow> nat \<Rightarrow> tdb_token" where
  "lx_tok k off n = \<lparr>tk_kind = k, tk_off = off, tk_n = n, tk_ival = 0, tk_rval = 0\<rparr>"

definition token_text :: "tdb_lexer \<Rightarrow> nat \<Rightarrow> nat \<Rightarrow> bytes" where
  "token_text lx off n = map (zat lx) [off..<off + n]"

definition past :: "tdb_lexer \<Rightarrow> nat \<Rightarrow> tdb_lexer" where
  "past lx k = lx\<lparr>lx_pos := lx_pos lx + k\<rparr>"

text \<open>\<^verbatim>\<open>if (lx->pos < lx->len) lx->pos++\<close> over a closing delimiter.\<close>

definition past_close :: "tdb_lexer \<Rightarrow> tdb_lexer" where
  "past_close lx = (if lx_pos lx < lx_len lx then past lx 1 else lx)"

function quoted_loop :: "byte \<Rightarrow> tdb_lexer \<Rightarrow> tdb_lexer" where
  "quoted_loop delim lx =
     (if lx_len lx \<le> lx_pos lx then lx
      else if zat lx (lx_pos lx) = delim then (if at_off lx 1 = unat delim then quoted_loop delim (past lx 2) else lx)
      else quoted_loop delim (past lx 1))"
  by pat_completeness auto

termination quoted_loop
  by (relation "measure (\<lambda>(delim, lx). lx_len lx - lx_pos lx)") (auto simp: past_def)

declare quoted_loop.simps [simp del]

definition scan_quoted :: "tdb_lexer \<Rightarrow> byte \<Rightarrow> tdb_token_kind \<Rightarrow> tdb_token \<times> tdb_lexer" where
  "scan_quoted lx0 delim k =
     (let start = lx_pos lx0 + 1; lx = quoted_loop delim (past lx0 1)
      in (lx_tok k start (lx_pos lx - start), past_close lx))"

text \<open>A token whose text ends before the byte \<open>close\<close>, after \<open>k\<close> opening bytes.\<close>

definition scan_until :: "tdb_lexer \<Rightarrow> nat \<Rightarrow> byte \<Rightarrow> tdb_token_kind \<Rightarrow> tdb_token \<times> tdb_lexer" where
  "scan_until lx0 k close kind =
     (let s = lx_pos lx0 + k; lx = skip_while (\<lambda>b. b \<noteq> close) (past lx0 k)
      in (lx_tok kind s (lx_pos lx - s), past_close lx))"

definition lex_ident :: "tdb_lexer \<Rightarrow> tdb_token \<times> tdb_lexer" where
  "lex_ident lx0 =
     (let s = lx_pos lx0; lx = skip_while (is_id_char \<circ> unat) lx0; n = lx_pos lx - s
      in (lx_tok (tdb_keyword_lookup (token_text lx s n)) s n, lx))"

definition skip_digits :: "tdb_lexer \<Rightarrow> tdb_lexer" where
  "skip_digits lx = skip_while (c_isdigit \<circ> unat) lx"

definition lex_fraction :: "tdb_lexer \<Rightarrow> bool \<times> tdb_lexer" where
  "lex_fraction lx =
     (if lx_pos lx < lx_len lx \<and> zat lx (lx_pos lx) = ch CHR ''.'' then (True, skip_digits (past lx 1)) else (False, lx))"

definition lex_exponent :: "tdb_lexer \<Rightarrow> bool \<times> tdb_lexer" where
  "lex_exponent lx =
     (if lx_pos lx < lx_len lx \<and> (zat lx (lx_pos lx) = ch CHR ''e'' \<or> zat lx (lx_pos lx) = ch CHR ''E'') then
        (let lx1 = past lx 1;
             lx2 = (if lx_pos lx1 < lx_len lx1 \<and> (zat lx1 (lx_pos lx1) = ch CHR ''+'' \<or> zat lx1 (lx_pos lx1) = ch CHR ''-'') then past lx1 1 else lx1)
         in (True, skip_digits lx2))
      else (False, lx))"

definition lex_number :: "tdb_lexer \<Rightarrow> tdb_token \<times> tdb_lexer" where
  "lex_number lx0 =
     (let s = lx_pos lx0;
          (isfloat, lx) =
            (if at_off lx0 0 = of_char CHR ''0'' \<and> (at_off lx0 1 = of_char CHR ''x'' \<or> at_off lx0 1 = of_char CHR ''X'') then
               (False, skip_while (c_isxdigit \<circ> unat) (past lx0 2))
             else
               (let (f1, lx1) = lex_fraction (skip_digits lx0); (f2, lx2) = lex_exponent lx1 in (f1 \<or> f2, lx2)));
          n = lx_pos lx - s
      in (parse_number (token_text lx s n) (lx_tok (if isfloat then TK_FLOAT else TK_INTEGER) s n), lx))"

text \<open>The body of a dollar-quoted string, up to a closing tag.\<close>

function dollar_loop :: "bytes \<Rightarrow> tdb_lexer \<Rightarrow> tdb_lexer" where
  "dollar_loop tag lx =
     (if lx_len lx \<le> lx_pos lx then lx
      else if zat lx (lx_pos lx) = ch CHR ''$'' \<and> lx_pos lx + length tag + 1 \<le> lx_len lx \<and>
              token_text lx (lx_pos lx + 1) (length tag) = tag \<and> zat lx (lx_pos lx + 1 + length tag) = ch CHR ''$'' then lx
      else dollar_loop tag (past lx 1))"
  by pat_completeness auto

termination dollar_loop
  by (relation "measure (\<lambda>(tag, lx). lx_len lx - lx_pos lx)") (auto simp: past_def)

declare dollar_loop.simps [simp del]

definition lex_param :: "tdb_lexer \<Rightarrow> tdb_token \<times> tdb_lexer" where
  "lex_param lx0 =
     (let lx = skip_while (is_id_char \<circ> unat) (past lx0 1) in (lx_tok TK_PARAM (lx_pos lx0) (lx_pos lx - lx_pos lx0), lx))"

definition lex_dollar :: "tdb_lexer \<Rightarrow> tdb_token \<times> tdb_lexer" where
  "lex_dollar lx0 =
     (let lx1 = skip_while (\<lambda>b. is_id_char (unat b) \<and> b \<noteq> ch CHR ''$'') (past lx0 1); t = lx_pos lx1 in
      if t < lx_len lx1 \<and> zat lx1 t = ch CHR ''$'' then
        (let taglen = t - (lx_pos lx0 + 1);
             tag = token_text lx0 (lx_pos lx0 + 1) taglen;
             s = t + 1;
             lx = dollar_loop tag (lx0\<lparr>lx_pos := s\<rparr>)
         in (lx_tok TK_STRING s (lx_pos lx - s), if lx_pos lx < lx_len lx then past lx (taglen + 2) else lx))
      else lex_param lx0)"

text \<open>Operators: the kind for the first byte, or for the first two when the second is one of \<open>alts\<close>.\<close>

definition two_char :: "tdb_lexer \<Rightarrow> (char \<times> tdb_token_kind) list \<Rightarrow> tdb_token_kind \<Rightarrow> tdb_token \<times> tdb_lexer" where
  "two_char lx alts k =
     (case find (\<lambda>a. at_off lx 1 = of_char (fst a)) alts of
        Some a \<Rightarrow> (lx_tok (snd a) (lx_pos lx) 2, past lx 2)
      | None \<Rightarrow> (lx_tok k (lx_pos lx) 1, past lx 1))"

definition lex_op :: "tdb_lexer \<Rightarrow> tdb_token \<times> tdb_lexer" where
  "lex_op lx =
     (let c = at_off lx 0; one = two_char lx [] in
      if c = of_char CHR ''('' then one TK_LP
      else if c = of_char CHR '')'' then one TK_RP
      else if c = of_char CHR '','' then one TK_COMMA
      else if c = of_char CHR '';'' then one TK_SEMI
      else if c = of_char CHR ''.'' then one TK_DOT
      else if c = of_char CHR ''*'' then one TK_STAR
      else if c = of_char CHR ''+'' then one TK_PLUS
      else if c = of_char CHR ''-'' then one TK_MINUS
      else if c = of_char CHR ''/'' then one TK_SLASH
      else if c = of_char CHR ''%'' then one TK_PERCENT
      else if c = of_char CHR ''='' then two_char lx [(CHR ''='', TK_EQ)] TK_EQ
      else if c = of_char CHR ''<'' then two_char lx [(CHR ''='', TK_LE), (CHR ''>'', TK_NE), (CHR ''<'', TK_SHL)] TK_LT
      else if c = of_char CHR ''>'' then two_char lx [(CHR ''='', TK_GE), (CHR ''>'', TK_SHR)] TK_GT
      else if c = of_char CHR ''!'' then two_char lx [(CHR ''='', TK_NE)] TK_ILLEGAL
      else if c = of_char CHR ''|'' then two_char lx [(CHR ''|'', TK_CONCAT)] TK_BITOR
      else if c = of_char CHR ''&'' then one TK_BITAND
      else if c = of_char CHR ''~'' then one TK_BITNOT
      else one TK_ILLEGAL)"

definition tdb_lex_next :: "tdb_lexer \<Rightarrow> tdb_token \<times> tdb_lexer" where
  "tdb_lex_next lx0 =
     (let lx = skip_trivia lx0; c = at_off lx 0 in
      if lx_len lx \<le> lx_pos lx then (lx_tok TK_EOF (lx_pos lx) 0, lx)
      else if (c = of_char CHR ''x'' \<or> c = of_char CHR ''X'') \<and> at_off lx 1 = 39 then scan_until lx 2 39 TK_BLOB
      else if is_id_start c then lex_ident lx
      else if c_isdigit c \<or> (c = of_char CHR ''.'' \<and> c_isdigit (at_off lx 1)) then lex_number lx
      else if c = 39 then scan_quoted lx 39 TK_STRING
      else if c = 34 then scan_quoted lx 34 TK_ID
      else if c = 96 then scan_quoted lx 96 TK_ID
      else if c = of_char CHR ''['' then scan_until lx 1 (ch CHR '']'') TK_ID
      else if c = of_char CHR ''$'' then lex_dollar lx
      else if c = of_char CHR ''?'' \<or> c = of_char CHR '':'' \<or> c = of_char CHR ''@'' then lex_param lx
      else lex_op lx)"

definition tdb_token_name :: "tdb_token_kind \<Rightarrow> string" where
  "tdb_token_name k =
     (case k of
        TK_EOF \<Rightarrow> ''EOF'' | TK_ID \<Rightarrow> ''ID'' | TK_STRING \<Rightarrow> ''STRING'' | TK_INTEGER \<Rightarrow> ''INTEGER'' | TK_FLOAT \<Rightarrow> ''FLOAT''
      | TK_BLOB \<Rightarrow> ''BLOB'' | TK_PARAM \<Rightarrow> ''PARAM'' | TK_LP \<Rightarrow> ''('' | TK_RP \<Rightarrow> '')'' | TK_COMMA \<Rightarrow> '','' | TK_SEMI \<Rightarrow> '';''
      | TK_DOT \<Rightarrow> ''.'' | TK_STAR \<Rightarrow> ''*'' | TK_PLUS \<Rightarrow> ''+'' | TK_MINUS \<Rightarrow> ''-'' | TK_SLASH \<Rightarrow> ''/'' | TK_PERCENT \<Rightarrow> ''%''
      | TK_EQ \<Rightarrow> ''='' | TK_NE \<Rightarrow> ''!='' | TK_LT \<Rightarrow> ''<'' | TK_LE \<Rightarrow> ''<='' | TK_GT \<Rightarrow> ''>'' | TK_GE \<Rightarrow> ''>='' | TK_CONCAT \<Rightarrow> ''||''
      | TK_BITAND \<Rightarrow> ''&'' | TK_BITOR \<Rightarrow> ''|'' | TK_BITNOT \<Rightarrow> ''~'' | TK_SHL \<Rightarrow> ''<<'' | TK_SHR \<Rightarrow> ''>>'' | TK_ILLEGAL \<Rightarrow> ''ILLEGAL''
      | TK w \<Rightarrow> (if w \<in> {''AND'', ''OR'', ''NOT'', ''IS'', ''IN'', ''LIKE'', ''BETWEEN''} then w else ''KEYWORD''))"

section \<open>The text of a string token\<close>

text \<open>
  \<open>decode_string\<close> of the parser, which undoes the doubling of quotes: the bytes it writes before
  the closing NUL. The value of a literal is the C string in that buffer, so it ends at the first NUL.
\<close>

fun decode_string :: "bytes \<Rightarrow> bytes" where
  "decode_string [] = []"
| "decode_string [c] = [c]"
| "decode_string (c # d # cs) = (if c = 39 \<and> d = 39 then c # decode_string cs else c # decode_string (d # cs))"

definition parse_string_literal :: "tdb_lexer \<Rightarrow> tdb_token \<Rightarrow> tdb_value" where
  "parse_string_literal lx t =
     (let s = decode_string (token_text lx (tk_off t) (tk_n t)) in TDB_VAL_TEXT (take (c_strlen s) s))"

end
