(* ===== verification/Tdb_Lex_Props.thy ===== *)
theory Tdb_Lex_Props
  imports Tdb_Lexer
begin

text \<open>
  Properties of the tokenizer: every token lies in the source and behind the previous one, the
  end is reached after at most as many calls as there are bytes, and a quoted string literal is
  one token whose decoded text is the original, whatever the text is.
\<close>

section \<open>Moving through the source\<close>

definition moves :: "tdb_lexer \<Rightarrow> tdb_lexer \<Rightarrow> bool" where
  "moves lx lx' \<longleftrightarrow> lx_z lx' = lx_z lx \<and> lx_len lx' = lx_len lx \<and> lx_pos lx \<le> lx_pos lx' \<and>
     (lx_pos lx \<le> lx_len lx \<longrightarrow> lx_pos lx' \<le> lx_len lx)"

named_theorems lex_moves \<open>what the scanning loops do to the position\<close>

lemma moves_refl [lex_moves]: "moves lx lx"
  by (simp add: moves_def)

lemma moves_trans: "moves a b \<Longrightarrow> moves b c \<Longrightarrow> moves a c"
  by (auto simp: moves_def)

lemma moves_skip [lex_moves]: "moves lx (skip_while P lx)"
  using skip_while_facts [of P lx] by (simp add: moves_def)

lemma moves_digits [lex_moves]: "moves lx (skip_digits lx)"
  by (simp add: skip_digits_def moves_skip)

lemma moves_close [lex_moves]: "moves lx (past_close lx)"
  by (simp add: moves_def past_close_def past_def)

lemma moves_trivia: "moves lx (skip_trivia lx)"
proof (induction lx rule: skip_trivia.induct)
  case (1 lx)
  obtain again lx' where s: "trivia_step lx = (again, lx')" by fastforce
  have "moves lx lx'" using trivia_step_facts [OF s] by (auto simp: moves_def)
  then show ?case using 1 [OF s [symmetric]] s by (subst skip_trivia.simps) (auto intro: moves_trans)
qed

lemma past_simps [simp]: "lx_z (past lx k) = lx_z lx" "lx_len (past lx k) = lx_len lx" "lx_pos (past lx k) = lx_pos lx + k"
  by (simp_all add: past_def)

lemma zat_past [simp]: "zat (past lx k) i = zat lx i"
  by (simp add: zat_def)

lemma at_off_in: "at_off lx k \<noteq> 0 \<Longrightarrow> lx_pos lx + k < lx_len lx"
  by (auto simp: at_off_def split: if_splits)

lemma moves_quoted: "delim \<noteq> 0 \<Longrightarrow> moves lx (quoted_loop delim lx)"
proof (induction delim lx rule: quoted_loop.induct)
  case (1 delim lx)
  show ?case
  proof (cases "lx_len lx \<le> lx_pos lx \<or> (zat lx (lx_pos lx) = delim \<and> at_off lx 1 \<noteq> unat delim)")
    case True
    then have "quoted_loop delim lx = lx" by (subst quoted_loop.simps) auto
    then show ?thesis by (simp add: moves_refl)
  next
    case False
    show ?thesis
    proof (cases "zat lx (lx_pos lx) = delim")
      case True
      have "lx_pos lx + 1 < lx_len lx" using 1(3) True False at_off_in [of lx 1] by (auto simp: unat_eq_zero)
      with 1(1,3) False True show ?thesis by (subst quoted_loop.simps) (auto simp: moves_def)
    next
      case F: False
      with 1(2,3) False show ?thesis by (subst quoted_loop.simps) (auto simp: moves_def)
    qed
  qed
qed

lemma dollar_loop_facts:
  "moves lx (dollar_loop tag lx) \<and>
   (lx_pos (dollar_loop tag lx) < lx_len lx \<longrightarrow> zat lx (lx_pos (dollar_loop tag lx) + 1 + length tag) = ch CHR ''$'')"
proof (induction tag lx rule: dollar_loop.induct)
  case (1 tag lx)
  let ?stop = "lx_len lx \<le> lx_pos lx \<or> (zat lx (lx_pos lx) = ch CHR ''$'' \<and> lx_pos lx + length tag + 1 \<le> lx_len lx \<and>
    token_text lx (lx_pos lx + 1) (length tag) = tag \<and> zat lx (lx_pos lx + 1 + length tag) = ch CHR ''$'')"
  have eq: "dollar_loop tag lx = (if ?stop then lx else dollar_loop tag (past lx 1))" by (subst dollar_loop.simps) simp
  show ?case
  proof (cases ?stop)
    case True
    then show ?thesis unfolding eq by (auto simp: moves_refl)
  next
    case False
    then have "moves lx (past lx 1)" by (auto simp: moves_def)
    with False 1 eq show ?thesis by (auto simp: zat_def intro: moves_trans)
  qed
qed

lemma skip_while_first: "lx_pos lx < lx_len lx \<Longrightarrow> P (zat lx (lx_pos lx)) \<Longrightarrow> lx_pos lx < lx_pos (skip_while P lx)"
  using skip_while_facts [of P "lx\<lparr>lx_pos := Suc (lx_pos lx)\<rparr>"] by (subst skip_while.simps) auto

section \<open>Tokens lie in the source\<close>

definition scans :: "tdb_lexer \<Rightarrow> tdb_token \<times> tdb_lexer \<Rightarrow> bool" where
  "scans lx r \<longleftrightarrow> lx_z (snd r) = lx_z lx \<and> lx_len (snd r) = lx_len lx \<and> lx_pos lx < lx_pos (snd r) \<and> lx_pos (snd r) \<le> lx_len lx \<and>
     lx_pos lx \<le> tk_off (fst r) \<and> tk_off (fst r) + tk_n (fst r) \<le> lx_pos (snd r) \<and> tk_kind (fst r) \<noteq> TK_EOF"

lemma lx_tok_simps [simp]: "tk_kind (lx_tok k off n) = k" "tk_off (lx_tok k off n) = off" "tk_n (lx_tok k off n) = n"
  by (simp_all add: lx_tok_def)

lemma scans_text:
  assumes "moves (past lx k) lx1" "moves lx1 lx2" "lx_pos lx + k \<le> lx_len lx" "0 < k" "kind \<noteq> TK_EOF"
  shows "scans lx (lx_tok kind (lx_pos lx + k) (lx_pos lx1 - (lx_pos lx + k)), lx2)"
  using assms by (auto simp: scans_def moves_def)

lemma scans_quoted: "lx_pos lx < lx_len lx \<Longrightarrow> delim \<noteq> 0 \<Longrightarrow> k \<noteq> TK_EOF \<Longrightarrow> scans lx (scan_quoted lx delim k)"
  unfolding scan_quoted_def Let_def by (rule scans_text) (simp_all add: moves_quoted moves_close)

lemma scans_until: "lx_pos lx + k \<le> lx_len lx \<Longrightarrow> 0 < k \<Longrightarrow> kind \<noteq> TK_EOF \<Longrightarrow> scans lx (scan_until lx k close kind)"
  unfolding scan_until_def Let_def by (rule scans_text) (simp_all add: moves_skip moves_close)

lemma keyword_kind: "tdb_keyword_lookup z \<noteq> TK_EOF"
proof -
  have "kw_loop z kws \<in> insert TK_ID (snd ` set kws)" for kws by (induction kws) auto
  moreover have "TK_EOF \<notin> insert TK_ID (snd ` set k_keywords)" by (simp add: k_keywords_def)
  ultimately show ?thesis unfolding tdb_keyword_lookup_def by metis
qed

lemma scans_ident:
  assumes "lx_pos lx < lx_len lx" "is_id_start (at_off lx 0)"
  shows "scans lx (lex_ident lx)"
proof -
  have "is_id_char (unat (zat lx (lx_pos lx)))"
    using assms by (auto simp: at_off_def is_id_start_def is_id_char_def c_isalnum_def)
  then have "lx_pos lx < lx_pos (skip_while (is_id_char \<circ> unat) lx)" using skip_while_first [OF assms(1)] by simp
  then show ?thesis
    using moves_skip [of lx "is_id_char \<circ> unat"] assms(1) keyword_kind by (auto simp: lex_ident_def scans_def moves_def Let_def)
qed

lemma scans_param: "lx_pos lx < lx_len lx \<Longrightarrow> scans lx (lex_param lx)"
  using moves_skip [of "past lx 1" "is_id_char \<circ> unat"] by (auto simp: lex_param_def scans_def moves_def Let_def)

lemma scans_op: "lx_pos lx < lx_len lx \<Longrightarrow> scans lx (lex_op lx)"
proof -
  assume p: "lx_pos lx < lx_len lx"
  have "scans lx (two_char lx alts k)" if "k \<noteq> TK_EOF" "\<forall>a \<in> set alts. snd a \<noteq> TK_EOF \<and> of_char (fst a) \<noteq> (0 :: nat)" for alts k
  proof (cases "find (\<lambda>a. at_off lx 1 = of_char (fst a)) alts")
    case None
    then show ?thesis using p that by (simp add: two_char_def scans_def)
  next
    case (Some a)
    then have a: "a \<in> set alts" "at_off lx 1 = of_char (fst a)" by (auto simp: find_Some_iff)
    with that have "lx_pos lx + 1 < lx_len lx" using at_off_in [of lx 1] by auto
    then show ?thesis using Some that a by (auto simp: two_char_def scans_def)
  qed
  then show ?thesis unfolding lex_op_def Let_def by (auto simp: p)
qed

lemma moves_fraction: "lex_fraction lx = (f, lx') \<Longrightarrow> moves lx lx'"
proof -
  assume f: "lex_fraction lx = (f, lx')"
  have "moves (past lx 1) (skip_digits (past lx 1))" by (rule moves_digits)
  then show ?thesis using f by (auto simp: lex_fraction_def moves_def split: if_splits)
qed

lemma moves_exponent:
  assumes "lex_exponent lx = (f, lx')"
  shows "moves lx lx'"
proof -
  let ?p = "past lx 1" and ?p2 = "past (past lx 1) 1"
  have "moves ?p (skip_digits ?p)" "moves ?p2 (skip_digits ?p2)" by (rule moves_digits)+
  then show ?thesis using assms by (auto simp: lex_exponent_def Let_def moves_def split: if_splits)
qed

lemma scans_number:
  assumes p: "lx_pos lx < lx_len lx" and c: "c_isdigit (at_off lx 0) \<or> (at_off lx 0 = of_char CHR ''.'' \<and> c_isdigit (at_off lx 1))"
  shows "scans lx (lex_number lx)"
proof (cases "at_off lx 0 = of_char CHR ''0'' \<and> (at_off lx 1 = of_char CHR ''x'' \<or> at_off lx 1 = of_char CHR ''X'')")
  case True
  then have "lx_pos lx + 1 < lx_len lx" using at_off_in [of lx 1] by auto
  then show ?thesis
    using True moves_skip [of "past lx 2" "c_isxdigit \<circ> unat"]
    by (auto simp: lex_number_def scans_def Let_def moves_def parse_number_def)
next
  case False
  obtain f1 lx1 where f: "lex_fraction (skip_digits lx) = (f1, lx1)" by fastforce
  obtain f2 lx2 where e: "lex_exponent lx1 = (f2, lx2)" by fastforce
  have m: "moves lx lx2" "moves (skip_digits lx) lx1" "moves lx1 lx2"
    using moves_digits [of lx] moves_fraction [OF f] moves_exponent [OF e] moves_trans by blast+
  have "lx_pos lx < lx_pos lx1"
  proof (cases "c_isdigit (at_off lx 0)")
    case True
    then have "lx_pos lx < lx_pos (skip_digits lx)" using p skip_while_first [OF p] by (simp add: skip_digits_def at_off_def)
    then show ?thesis using m by (auto simp: moves_def)
  next
    case nd: False
    then have z: "zat lx (lx_pos lx) = ch CHR ''.''" "\<not> c_isdigit (unat (zat lx (lx_pos lx)))" 
      using c p by (auto simp: at_off_def word_unat_eq_iff)
    then have "skip_digits lx = lx" by (simp add: skip_digits_def skip_while.simps [of _ lx])
    then have "lx1 = skip_digits (past lx 1)" using f p z(1) by (simp add: lex_fraction_def)
    then show ?thesis using moves_digits [of "past lx 1"] by (simp add: moves_def)
  qed
  moreover have "lex_number lx =
      (parse_number (token_text lx2 (lx_pos lx) (lx_pos lx2 - lx_pos lx)) (lx_tok (if f1 \<or> f2 then TK_FLOAT else TK_INTEGER) (lx_pos lx) (lx_pos lx2 - lx_pos lx)), lx2)"
    using False f e by (auto simp: lex_number_def Let_def)
  ultimately show ?thesis using m p by (auto simp: scans_def moves_def parse_number_def Let_def)
qed

lemma length_token_text [simp]: "length (token_text lx off n) = n"
  by (simp add: token_text_def)

lemma token_text_take: "off + n \<le> length (lx_z lx) \<Longrightarrow> token_text lx off n = take n (drop off (lx_z lx))"
  by (rule nth_equalityI) (auto simp: token_text_def zat_def)

lemma scans_dollar:
  assumes p: "lx_pos lx < lx_len lx" and z: "lx_len lx = length (lx_z lx)"
  shows "scans lx (lex_dollar lx)"
proof -
  define lx1 where "lx1 = skip_while (\<lambda>b. is_id_char (unat b) \<and> b \<noteq> ch CHR ''$'') (past lx 1)"
  define t where "t = lx_pos lx1"
  have m1: "moves (past lx 1) lx1" by (simp add: lx1_def moves_skip)
  show ?thesis
  proof (cases "t < lx_len lx1 \<and> zat lx1 t = ch CHR ''$''")
    case False
    then have "lex_dollar lx = lex_param lx" unfolding lex_dollar_def Let_def lx1_def [symmetric] t_def [symmetric] by auto
    then show ?thesis using scans_param [OF p] by simp
  next
    case True
    define tag where "tag = token_text lx (lx_pos lx + 1) (t - (lx_pos lx + 1))"
    define lx2 where "lx2 = dollar_loop tag (lx\<lparr>lx_pos := t + 1\<rparr>)"
    have len: "length tag = t - (lx_pos lx + 1)" by (simp add: tag_def)
    have eq: "lex_dollar lx = (lx_tok TK_STRING (t + 1) (lx_pos lx2 - (t + 1)), if lx_pos lx2 < lx_len lx2 then past lx2 (length tag + 2) else lx2)"
      using True unfolding lex_dollar_def Let_def lx1_def [symmetric] t_def [symmetric] tag_def [symmetric] lx2_def [symmetric] len by simp
    note d = dollar_loop_facts [of "lx\<lparr>lx_pos := t + 1\<rparr>" tag, folded lx2_def]
    have "lx_pos lx2 + 1 + length tag < lx_len lx" if "lx_pos lx2 < lx_len lx"
      using d that z by (auto simp: zat_def split: if_splits)
    then show ?thesis using d m1 True unfolding eq by (auto simp: scans_def moves_def t_def)
  qed
qed

lemma lex_next_scans:
  assumes z: "lx_pos lx \<le> lx_len lx" "lx_len lx = length (lx_z lx)"
  shows "if lx_pos (skip_trivia lx) < lx_len lx then scans (skip_trivia lx) (tdb_lex_next lx)
    else tdb_lex_next lx = (lx_tok TK_EOF (lx_pos (skip_trivia lx)) 0, skip_trivia lx)"
proof -
  let ?lx = "skip_trivia lx"
  have m: "lx_z ?lx = lx_z lx" "lx_len ?lx = lx_len lx" using moves_trivia [of lx] by (simp_all add: moves_def)
  have "scans ?lx (tdb_lex_next lx)" if p: "lx_pos ?lx < lx_len ?lx"
  proof -
    have two: "lx_pos ?lx + 2 \<le> lx_len ?lx" if "at_off ?lx 1 = 39" using at_off_in [of ?lx 1] that by simp
    have zz: "lx_len ?lx = length (lx_z ?lx)" using m z by simp
    show ?thesis
      unfolding tdb_lex_next_def Let_def
      using p scans_until scans_ident [OF p] scans_number [OF p] scans_quoted [OF p] scans_dollar [OF p zz] scans_param [OF p] scans_op [OF p] two
      by simp
  qed
  then show ?thesis using m by (auto simp: tdb_lex_next_def Let_def)
qed

text \<open>
  C25: The tokenizer stays inside its source and makes progress. From a position in a text whose
  length is the length of the buffer, the next token begins at or behind the position, its text
  and the new position lie in the source, and unless the token is the end the position grows;
  the end token leaves the position at the end. So the text is used up after at most as many
  tokens as it has bytes.
\<close>

theorem lex_next_in_bounds:
  assumes "lx_pos lx \<le> lx_len lx" "lx_len lx = length (lx_z lx)" "tdb_lex_next lx = (t, lx')"
  shows "lx_z lx' = lx_z lx \<and> lx_len lx' = lx_len lx \<and> lx_pos lx \<le> tk_off t \<and> tk_off t + tk_n t \<le> lx_pos lx' \<and>
    lx_pos lx' \<le> lx_len lx \<and> (if tk_kind t = TK_EOF then lx_pos lx' = lx_len lx else lx_pos lx < lx_pos lx') \<and>
    (\<exists>n \<le> lx_len lx - lx_pos lx. tk_kind (fst (tdb_lex_next (((snd \<circ> tdb_lex_next) ^^ n) lx))) = TK_EOF)"
proof -
  have one: "lx_z lx' = lx_z lx \<and> lx_len lx' = lx_len lx \<and> lx_pos lx \<le> tk_off t \<and> tk_off t + tk_n t \<le> lx_pos lx' \<and>
    lx_pos lx' \<le> lx_len lx \<and> (if tk_kind t = TK_EOF then lx_pos lx' = lx_len lx else lx_pos lx < lx_pos lx')"
    if "lx_pos lx \<le> lx_len lx" "lx_len lx = length (lx_z lx)" "tdb_lex_next lx = (t, lx')" for lx t lx'
    using lex_next_scans [OF that(1,2)] that moves_trivia [of lx] by (auto simp: scans_def moves_def split: if_splits)
  have "\<exists>n \<le> k. tk_kind (fst (tdb_lex_next (((snd \<circ> tdb_lex_next) ^^ n) lx))) = TK_EOF"
    if "k = lx_len lx - lx_pos lx" "lx_pos lx \<le> lx_len lx" "lx_len lx = length (lx_z lx)" for k lx
    using that
  proof (induction k arbitrary: lx rule: less_induct)
    case (less k)
    obtain t1 lx1 where n: "tdb_lex_next lx = (t1, lx1)" by fastforce
    note o = one [OF less.prems(2,3) n]
    show ?case
    proof (cases "tk_kind t1 = TK_EOF")
      case True
      then show ?thesis using n by (intro exI [of _ 0]) simp
    next
      case False
      with o have "lx_len lx1 - lx_pos lx1 < k" "lx_pos lx1 \<le> lx_len lx1" "lx_len lx1 = length (lx_z lx1)"
        using less.prems by auto
      then obtain m where "m \<le> lx_len lx1 - lx_pos lx1" "tk_kind (fst (tdb_lex_next (((snd \<circ> tdb_lex_next) ^^ m) lx1))) = TK_EOF"
        using less.IH by blast
      then show ?thesis
        using n \<open>lx_len lx1 - lx_pos lx1 < k\<close> by (intro exI [of _ "Suc m"]) (simp add: funpow_Suc_right comp_def del: funpow.simps)
    qed
  qed
  then show ?thesis using one [OF assms] assms(1,2) by blast
qed

theorem lex_next_in_bounds_witness:
  "let lx = \<lparr>lx_z = [97, 32, 36, 36, 98], lx_len = 5, lx_pos = 1\<rparr> in
   tdb_lex_next lx = (lx_tok TK_STRING 4 1, lx\<lparr>lx_pos := 5\<rparr>) \<and>
   (\<exists>n \<le> 4. tk_kind (fst (tdb_lex_next (((snd \<circ> tdb_lex_next) ^^ n) lx))) = TK_EOF)"
proof -
  let ?lx = "\<lparr>lx_z = [97, 32, 36, 36, 98], lx_len = 5, lx_pos = 1\<rparr>"
  have n: "tdb_lex_next ?lx = (lx_tok TK_STRING 4 1, ?lx\<lparr>lx_pos := 5\<rparr>)" by code_simp
  have "\<exists>n \<le> lx_len ?lx - lx_pos ?lx. tk_kind (fst (tdb_lex_next (((snd \<circ> tdb_lex_next) ^^ n) ?lx))) = TK_EOF"
    by (rule lex_next_in_bounds [OF _ _ n, THEN conjunct2, THEN conjunct2, THEN conjunct2, THEN conjunct2, THEN conjunct2, THEN conjunct2]) simp_all
  then show ?thesis using n by (simp only: Let_def) simp
qed

section \<open>String literals\<close>

text \<open>A string as an SQL literal writes it, with each quote doubled.\<close>

definition quote_string :: "bytes \<Rightarrow> bytes" where
  "quote_string s = concat (map (\<lambda>b. if b = 39 then [39, 39] else [b]) s)"

lemma decode_quote: "decode_string (quote_string s) = s"
proof (induction s)
  case (Cons b s)
  have "decode_string (b # quote_string s) = b # decode_string (quote_string s)" if "b \<noteq> 39"
    using that by (cases "quote_string s") auto
  then show ?case using Cons by (simp add: quote_string_def)
qed (simp add: quote_string_def)

definition ahead :: "tdb_lexer \<Rightarrow> bytes" where
  "ahead lx = drop (lx_pos lx) (lx_z lx)"

lemma ahead_Cons:
  assumes "ahead lx = b # r" "lx_len lx = length (lx_z lx)"
  shows "lx_pos lx < lx_len lx" "zat lx (lx_pos lx) = b" "ahead (past lx 1) = r" "at_off lx 0 = unat b"
    "at_off lx 1 = (case r of [] \<Rightarrow> 0 | c # _ \<Rightarrow> unat c)"
proof -
  have d: "drop (lx_pos lx) (lx_z lx) = b # r" using assms(1) by (simp add: ahead_def)
  show p: "lx_pos lx < lx_len lx" using d assms(2) by (metis drop_eq_Nil leI list.distinct(1))
  have n: "lx_z lx ! lx_pos lx = b" using d p assms(2) by (metis nth_via_drop)
  show "zat lx (lx_pos lx) = b" "at_off lx 0 = unat b" using n p assms(2) by (simp_all add: zat_def at_off_def)
  show r: "ahead (past lx 1) = r" using d by (simp add: ahead_def drop_Suc flip: tl_drop)
  show "at_off lx 1 = (case r of [] \<Rightarrow> 0 | c # _ \<Rightarrow> unat c)"
  proof (cases r)
    case Nil
    then have "\<not> Suc (lx_pos lx) < lx_len lx" using r assms(2) by (simp add: ahead_def)
    then show ?thesis using Nil by (simp add: at_off_def)
  next
    case (Cons c r')
    then have "drop (Suc (lx_pos lx)) (lx_z lx) = c # r'" using r by (simp add: ahead_def)
    then have "lx_z lx ! Suc (lx_pos lx) = c" "Suc (lx_pos lx) < lx_len lx"
      using assms(2) by (metis nth_via_drop) (metis \<open>drop (Suc (lx_pos lx)) (lx_z lx) = c # r'\<close> assms(2) drop_eq_Nil leI list.distinct(1))
    then show ?thesis using Cons assms(2) by (simp add: at_off_def zat_def)
  qed
qed

lemma past_past [simp]: "past (past lx a) b = past lx (a + b)"
  by (simp add: past_def add.assoc)

lemma quoted_loop_quote:
  assumes "ahead lx = quote_string s @ 39 # r" "lx_len lx = length (lx_z lx)" "r = [] \<or> hd r \<noteq> 39"
  shows "quoted_loop 39 lx = past lx (length (quote_string s)) \<and> zat lx (lx_pos lx + length (quote_string s)) = 39 \<and>
    lx_pos lx + length (quote_string s) < lx_len lx"
  using assms
proof (induction s arbitrary: lx)
  case Nil
  then have a: "ahead lx = 39 # r" by (simp add: quote_string_def)
  note f = ahead_Cons [OF a Nil.prems(2)]
  have "at_off lx 1 \<noteq> 39"
    using f(5) Nil.prems(3) by (auto split: list.splits simp: word_unat_eq_iff)
  then show ?case using f by (subst quoted_loop.simps) (simp add: quote_string_def past_def)
next
  case (Cons b s)
  show ?case
  proof (cases "b = 39")
    case True
    then have a: "ahead lx = 39 # 39 # quote_string s @ 39 # r" using Cons.prems(1) by (simp add: quote_string_def)
    note f = ahead_Cons [OF a Cons.prems(2)]
    have g: "ahead (past lx 2) = quote_string s @ 39 # r"
      using ahead_Cons(3) [OF f(3)] Cons.prems(2) by (simp add: numeral_2_eq_2)
    show ?thesis
      using Cons.IH [OF g] Cons.prems(2,3) f True
      by (subst quoted_loop.simps) (simp add: quote_string_def)
  next
    case False
    then have a: "ahead lx = b # quote_string s @ 39 # r" using Cons.prems(1) by (simp add: quote_string_def)
    note f = ahead_Cons [OF a Cons.prems(2)]
    show ?thesis
      using Cons.IH [OF f(3)] Cons.prems(2,3) f False
      by (subst quoted_loop.simps) (simp add: quote_string_def)
  qed
qed

lemma trivia_none:
  assumes "ahead lx = b # r" "lx_len lx = length (lx_z lx)" "\<not> c_isspace (unat b)" "b \<noteq> ch CHR ''-''" "b \<noteq> ch CHR ''/''"
  shows "skip_trivia lx = lx"
proof -
  note f = ahead_Cons [OF assms(1,2)]
  have "skip_while (c_isspace \<circ> unat) lx = lx" using f assms(3) by (subst skip_while.simps) simp
  then show ?thesis using f assms(4,5) by (subst skip_trivia.simps) (simp add: trivia_step_def)
qed

text \<open>
  C18: A string literal is one token. Whatever bytes a string has, written between quotes with its
  own quotes doubled and followed by anything but a quote it is read as one string token, the
  lexer goes on right behind the closing quote, and the text the parser decodes from the token
  is the string: no content can end the literal early. The value of the literal is the string up
  to its first NUL, hence the whole string if it has none.
\<close>

theorem string_literal_roundtrip:
  assumes "ahead lx = 39 # quote_string s @ 39 # r" "lx_len lx = length (lx_z lx)" "r = [] \<or> hd r \<noteq> 39"
  shows "\<exists>t. tdb_lex_next lx = (t, past lx (length (quote_string s) + 2)) \<and> tk_kind t = TK_STRING \<and>
    decode_string (token_text lx (tk_off t) (tk_n t)) = s \<and>
    parse_string_literal lx t = TDB_VAL_TEXT (takeWhile (\<lambda>b. b \<noteq> 0) s)"
proof -
  note f = ahead_Cons [OF assms(1,2)]
  have len: "lx_len (past lx 1) = length (lx_z (past lx 1))" using assms(2) by simp
  note q = quoted_loop_quote [OF f(3) len assms(3)]
  have "tdb_lex_next lx = scan_quoted lx 39 TK_STRING"
    using f trivia_none [OF assms(1,2)] by (simp add: c_isspace_def tdb_lex_next_def is_id_start_def c_isalpha_def c_isdigit_def)
  also have "\<dots> = (lx_tok TK_STRING (lx_pos lx + 1) (length (quote_string s)), past lx (length (quote_string s) + 2))"
    using q by (simp add: scan_quoted_def past_close_def)
  finally have n: "tdb_lex_next lx = (lx_tok TK_STRING (lx_pos lx + 1) (length (quote_string s)), past lx (length (quote_string s) + 2))" .
  have "token_text lx (lx_pos lx + 1) (length (quote_string s)) = take (length (quote_string s)) (drop (lx_pos lx + 1) (lx_z lx))"
    using q assms(2) by (intro token_text_take) simp
  also have "\<dots> = quote_string s" using f(3) by (simp add: ahead_def)
  finally show ?thesis using n by (simp add: decode_quote parse_string_literal_def c_strlen_def takeWhile_eq_take [symmetric])
qed

theorem string_literal_roundtrip_witness:
  "let lx = \<lparr>lx_z = [40, 39, 105, 116, 39, 39, 115, 39, 41], lx_len = 9, lx_pos = 1\<rparr> in
   \<exists>t. tdb_lex_next lx = (t, lx\<lparr>lx_pos := 8\<rparr>) \<and> parse_string_literal lx t = TDB_VAL_TEXT [105, 116, 39, 115]"
proof -
  let ?lx = "\<lparr>lx_z = [40, 39, 105, 116, 39, 39, 115, 39, 41], lx_len = 9, lx_pos = 1\<rparr>"
  have "\<exists>t. tdb_lex_next ?lx = (t, past ?lx (length (quote_string [105, 116, 39, 115]) + 2)) \<and> tk_kind t = TK_STRING \<and>
      decode_string (token_text ?lx (tk_off t) (tk_n t)) = [105, 116, 39, 115] \<and>
      parse_string_literal ?lx t = TDB_VAL_TEXT (takeWhile (\<lambda>b. b \<noteq> 0) [105, 116, 39, 115])"
    by (rule string_literal_roundtrip [of _ _ "[41]"]) (simp_all add: ahead_def quote_string_def)
  then obtain t where t: "tdb_lex_next ?lx = (t, past ?lx (length (quote_string [105, 116, 39, 115]) + 2))"
    "parse_string_literal ?lx t = TDB_VAL_TEXT (takeWhile (\<lambda>b. b \<noteq> 0) [105, 116, 39, 115])" by blast
  have e: "past ?lx (length (quote_string [105, 116, 39, 115]) + 2) = ?lx\<lparr>lx_pos := 8\<rparr>"
    "takeWhile (\<lambda>b. b \<noteq> 0) [105, 116, 39, 115] = [105, 116, 39, 115 :: byte]" by code_simp+
  show ?thesis unfolding Let_def by (rule exI [of _ t], rule conjI [OF t(1) [unfolded e] t(2) [unfolded e]])
qed

section \<open>Integer literals\<close>

lemma skip_while_ahead:
  assumes "ahead lx = ds @ r" "lx_len lx = length (lx_z lx)" "list_all P ds" "r = [] \<or> \<not> P (hd r)"
  shows "skip_while P lx = past lx (length ds) \<and> ahead (past lx (length ds)) = r"
  using assms
proof (induction ds arbitrary: lx)
  case Nil
  show ?case
  proof (cases r)
    case Nil
    then have "lx_len lx \<le> lx_pos lx" using Nil.prems by (simp add: ahead_def)
    then show ?thesis using Nil.prems by (subst skip_while.simps) (simp add: past_def)
  next
    case (Cons b r')
    then have "\<not> P (zat lx (lx_pos lx))" using ahead_Cons(2) [of lx b r'] Nil.prems by simp
    then show ?thesis using Nil.prems by (subst skip_while.simps) (simp add: past_def)
  qed
next
  case (Cons d ds)
  then have a: "ahead lx = d # ds @ r" by simp
  note f = ahead_Cons [OF a Cons.prems(2)]
  have "skip_while P (past lx 1) = past (past lx 1) (length ds) \<and> ahead (past (past lx 1) (length ds)) = r"
    by (rule Cons.IH [OF f(3)]) (use Cons.prems in simp_all)
  moreover have "skip_while P lx = skip_while P (past lx 1)"
    using f(1,2) Cons.prems(3) by (subst skip_while.simps) (simp add: past_def)
  ultimately show ?case by simp
qed

text \<open>The bytes after a number that would be part of it.\<close>

definition ends_number :: "bytes \<Rightarrow> bytes \<Rightarrow> bool" where
  "ends_number ds r \<longleftrightarrow> r = [] \<or> (\<not> c_isdigit (unat (hd r)) \<and> hd r \<notin> {ch CHR ''.'', ch CHR ''e'', ch CHR ''E''} \<and>
     (ds = [ch CHR ''0''] \<longrightarrow> hd r \<notin> {ch CHR ''x'', ch CHR ''X''}))"

lemma lex_number_digits:
  assumes a: "ahead lx = ds @ r" "lx_len lx = length (lx_z lx)" and ds: "list_all (c_isdigit \<circ> unat) ds" "ds \<noteq> []" and r: "ends_number ds r"
  shows "lex_number lx = (parse_number ds (lx_tok TK_INTEGER (lx_pos lx) (length ds)), past lx (length ds))"
proof -
  have s: "skip_digits lx = past lx (length ds)" "ahead (past lx (length ds)) = r"
    using skip_while_ahead [OF a ds(1)] r by (auto simp: skip_digits_def ends_number_def)
  have len: "lx_len (past lx (length ds)) = length (lx_z (past lx (length ds)))" using a(2) by simp
  have nx: "lex_fraction (past lx (length ds)) = (False, past lx (length ds)) \<and> lex_exponent (past lx (length ds)) = (False, past lx (length ds))"
  proof (cases r)
    case Nil
    then show ?thesis using s(2) a(2) by (simp add: ahead_def lex_fraction_def lex_exponent_def)
  next
    case (Cons b r')
    then show ?thesis using ahead_Cons [OF s(2) [unfolded Cons] len] r by (auto simp: ends_number_def lex_fraction_def lex_exponent_def)
  qed
  obtain d ds' where d: "ds = d # ds'" using ds(2) by (cases ds) auto
  have "ahead lx = d # ds' @ r" using a(1) d by simp
  note f = ahead_Cons [OF this a(2)]
  have hex: "\<not> (at_off lx 0 = of_char CHR ''0'' \<and> (at_off lx 1 = of_char CHR ''x'' \<or> at_off lx 1 = of_char CHR ''X''))"
    using f(4,5) ds(1) r by (cases ds'; cases r) (auto simp: d ends_number_def c_isdigit_def word_unat_eq_iff)
  have "lx_pos lx + length ds \<le> length (lx_z lx)"
    using a(1) f(1) a(2) by (metis ahead_def add.commute diff_add_inverse2 le_add1 le_diff_conv2 length_append length_drop less_imp_le)
  then have "token_text (past lx (length ds)) (lx_pos lx) (length ds) = ds"
    using a(1) by (subst token_text_take) (simp_all add: ahead_def)
  then show ?thesis using hex s(1) nx by (auto simp: lex_number_def Let_def)
qed

text \<open>The value of digits as C reads them with base 0.\<close>

lemma strtoll_digits:
  assumes "list_all (c_isdigit \<circ> unat) ds" "ds \<noteq> []"
  shows "c_strtoll0 ds = word_of_int (min (int (if hd ds = ch CHR ''0'' then digits_val 8 (takeWhile (\<lambda>d. d \<noteq> ch CHR ''8'' \<and> d \<noteq> ch CHR ''9'') ds)
    else digits_val 10 ds)) (2 ^ 63 - 1))"
proof -
  have dig: "digit_val d < 10 \<and> (digit_val d < 8 \<longleftrightarrow> d \<noteq> ch CHR ''8'' \<and> d \<noteq> ch CHR ''9'') \<and> d \<noteq> ch CHR ''x'' \<and> d \<noteq> ch CHR ''X''" if "d \<in> set ds" for d
    using that assms(1) by (auto simp: list_all_iff c_isdigit_def digit_val_def Let_def word_unat_eq_iff)
  have ten: "takeWhile (\<lambda>b. digit_val b < 10) ds = ds" using dig by (simp add: takeWhile_eq_all_conv)
  have "takeWhile (\<lambda>b. digit_val b < 8) ds = takeWhile (\<lambda>d. d \<noteq> ch CHR ''8'' \<and> d \<noteq> ch CHR ''9'') ds"
    using dig by (intro takeWhile_cong) auto
  moreover have "\<not> (ds ! 1 = ch CHR ''x'' \<or> ds ! 1 = ch CHR ''X'')" if "2 < length ds" using dig [of "ds ! 1"] that by simp
  moreover have "ds ! 0 = hd ds" using assms(2) by (simp add: hd_conv_nth)
  ultimately show ?thesis using assms(2) by (auto simp: c_strtoll0_def Let_def ten simp del: takeWhile_eq_all_conv)
qed

text \<open>
  C40: The value of an integer literal. A run of at most 79 decimal digits that no digit, point or
  exponent follows is one integer token over exactly these digits. If the first digit is not 0, its
  value is the decimal one, at most \<open>2 ^ 63 - 1\<close>. If it is 0, the digits are read as octal and only
  up to the first 8 or 9: \<^verbatim>\<open>010\<close> is the number 8 and \<^verbatim>\<open>09\<close> is 0.
\<close>

theorem lex_leading_zero_octal:
  assumes "ahead lx = ds @ r" "lx_len lx = length (lx_z lx)" "list_all (c_isdigit \<circ> unat) ds" "ds \<noteq> []" "length ds \<le> 79" "ends_number ds r"
  shows "\<exists>t. tdb_lex_next lx = (t, past lx (length ds)) \<and> tk_kind t = TK_INTEGER \<and> tk_off t = lx_pos lx \<and> tk_n t = length ds \<and>
    tk_ival t = word_of_int (min (int
      (if hd ds = ch CHR ''0'' then digits_val 8 (takeWhile (\<lambda>d. d \<noteq> ch CHR ''8'' \<and> d \<noteq> ch CHR ''9'') ds) else digits_val 10 ds)) (2 ^ 63 - 1))"
proof -
  obtain d ds' where d: "ds = d # ds'" using assms(4) by (cases ds) auto
  have a: "ahead lx = d # ds' @ r" using assms(1) d by simp
  note f = ahead_Cons [OF a assms(2)]
  have dg: "c_isdigit (unat d)" using assms(3) by (simp add: d)
  then have "skip_trivia lx = lx" by (intro trivia_none [OF a assms(2)]) (auto simp: c_isdigit_def c_isspace_def)
  then have "tdb_lex_next lx = lex_number lx"
    using f dg by (auto simp: tdb_lex_next_def is_id_start_def c_isalpha_def c_isdigit_def)
  then have "tdb_lex_next lx = (parse_number ds (lx_tok TK_INTEGER (lx_pos lx) (length ds)), past lx (length ds))"
    using lex_number_digits [OF assms(1,2,3,4,6)] by simp
  then show ?thesis using assms(5) strtoll_digits [OF assms(3,4)] by (simp add: parse_number_def Let_def)
qed

theorem lex_leading_zero_octal_witness:
  "tk_ival (fst (tdb_lex_next \<lparr>lx_z = [40, 48, 49, 48, 41], lx_len = 5, lx_pos = 1\<rparr>)) = 8 \<and>
   tk_ival (fst (tdb_lex_next \<lparr>lx_z = [48, 57], lx_len = 2, lx_pos = 0\<rparr>)) = 0"
proof -
  let ?a = "\<lparr>lx_z = [40, 48, 49, 48, 41], lx_len = 5, lx_pos = 1\<rparr>" and ?b = "\<lparr>lx_z = [48, 57], lx_len = 2, lx_pos = 0\<rparr>"
  have "\<exists>t. tdb_lex_next ?a = (t, past ?a (length [48, 49, 48 :: byte])) \<and> tk_kind t = TK_INTEGER \<and> tk_off t = lx_pos ?a \<and>
    tk_n t = length [48, 49, 48 :: byte] \<and> tk_ival t = word_of_int (min (int
      (if hd [48, 49, 48] = ch CHR ''0'' then digits_val 8 (takeWhile (\<lambda>d. d \<noteq> ch CHR ''8'' \<and> d \<noteq> ch CHR ''9'') [48, 49, 48])
       else digits_val 10 [48, 49, 48])) (2 ^ 63 - 1))"
    by (rule lex_leading_zero_octal [of _ _ "[41]"]) (simp_all add: ahead_def c_isdigit_def ends_number_def)
  moreover have "\<exists>t. tdb_lex_next ?b = (t, past ?b (length [48, 57 :: byte])) \<and> tk_kind t = TK_INTEGER \<and> tk_off t = lx_pos ?b \<and>
    tk_n t = length [48, 57 :: byte] \<and> tk_ival t = word_of_int (min (int
      (if hd [48, 57] = ch CHR ''0'' then digits_val 8 (takeWhile (\<lambda>d. d \<noteq> ch CHR ''8'' \<and> d \<noteq> ch CHR ''9'') [48, 57])
       else digits_val 10 [48, 57])) (2 ^ 63 - 1))"
    by (rule lex_leading_zero_octal [of _ _ "[]"]) (simp_all add: ahead_def c_isdigit_def ends_number_def)
  ultimately show ?thesis by (auto simp: digits_val_def digit_val_def)
qed

end
