(* ===== verification/Tdb_Mem.thy ===== *)
theory Tdb_Mem
  imports Tdb_Value
begin

text \<open>
  \<^verbatim>\<open>src/common/tdb_mem.c\<close>: C strings and the arena allocator. A C string is the list of its
  bytes before the NUL, and \<open>None\<close> is \<^verbatim>\<open>NULL\<close>. Whether the C allocator serves a request of a
  given size is the argument \<open>ok\<close>. A pointer into an arena is the number of the block, counted
  from the oldest, and the offset from the start of the memory that \<^verbatim>\<open>malloc\<close> gave for it: the
  block's header of 24 bytes, then its data. Sizes are 64-bit words that wrap around.
\<close>

section \<open>C strings\<close>

type_synonym cstr = bytes

definition c_str :: "bytes \<Rightarrow> cstr" where
  "c_str p = takeWhile (\<lambda>b. b \<noteq> 0) p"

definition tdb_strndup :: "(nat \<Rightarrow> bool) \<Rightarrow> bytes \<Rightarrow> nat \<Rightarrow> cstr option" where
  "tdb_strndup ok s n = (if ok (n + 1) then Some (c_str (take n s)) else None)"

definition tdb_strdup :: "(nat \<Rightarrow> bool) \<Rightarrow> cstr option \<Rightarrow> cstr option" where
  "tdb_strdup ok s = (case s of None \<Rightarrow> None | Some s \<Rightarrow> tdb_strndup ok s (length s))"

text \<open>A list of bytes that is a C string.\<close>

definition cstr_ok :: "cstr \<Rightarrow> bool" where
  "cstr_ok s \<longleftrightarrow> 0 \<notin> set s"

lemma c_str_ok [simp]: "cstr_ok s \<Longrightarrow> c_str s = s"
  by (auto simp: c_str_def cstr_ok_def takeWhile_eq_all_conv)

lemma tdb_strdup_ok [simp]: "cstr_ok s \<Longrightarrow> tdb_strdup ok (Some s) = (if ok (length s + 1) then Some s else None)"
  by (simp add: tdb_strdup_def tdb_strndup_def)

lemma tdb_strdup_None [simp]: "tdb_strdup ok None = None"
  by (simp add: tdb_strdup_def)

text \<open>\<^verbatim>\<open>strcasecmp(a, b) == 0\<close> and \<^verbatim>\<open>strncasecmp(a, b, strlen(b)) == 0\<close>\<close>

definition bytes_ci :: "cstr \<Rightarrow> nat list" where
  "bytes_ci s = map (c_tolower \<circ> unat) s"

definition strcase_eq :: "cstr \<Rightarrow> cstr \<Rightarrow> bool" where
  "strcase_eq a b \<longleftrightarrow> bytes_ci a = bytes_ci b"

definition strcase_prefix :: "cstr \<Rightarrow> cstr \<Rightarrow> bool" where
  "strcase_prefix a b \<longleftrightarrow> length b \<le> length a \<and> bytes_ci (take (length b) a) = bytes_ci b"

abbreviation lit :: "string \<Rightarrow> cstr" where
  "lit s \<equiv> map of_char s"

lemma strcase_eq_refl [simp]: "strcase_eq a a"
  by (simp add: strcase_eq_def)

lemma strcase_eq_sym: "strcase_eq a b \<Longrightarrow> strcase_eq b a"
  by (simp add: strcase_eq_def)

lemma strcase_eq_trans: "strcase_eq a b \<Longrightarrow> strcase_eq b c \<Longrightarrow> strcase_eq a c"
  by (simp add: strcase_eq_def)

section \<open>Arenas\<close>

record arena_block =
  ab_used :: u64
  ab_cap :: u64

record tdb_arena =
  ar_blocks :: "arena_block list"
  ar_block_size :: u64

definition tdb_align_up :: "u64 \<Rightarrow> u64" where
  "tdb_align_up n = (n + 15) AND NOT 15"

text \<open>\<^verbatim>\<open>sizeof(tdb_arena_block)\<close>: a pointer and two sizes.\<close>

abbreviation block_hdr :: u64 where
  "block_hdr \<equiv> 24"

definition arena_block_new :: "(nat \<Rightarrow> bool) \<Rightarrow> u64 \<Rightarrow> arena_block option" where
  "arena_block_new ok c = (if ok (unat (block_hdr + c)) then Some \<lparr>ab_used = 0, ab_cap = c\<rparr> else None)"

definition tdb_arena_new :: "(nat \<Rightarrow> bool) \<Rightarrow> u64 \<Rightarrow> tdb_arena option" where
  "tdb_arena_new ok block_size =
     (if \<not> ok 16 then None
      else
        (let bs = (if block_size < 4096 then 4096 else block_size) in
         case arena_block_new ok bs of None \<Rightarrow> None | Some b \<Rightarrow> Some \<lparr>ar_blocks = [b], ar_block_size = bs\<rparr>))"

definition tdb_arena_alloc :: "(nat \<Rightarrow> bool) \<Rightarrow> tdb_arena \<Rightarrow> u64 \<Rightarrow> (nat \<times> u64) option \<times> tdb_arena" where
  "tdb_arena_alloc ok a n0 =
     (let n = tdb_align_up (if n0 \<noteq> 0 then n0 else 1); b = hd (ar_blocks a) in
      if ab_cap b < ab_used b + n then
        (let c = (if ar_block_size a < n then n else ar_block_size a) in
         case arena_block_new ok c of
           None \<Rightarrow> (None, a)
         | Some nb \<Rightarrow> (Some (length (ar_blocks a), block_hdr + ab_used nb), a\<lparr>ar_blocks := nb\<lparr>ab_used := ab_used nb + n\<rparr> # ar_blocks a\<rparr>))
      else (Some (length (ar_blocks a) - 1, block_hdr + ab_used b), a\<lparr>ar_blocks := b\<lparr>ab_used := ab_used b + n\<rparr> # tl (ar_blocks a)\<rparr>))"

definition tdb_arena_strndup :: "(nat \<Rightarrow> bool) \<Rightarrow> tdb_arena \<Rightarrow> bytes \<Rightarrow> u64 \<Rightarrow> ((nat \<times> u64) \<times> bytes) option \<times> tdb_arena" where
  "tdb_arena_strndup ok a s n =
     (case tdb_arena_alloc ok a (n + 1) of
        (None, a1) \<Rightarrow> (None, a1)
      | (Some p, a1) \<Rightarrow> (Some (p, take (unat n) s @ [0]), a1))"

text \<open>A sequence of allocations: for each request what it got.\<close>

primrec arena_run :: "(nat \<Rightarrow> bool) \<Rightarrow> tdb_arena \<Rightarrow> u64 list \<Rightarrow> ((nat \<times> u64) option \<times> u64) list \<times> tdb_arena" where
  "arena_run ok a [] = ([], a)"
| "arena_run ok a (n # ns) =
     (case tdb_arena_alloc ok a n of (p, a1) \<Rightarrow> case arena_run ok a1 ns of (ps, a2) \<Rightarrow> ((p, n) # ps, a2))"

section \<open>Allocations do not overlap\<close>

text \<open>The block with a given number, and the memory that is in use.\<close>

definition block_at :: "tdb_arena \<Rightarrow> nat \<Rightarrow> arena_block" where
  "block_at a i = rev (ar_blocks a) ! i"

definition arena_inv :: "tdb_arena \<Rightarrow> bool" where
  "arena_inv a \<longleftrightarrow> ar_blocks a \<noteq> [] \<and> unat (ar_block_size a) \<le> 2 ^ 62 \<and>
     (\<forall>b \<in> set (ar_blocks a). unat (ab_used b) \<le> unat (ab_cap b) \<and> unat (ab_cap b) \<le> 2 ^ 62 + 16 \<and> 16 dvd unat (ab_used b))"

lemma align_up_nat:
  assumes "unat n \<le> 2 ^ 62"
  shows "unat (tdb_align_up n) = (unat n + 15) div 16 * 16"
proof -
  have "unat (n + 15) = unat n + 15" using assms by (simp add: unat_word_ariths)
  moreover have "(n + 15) AND NOT 15 = push_bit 4 (drop_bit 4 (n + 15))"
  proof -
    have m: "(15 :: u64) = mask 4" by (simp add: mask_eq_exp_minus_1)
    show ?thesis unfolding m by (rule bit_word_eqI) (auto simp: bit_simps)
  qed
  moreover have "unat (push_bit 4 (drop_bit 4 (n + 15))) = (unat n + 15) div 16 * 16" if "unat (n + 15) = unat n + 15"
    using that assms by (simp add: push_bit_eq_mult unat_word_ariths unat_drop_bit_div mult.commute)
  ultimately show ?thesis by (simp add: tdb_align_up_def)
qed

text \<open>What grows from one arena to the next: blocks stay, and their used parts grow.\<close>

definition arena_grows :: "tdb_arena \<Rightarrow> tdb_arena \<Rightarrow> bool" where
  "arena_grows a a' \<longleftrightarrow> length (ar_blocks a) \<le> length (ar_blocks a') \<and>
     (\<forall>i < length (ar_blocks a). ab_cap (block_at a' i) = ab_cap (block_at a i) \<and> unat (ab_used (block_at a i)) \<le> unat (ab_used (block_at a' i)))"

lemma arena_grows_refl: "arena_grows a a"
  by (simp add: arena_grows_def)

lemma arena_grows_trans: "arena_grows a b \<Longrightarrow> arena_grows b c \<Longrightarrow> arena_grows a c"
  unfolding arena_grows_def by (metis (no_types, lifting) le_trans less_le_trans)

lemma align_up_facts:
  assumes "unat n0 \<le> 2 ^ 62" and n: "n = tdb_align_up (if n0 \<noteq> 0 then n0 else 1)"
  shows "unat n0 \<le> unat n" "unat n \<le> 2 ^ 62 + 15" "16 dvd unat n"
proof -
  have e: "unat n = (unat (if n0 \<noteq> 0 then n0 else 1) + 15) div 16 * 16" unfolding n by (rule align_up_nat) (use assms in auto)
  show "unat n0 \<le> unat n" "unat n \<le> 2 ^ 62 + 15" "16 dvd unat n" using e assms(1) by auto
qed

lemma arena_alloc_ok:
  assumes inv: "arena_inv a" and n0: "unat n0 \<le> 2 ^ 62" and al: "tdb_arena_alloc ok a n0 = (Some (i, off), a')"
  shows "arena_inv a'" "arena_grows a a'" "i < length (ar_blocks a')" "24 \<le> unat off" "unat off mod 16 = 8"
    "unat off + unat n0 \<le> 24 + unat (ab_used (block_at a' i))" "i < length (ar_blocks a) \<Longrightarrow> 24 + unat (ab_used (block_at a i)) \<le> unat off"
proof -
  define n where "n = tdb_align_up (if n0 \<noteq> 0 then n0 else 1)"
  note nf = align_up_facts [OF n0 n_def]
  obtain b bs where bs: "ar_blocks a = b # bs" using inv by (cases "ar_blocks a") (auto simp: arena_inv_def)
  have b: "unat (ab_used b) \<le> unat (ab_cap b)" "unat (ab_cap b) \<le> 2 ^ 62 + 16" "16 dvd unat (ab_used b)" "unat (ar_block_size a) \<le> 2 ^ 62"
    using inv by (simp_all add: arena_inv_def bs)
  have off: "unat (24 + ab_used b) = 24 + unat (ab_used b)" "(24 + unat (ab_used b)) mod 16 = 8"
    using b by (simp_all add: unat_word_ariths mod_add_eq [of 24 16, symmetric])
  have add: "unat (ab_used b + n) = unat (ab_used b) + unat n" using b nf by (simp add: unat_word_ariths)
  consider (new) c where "ab_cap b < ab_used b + n" "c = (if ar_block_size a < n then n else ar_block_size a)"
      "i = Suc (length bs)" "off = 24" "a' = a\<lparr>ar_blocks := \<lparr>ab_used = n, ab_cap = c\<rparr> # b # bs\<rparr>"
    | (old) "\<not> ab_cap b < ab_used b + n" "i = length bs" "off = 24 + ab_used b" "a' = a\<lparr>ar_blocks := b\<lparr>ab_used := ab_used b + n\<rparr> # bs\<rparr>"
    using al by (auto simp: tdb_arena_alloc_def n_def [symmetric] bs Let_def arena_block_new_def split: if_splits)
  then have "arena_inv a' \<and> arena_grows a a' \<and> i < length (ar_blocks a') \<and> 24 \<le> unat off \<and> unat off mod 16 = 8 \<and>
    unat off + unat n0 \<le> 24 + unat (ab_used (block_at a' i)) \<and> (i < length (ar_blocks a) \<longrightarrow> 24 + unat (ab_used (block_at a i)) \<le> unat off)"
  proof cases
    case new
    have c: "unat n \<le> unat c" "unat c \<le> 2 ^ 62 + 16" using new(2) nf b by (auto simp: word_less_nat_alt)
    have old: "block_at a' j = block_at a j" if "j < length (ar_blocks a)" for j
      using that by (simp add: block_at_def new(5) bs nth_append)
    show ?thesis using inv c nf new(3-5) old by (simp add: arena_inv_def arena_grows_def bs block_at_def nth_append)
  next
    case old
    have fit: "unat (ab_used b) + unat n \<le> unat (ab_cap b)" using old(1) add by (simp add: word_less_nat_alt)
    have at: "block_at a' j = (if j = length bs then b\<lparr>ab_used := ab_used b + n\<rparr> else block_at a j)" if "j < length (ar_blocks a)" for j
      using that by (auto simp: block_at_def old(4) bs nth_append)
    have last: "block_at a (length bs) = b" by (simp add: block_at_def bs nth_append)
    show ?thesis
      using inv b fit add nf off old(2-4) at last by (simp add: arena_inv_def arena_grows_def bs)
  qed
  then show "arena_inv a'" "arena_grows a a'" "i < length (ar_blocks a')" "24 \<le> unat off" "unat off mod 16 = 8"
    "unat off + unat n0 \<le> 24 + unat (ab_used (block_at a' i))" "i < length (ar_blocks a) \<Longrightarrow> 24 + unat (ab_used (block_at a i)) \<le> unat off"
    by blast+
qed

lemma arena_alloc_fail: "tdb_arena_alloc ok a n = (None, a') \<Longrightarrow> a' = a"
  by (auto simp: tdb_arena_alloc_def Let_def split: if_splits option.splits)

text \<open>A result of an allocation that is aligned and lies in the used part of its block.\<close>

definition served :: "tdb_arena \<Rightarrow> (nat \<times> u64) option \<times> u64 \<Rightarrow> bool" where
  "served a r \<longleftrightarrow> (case fst r of None \<Rightarrow> True | Some (i, off) \<Rightarrow>
     i < length (ar_blocks a) \<and> 24 \<le> unat off \<and> unat off mod 16 = 8 \<and> unat off + unat (snd r) \<le> 24 + unat (ab_used (block_at a i)))"

definition apart :: "(nat \<times> u64) option \<times> u64 \<Rightarrow> (nat \<times> u64) option \<times> u64 \<Rightarrow> bool" where
  "apart r s \<longleftrightarrow> (case (fst r, fst s) of (Some (i, o1), Some (j, o2)) \<Rightarrow> i \<noteq> j \<or> unat o1 + unat (snd r) \<le> unat o2 | _ \<Rightarrow> True)"

lemma arena_run_ok:
  assumes "arena_inv a" "\<forall>n \<in> set ns. unat n \<le> 2 ^ 62" "arena_run ok a ns = (ps, a')"
  shows "arena_inv a' \<and> arena_grows a a' \<and> (\<forall>r \<in> set ps. served a' r) \<and> sorted_wrt apart ps \<and>
    (\<forall>i off n. (Some (i, off), n) \<in> set ps \<longrightarrow> i < length (ar_blocks a) \<longrightarrow> 24 + unat (ab_used (block_at a i)) \<le> unat off)"
  using assms
proof (induction ns arbitrary: a ps)
  case Nil
  then show ?case by (simp add: arena_grows_refl)
next
  case (Cons n ns)
  obtain p a1 where al: "tdb_arena_alloc ok a n = (p, a1)" by fastforce
  obtain ps1 where run: "arena_run ok a1 ns = (ps1, a')" "ps = (p, n) # ps1" using Cons.prems(3) al by (auto split: prod.splits)
  show ?case
  proof (cases p)
    case None
    then have "a1 = a" using al arena_alloc_fail by blast
    then show ?thesis using Cons.IH [of a ps1] Cons.prems run None by (auto simp: served_def apart_def)
  next
    case (Some q)
    obtain i off where q: "q = (i, off)" by fastforce
    note f = arena_alloc_ok [OF Cons.prems(1) _ al [unfolded Some q]]
    have n: "unat n \<le> 2 ^ 62" using Cons.prems(2) by simp
    note f = f [OF n]
    have "\<forall>n \<in> set ns. unat n \<le> 2 ^ 62" using Cons.prems(2) by simp
    note IH = Cons.IH [OF f(1) this run(1)]
    have ih: "arena_inv a'" "arena_grows a1 a'" "\<forall>r \<in> set ps1. served a' r" "sorted_wrt apart ps1"
      "\<And>i off n. (Some (i, off), n) \<in> set ps1 \<Longrightarrow> i < length (ar_blocks a1) \<Longrightarrow> 24 + unat (ab_used (block_at a1 i)) \<le> unat off"
      using IH by blast+
    have sv: "served a' (p, n)" using f(3-6) ih(2) by (auto simp: served_def Some q arena_grows_def)
    have ap: "apart (p, n) r" if "r \<in> set ps1" for r
      using ih(5) [of i "snd (the (fst r))" "snd r"] that f(3,6) by (cases r) (auto simp: apart_def Some q split: option.splits)
    have st: "24 + unat (ab_used (block_at a j)) \<le> unat o2" if "(Some (j, o2), m) \<in> set ps" "j < length (ar_blocks a)" for j o2 m
      using that ih(5) [of j o2 m] f(2,7) run(2) by (fastforce simp: Some q arena_grows_def)
    show ?thesis using ih sv ap st arena_grows_trans [OF f(2) ih(2)] run(2) by auto
  qed
qed

text \<open>
  C26: The arena hands out memory safely. For requests of at most \<open>2 ^ 62\<close> bytes, what a pointer
  points to lies behind the header of its block and inside the memory allocated for it, and the memory of
  different requests never overlaps, whichever of the underlying allocations fail. Every pointer
  is 8 modulo 16 from the start of its block: aligned to 8 bytes, but never to the 16 bytes of
  \<^verbatim>\<open>TDB_ARENA_ALIGN\<close> when \<^verbatim>\<open>malloc\<close> aligns to 16.
\<close>

theorem arena_allocs_disjoint:
  assumes "tdb_arena_new ok sz = Some a" "unat sz \<le> 2 ^ 62" "\<forall>n \<in> set ns. unat n \<le> 2 ^ 62" "arena_run ok a ns = (ps, a')"
  shows "sorted_wrt apart ps \<and>
    (\<forall>i off n. (Some (i, off), n) \<in> set ps \<longrightarrow>
       unat block_hdr \<le> unat off \<and> unat off mod 16 = 8 \<and> unat off + unat n \<le> unat (block_hdr + ab_cap (block_at a' i)))"
proof -
  have "arena_inv a" using assms(1,2)
    by (auto simp: tdb_arena_new_def arena_block_new_def arena_inv_def Let_def split: if_splits)
  from arena_run_ok [OF this assms(3,4)] have r: "arena_inv a'" "\<forall>r \<in> set ps. served a' r" "sorted_wrt apart ps" by auto
  have "24 + unat (ab_used (block_at a' i)) \<le> unat (block_hdr + ab_cap (block_at a' i))" if "i < length (ar_blocks a')" for i
  proof -
    have "block_at a' i \<in> set (ar_blocks a')" using that nth_mem [of i "rev (ar_blocks a')"] by (simp add: block_at_def)
    then have "unat (ab_used (block_at a' i)) \<le> unat (ab_cap (block_at a' i))" "unat (ab_cap (block_at a' i)) \<le> 2 ^ 62 + 16"
      using r(1) by (auto simp: arena_inv_def)
    then show ?thesis by (simp add: unat_word_ariths)
  qed
  then show ?thesis using r(2,3) by (fastforce simp: served_def)
qed

theorem arena_allocs_disjoint_witness:
  "\<exists>a ps a'. tdb_arena_new (\<lambda>_. True) 0 = Some a \<and> arena_run (\<lambda>_. True) a [5, 4000, 5000, 4090] = (ps, a') \<and>
     map fst ps = [Some (0, 24), Some (0, 40), Some (1, 24), Some (2, 24)] \<and> sorted_wrt apart ps"
proof -
  let ?a = "\<lparr>ar_blocks = [\<lparr>ab_used = 0, ab_cap = 4096\<rparr>], ar_block_size = 4096\<rparr>"
  have n: "tdb_arena_new (\<lambda>_. True) 0 = Some ?a" by (simp add: tdb_arena_new_def arena_block_new_def)
  obtain ps a' where r: "arena_run (\<lambda>_. True) ?a [5, 4000, 5000, 4090] = (ps, a')" by fastforce
  have "map fst ps = [Some (0, 24), Some (0, 40), Some (1, 24), Some (2, 24)]"
    using r by (simp add: tdb_arena_alloc_def tdb_align_up_def arena_block_new_def Let_def) (auto)
  moreover have "sorted_wrt apart ps" using arena_allocs_disjoint [OF n _ _ r] by simp
  ultimately show ?thesis using n r by (intro exI [of _ ?a] exI [of _ ps] exI [of _ a']) simp
qed

end
