(* ===== verification/Tdb_Schema.thy ===== *)
theory Tdb_Schema
  imports Tdb_Mem Tdb_Buf
begin

text \<open>
  \<^verbatim>\<open>src/catalog/tdb_schema.h\<close> and \<^verbatim>\<open>tdb_schema.c\<close>: the schema objects in memory. Arrays with a
  count are lists, a C \<^verbatim>\<open>int\<close> is an integer, an enumeration its code and a flag a truth value.
  The fields for foreign keys, column references and old layouts are never set by the program
  and left out, as is the freeing of memory.
\<close>

section \<open>Objects\<close>

record tdb_typespec =
  ts_id :: nat
  ts_length :: int
  ts_precision :: int
  ts_scale :: int

record tdb_column =
  c_name :: "cstr option"
  c_type :: tdb_typespec
  c_coll :: nat
  c_notnull :: bool
  c_pk :: bool
  c_unique :: bool
  c_hidden :: bool
  c_default_sql :: "cstr option"
  c_check_sql :: "cstr option"
  c_generated :: nat
  c_generated_sql :: "cstr option"
  c_lua_compute :: "cstr option"

record tdb_index =
  ix_name :: "cstr option"
  ix_root :: u32
  ix_unique :: nat
  ix_col_idx :: "int list"
  ix_desc :: "byte list option"
  ix_kind :: nat

abbreviation TDB_IDX_RTREE :: nat where
  "TDB_IDX_RTREE \<equiv> 1"

record tdb_table =
  t_name :: "cstr option"
  t_root :: u32
  t_cols :: "tdb_column list"
  t_indexes :: "tdb_index list"
  t_check_sql :: "cstr option"
  t_schema_version :: u32
  t_versioning :: nat
  t_row_start_col :: int
  t_row_end_col :: int
  t_history_root :: u32
  t_columnar :: nat
  t_col_roots :: "u32 list"
  t_before_insert_lua :: "cstr option"
  t_before_update_lua :: "cstr option"
  t_before_delete_lua :: "cstr option"
  t_tablespace :: "cstr option"
  t_compression :: "cstr option"
  t_partition_kind :: nat
  t_partition_cols :: "cstr option list"
  t_partition_count :: int

record tdb_view =
  v_name :: "cstr option"
  v_select_sql :: "cstr option"
  v_materialized :: nat
  v_root :: u32
  v_stale :: nat

record tdb_routine =
  rt_name :: "cstr option"
  rt_lua_src :: "cstr option"
  rt_is_function :: nat
  rt_nargs :: int

section \<open>Operations\<close>

definition tdb_column_init :: "(nat \<Rightarrow> bool) \<Rightarrow> cstr option \<Rightarrow> tdb_typespec \<Rightarrow> tdb_column" where
  "tdb_column_init ok name ts =
     \<lparr>c_name = tdb_strdup ok name, c_type = ts, c_coll = 0, c_notnull = False, c_pk = False, c_unique = False, c_hidden = False,
      c_default_sql = None, c_check_sql = None, c_generated = 0, c_generated_sql = None, c_lua_compute = None\<rparr>"

definition empty_table :: tdb_table where
  "empty_table =
     \<lparr>t_name = None, t_root = 0, t_cols = [], t_indexes = [], t_check_sql = None, t_schema_version = 0, t_versioning = 0,
      t_row_start_col = 0, t_row_end_col = 0, t_history_root = 0, t_columnar = 0, t_col_roots = [], t_before_insert_lua = None,
      t_before_update_lua = None, t_before_delete_lua = None, t_tablespace = None, t_compression = None, t_partition_kind = 0,
      t_partition_cols = [], t_partition_count = 0\<rparr>"

text \<open>The size of the structure is the argument of the allocation; the model only asks whether it succeeds.\<close>

definition tdb_table_new :: "(nat \<Rightarrow> bool) \<Rightarrow> nat \<Rightarrow> cstr option \<Rightarrow> tdb_table option" where
  "tdb_table_new ok sz name =
     (if ok sz then Some (empty_table\<lparr>t_name := tdb_strdup ok name, t_row_start_col := -1, t_row_end_col := -1, t_versioning := 0\<rparr>)
      else None)"

definition tdb_table_add_column :: "(nat \<Rightarrow> bool) \<Rightarrow> nat \<Rightarrow> tdb_table \<Rightarrow> tdb_column \<Rightarrow> tdb_status \<times> tdb_table" where
  "tdb_table_add_column ok sz t col =
     (if ok (sz * (length (t_cols t) + 1)) then (TDB_OK, t\<lparr>t_cols := t_cols t @ [col]\<rparr>) else (TDB_NOMEM, t))"

text \<open>Removing an element by moving the later ones down.\<close>

definition remove_nth :: "nat \<Rightarrow> 'a list \<Rightarrow> 'a list" where
  "remove_nth i xs = take i xs @ drop (Suc i) xs"

definition shift_col :: "int \<Rightarrow> int \<Rightarrow> int" where
  "shift_col ci i = (if ci < i then i - 1 else i)"

definition tdb_table_drop_column :: "tdb_table \<Rightarrow> int \<Rightarrow> tdb_status \<times> tdb_table" where
  "tdb_table_drop_column t ci =
     (if ci < 0 \<or> int (length (t_cols t)) \<le> ci then (TDB_NOTFOUND, t)
      else
        (TDB_OK, t\<lparr>t_cols := remove_nth (nat ci) (t_cols t),
                   t_row_start_col := shift_col ci (t_row_start_col t),
                   t_row_end_col := shift_col ci (t_row_end_col t),
                   t_indexes := map (\<lambda>ix. ix\<lparr>ix_col_idx := map (shift_col ci) (ix_col_idx ix)\<rparr>) (t_indexes t)\<rparr>))"

primrec find_column_from :: "nat \<Rightarrow> tdb_column list \<Rightarrow> cstr \<Rightarrow> int" where
  "find_column_from i [] name = -1"
| "find_column_from i (c # cs) name =
     (if (case c_name c of Some n \<Rightarrow> strcase_eq n name | None \<Rightarrow> False) then int i else find_column_from (Suc i) cs name)"

definition tdb_table_find_column :: "tdb_table \<Rightarrow> cstr \<Rightarrow> int" where
  "tdb_table_find_column t name = find_column_from 0 (t_cols t) name"

definition tdb_table_drop_index :: "tdb_table \<Rightarrow> int \<Rightarrow> tdb_status \<times> tdb_table" where
  "tdb_table_drop_index t i =
     (if i < 0 \<or> int (length (t_indexes t)) \<le> i then (TDB_NOTFOUND, t)
      else (TDB_OK, t\<lparr>t_indexes := remove_nth (nat i) (t_indexes t)\<rparr>))"

section \<open>Columns keep their places\<close>

lemma length_remove_nth [simp]: "i < length xs \<Longrightarrow> length (remove_nth i xs) = length xs - 1"
  by (simp add: remove_nth_def)

lemma nth_remove_nth:
  assumes "i < length xs" "j < length xs" "j \<noteq> i"
  shows "remove_nth i xs ! nat (shift_col (int i) (int j)) = xs ! j"
  using assms by (auto simp: remove_nth_def shift_col_def nth_append min_def nat_diff_distrib Suc_diff_Suc)

text \<open>
  C34: Dropping a column keeps every other reference. When a column that no index uses is dropped
  from a table, each index and each period column still refers to the column it referred to,
  and exactly the one column is gone.
\<close>

theorem drop_column_keeps_references:
  assumes "tdb_table_drop_column t ci = (TDB_OK, t')"
    and "\<forall>ix \<in> set (t_indexes t). \<forall>j \<in> set (ix_col_idx ix). 0 \<le> j \<and> j < int (length (t_cols t)) \<and> j \<noteq> ci"
  shows "t_cols t' = take (nat ci) (t_cols t) @ drop (Suc (nat ci)) (t_cols t) \<and> length (t_cols t) = Suc (length (t_cols t')) \<and>
    map (\<lambda>ix. map (\<lambda>j. t_cols t' ! nat j) (ix_col_idx ix)) (t_indexes t') = map (\<lambda>ix. map (\<lambda>j. t_cols t ! nat j) (ix_col_idx ix)) (t_indexes t) \<and>
    (\<forall>j. j = t_row_start_col t \<or> j = t_row_end_col t \<longrightarrow> 0 \<le> j \<and> j < int (length (t_cols t)) \<and> j \<noteq> ci \<longrightarrow>
       t_cols t' ! nat (shift_col ci j) = t_cols t ! nat j) \<and>
    t_row_start_col t' = shift_col ci (t_row_start_col t) \<and> t_row_end_col t' = shift_col ci (t_row_end_col t)"
proof -
  have ci: "0 \<le> ci" "ci < int (length (t_cols t))" using assms(1) by (auto simp: tdb_table_drop_column_def split: if_splits)
  define i where "i = nat ci"
  have i: "ci = int i" "i < length (t_cols t)" using ci by (auto simp: i_def)
  have t': "t' = t\<lparr>t_cols := remove_nth i (t_cols t), t_row_start_col := shift_col ci (t_row_start_col t),
      t_row_end_col := shift_col ci (t_row_end_col t),
      t_indexes := map (\<lambda>ix. ix\<lparr>ix_col_idx := map (shift_col ci) (ix_col_idx ix)\<rparr>) (t_indexes t)\<rparr>"
    using assms(1) ci by (auto simp: tdb_table_drop_column_def i_def)
  have ref: "remove_nth i (t_cols t) ! nat (shift_col ci j) = t_cols t ! nat j" if "0 \<le> j" "j < int (length (t_cols t))" "j \<noteq> ci" for j
    using nth_remove_nth [of i "t_cols t" "nat j"] that i by auto
  have "map (\<lambda>j. remove_nth i (t_cols t) ! nat j) (map (shift_col ci) (ix_col_idx ix)) = map (\<lambda>j. t_cols t ! nat j) (ix_col_idx ix)"
    if "ix \<in> set (t_indexes t)" for ix
    using assms(2) that ref by simp
  then show ?thesis using ref i by (auto simp: t' remove_nth_def)
qed

theorem drop_column_keeps_references_witness:
  "\<exists>t t'. tdb_table_drop_column t 0 = (TDB_OK, t') \<and> t_row_end_col t = 2 \<and>
     t_cols t' ! nat (shift_col 0 2) = t_cols t ! 2 \<and> map ix_col_idx (t_indexes t') = [[0, 1]]"
proof -
  define c where "c i = tdb_column_init (\<lambda>_. True) (Some [i]) \<lparr>ts_id = 4, ts_length = 0, ts_precision = 0, ts_scale = 0\<rparr>" for i :: byte
  let ?ix = "\<lparr>ix_name = None, ix_root = 7, ix_unique = 0, ix_col_idx = [1, 2], ix_desc = None, ix_kind = 0\<rparr>"
  let ?t = "empty_table\<lparr>t_cols := [c 97, c 98, c 99], t_row_end_col := 2, t_indexes := [?ix]\<rparr>"
  obtain t' where t': "tdb_table_drop_column ?t 0 = (TDB_OK, t')" by (simp add: tdb_table_drop_column_def)
  then have "map ix_col_idx (t_indexes t') = [[0, 1]]" by (auto simp: tdb_table_drop_column_def shift_col_def)
  moreover have "t_cols t' ! nat (shift_col 0 2) = t_cols ?t ! 2"
    using drop_column_keeps_references [OF t'] by (auto simp: empty_table_def)
  ultimately show ?thesis using t' by (intro exI [of _ ?t] exI [of _ t']) simp
qed

end
