(* ===== verification/Tdb_Serial.thy ===== *)
theory Tdb_Serial
  imports Tdb_Schema
begin

text \<open>
  The serialization of schema objects in \<^verbatim>\<open>src/catalog/tdb_catalog.c\<close>. The writers append to a
  growable buffer and ignore its errors. The reader holds the bytes it has not read yet; it
  notes an error when they run out. A string length that is negative as a C \<^verbatim>\<open>int\<close> passes the
  check of the reader and makes \<^verbatim>\<open>memcpy\<close> leave the buffer; \<open>rd_bad\<close> notes that. Allocations
  of the decoder are taken to succeed; the code does not check most of them.
\<close>

section \<open>Writers\<close>

definition w_u8 :: "(nat \<Rightarrow> bool) \<Rightarrow> byte \<Rightarrow> tdb_buf \<Rightarrow> tdb_buf" where
  "w_u8 ok v b = snd (tdb_buf_putc ok b v)"

definition w_u32 :: "(nat \<Rightarrow> bool) \<Rightarrow> u32 \<Rightarrow> tdb_buf \<Rightarrow> tdb_buf" where
  "w_u32 ok v b = snd (tdb_buf_append ok b (tdb_put_u32 v))"

definition w_var :: "(nat \<Rightarrow> bool) \<Rightarrow> u64 \<Rightarrow> tdb_buf \<Rightarrow> tdb_buf" where
  "w_var ok v b = snd (tdb_buf_put_varint ok b v)"

definition w_str :: "(nat \<Rightarrow> bool) \<Rightarrow> cstr option \<Rightarrow> tdb_buf \<Rightarrow> tdb_buf" where
  "w_str ok s b =
     (case s of
        None \<Rightarrow> w_var ok 0 b
      | Some s \<Rightarrow> snd (tdb_buf_append ok (w_var ok (word_of_nat (length s) + 1) b) s))"

text \<open>Conversions between C integer types.\<close>

definition u64_of_int :: "int \<Rightarrow> u64" where
  "u64_of_int i = word_of_int i"

definition c_int :: "u64 \<Rightarrow> int" where
  "c_int v = sint (ucast v :: 32 word)"

section \<open>Reader\<close>

record rd =
  rd_left :: bytes
  rd_err :: bool
  rd_bad :: bool

definition rd_on :: "bytes \<Rightarrow> rd" where
  "rd_on p = \<lparr>rd_left = p, rd_err = False, rd_bad = False\<rparr>"

definition r_var :: "rd \<Rightarrow> u64 \<times> rd" where
  "r_var r =
     (case tdb_get_varint (rd_left r) (length (rd_left r)) of
        None \<Rightarrow> (0, r\<lparr>rd_err := True\<rparr>)
      | Some (a, v) \<Rightarrow> (v, r\<lparr>rd_left := drop a (rd_left r)\<rparr>))"

definition r_u32 :: "rd \<Rightarrow> u32 \<times> rd" where
  "r_u32 r =
     (if length (rd_left r) < 4 then (0, r\<lparr>rd_err := True\<rparr>)
      else (tdb_get_u32 (rd_left r), r\<lparr>rd_left := drop 4 (rd_left r)\<rparr>))"

definition r_u8 :: "rd \<Rightarrow> byte \<times> rd" where
  "r_u8 r = (case rd_left r of [] \<Rightarrow> (0, r\<lparr>rd_err := True\<rparr>) | b # bs \<Rightarrow> (b, r\<lparr>rd_left := bs\<rparr>))"

definition r_str :: "rd \<Rightarrow> cstr option \<times> rd" where
  "r_str r =
     (case r_var r of
        (L, r1) \<Rightarrow>
          if L = 0 then (None, r1)
          else
            (let n = c_int (L - 1) in
             if n < 0 then (None, r1\<lparr>rd_bad := True\<rparr>)
             else if int (length (rd_left r1)) < n then (None, r1\<lparr>rd_err := True\<rparr>)
             else (Some (c_str (take (nat n) (rd_left r1))), r1\<lparr>rd_left := drop (nat n) (rd_left r1)\<rparr>)))"

section \<open>Tables\<close>

abbreviation CAT_TABLE :: byte where "CAT_TABLE \<equiv> 84"

abbreviation CAT_VIEW :: byte where "CAT_VIEW \<equiv> 86"

abbreviation CAT_ROUTINE :: byte where "CAT_ROUTINE \<equiv> 82"

abbreviation CAT_GRANT :: byte where "CAT_GRANT \<equiv> 71"

abbreviation CAT_COMMENT :: byte where "CAT_COMMENT \<equiv> 67"

abbreviation CAT_TABLESPACE :: byte where "CAT_TABLESPACE \<equiv> 83"

definition col_flags :: "tdb_column \<Rightarrow> byte" where
  "col_flags c = (if c_notnull c then 1 else 0) OR (if c_pk c then 2 else 0) OR (if c_unique c then 4 else 0) OR (if c_hidden c then 8 else 0)"

definition ser_column :: "(nat \<Rightarrow> bool) \<Rightarrow> tdb_column \<Rightarrow> tdb_buf \<Rightarrow> tdb_buf" where
  "ser_column ok c b =
     (let b = w_str ok (c_name c) b;
          b = w_u8 ok (word_of_nat (ts_id (c_type c))) b;
          b = w_var ok (u64_of_int (ts_length (c_type c))) b;
          b = w_var ok (u64_of_int (ts_precision (c_type c))) b;
          b = w_var ok (u64_of_int (ts_scale (c_type c))) b;
          b = w_u8 ok (word_of_nat (c_coll c)) b;
          b = w_u8 ok (col_flags c) b;
          b = w_u8 ok (word_of_nat (c_generated c)) b;
          b = w_str ok (c_default_sql c) b;
          b = w_str ok (c_check_sql c) b;
          b = w_str ok (c_generated_sql c) b
      in w_str ok (c_lua_compute c) b)"

text \<open>The columns of an index with their descending flags, which are 0 when the array is missing.\<close>

definition index_cols :: "tdb_index \<Rightarrow> (int \<times> byte) list" where
  "index_cols ix = (case ix_desc ix of Some d \<Rightarrow> zip (ix_col_idx ix) d | None \<Rightarrow> map (\<lambda>c. (c, 0)) (ix_col_idx ix))"

definition ser_index :: "(nat \<Rightarrow> bool) \<Rightarrow> tdb_index \<Rightarrow> tdb_buf \<Rightarrow> tdb_buf" where
  "ser_index ok ix b =
     (let b = w_str ok (ix_name ix) b;
          b = w_u32 ok (ix_root ix) b;
          b = w_u8 ok (word_of_nat (ix_unique ix)) b;
          b = w_u8 ok (word_of_nat (ix_kind ix)) b;
          b = w_var ok (word_of_nat (length (ix_col_idx ix))) b
      in fold (\<lambda>(c, d) b. w_u8 ok d (w_var ok (u64_of_int c) b)) (index_cols ix) b)"

definition ser_table :: "(nat \<Rightarrow> bool) \<Rightarrow> tdb_table \<Rightarrow> tdb_buf \<Rightarrow> tdb_buf" where
  "ser_table ok t b =
     (let b = w_u8 ok CAT_TABLE b;
          b = w_str ok (t_name t) b;
          b = w_u32 ok (t_root t) b;
          b = w_u32 ok (t_history_root t) b;
          b = w_u32 ok (t_schema_version t) b;
          b = w_u8 ok (word_of_nat (t_versioning t)) b;
          b = w_var ok (u64_of_int (t_row_start_col t + 1)) b;
          b = w_var ok (u64_of_int (t_row_end_col t + 1)) b;
          b = w_str ok (t_check_sql t) b;
          b = w_str ok (t_before_insert_lua t) b;
          b = w_str ok (t_before_update_lua t) b;
          b = w_str ok (t_before_delete_lua t) b;
          b = w_var ok (word_of_nat (length (t_cols t))) b;
          b = fold (ser_column ok) (t_cols t) b;
          b = w_var ok (word_of_nat (length (t_indexes t))) b;
          b = fold (ser_index ok) (t_indexes t) b;
          b = w_u8 ok (word_of_nat (t_columnar t)) b;
          b = w_var ok (word_of_nat (length (t_col_roots t))) b;
          b = fold (w_u32 ok) (t_col_roots t) b;
          b = w_str ok (t_tablespace t) b;
          b = w_str ok (t_compression t) b;
          b = w_u8 ok (word_of_nat (t_partition_kind t)) b;
          b = w_var ok (word_of_nat (length (t_partition_cols t))) b;
          b = fold (w_str ok) (t_partition_cols t) b
      in w_var ok (u64_of_int (t_partition_count t)) b)"

definition deser_column :: "rd \<Rightarrow> tdb_column \<times> rd" where
  "deser_column r =
     (let (cn, r) = r_str r;
          (tid, r) = r_u8 r;
          (len, r) = r_var r;
          (prec, r) = r_var r;
          (sc, r) = r_var r;
          c = tdb_column_init (\<lambda>_. True) (Some (case cn of Some n \<Rightarrow> n | None \<Rightarrow> []))
                \<lparr>ts_id = unat tid, ts_length = c_int len, ts_precision = c_int prec, ts_scale = c_int sc\<rparr>;
          (coll, r) = r_u8 r;
          (flags, r) = r_u8 r;
          (gen, r) = r_u8 r;
          (dsql, r) = r_str r;
          (csql, r) = r_str r;
          (gsql, r) = r_str r;
          (lua, r) = r_str r
      in (c\<lparr>c_coll := unat coll, c_notnull := bit flags 0, c_pk := bit flags 1, c_unique := bit flags 2, c_hidden := bit flags 3,
            c_generated := unat gen, c_default_sql := dsql, c_check_sql := csql, c_generated_sql := gsql, c_lua_compute := lua\<rparr>, r))"

text \<open>The loops \<^verbatim>\<open>for (i = 0; i < n && !r->err; i++)\<close>, and those that do not look at the error.\<close>

primrec deser_while :: "(rd \<Rightarrow> 'a \<times> rd) \<Rightarrow> nat \<Rightarrow> rd \<Rightarrow> 'a list \<times> rd" where
  "deser_while f 0 r = ([], r)"
| "deser_while f (Suc n) r =
     (if rd_err r then ([], r) else (case f r of (x, r1) \<Rightarrow> case deser_while f n r1 of (xs, r2) \<Rightarrow> (x # xs, r2)))"

primrec deser_n :: "(rd \<Rightarrow> 'a \<times> rd) \<Rightarrow> nat \<Rightarrow> rd \<Rightarrow> 'a list \<times> rd" where
  "deser_n f 0 r = ([], r)"
| "deser_n f (Suc n) r = (case f r of (x, r1) \<Rightarrow> case deser_n f n r1 of (xs, r2) \<Rightarrow> (x # xs, r2))"

definition deser_index_col :: "rd \<Rightarrow> (int \<times> byte) \<times> rd" where
  "deser_index_col r = (case r_var r of (c, r) \<Rightarrow> case r_u8 r of (d, r) \<Rightarrow> ((c_int c, d), r))"

definition deser_index :: "rd \<Rightarrow> tdb_index \<times> rd" where
  "deser_index r =
     (let (name, r) = r_str r;
          (root, r) = r_u32 r;
          (unq, r) = r_u8 r;
          (kind, r) = r_u8 r;
          (n, r) = r_var r;
          (cols, r) = deser_n deser_index_col (nat (c_int n)) r
      in (\<lparr>ix_name = name, ix_root = root, ix_unique = unat unq, ix_col_idx = map fst cols,
           ix_desc = (if 0 < c_int n then Some (map snd cols) else None), ix_kind = unat kind\<rparr>, r))"

text \<open>The part of the record that older catalogs lack.\<close>

definition deser_trailer :: "tdb_table \<Rightarrow> rd \<Rightarrow> tdb_table \<times> rd" where
  "deser_trailer t r =
     (if rd_left r \<noteq> [] \<and> \<not> rd_err r then
        (let (ts, r) = r_str r;
             (cmp, r) = r_str r;
             (pk, r) = r_u8 r;
             (npc, r) = r_var r;
             (pcs, r) = (if 0 < c_int npc \<and> \<not> rd_err r then deser_while r_str (nat (c_int npc)) r else ([], r));
             t = t\<lparr>t_tablespace := ts, t_compression := cmp, t_partition_kind := unat pk, t_partition_cols := pcs\<rparr>
         in if rd_left r \<noteq> [] \<and> \<not> rd_err r then
              (case r_var r of (pc, r) \<Rightarrow> (t\<lparr>t_partition_count := c_int pc\<rparr>, r))
            else (t, r))
      else (t, r))"

definition deser_table :: "rd \<Rightarrow> tdb_table \<times> rd" where
  "deser_table r =
     (let (name, r) = r_str r;
          t = the (tdb_table_new (\<lambda>_. True) 0 (Some (case name of Some n \<Rightarrow> n | None \<Rightarrow> [])));
          (root, r) = r_u32 r;
          (hroot, r) = r_u32 r;
          (sv, r) = r_u32 r;
          (ver, r) = r_u8 r;
          (rs, r) = r_var r;
          (re, r) = r_var r;
          (chk, r) = r_str r;
          (bi, r) = r_str r;
          (bu, r) = r_str r;
          (bd, r) = r_str r;
          (ncol, r) = r_var r;
          (cols, r) = deser_while deser_column (nat (c_int ncol)) r;
          (nindex, r) = r_var r;
          (ixs, r) = deser_while deser_index (nat (c_int nindex)) r;
          (columnar, r) = r_u8 r;
          (nroots, r) = r_var r;
          (roots, r) = deser_n r_u32 (nat (c_int nroots)) r
      in deser_trailer
           (t\<lparr>t_root := root, t_history_root := hroot, t_schema_version := sv, t_versioning := unat ver, t_row_start_col := c_int rs - 1,
              t_row_end_col := c_int re - 1, t_check_sql := chk, t_before_insert_lua := bi, t_before_update_lua := bu,
              t_before_delete_lua := bd, t_cols := cols, t_indexes := ixs, t_columnar := unat columnar, t_col_roots := roots\<rparr>) r)"

section \<open>Views, routines and comments\<close>

definition ser_view :: "(nat \<Rightarrow> bool) \<Rightarrow> tdb_view \<Rightarrow> tdb_buf \<Rightarrow> tdb_buf" where
  "ser_view ok v b =
     (let b = w_u8 ok CAT_VIEW b;
          b = w_str ok (v_name v) b;
          b = w_str ok (v_select_sql v) b;
          b = w_u8 ok (word_of_nat (v_materialized v)) b
      in w_u32 ok (v_root v) b)"

definition deser_view :: "rd \<Rightarrow> tdb_view \<times> rd" where
  "deser_view r =
     (let (name, r) = r_str r; (sql, r) = r_str r; (mat, r) = r_u8 r; (root, r) = r_u32 r
      in (\<lparr>v_name = name, v_select_sql = sql, v_materialized = unat mat, v_root = root, v_stale = 0\<rparr>, r))"

definition ser_routine :: "(nat \<Rightarrow> bool) \<Rightarrow> tdb_routine \<Rightarrow> tdb_buf \<Rightarrow> tdb_buf" where
  "ser_routine ok rt b =
     (let b = w_u8 ok CAT_ROUTINE b;
          b = w_str ok (rt_name rt) b;
          b = w_str ok (rt_lua_src rt) b;
          b = w_u8 ok (word_of_nat (rt_is_function rt)) b
      in w_var ok (u64_of_int (rt_nargs rt + 1)) b)"

definition deser_routine :: "rd \<Rightarrow> tdb_routine \<times> rd" where
  "deser_routine r =
     (let (name, r) = r_str r; (src, r) = r_str r; (isf, r) = r_u8 r; (na, r) = r_var r
      in (\<lparr>rt_name = name, rt_lua_src = src, rt_is_function = unat isf, rt_nargs = c_int na - 1\<rparr>, r))"

definition ser_comment :: "(nat \<Rightarrow> bool) \<Rightarrow> int \<Rightarrow> cstr option \<Rightarrow> cstr option \<Rightarrow> tdb_buf \<Rightarrow> tdb_buf" where
  "ser_comment ok kind target body b =
     (let b = w_u8 ok CAT_COMMENT b; b = w_u8 ok (word_of_int kind) b; b = w_str ok target b in w_str ok body b)"

end
