(* ===== verification/Tdb_Serial_Props.thy ===== *)
theory Tdb_Serial_Props
  imports Tdb_Serial
begin

text \<open>
  What the catalog writes it reads back: the bytes of each writer when no allocation fails, the
  reader on them, and the round trip of tables, views and routines.
\<close>

abbreviation avail :: "nat \<Rightarrow> bool" where
  "avail \<equiv> \<lambda>_. True"

named_theorems ser_data \<open>the bytes the writers append\<close>
named_theorems ser_read \<open>reading what was written\<close>

section \<open>Fields\<close>

definition str_bytes :: "cstr option \<Rightarrow> bytes" where
  "str_bytes s = (case s of None \<Rightarrow> tdb_put_varint 0 | Some s \<Rightarrow> tdb_put_varint (word_of_nat (length s) + 1) @ s)"

lemma reserve_avail: "\<exists>c. tdb_buf_reserve avail b n = (TDB_OK, b\<lparr>cap := c\<rparr>)"
  by (auto simp: tdb_buf_reserve_def Let_def intro: exI [of _ "cap b"])

lemma data_w_u8 [ser_data]: "data (w_u8 avail v b) = data b @ [v]"
  using reserve_avail [of b 1] by (auto simp: w_u8_def tdb_buf_putc_def)

lemma data_append: "data (snd (tdb_buf_append avail b p)) = data b @ p"
  using reserve_avail [of b "length p"] by (auto simp: tdb_buf_append_def)

lemma data_w_u32 [ser_data]: "data (w_u32 avail v b) = data b @ tdb_put_u32 v"
  by (simp add: w_u32_def data_append)

lemma data_w_var [ser_data]: "data (w_var avail v b) = data b @ tdb_put_varint v"
  using reserve_avail [of b 10] by (auto simp: w_var_def tdb_buf_put_varint_def)

lemma data_w_str [ser_data]: "data (w_str avail s b) = data b @ str_bytes s"
  by (cases s) (simp_all add: w_str_def str_bytes_def data_append data_w_var)

lemma rd_on_simps [simp]: "rd_left (rd_on p) = p" "\<not> rd_err (rd_on p)" "\<not> rd_bad (rd_on p)" "rd_on p\<lparr>rd_left := q\<rparr> = rd_on q"
  by (simp_all add: rd_on_def)

lemma read_u8 [ser_read]: "r_u8 (rd_on (v # bs)) = (v, rd_on bs)"
  by (simp add: r_u8_def)

lemma read_u32 [ser_read]: "r_u32 (rd_on (tdb_put_u32 v @ bs)) = (v, rd_on bs)"
  by (simp add: r_u32_def tdb_codec)

lemma read_var [ser_read]: "r_var (rd_on (tdb_put_varint v @ bs)) = (v, rd_on bs)"
  by (simp add: r_var_def tdb_codec)

definition str_ok :: "cstr option \<Rightarrow> bool" where
  "str_ok s \<longleftrightarrow> (case s of None \<Rightarrow> True | Some s \<Rightarrow> cstr_ok s \<and> length s < 2 ^ 31)"

definition int32 :: "int \<Rightarrow> bool" where
  "int32 i \<longleftrightarrow> - (2 ^ 31) \<le> i \<and> i < 2 ^ 31"

lemma c_int_of_int [simp]: "int32 i \<Longrightarrow> c_int (u64_of_int i) = i"
proof -
  assume "int32 i"
  moreover have "(ucast (word_of_int i :: u64) :: 32 word) = word_of_int i"
    by (rule bit_word_eqI) (simp add: bit_simps)
  ultimately show ?thesis by (simp add: c_int_def u64_of_int_def int32_def signed_of_int signed_take_bit_int_eq_self)
qed

lemma c_int_of_nat [simp]: "n < 2 ^ 31 \<Longrightarrow> c_int (word_of_nat n) = int n"
  using c_int_of_int [of "int n"] by (simp add: int32_def u64_of_int_def)

lemma c_int_0 [simp]: "c_int 0 = 0"
  by (simp add: c_int_def)

lemma read_str [ser_read]:
  assumes "str_ok s"
  shows "r_str (rd_on (str_bytes s @ bs)) = (s, rd_on bs)"
proof (cases s)
  case None
  then show ?thesis by (simp add: r_str_def str_bytes_def ser_read)
next
  case (Some x)
  have len: "length x < 2 ^ 31" and ok: "cstr_ok x" using assms Some by (simp_all add: str_ok_def)
  have "unat (word_of_nat (length x) + 1 :: u64) = length x + 1" using len by (simp add: unat_word_ariths unat_of_nat)
  then have "word_of_nat (length x) + 1 \<noteq> (0 :: u64)" by (metis add_is_0 one_neq_zero unat_0)
  then show ?thesis using len ok by (simp add: Some r_str_def str_bytes_def ser_read Let_def)
qed

section \<open>Columns and indexes\<close>

definition column_ok :: "tdb_column \<Rightarrow> bool" where
  "column_ok c \<longleftrightarrow> c_name c \<noteq> None \<and> (\<forall>s \<in> {c_name c, c_default_sql c, c_check_sql c, c_generated_sql c, c_lua_compute c}. str_ok s) \<and>
     ts_id (c_type c) < 256 \<and> int32 (ts_length (c_type c)) \<and> int32 (ts_precision (c_type c)) \<and> int32 (ts_scale (c_type c)) \<and>
     c_coll c < 256 \<and> c_generated c < 256"

definition column_bytes :: "tdb_column \<Rightarrow> bytes" where
  "column_bytes c =
     str_bytes (c_name c) @ word_of_nat (ts_id (c_type c)) # tdb_put_varint (u64_of_int (ts_length (c_type c))) @
     tdb_put_varint (u64_of_int (ts_precision (c_type c))) @ tdb_put_varint (u64_of_int (ts_scale (c_type c))) @
     word_of_nat (c_coll c) # col_flags c # word_of_nat (c_generated c) # str_bytes (c_default_sql c) @ str_bytes (c_check_sql c) @
     str_bytes (c_generated_sql c) @ str_bytes (c_lua_compute c)"

lemma data_ser_column [ser_data]: "data (ser_column avail c b) = data b @ column_bytes c"
  by (simp add: ser_column_def column_bytes_def Let_def ser_data)

lemma flag_bits:
  "bit (col_flags c) 0 = c_notnull c" "bit (col_flags c) 1 = c_pk c" "bit (col_flags c) 2 = c_unique c" "bit (col_flags c) 3 = c_hidden c"
  by (auto simp: col_flags_def bit_simps)

lemma unat_byte [simp]: "n < 256 \<Longrightarrow> unat (word_of_nat n :: byte) = n"
  by (simp add: unat_of_nat)

lemma read_column [ser_read]:
  assumes "column_ok c"
  shows "deser_column (rd_on (column_bytes c @ bs)) = (c, rd_on bs)"
proof -
  obtain n where n: "c_name c = Some n" using assms by (auto simp: column_ok_def)
  have "cstr_ok n" using assms n by (auto simp: column_ok_def str_ok_def)
  then show ?thesis
    using assms n flag_bits [of c] by (simp add: column_ok_def deser_column_def column_bytes_def ser_read tdb_column_init_def)
qed

definition index_ok :: "tdb_index \<Rightarrow> bool" where
  "index_ok ix \<longleftrightarrow> str_ok (ix_name ix) \<and> ix_unique ix < 256 \<and> ix_kind ix < 256 \<and> length (ix_col_idx ix) < 2 ^ 31 \<and>
     (\<forall>i \<in> set (ix_col_idx ix). int32 i) \<and>
     (case ix_desc ix of Some d \<Rightarrow> ix_col_idx ix \<noteq> [] \<and> length d = length (ix_col_idx ix) | None \<Rightarrow> ix_col_idx ix = [])"

definition index_bytes :: "tdb_index \<Rightarrow> bytes" where
  "index_bytes ix =
     str_bytes (ix_name ix) @ tdb_put_u32 (ix_root ix) @ word_of_nat (ix_unique ix) # word_of_nat (ix_kind ix) #
     tdb_put_varint (word_of_nat (length (ix_col_idx ix))) @ concat (map (\<lambda>(c, d). tdb_put_varint (u64_of_int c) @ [d]) (index_cols ix))"

lemma data_fold:
  assumes "\<And>x b. data (w x b) = data b @ e x"
  shows "data (fold w xs b) = data b @ concat (map e xs)"
  by (induction xs arbitrary: b) (simp_all add: assms)

lemma data_ser_index [ser_data]: "data (ser_index avail ix b) = data b @ index_bytes ix"
proof -
  have "data (fold (\<lambda>(c, d) b. w_u8 avail d (w_var avail (u64_of_int c) b)) xs b) =
      data b @ concat (map (\<lambda>(c, d). tdb_put_varint (u64_of_int c) @ [d]) xs)" for xs b
    by (rule data_fold) (simp add: ser_data split: prod.splits)
  then show ?thesis by (simp add: ser_index_def index_bytes_def Let_def ser_data)
qed

lemma deser_n_all:
  assumes "\<forall>x \<in> set xs. \<forall>bs. f (rd_on (e x @ bs)) = (x, rd_on bs)"
  shows "deser_n f (length xs) (rd_on (concat (map e xs) @ bs)) = (xs, rd_on bs)"
    "deser_while f (length xs) (rd_on (concat (map e xs) @ bs)) = (xs, rd_on bs)"
  using assms by (induction xs) auto

lemma read_index [ser_read]:
  assumes "index_ok ix"
  shows "deser_index (rd_on (index_bytes ix @ bs)) = (ix, rd_on bs)"
proof -
  have len: "length (index_cols ix) = length (ix_col_idx ix)" "length (ix_col_idx ix) < 2 ^ 31"
    and fs: "map fst (index_cols ix) = ix_col_idx ix"
    using assms by (auto simp: index_cols_def index_ok_def split: option.splits)
  have ds: "(if 0 < length (ix_col_idx ix) then Some (map snd (index_cols ix)) else None) = ix_desc ix"
    using assms by (auto simp: index_cols_def index_ok_def split: option.splits)
  have "fst ` set (index_cols ix) = set (ix_col_idx ix)" using arg_cong [OF fs, of set] by simp
  then have "int32 c" if "(c, d) \<in> set (index_cols ix)" for c d using assms that by (force simp: index_ok_def)
  then have "\<forall>x \<in> set (index_cols ix). \<forall>bs. deser_index_col (rd_on ((case x of (c, d) \<Rightarrow> tdb_put_varint (u64_of_int c) @ [d]) @ bs)) = (x, rd_on bs)"
    by (auto simp: deser_index_col_def ser_read)
  from deser_n_all(1) [OF this, of bs] show ?thesis
    using assms len fs ds by (simp add: index_ok_def deser_index_def index_bytes_def ser_read)
qed

section \<open>Objects\<close>

definition table_ok :: "tdb_table \<Rightarrow> bool" where
  "table_ok t \<longleftrightarrow> t_name t \<noteq> None \<and>
     (\<forall>s \<in> {t_name t, t_check_sql t, t_before_insert_lua t, t_before_update_lua t, t_before_delete_lua t, t_tablespace t, t_compression t}. str_ok s) \<and>
     (\<forall>c \<in> set (t_cols t). column_ok c) \<and> (\<forall>ix \<in> set (t_indexes t). index_ok ix) \<and> (\<forall>s \<in> set (t_partition_cols t). str_ok s) \<and>
     length (t_cols t) < 2 ^ 31 \<and> length (t_indexes t) < 2 ^ 31 \<and> length (t_col_roots t) < 2 ^ 31 \<and> length (t_partition_cols t) < 2 ^ 31 \<and>
     t_versioning t < 256 \<and> t_columnar t < 256 \<and> t_partition_kind t < 256 \<and>
     int32 (t_row_start_col t + 1) \<and> int32 (t_row_end_col t + 1) \<and> int32 (t_partition_count t)"

definition trailer_bytes :: "tdb_table \<Rightarrow> bytes" where
  "trailer_bytes t =
     str_bytes (t_tablespace t) @ str_bytes (t_compression t) @ word_of_nat (t_partition_kind t) #
     tdb_put_varint (word_of_nat (length (t_partition_cols t))) @ concat (map str_bytes (t_partition_cols t)) @
     tdb_put_varint (u64_of_int (t_partition_count t))"

definition table_bytes :: "tdb_table \<Rightarrow> bytes" where
  "table_bytes t =
     str_bytes (t_name t) @ tdb_put_u32 (t_root t) @ tdb_put_u32 (t_history_root t) @ tdb_put_u32 (t_schema_version t) @
     word_of_nat (t_versioning t) # tdb_put_varint (u64_of_int (t_row_start_col t + 1)) @ tdb_put_varint (u64_of_int (t_row_end_col t + 1)) @
     str_bytes (t_check_sql t) @ str_bytes (t_before_insert_lua t) @ str_bytes (t_before_update_lua t) @ str_bytes (t_before_delete_lua t) @
     tdb_put_varint (word_of_nat (length (t_cols t))) @ concat (map column_bytes (t_cols t)) @
     tdb_put_varint (word_of_nat (length (t_indexes t))) @ concat (map index_bytes (t_indexes t)) @
     word_of_nat (t_columnar t) # tdb_put_varint (word_of_nat (length (t_col_roots t))) @ concat (map tdb_put_u32 (t_col_roots t)) @ trailer_bytes t"

lemma data_ser_table: "data (ser_table avail t b) = data b @ CAT_TABLE # table_bytes t"
proof -
  have "data (fold (ser_column avail) cs b) = data b @ concat (map column_bytes cs)" for cs b by (rule data_fold) (rule data_ser_column)
  moreover have "data (fold (ser_index avail) cs b) = data b @ concat (map index_bytes cs)" for cs b by (rule data_fold) (rule data_ser_index)
  moreover have "data (fold (w_u32 avail) cs b) = data b @ concat (map tdb_put_u32 cs)" for cs b by (rule data_fold) (rule data_w_u32)
  moreover have "data (fold (w_str avail) cs b) = data b @ concat (map str_bytes cs)" for cs b by (rule data_fold) (rule data_w_str)
  ultimately show ?thesis by (simp add: ser_table_def table_bytes_def trailer_bytes_def Let_def ser_data)
qed

lemma str_bytes_ne [simp]: "str_bytes s \<noteq> []"
  by (simp add: str_bytes_def split: option.splits)

lemma read_trailer:
  assumes "table_ok t"
  shows "deser_trailer t0 (rd_on (trailer_bytes t)) =
    (t0\<lparr>t_tablespace := t_tablespace t, t_compression := t_compression t, t_partition_kind := t_partition_kind t,
        t_partition_cols := t_partition_cols t, t_partition_count := t_partition_count t\<rparr>, rd_on [])"
proof -
  have strs: "\<forall>s \<in> set (t_partition_cols t). \<forall>bs. r_str (rd_on (str_bytes s @ bs)) = (s, rd_on bs)"
    using assms by (simp add: table_ok_def ser_read)
  have last: "r_var (rd_on (tdb_put_varint v)) = (v, rd_on [])" for v using read_var [of v "[]"] by simp
  note pc = deser_n_all(2) [OF strs, of "tdb_put_varint (u64_of_int (t_partition_count t))"]
  show ?thesis
    using assms pc last by (cases "t_partition_cols t = []") (simp_all add: table_ok_def deser_trailer_def trailer_bytes_def ser_read)
qed

lemma read_table:
  assumes "table_ok t"
  shows "deser_table (rd_on (table_bytes t)) = (t, rd_on [])"
proof -
  obtain n where n: "t_name t = Some n" using assms by (auto simp: table_ok_def)
  have "cstr_ok n" using assms n by (auto simp: table_ok_def str_ok_def)
  moreover have "deser_while deser_column (length (t_cols t)) (rd_on (concat (map column_bytes (t_cols t)) @ bs)) = (t_cols t, rd_on bs)" for bs
    by (rule deser_n_all(2)) (use assms in \<open>simp add: table_ok_def ser_read\<close>)
  moreover have "deser_while deser_index (length (t_indexes t)) (rd_on (concat (map index_bytes (t_indexes t)) @ bs)) = (t_indexes t, rd_on bs)" for bs
    by (rule deser_n_all(2)) (use assms in \<open>simp add: table_ok_def ser_read\<close>)
  moreover have "deser_n r_u32 (length (t_col_roots t)) (rd_on (concat (map tdb_put_u32 (t_col_roots t)) @ bs)) = (t_col_roots t, rd_on bs)" for bs
    by (rule deser_n_all(1)) (simp add: ser_read)
  ultimately show ?thesis
    using assms n unfolding table_ok_def
    by (simp add: deser_table_def table_bytes_def ser_read read_trailer [OF assms] tdb_table_new_def empty_table_def)
qed

definition view_ok :: "tdb_view \<Rightarrow> bool" where
  "view_ok v \<longleftrightarrow> str_ok (v_name v) \<and> str_ok (v_select_sql v) \<and> v_materialized v < 256 \<and> v_stale v = 0"

definition routine_ok :: "tdb_routine \<Rightarrow> bool" where
  "routine_ok rt \<longleftrightarrow> str_ok (rt_name rt) \<and> str_ok (rt_lua_src rt) \<and> rt_is_function rt < 256 \<and> int32 (rt_nargs rt + 1)"

lemma read_view:
  assumes "view_ok v"
  shows "\<exists>r. r_u8 (rd_on (data (ser_view avail v tdb_buf_init))) = (CAT_VIEW, r) \<and> deser_view r = (v, rd_on [])"
proof -
  have last: "r_u32 (rd_on (tdb_put_u32 x)) = (x, rd_on [])" for x using read_u32 [of x "[]"] by simp
  show ?thesis
    using assms last by (simp add: ser_view_def deser_view_def view_ok_def Let_def ser_data ser_read tdb_buf_init_def)
qed

lemma read_routine:
  assumes "routine_ok rt"
  shows "\<exists>r. r_u8 (rd_on (data (ser_routine avail rt tdb_buf_init))) = (CAT_ROUTINE, r) \<and> deser_routine r = (rt, rd_on [])"
proof -
  have last: "r_var (rd_on (tdb_put_varint x)) = (x, rd_on [])" for x using read_var [of x "[]"] by simp
  show ?thesis
    using assms last by (simp add: ser_routine_def deser_routine_def routine_ok_def Let_def ser_data ser_read tdb_buf_init_def)
qed

text \<open>
  C17: Catalog records read back. The bytes written for a table with all its columns, indexes,
  columnar roots and partitioning, for a view, or for a routine start with the type of the
  object, and the reader rebuilds the same object from the rest, with no error and no byte left.
\<close>

theorem catalog_object_roundtrip:
  assumes "table_ok t" "view_ok v" "routine_ok rt"
  shows "(\<exists>r. r_u8 (rd_on (data (ser_table avail t tdb_buf_init))) = (CAT_TABLE, r) \<and> deser_table r = (t, rd_on [])) \<and>
    (\<exists>r. r_u8 (rd_on (data (ser_view avail v tdb_buf_init))) = (CAT_VIEW, r) \<and> deser_view r = (v, rd_on [])) \<and>
    (\<exists>r. r_u8 (rd_on (data (ser_routine avail rt tdb_buf_init))) = (CAT_ROUTINE, r) \<and> deser_routine r = (rt, rd_on []))"
  using read_table [OF assms(1)] read_view [OF assms(2)] read_routine [OF assms(3)]
  by (simp add: data_ser_table read_u8 tdb_buf_init_def)

theorem catalog_object_roundtrip_witness:
  "\<exists>t r. length (t_cols t) = 1 \<and> length (t_indexes t) = 1 \<and> t_row_start_col t = -1 \<and>
     r_u8 (rd_on (data (ser_table avail t tdb_buf_init))) = (CAT_TABLE, r) \<and> deser_table r = (t, rd_on [])"
proof -
  let ?c = "(tdb_column_init avail (Some [97]) \<lparr>ts_id = 9, ts_length = 80, ts_precision = 0, ts_scale = 0\<rparr>)\<lparr>c_pk := True, c_default_sql := Some [49]\<rparr>"
  let ?ix = "\<lparr>ix_name = Some [105], ix_root = 7, ix_unique = 1, ix_col_idx = [0], ix_desc = Some [1], ix_kind = 0\<rparr>"
  let ?t = "empty_table\<lparr>t_name := Some [116], t_root := 5, t_cols := [?c], t_indexes := [?ix], t_row_start_col := -1, t_row_end_col := -1\<rparr>"
  let ?v = "\<lparr>v_name = Some [118], v_select_sql = None, v_materialized = 0, v_root = 0, v_stale = 0\<rparr>"
  let ?r = "\<lparr>rt_name = Some [114], rt_lua_src = None, rt_is_function = 1, rt_nargs = -1\<rparr>"
  have "table_ok ?t" by (simp add: table_ok_def column_ok_def index_ok_def str_ok_def int32_def cstr_ok_def empty_table_def tdb_column_init_def)
  moreover have "view_ok ?v" "routine_ok ?r" by (simp_all add: view_ok_def routine_ok_def str_ok_def int32_def cstr_ok_def)
  ultimately obtain r where "r_u8 (rd_on (data (ser_table avail ?t tdb_buf_init))) = (CAT_TABLE, r)" "deser_table r = (?t, rd_on [])"
    using catalog_object_roundtrip [of ?t ?v ?r] by blast
  then show ?thesis by (intro exI [of _ ?t] exI [of _ r]) simp
qed

end
