(* ===== verification/Tdb_Acl.thy ===== *)
theory Tdb_Acl
  imports Tdb_Serial_Props
begin

text \<open>
  \<^verbatim>\<open>src/catalog/tdb_acl.c\<close>: the access-control list. An entry with a missing or empty grantee,
  privilege or object matches every one; the list is kept newest first. The strings of a new
  entry are copies whose allocation may fail.
\<close>

section \<open>Entries\<close>

definition k_kinds :: "(cstr \<times> int) list" where
  "k_kinds = [(lit ''TABLE'', 1), (lit ''INDEX'', 2), (lit ''VIEW'', 3), (lit ''FUNCTION'', 4), (lit ''PROCEDURE'', 5),
     (lit ''TABLESPACE'', 6), (lit ''DATABASE'', 7), (lit ''SEQUENCE'', 8)]"

definition tdb_acl_kind_of :: "cstr option \<Rightarrow> int" where
  "tdb_acl_kind_of s =
     (case s of
        None \<Rightarrow> 0
      | Some s \<Rightarrow>
          (let s = dropWhile (c_isspace \<circ> unat) s in
           case find (\<lambda>k. strcase_prefix s (fst k)) k_kinds of Some k \<Rightarrow> snd k | None \<Rightarrow> 0))"

definition tdb_acl_kind_name :: "int \<Rightarrow> cstr" where
  "tdb_acl_kind_name kind = (case find (\<lambda>k. snd k = kind) k_kinds of Some k \<Rightarrow> fst k | None \<Rightarrow> lit ''UNKNOWN'')"

record acl_entry =
  e_grantee :: "cstr option"
  e_priv :: "cstr option"
  e_kind :: int
  e_object :: "cstr option"

record tdb_acl =
  acl_entries :: "acl_entry list"
  acl_count :: int

definition tdb_acl_init :: tdb_acl where
  "tdb_acl_init = \<lparr>acl_entries = [], acl_count = 0\<rparr>"



definition ci_same :: "cstr option \<Rightarrow> cstr option \<Rightarrow> bool" where
  "ci_same a b \<longleftrightarrow> (case (a, b) of (Some x, Some y) \<Rightarrow> strcase_eq x y | _ \<Rightarrow> False)"





section \<open>Operations\<close>








section \<open>Persistence\<close>

definition tdb_acl_entry_serialize :: "(nat \<Rightarrow> bool) \<Rightarrow> acl_entry \<Rightarrow> tdb_buf \<Rightarrow> tdb_buf" where
  "tdb_acl_entry_serialize ok e b =
     (let b = w_u8 ok CAT_GRANT b;
          b = snd (tdb_buf_append ok b [word_of_int (e_kind e)]);
          b = w_str ok (e_grantee e) b;
          b = w_str ok (e_priv e) b
      in w_str ok (e_object e) b)"

text \<open>
  One field of the loop over the three strings; \<open>None\<close> stands for the copy of a length that is
  negative as an \<^verbatim>\<open>int\<close>.
\<close>

definition acl_field :: "(nat \<Rightarrow> bool) \<Rightarrow> bytes \<Rightarrow> (tdb_status \<times> cstr option \<times> bytes) option" where
  "acl_field ok p =
     (case tdb_get_varint p (length p) of
        None \<Rightarrow> Some (TDB_CORRUPT, None, p)
      | Some (a, L) \<Rightarrow>
          if L = 0 then Some (TDB_OK, None, drop a p)
          else
            (let slen = c_int (L - 1); p1 = drop a p in
             if slen < 0 then None
             else if int (length p1) < slen then Some (TDB_CORRUPT, None, p1)
             else Some (TDB_OK, tdb_strndup ok p1 (nat slen), drop (nat slen) p1)))"

definition set_field :: "nat \<Rightarrow> cstr option \<Rightarrow> acl_entry \<Rightarrow> acl_entry" where
  "set_field i s e = (if i = 0 then e\<lparr>e_grantee := s\<rparr> else if i = 1 then e\<lparr>e_priv := s\<rparr> else e\<lparr>e_object := s\<rparr>)"

function acl_fields :: "(nat \<Rightarrow> bool) \<Rightarrow> nat \<Rightarrow> bytes \<Rightarrow> acl_entry \<Rightarrow> (tdb_status \<times> acl_entry) option" where
  "acl_fields ok i p e =
     (if i < 3 \<and> p \<noteq> [] then
        (case acl_field ok p of
           None \<Rightarrow> None
         | Some (rc, s, p1) \<Rightarrow> if rc \<noteq> TDB_OK then Some (rc, e) else acl_fields ok (Suc i) p1 (set_field i s e))
      else Some (TDB_OK, e))"
  by pat_completeness auto

termination acl_fields
  by (relation "measure (\<lambda>(ok, i, p, e). 3 - i)") auto

declare acl_fields.simps [simp del]

definition tdb_acl_entry_deserialize :: "(nat \<Rightarrow> bool) \<Rightarrow> bytes \<Rightarrow> (tdb_status \<times> acl_entry) option" where
  "tdb_acl_entry_deserialize ok p =
     (let e = \<lparr>e_grantee = None, e_priv = None, e_kind = 0, e_object = None\<rparr> in
      if length p < 2 \<or> p ! 0 \<noteq> CAT_GRANT then Some (TDB_CORRUPT, e)
      else acl_fields ok 0 (drop 2 p) (e\<lparr>e_kind := int (unat (p ! 1))\<rparr>))"

section \<open>Entries read back\<close>

lemma acl_field_str:
  assumes "str_ok s"
  shows "acl_field avail (str_bytes s @ bs) = Some (TDB_OK, s, bs)"
proof (cases s)
  case None
  then show ?thesis by (simp add: acl_field_def str_bytes_def tdb_codec)
next
  case (Some x)
  have len: "length x < 2 ^ 31" and ok: "cstr_ok x" using assms Some by (simp_all add: str_ok_def)
  have "unat (word_of_nat (length x) + 1 :: u64) = length x + 1" using len by (simp add: unat_word_ariths unat_of_nat)
  then have "word_of_nat (length x) + 1 \<noteq> (0 :: u64)" by (metis add_is_0 one_neq_zero unat_0)
  then show ?thesis using len ok by (simp add: Some acl_field_def str_bytes_def tdb_codec Let_def tdb_strndup_def)
qed

lemma acl_entry_roundtrip:
  assumes "str_ok (e_grantee e)" "str_ok (e_priv e)" "str_ok (e_object e)" "0 \<le> e_kind e" "e_kind e < 256"
  shows "tdb_acl_entry_deserialize avail (data (tdb_acl_entry_serialize avail e tdb_buf_init)) = Some (TDB_OK, e)"
proof -
  have d: "data (tdb_acl_entry_serialize avail e tdb_buf_init) =
      CAT_GRANT # word_of_int (e_kind e) # str_bytes (e_grantee e) @ str_bytes (e_priv e) @ str_bytes (e_object e)"
    by (simp add: tdb_acl_entry_serialize_def Let_def ser_data data_append tdb_buf_init_def)
  have k: "int (unat (word_of_int (e_kind e) :: byte)) = e_kind e"
    using assms(4,5) by (simp add: unsigned_of_int take_bit_int_eq_self)
  have last: "acl_field avail (str_bytes (e_object e)) = Some (TDB_OK, e_object e, [])" using acl_field_str [OF assms(3), of "[]"] by simp
  show ?thesis
    unfolding d tdb_acl_entry_deserialize_def Let_def
    using k last acl_field_str [OF assms(1)] acl_field_str [OF assms(2)]
    by (simp add: acl_fields.simps set_field_def)
qed

section \<open>What granting and revoking change\<close>

lemma strcase_eq_Nil [simp]: "strcase_eq x [] \<longleftrightarrow> x = []" "strcase_eq [] x \<longleftrightarrow> x = []"
  by (auto simp: strcase_eq_def bytes_ci_def)



lemma ci_same_refl: "x \<noteq> None \<Longrightarrow> ci_same x x"
  by (auto simp: ci_same_def)













end
