(* ===== verification/Tdb_Digest.thy ===== *)
theory Tdb_Digest
  imports Tdb_Mem
begin

text \<open>
  \<^verbatim>\<open>src/ext/tdb_crypto.c\<close>, the part without OpenSSL: SHA-256 with its incremental context,
  HMAC, MD5, SHA-1, CRC-32, and the hexadecimal and base64 codecs, on byte lists.
\<close>

section \<open>SHA-256\<close>

record sha256_ctx =
  sc_h :: "u32 list"
  sc_len :: u64
  sc_buf :: bytes
  sc_n :: nat

definition rotr32 :: "u32 \<Rightarrow> nat \<Rightarrow> u32" where
  "rotr32 x s = drop_bit s x OR push_bit (32 - s) x"

text \<open>The round constants, row by row as in the source.\<close>

definition SHA256_K :: "u32 list" where
  "SHA256_K = concat [
    [0x428a2f98, 0x71374491, 0xb5c0fbcf, 0xe9b5dba5, 0x3956c25b, 0x59f111f1, 0x923f82a4, 0xab1c5ed5],
    [0xd807aa98, 0x12835b01, 0x243185be, 0x550c7dc3, 0x72be5d74, 0x80deb1fe, 0x9bdc06a7, 0xc19bf174],
    [0xe49b69c1, 0xefbe4786, 0x0fc19dc6, 0x240ca1cc, 0x2de92c6f, 0x4a7484aa, 0x5cb0a9dc, 0x76f988da],
    [0x983e5152, 0xa831c66d, 0xb00327c8, 0xbf597fc7, 0xc6e00bf3, 0xd5a79147, 0x06ca6351, 0x14292967],
    [0x27b70a85, 0x2e1b2138, 0x4d2c6dfc, 0x53380d13, 0x650a7354, 0x766a0abb, 0x81c2c92e, 0x92722c85],
    [0xa2bfe8a1, 0xa81a664b, 0xc24b8b70, 0xc76c51a3, 0xd192e819, 0xd6990624, 0xf40e3585, 0x106aa070],
    [0x19a4c116, 0x1e376c08, 0x2748774c, 0x34b0bcb5, 0x391c0cb3, 0x4ed8aa4a, 0x5b9cca4f, 0x682e6ff3],
    [0x748f82ee, 0x78a5636f, 0x84c87814, 0x8cc70208, 0x90befffa, 0xa4506ceb, 0xbef9a3f7, 0xc67178f2]]"

definition sha256_iv :: "u32 list" where
  "sha256_iv = [0x6a09e667, 0xbb67ae85, 0x3c6ef372, 0xa54ff53a, 0x510e527f, 0x9b05688c, 0x1f83d9ab, 0x5be0cd19]"

text \<open>The buffer of a new context is not initialised; no byte of it is read before it is written.\<close>

definition sha256_init :: sha256_ctx where
  "sha256_init = \<lparr>sc_h = sha256_iv, sc_len = 0, sc_buf = replicate 64 0, sc_n = 0\<rparr>"

text \<open>The 16 words of a block, most or least significant byte first.\<close>

definition be_words :: "bytes \<Rightarrow> u32 list" where
  "be_words p = map (\<lambda>i. push_bit 24 (ucast (p ! (i * 4))) OR push_bit 16 (ucast (p ! (i * 4 + 1))) OR
                         push_bit 8 (ucast (p ! (i * 4 + 2))) OR ucast (p ! (i * 4 + 3))) [0..<16]"

definition le_words :: "bytes \<Rightarrow> u32 list" where
  "le_words p = map (\<lambda>i. ucast (p ! (i * 4)) OR push_bit 8 (ucast (p ! (i * 4 + 1))) OR
                         push_bit 16 (ucast (p ! (i * 4 + 2))) OR push_bit 24 (ucast (p ! (i * 4 + 3)))) [0..<16]"

definition sha256_schedule :: "bytes \<Rightarrow> u32 list" where
  "sha256_schedule p =
     foldl (\<lambda>w i.
       (let s0 = rotr32 (w ! (i - 15)) 7 XOR rotr32 (w ! (i - 15)) 18 XOR drop_bit 3 (w ! (i - 15));
            s1 = rotr32 (w ! (i - 2)) 17 XOR rotr32 (w ! (i - 2)) 19 XOR drop_bit 10 (w ! (i - 2))
        in w @ [w ! (i - 16) + s0 + w ! (i - 7) + s1])) (be_words p) [16..<64]"

text \<open>One round on the variables \<open>a\<close> to \<open>h\<close>.\<close>

definition sha256_round :: "u32 \<Rightarrow> u32 \<Rightarrow> u32 list \<Rightarrow> u32 list" where
  "sha256_round k w v =
     (let a = v ! 0; b = v ! 1; c = v ! 2; d = v ! 3; e = v ! 4; f = v ! 5; g = v ! 6; h = v ! 7;
          S1 = rotr32 e 6 XOR rotr32 e 11 XOR rotr32 e 25;
          ch = (e AND f) XOR (NOT e AND g);
          t1 = h + S1 + ch + k + w;
          S0 = rotr32 a 2 XOR rotr32 a 13 XOR rotr32 a 22;
          maj = (a AND b) XOR (a AND c) XOR (b AND c);
          t2 = S0 + maj
      in [t1 + t2, a, b, c, d + t1, e, f, g])"

definition sha256_block :: "u32 list \<Rightarrow> bytes \<Rightarrow> u32 list" where
  "sha256_block h p =
     (let w = sha256_schedule p; v = foldl (\<lambda>v i. sha256_round (SHA256_K ! i) (w ! i) v) h [0..<64] in map2 (+) h v)"

text \<open>
  The loop of \<open>sha256_update\<close>. A context between calls holds fewer than 64 bytes; the guard
  only says so to the definition.
\<close>

function update_loop :: "sha256_ctx \<Rightarrow> bytes \<Rightarrow> sha256_ctx" where
  "update_loop c p =
     (if p \<noteq> [] \<and> sc_n c < 64 then
        (let k = min (64 - sc_n c) (length p);
             c1 = c\<lparr>sc_buf := patch (sc_n c) (take k p) (sc_buf c), sc_n := sc_n c + k\<rparr>;
             c2 = (if sc_n c1 = 64 then c1\<lparr>sc_h := sha256_block (sc_h c1) (sc_buf c1), sc_n := 0\<rparr> else c1)
         in update_loop c2 (drop k p))
      else c)"
  by pat_completeness auto

termination update_loop
  by (relation "measure (\<lambda>(c, p). length p)") auto

declare update_loop.simps [simp del]

definition sha256_update :: "sha256_ctx \<Rightarrow> bytes \<Rightarrow> sha256_ctx" where
  "sha256_update c p = update_loop (c\<lparr>sc_len := sc_len c + word_of_nat (length p)\<rparr>) p"

lemma update_loop_one:
  assumes "sc_n c < 64"
  shows "sc_n (update_loop c [b]) = (sc_n c + 1) mod 64"
proof -
  have "min (64 - sc_n c) (Suc 0) = Suc 0" using assms by simp
  then show ?thesis using assms by (subst update_loop.simps) (auto simp: Let_def update_loop.simps [of _ "[]"])
qed

text \<open>\<^verbatim>\<open>while (c->n != 56) sha256_update(c, &zero, 1)\<close>\<close>

function pad_loop :: "sha256_ctx \<Rightarrow> sha256_ctx" where
  "pad_loop c = (if sc_n c \<noteq> 56 \<and> sc_n c < 64 then pad_loop (sha256_update c [0]) else c)"
  by pat_completeness auto

termination pad_loop
proof (relation "measure (\<lambda>c. (120 - sc_n c) mod 64)", goal_cases)
  case (2 c)
  then have n: "sc_n (sha256_update c [0]) = (sc_n c + 1) mod 64" by (simp add: sha256_update_def update_loop_one)
  show ?case
  proof (cases "sc_n c = 63")
    case True
    then show ?thesis using n by simp
  next
    case False
    then show ?thesis using n 2 by (auto simp: mod_if)
  qed
qed simp

declare pad_loop.simps [simp del]

definition be_bytes64 :: "u64 \<Rightarrow> bytes" where
  "be_bytes64 v = map (\<lambda>i. ucast (drop_bit (56 - i * 8) v)) [0..<8]"

definition be_out :: "u32 list \<Rightarrow> bytes" where
  "be_out h = concat (map (\<lambda>x. [ucast (drop_bit 24 x), ucast (drop_bit 16 x), ucast (drop_bit 8 x), ucast x]) h)"

definition sha256_final :: "sha256_ctx \<Rightarrow> bytes" where
  "sha256_final c =
     (let bits = sc_len c * 8; c1 = pad_loop (sha256_update c [0x80]); c2 = sha256_update c1 (be_bytes64 bits) in be_out (sc_h c2))"

definition sha256 :: "bytes \<Rightarrow> bytes" where
  "sha256 p = sha256_final (sha256_update sha256_init p)"

definition hmac_sha256 :: "bytes \<Rightarrow> bytes \<Rightarrow> bytes" where
  "hmac_sha256 key msg =
     (let k = patch 0 (if 64 < length key then sha256 key else key) (replicate 64 0);
          ipad = map (\<lambda>b. b XOR 0x36) k; opad = map (\<lambda>b. b XOR 0x5c) k;
          inner = sha256_final (sha256_update (sha256_update sha256_init ipad) msg)
      in sha256_final (sha256_update (sha256_update sha256_init opad) inner))"

section \<open>MD5 and SHA-1\<close>

definition rotl32 :: "u32 \<Rightarrow> nat \<Rightarrow> u32" where
  "rotl32 x s = push_bit s x OR drop_bit (32 - s) x"

definition MD5_S :: "nat list" where
  "MD5_S = concat (replicate 4 [7, 12, 17, 22]) @ concat (replicate 4 [5, 9, 14, 20]) @
     concat (replicate 4 [4, 11, 16, 23]) @ concat (replicate 4 [6, 10, 15, 21])"

definition MD5_K :: "u32 list" where
  "MD5_K = [
    0xd76aa478, 0xe8c7b756, 0x242070db, 0xc1bdceee, 0xf57c0faf, 0x4787c62a, 0xa8304613, 0xfd469501,
    0x698098d8, 0x8b44f7af, 0xffff5bb1, 0x895cd7be, 0x6b901122, 0xfd987193, 0xa679438e, 0x49b40821,
    0xf61e2562, 0xc040b340, 0x265e5a51, 0xe9b6c7aa, 0xd62f105d, 0x02441453, 0xd8a1e681, 0xe7d3fbc8,
    0x21e1cde6, 0xc33707d6, 0xf4d50d87, 0x455a14ed, 0xa9e3e905, 0xfcefa3f8, 0x676f02d9, 0x8d2a4c8a,
    0xfffa3942, 0x8771f681, 0x6d9d6122, 0xfde5380c, 0xa4beea44, 0x4bdecfa9, 0xf6bb4b60, 0xbebfbc70,
    0x289b7ec6, 0xeaa127fa, 0xd4ef3085, 0x04881d05, 0xd9d4d039, 0xe6db99e5, 0x1fa27cf8, 0xc4ac5665,
    0xf4292244, 0x432aff97, 0xab9423a7, 0xfc93a039, 0x655b59c3, 0x8f0ccc92, 0xffeff47d, 0x85845dd1,
    0x6fa87e4f, 0xfe2ce6e0, 0xa3014314, 0x4e0811a1, 0xf7537e82, 0xbd3af235, 0x2ad7d2bb, 0xeb86d391]"

definition md5_round :: "u32 list \<Rightarrow> nat \<Rightarrow> u32 list \<Rightarrow> u32 list" where
  "md5_round m i v =
     (let a = v ! 0; b = v ! 1; c = v ! 2; d = v ! 3;
          (f, g) =
            (if i < 16 then ((b AND c) OR (NOT b AND d), i)
             else if i < 32 then ((d AND b) OR (NOT d AND c), (5 * i + 1) mod 16)
             else if i < 48 then (b XOR c XOR d, (3 * i + 5) mod 16)
             else (c XOR (b OR NOT d), (7 * i) mod 16));
          f' = f + a + MD5_K ! i + m ! g
      in [d, b + rotl32 f' (MD5_S ! i), b, c])"

definition md5_block :: "u32 list \<Rightarrow> bytes \<Rightarrow> u32 list" where
  "md5_block h p = (let m = le_words p; v = foldl (\<lambda>v i. md5_round m i v) h [0..<64] in map2 (+) h v)"

text \<open>
  The tail of a one-shot digest: what is left after the full blocks, the bit 1, zeros up to 56 or
  120 bytes, and the length in bits.
\<close>

definition digest_tail :: "(u64 \<Rightarrow> bytes) \<Rightarrow> bytes \<Rightarrow> bytes" where
  "digest_tail lenb p =
     (let r = drop (length p div 64 * 64) p @ [0x80]; padto = (if length r \<le> 56 then 56 else 120)
      in r @ replicate (padto - length r) 0 @ lenb (word_of_nat (length p) * 8))"

text \<open>The loop over blocks of 64 bytes, as many as there are.\<close>

definition block_loop :: "(u32 list \<Rightarrow> bytes \<Rightarrow> u32 list) \<Rightarrow> u32 list \<Rightarrow> bytes \<Rightarrow> nat \<Rightarrow> u32 list" where
  "block_loop f h p n = foldl (\<lambda>h i. f h (slice (i * 64) 64 p)) h [0..<n]"

definition one_shot :: "(u32 list \<Rightarrow> bytes \<Rightarrow> u32 list) \<Rightarrow> (u64 \<Rightarrow> bytes) \<Rightarrow> u32 list \<Rightarrow> bytes \<Rightarrow> u32 list" where
  "one_shot f lenb iv p =
     (let h = block_loop f iv p (length p div 64); tail = digest_tail lenb p in block_loop f h tail (length tail div 64))"

definition le_bytes64 :: "u64 \<Rightarrow> bytes" where
  "le_bytes64 v = map (\<lambda>i. ucast (drop_bit (i * 8) v)) [0..<8]"

definition le_out :: "u32 list \<Rightarrow> bytes" where
  "le_out h = concat (map (\<lambda>x. [ucast x, ucast (drop_bit 8 x), ucast (drop_bit 16 x), ucast (drop_bit 24 x)]) h)"

definition md5_iv :: "u32 list" where
  "md5_iv = [0x67452301, 0xefcdab89, 0x98badcfe, 0x10325476]"

definition md5 :: "bytes \<Rightarrow> bytes" where
  "md5 p = le_out (one_shot md5_block le_bytes64 md5_iv p)"

definition sha1_schedule :: "bytes \<Rightarrow> u32 list" where
  "sha1_schedule p =
     foldl (\<lambda>w i. (let v = w ! (i - 3) XOR w ! (i - 8) XOR w ! (i - 14) XOR w ! (i - 16) in w @ [push_bit 1 v OR drop_bit 31 v]))
       (be_words p) [16..<80]"

definition sha1_round :: "u32 list \<Rightarrow> nat \<Rightarrow> u32 list \<Rightarrow> u32 list" where
  "sha1_round w i v =
     (let a = v ! 0; b = v ! 1; c = v ! 2; d = v ! 3; e = v ! 4;
          (f, k) =
            (if i < 20 then ((b AND c) OR (NOT b AND d), 0x5a827999)
             else if i < 40 then (b XOR c XOR d, 0x6ed9eba1)
             else if i < 60 then ((b AND c) OR (b AND d) OR (c AND d), 0x8f1bbcdc)
             else (b XOR c XOR d, 0xca62c1d6));
          t = (push_bit 5 a OR drop_bit 27 a) + f + e + k + w ! i
      in [t, a, push_bit 30 b OR drop_bit 2 b, c, d])"

definition sha1_block :: "u32 list \<Rightarrow> bytes \<Rightarrow> u32 list" where
  "sha1_block h p = (let w = sha1_schedule p; v = foldl (\<lambda>v i. sha1_round w i v) h [0..<80] in map2 (+) h v)"

definition sha1_iv :: "u32 list" where
  "sha1_iv = [0x67452301, 0xefcdab89, 0x98badcfe, 0x10325476, 0xc3d2e1f0]"

definition sha1 :: "bytes \<Rightarrow> bytes" where
  "sha1 p = be_out (one_shot sha1_block be_bytes64 sha1_iv p)"

section \<open>CRC-32\<close>

definition crc32_bit :: "u32 \<Rightarrow> u32" where
  "crc32_bit crc = drop_bit 1 crc XOR (0xedb88320 AND - (crc AND 1))"

definition crc32_bytes :: "bytes \<Rightarrow> u32" where
  "crc32_bytes p = foldl (\<lambda>crc b. (crc32_bit ^^ 8) (crc XOR ucast b)) 0xffffffff p XOR 0xffffffff"

section \<open>Hexadecimal and base64\<close>

definition hexd :: bytes where
  "hexd = lit ''0123456789abcdef''"

text \<open>
  The loop of \<open>result_hex\<close>, whose indices are right while they fit an \<^verbatim>\<open>int\<close>, and the whole
  function: \<open>None\<close> where \<^verbatim>\<open>n * 2 + 1\<close> overflows an \<^verbatim>\<open>int\<close>, which C leaves undefined; short texts
  need no allocation. The base64 functions below are for lengths up to \<open>2 ^ 31 - 3\<close>.
\<close>

definition hex_text :: "bytes \<Rightarrow> bytes" where
  "hex_text p = concat (map (\<lambda>b. [hexd ! unat (drop_bit 4 b AND 0xf), hexd ! unat (b AND 0xf)]) p)"

definition result_hex :: "(nat \<Rightarrow> bool) \<Rightarrow> bytes \<Rightarrow> (string + bytes) option" where
  "result_hex ok p =
     (let n = length p in
      if 2 ^ 31 \<le> n * 2 + 1 then None
      else if \<not> (n * 2 + 1 \<le> 129) \<and> \<not> ok (n * 2 + 1) then Some (Inl ''out of memory'')
      else Some (Inr (hex_text p)))"

definition hexval :: "byte \<Rightarrow> int" where
  "hexval b =
     (let c = int (unat b) in
      if 48 \<le> c \<and> c \<le> 57 then c - 48 else if 97 \<le> c \<and> c \<le> 102 then c - 97 + 10 else if 65 \<le> c \<and> c \<le> 70 then c - 65 + 10 else -1)"

text \<open>The outcomes of a conversion function: a blob, or an error message.\<close>

fun unhex_loop :: "bytes \<Rightarrow> string + bytes" where
  "unhex_loop (a # b # s) =
     (let hi = hexval a; lo = hexval b in
      if hi < 0 \<or> lo < 0 then Inl ''unhex: invalid hex digit''
      else map_sum id ((#) (word_of_int (push_bit 4 hi OR lo))) (unhex_loop s))"
| "unhex_loop _ = Inr []"

definition unhex :: "bytes \<Rightarrow> string + bytes" where
  "unhex s = (if odd (length s) then Inl ''unhex: odd-length string'' else unhex_loop s)"

definition k_b64 :: bytes where
  "k_b64 = lit ''ABCDEFGHIJKLMNOPQRSTUVWXYZabcdefghijklmnopqrstuvwxyz0123456789+/''"

definition b64val :: "byte \<Rightarrow> int" where
  "b64val b =
     (let c = int (unat b) in
      if 65 \<le> c \<and> c \<le> 90 then c - 65 else if 97 \<le> c \<and> c \<le> 122 then c - 97 + 26
      else if 48 \<le> c \<and> c \<le> 57 then c - 48 + 52 else if c = 43 then 62 else if c = 47 then 63 else -1)"

definition b64_char :: "u32 \<Rightarrow> nat \<Rightarrow> byte" where
  "b64_char v s = k_b64 ! unat (drop_bit s v AND 63)"

fun base64_encode :: "bytes \<Rightarrow> bytes" where
  "base64_encode (a # b # c # p) =
     (let v = push_bit 16 (ucast a) OR push_bit 8 (ucast b) OR ucast c
      in b64_char v 18 # b64_char v 12 # b64_char v 6 # b64_char v 0 # base64_encode p)"
| "base64_encode [a, b] = (let v = push_bit 16 (ucast a) OR push_bit 8 (ucast b) in [b64_char v 18, b64_char v 12, b64_char v 6, 61])"
| "base64_encode [a] = (let v = push_bit 16 (ucast a) in [b64_char v 18, b64_char v 12, 61, 61])"
| "base64_encode [] = []"

primrec base64_loop :: "bytes \<Rightarrow> u32 \<Rightarrow> nat \<Rightarrow> string + bytes" where
  "base64_loop [] v bits = Inr []"
| "base64_loop (c # s) v bits =
     (if c = 61 \<or> c = 10 \<or> c = 13 \<or> c = 32 then base64_loop s v bits
      else
        (let d = b64val c in
         if d < 0 then Inl ''base64: invalid character''
         else
           (let v1 = push_bit 6 v OR word_of_int d; bits1 = bits + 6 in
            if 8 \<le> bits1 then map_sum id ((#) (ucast (drop_bit (bits1 - 8) v1))) (base64_loop s v1 (bits1 - 8))
            else base64_loop s v1 bits1)))"

definition base64_decode :: "bytes \<Rightarrow> string + bytes" where
  "base64_decode s = base64_loop s 0 0"

end
