(* ===== verification/Tdb_Digest_Props.thy ===== *)
theory Tdb_Digest_Props
  imports Tdb_Digest
begin

text \<open>
  The digests and codecs of \<^verbatim>\<open>src/ext/tdb_crypto.c\<close> against reference definitions: a digest is
  the compression of the blocks of the padded message, however the message is delivered.
\<close>

section \<open>The reference\<close>

text \<open>
  The padded message: a bit 1, zeros up to 8 bytes short of a multiple of 64, and the length of the
  message in bits.
\<close>

definition md_zeros :: "nat \<Rightarrow> nat" where
  "md_zeros n = (119 - n mod 64) mod 64"

definition md_pad :: "(u64 \<Rightarrow> bytes) \<Rightarrow> bytes \<Rightarrow> bytes" where
  "md_pad lenb p = p @ [0x80] @ replicate (md_zeros (length p)) 0 @ lenb (word_of_nat (length p) * 8)"

definition md_hash :: "(u32 list \<Rightarrow> bytes \<Rightarrow> u32 list) \<Rightarrow> u32 list \<Rightarrow> bytes \<Rightarrow> u32 list" where
  "md_hash f iv m = block_loop f iv m (length m div 64)"

lemma block_loop_0 [simp]: "block_loop f h p 0 = h"
  by (simp add: block_loop_def)

lemma block_loop_Suc [simp]: "block_loop f h p (Suc n) = f (block_loop f h p n) (slice (n * 64) 64 p)"
  by (simp add: block_loop_def)

lemma block_loop_append: "n * 64 \<le> length p \<Longrightarrow> block_loop f h (p @ q) n = block_loop f h p n"
  by (induction n) auto

lemma block_loop_shift:
  "n * 64 \<le> length p \<Longrightarrow> block_loop f (block_loop f h p n) (drop (n * 64) p) k = block_loop f h p (n + k)"
  by (induction k) (simp_all add: slice_def algebra_simps)

lemma md_pad_length:
  assumes "\<And>v. length (lenb v) = 8"
  shows "length (md_pad lenb p) mod 64 = 0"
proof -
  have "(n + (9 + (119 - n mod 64) mod 64)) mod 64 = 0" for n :: nat
  proof -
    define r where "r = n mod 64"
    define q where "q = n div 64"
    have n: "n = q * 64 + r" and r: "r < 64" by (simp_all add: q_def r_def)
    show ?thesis
    proof (cases "r \<le> 55")
      case True
      then have "(119 - r) mod 64 = 55 - r" by (simp add: mod_if)
      then have "n + (9 + (119 - r) mod 64) = (q + 1) * 64" using n True by simp
      then show ?thesis unfolding r_def [symmetric] by (simp only: mod_mult_self2_is_0)
    next
      case False
      then have "(119 - r) mod 64 = 119 - r" using r by simp
      then have "n + (9 + (119 - r) mod 64) = (q + 2) * 64" using n False r by simp
      then show ?thesis unfolding r_def [symmetric] by (simp only: mod_mult_self2_is_0)
    qed
  qed
  from this [of "length p"] show ?thesis by (simp add: md_pad_def md_zeros_def assms ac_simps)
qed

section \<open>The incremental context\<close>

text \<open>The context after a message: the state of the full blocks, and the rest in the buffer.\<close>

definition absorbed :: "sha256_ctx \<Rightarrow> bytes \<Rightarrow> bool" where
  "absorbed c m \<longleftrightarrow> sc_h c = md_hash sha256_block sha256_iv m \<and> sc_n c = length m mod 64 \<and> length (sc_buf c) = 64 \<and>
     take (sc_n c) (sc_buf c) = drop (length m div 64 * 64) m"

lemma absorbed_init: "absorbed sha256_init []"
  by (simp add: absorbed_def sha256_init_def md_hash_def)

lemma absorbed_chunk:
  assumes inv: "absorbed c m" and k: "sc_n c + length q \<le> 64" "q \<noteq> []"
  defines "c1 \<equiv> c\<lparr>sc_buf := patch (sc_n c) q (sc_buf c), sc_n := sc_n c + length q\<rparr>"
  shows "absorbed (if sc_n c1 = 64 then c1\<lparr>sc_h := sha256_block (sc_h c1) (sc_buf c1), sc_n := 0\<rparr> else c1) (m @ q)"
proof -
  let ?d = "length m div 64"
  have n: "sc_n c = length m mod 64" and lb: "length (sc_buf c) = 64" and tk: "take (sc_n c) (sc_buf c) = drop (?d * 64) m"
    using inv unfolding absorbed_def by blast+
  have lm: "length m = ?d * 64 + sc_n c" using n by simp
  have buf: "take (sc_n c + length q) (sc_buf c1) = drop (?d * 64) m @ q"
    unfolding tk [symmetric] using lb k by (simp add: c1_def patch_def)
  show ?thesis
  proof (cases "sc_n c + length q = 64")
    case True
    have len: "length (m @ q) = Suc ?d * 64" using lm True by simp
    have dv: "length (m @ q) div 64 = Suc ?d" "length (m @ q) mod 64 = 0" unfolding len by simp_all
    have lb1: "length (sc_buf c1) = 64" using lb k by (simp add: c1_def)
    have sl: "slice (?d * 64) 64 (m @ q) = sc_buf c1"
      using buf True lb1 lm by (simp add: slice_def)
    have "md_hash sha256_block sha256_iv (m @ q) = sha256_block (md_hash sha256_block sha256_iv m) (sc_buf c1)"
      unfolding md_hash_def dv block_loop_Suc sl by (simp add: block_loop_append)
    then show ?thesis using True inv dv len lb1 by (simp add: absorbed_def c1_def)
  next
    case False
    then have lt: "sc_n c + length q < 64" using k by simp
    have len: "length (m @ q) = ?d * 64 + (sc_n c + length q)" using lm by simp
    have dv: "length (m @ q) div 64 = ?d" "length (m @ q) mod 64 = sc_n c + length q" unfolding len using lt by simp_all
    have "md_hash sha256_block sha256_iv (m @ q) = md_hash sha256_block sha256_iv m"
      unfolding md_hash_def dv by (simp add: block_loop_append)
    then show ?thesis using False inv dv len lb k buf by (simp add: absorbed_def c1_def)
  qed
qed

lemma absorbed_lt: "absorbed c m \<Longrightarrow> sc_n c < 64"
  by (simp add: absorbed_def)

lemma absorbed_update_loop: "absorbed c m \<Longrightarrow> absorbed (update_loop c p) (m @ p)"
proof (induction c p arbitrary: m rule: update_loop.induct)
  case (1 c p)
  show ?case
  proof (cases "p = []")
    case True
    then show ?thesis using 1 by (simp add: update_loop.simps)
  next
    case False
    let ?k = "min (64 - sc_n c) (length p)"
    define c1 where "c1 = c\<lparr>sc_buf := patch (sc_n c) (take ?k p) (sc_buf c), sc_n := sc_n c + ?k\<rparr>"
    define c2 where "c2 = (if sc_n c1 = 64 then c1\<lparr>sc_h := sha256_block (sc_h c1) (sc_buf c1), sc_n := 0\<rparr> else c1)"
    have lt: "sc_n c < 64" using 1(2) by (rule absorbed_lt)
    have lk: "length (take ?k p) = ?k" by simp
    have "sc_n c + length (take ?k p) \<le> 64" "take ?k p \<noteq> []" using False lt by auto
    from absorbed_chunk [OF 1(2) this] have "absorbed c2 (m @ take ?k p)"
      unfolding c2_def c1_def lk .
    then have "absorbed (update_loop c2 (drop ?k p)) ((m @ take ?k p) @ drop ?k p)"
      using 1(1) False lt c1_def c2_def by blast
    moreover have "update_loop c p = update_loop c2 (drop ?k p)"
      using False lt by (subst update_loop.simps) (simp add: c1_def c2_def Let_def)
    ultimately show ?thesis by simp
  qed
qed

lemma absorbed_len: "absorbed (c\<lparr>sc_len := x\<rparr>) m = absorbed c m"
  by (simp add: absorbed_def)

lemma absorbed_update: "absorbed c m \<Longrightarrow> absorbed (sha256_update c p) (m @ p)"
  by (simp add: sha256_update_def absorbed_update_loop absorbed_len)

lemma update_loop_len: "sc_len (update_loop c p) = sc_len c"
  by (induction c p rule: update_loop.induct) (subst update_loop.simps, simp add: Let_def)

lemma update_len: "sc_len (sha256_update c p) = sc_len c + word_of_nat (length p)"
  by (simp add: sha256_update_def update_loop_len)

lemma mod64_wrap: "r \<le> 56 \<Longrightarrow> (120 - r) mod 64 = (56 - r) mod (64 :: nat)"
proof -
  assume "r \<le> 56"
  then have "120 - r = 64 + (56 - r)" by simp
  then show ?thesis by (simp only: mod_add_self1)
qed

lemma pad_step:
  assumes "r < 64" "r \<noteq> 56"
  shows "(120 - r) mod 64 = Suc ((120 - Suc r mod 64) mod (64 :: nat))"
proof (cases "r = 63")
  case False
  then have s: "Suc r mod 64 = Suc r" using assms by simp
  show ?thesis using mod64_wrap [of r] mod64_wrap [of "Suc r"] assms unfolding s by (cases "r < 56") auto
qed simp

lemma tail_zeros:
  assumes "r < 64"
  shows "(119 - r) mod 64 = (if Suc r \<le> 56 then 56 else 120) - Suc (r :: nat)"
  using mod64_wrap [of "Suc r"] assms by auto

lemma pad_zeros: "(120 - Suc n mod 64) mod 64 = md_zeros n"
proof (cases "n mod 64 = 63")
  case True
  then show ?thesis by (simp add: md_zeros_def mod_Suc)
qed (simp add: md_zeros_def mod_Suc)

lemma absorbed_pad: "absorbed c m \<Longrightarrow> absorbed (pad_loop c) (m @ replicate ((120 - length m mod 64) mod 64) 0)"
proof (induction c arbitrary: m rule: pad_loop.induct)
  case (1 c)
  have n: "sc_n c = length m mod 64" "sc_n c < 64" using 1(2) by (simp_all add: absorbed_def)
  show ?case
  proof (cases "sc_n c = 56")
    case True
    then show ?thesis using 1(2) n by (simp add: pad_loop.simps)
  next
    case False
    have "length (m @ [0]) mod 64 = Suc (length m) mod 64" by simp
    moreover have "(120 - length m mod 64) mod 64 = Suc ((120 - Suc (length m) mod 64) mod 64)"
      using pad_step [of "length m mod 64"] n False by (simp add: mod_simps)
    moreover have "absorbed (pad_loop (sha256_update c [0])) ((m @ [0]) @ replicate ((120 - length (m @ [0]) mod 64) mod 64) 0)"
      using 1 False n absorbed_update by blast
    ultimately show ?thesis using False n by (subst pad_loop.simps) simp
  qed
qed

lemma sha256_final_absorbed:
  assumes "absorbed c m" "sc_len c = word_of_nat (length m)"
  shows "sha256_final c = be_out (md_hash sha256_block sha256_iv (md_pad be_bytes64 m))"
proof -
  have z: "(120 - length (m @ [0x80 :: byte]) mod 64) mod 64 = md_zeros (length m)"
    using pad_zeros [of "length m"] by simp
  have "absorbed (pad_loop (sha256_update c [0x80])) ((m @ [0x80]) @ replicate (md_zeros (length m)) 0)"
    using absorbed_pad [OF absorbed_update [OF assms(1), of "[0x80]"]] unfolding z .
  from absorbed_update [OF this, of "be_bytes64 (sc_len c * 8)"] show ?thesis
    using assms(2) by (simp add: sha256_final_def Let_def absorbed_def md_pad_def)
qed

lemma sha256_updates:
  "sha256_final (sha256_update (sha256_update sha256_init p) q) = be_out (md_hash sha256_block sha256_iv (md_pad be_bytes64 (p @ q)))"
proof (rule sha256_final_absorbed)
  show "absorbed (sha256_update (sha256_update sha256_init p) q) (p @ q)"
    using absorbed_update [OF absorbed_update [OF absorbed_init, of p], of q] by simp
  show "sc_len (sha256_update (sha256_update sha256_init p) q) = word_of_nat (length (p @ q))"
    by (simp add: update_len) (simp add: sha256_init_def)
qed

lemma sha256_reference: "sha256 p = be_out (md_hash sha256_block sha256_iv (md_pad be_bytes64 p))"
  unfolding sha256_def
  by (rule sha256_final_absorbed)
     (use absorbed_update [OF absorbed_init, of p] in \<open>simp_all add: update_len\<close>, simp add: sha256_init_def)

lemma sha256_incremental: "sha256_final (sha256_update (sha256_update sha256_init p) q) = sha256 (p @ q)"
  by (simp add: sha256_updates sha256_reference)

section \<open>The one-shot digests\<close>

lemma digest_tail_pad: "drop (length p div 64 * 64) (md_pad lenb p) = digest_tail lenb p"
proof -
  let ?r = "drop (length p div 64 * 64) p"
  have lr: "length ?r = length p mod 64" by (simp add: minus_div_mult_eq_mod)
  have "length p mod 64 < 64" by simp
  then have "md_zeros (length p) = (if length (?r @ [0x80 :: byte]) \<le> 56 then 56 else 120) - length (?r @ [0x80 :: byte])"
    unfolding md_zeros_def length_append lr by (simp only: tail_zeros) simp
  then show ?thesis by (simp add: digest_tail_def md_pad_def Let_def)
qed

lemma one_shot_md: "one_shot f lenb iv p = md_hash f iv (md_pad lenb p)"
proof -
  let ?n = "length p div 64" and ?m = "md_pad lenb p"
  have le: "?n * 64 \<le> length p" by simp
  then have lem: "?n * 64 \<le> length ?m" by (simp add: md_pad_def)
  have h: "block_loop f iv p ?n = block_loop f iv ?m ?n"
    unfolding md_pad_def by (simp only: block_loop_append [OF le])
  have "length (digest_tail lenb p) = length ?m - ?n * 64"
    by (simp flip: digest_tail_pad)
  then have "length ?m = length (digest_tail lenb p) + ?n * 64" using lem by simp
  then have k: "?n + length (digest_tail lenb p) div 64 = length ?m div 64" by simp
  show ?thesis
    using block_loop_shift [OF lem, of f iv "length (digest_tail lenb p) div 64"]
    by (simp add: one_shot_def Let_def h md_hash_def digest_tail_pad k)
qed

text \<open>
  C28: The digests compute their standards' iteration. SHA-256, whose context takes the message in
  pieces and buffers up to a block, and MD5 and SHA-1, which pad in a tail buffer, give for every
  message, of any length modulo 64, the compression function iterated over the blocks of the
  padded message, which is a whole number of blocks; and HMAC is the nested SHA-256 of RFC 2104.
\<close>

theorem digests_iterate_padded_blocks:
  "sha256 p = be_out (md_hash sha256_block sha256_iv (md_pad be_bytes64 p)) \<and>
   sha1 p = be_out (md_hash sha1_block sha1_iv (md_pad be_bytes64 p)) \<and>
   md5 p = le_out (md_hash md5_block md5_iv (md_pad le_bytes64 p)) \<and>
   length (md_pad be_bytes64 p) mod 64 = 0 \<and> length (md_pad le_bytes64 p) mod 64 = 0 \<and>
   sha256_final (sha256_update (sha256_update sha256_init p) q) = sha256 (p @ q) \<and>
   hmac_sha256 key p =
     (let k = (if 64 < length key then sha256 key else key); k0 = k @ replicate (64 - length k) 0
      in sha256 (map (\<lambda>b. b XOR 0x5c) k0 @ sha256 (map (\<lambda>b. b XOR 0x36) k0 @ p)))"
proof (intro conjI)
  show "sha256 p = be_out (md_hash sha256_block sha256_iv (md_pad be_bytes64 p))" by (rule sha256_reference)
  show "sha1 p = be_out (md_hash sha1_block sha1_iv (md_pad be_bytes64 p))" by (simp add: sha1_def one_shot_md)
  show "md5 p = le_out (md_hash md5_block md5_iv (md_pad le_bytes64 p))" by (simp add: md5_def one_shot_md)
  show "length (md_pad be_bytes64 p) mod 64 = 0" by (simp add: md_pad_length be_bytes64_def)
  show "length (md_pad le_bytes64 p) mod 64 = 0" by (simp add: md_pad_length le_bytes64_def)
  show "sha256_final (sha256_update (sha256_update sha256_init p) q) = sha256 (p @ q)" by (rule sha256_incremental)
  show "hmac_sha256 key p =
     (let k = (if 64 < length key then sha256 key else key); k0 = k @ replicate (64 - length k) 0
      in sha256 (map (\<lambda>b. b XOR 0x5c) k0 @ sha256 (map (\<lambda>b. b XOR 0x36) k0 @ p)))"
    by (simp add: hmac_sha256_def Let_def sha256_incremental patch_def)
qed

end
