(* ===== verification/Tdb_Codec.thy ===== *)
theory Tdb_Codec
  imports Tdb_Digest
begin

text \<open>
  The hexadecimal and base64 functions of \<^verbatim>\<open>src/ext/tdb_crypto.c\<close> decode what they encode.
\<close>

section \<open>Hexadecimal\<close>

lemma nibble_lt: "unat (b AND 0xf :: byte) < 16"
  using word_and_le1 [of b "0xf"] by (simp add: word_le_nat_alt)

lemma sextet_lt: "unat (v AND 63 :: u32) < 64"
  using word_and_le1 [of v 63] by (simp add: word_le_nat_alt)

lemma hexval_hexd: "n < 16 \<Longrightarrow> hexval (hexd ! n) = int n"
proof -
  have "list_all (\<lambda>n. hexval (hexd ! n) = int n) [0..<16]" by code_simp
  then show "n < 16 \<Longrightarrow> hexval (hexd ! n) = int n" by (simp only: list_all_iff set_upt) auto
qed

lemma b64val_b64: "n < 64 \<Longrightarrow> b64val (k_b64 ! n) = int n \<and> k_b64 ! n \<notin> {61, 10, 13, 32}"
proof -
  have "list_all (\<lambda>n. b64val (k_b64 ! n) = int n \<and> k_b64 ! n \<notin> {61, 10, 13, 32}) [0..<64]" by code_simp
  then show "n < 64 \<Longrightarrow> b64val (k_b64 ! n) = int n \<and> k_b64 ! n \<notin> {61, 10, 13, 32}" by (simp only: list_all_iff set_upt) auto
qed

lemma nibbles: "push_bit 4 (drop_bit 4 b AND 0xf) OR (b AND 0xf) = (b :: byte)"
proof -
  have m: "(0xf :: byte) = mask 4" by (simp add: mask_eq_exp_minus_1)
  show ?thesis unfolding m by (rule bit_word_eqI) (auto simp: bit_simps)
qed

lemma join_nibbles: "word_of_int (push_bit 4 (int (unat x)) OR int (unat y)) = (push_bit 4 x OR y :: byte)"
  by (rule bit_word_eqI) (auto simp: bit_simps)

lemma unhex_loop_hex: "unhex_loop (hex_text p) = Inr p"
proof (induction p)
  case (Cons b p)
  have "word_of_int (push_bit 4 (int (unat (drop_bit 4 b AND 0xf))) OR int (unat (b AND 0xf))) = b"
    by (simp only: join_nibbles nibbles)
  then show ?case using Cons unfolding hex_text_def by (simp add: hexval_hexd nibble_lt Let_def del: of_nat_unat)
qed (simp add: hex_text_def)

lemma even_hex_text: "even (length (hex_text p))"
  by (induction p) (simp_all add: hex_text_def)

lemma unhex_hex: "unhex (hex_text p) = Inr p"
  using even_hex_text by (simp add: unhex_def unhex_loop_hex)

section \<open>Base64\<close>

text \<open>One character of the alphabet moves six bits into the accumulator.\<close>

lemma base64_step:
  "base64_loop (b64_char w s # cs) v bits =
     (let v1 = push_bit 6 v OR (drop_bit s w AND 63) in
      if 8 \<le> bits + 6 then map_sum id ((#) (ucast (drop_bit (bits - 2) v1))) (base64_loop cs v1 (bits - 2))
      else base64_loop cs v1 (bits + 6))"
proof -
  let ?n = "unat (drop_bit s w AND 63)"
  have "b64val (b64_char w s) = int ?n" "b64_char w s \<notin> {61, 10, 13, 32}"
    using b64val_b64 [OF sextet_lt] by (simp_all add: b64_char_def)
  moreover have "word_of_int (int ?n) = drop_bit s w AND 63" by simp
  ultimately show ?thesis by (simp add: Let_def del: of_nat_unat)
qed

lemma mask_63: "(63 :: u32) = mask 6"
  by (simp add: mask_eq_exp_minus_1)

lemma bit_byte_high: "8 \<le> n \<Longrightarrow> \<not> bit (b :: byte) n"
  using bit_imp_le_length [of b n] by auto

lemma byte_eqI:
  assumes "bit x 0 = bit y 0" "bit x 1 = bit y 1" "bit x 2 = bit y 2" "bit x 3 = bit y 3"
    "bit x 4 = bit y 4" "bit x 5 = bit y 5" "bit x 6 = bit y 6" "bit x 7 = bit (y :: byte) 7"
  shows "x = y"
proof (rule bit_word_eqI)
  fix n assume "n < LENGTH(8)"
  then have "n = 0 \<or> n = 1 \<or> n = 2 \<or> n = 3 \<or> n = 4 \<or> n = 5 \<or> n = 6 \<or> n = 7" by simp linarith
  then show "bit x n = bit y n" using assms by (elim disjE) simp_all
qed

lemma base64_triple:
  fixes a b c :: byte and v :: u32
  defines "w \<equiv> push_bit 16 (ucast a) OR push_bit 8 (ucast b) OR ucast c"
  defines "v1 \<equiv> push_bit 6 v OR (drop_bit 18 w AND 63)"
  defines "v2 \<equiv> push_bit 6 v1 OR (drop_bit 12 w AND 63)"
  defines "v3 \<equiv> push_bit 6 v2 OR (drop_bit 6 w AND 63)"
  defines "v4 \<equiv> push_bit 6 v3 OR (drop_bit 0 w AND 63)"
  shows "ucast (drop_bit 4 v2) = a" "ucast (drop_bit 2 v3) = b" "ucast v4 = c"
  unfolding v4_def v3_def v2_def v1_def w_def mask_63 by (rule byte_eqI; simp add: bit_simps bit_byte_high)+

lemma base64_four:
  fixes w v :: u32
  defines "v1 \<equiv> push_bit 6 v OR (drop_bit 18 w AND 63)"
  defines "v2 \<equiv> push_bit 6 v1 OR (drop_bit 12 w AND 63)"
  defines "v3 \<equiv> push_bit 6 v2 OR (drop_bit 6 w AND 63)"
  defines "v4 \<equiv> push_bit 6 v3 OR (drop_bit 0 w AND 63)"
  shows "base64_loop (b64_char w 18 # b64_char w 12 # s) v 0 = map_sum id ((#) (ucast (drop_bit 4 v2))) (base64_loop s v2 4)"
    and "base64_loop (b64_char w 6 # s) v2 4 = map_sum id ((#) (ucast (drop_bit 2 v3))) (base64_loop s v3 2)"
    and "base64_loop (b64_char w 0 # s) v3 2 = map_sum id ((#) (ucast v4)) (base64_loop s v4 0)"
proof -
  have s1: "base64_loop (b64_char w 18 # cs) v 0 = base64_loop cs v1 6" for cs
    unfolding base64_step v1_def [symmetric] Let_def by simp
  show "base64_loop (b64_char w 18 # b64_char w 12 # s) v 0 = map_sum id ((#) (ucast (drop_bit 4 v2))) (base64_loop s v2 4)"
    unfolding s1 unfolding base64_step v2_def [symmetric] Let_def by simp
  show "base64_loop (b64_char w 6 # s) v2 4 = map_sum id ((#) (ucast (drop_bit 2 v3))) (base64_loop s v3 2)"
    unfolding base64_step v3_def [symmetric] Let_def by simp
  show "base64_loop (b64_char w 0 # s) v3 2 = map_sum id ((#) (ucast v4)) (base64_loop s v4 0)"
    unfolding base64_step v4_def [symmetric] Let_def by simp
qed

text \<open>Padding characters end the text.\<close>

lemma base64_pad: "base64_loop (replicate n 61) v bits = Inr []"
  by (induction n) simp_all

lemma base64_loop_encode: "base64_loop (base64_encode p) v 0 = Inr p"
proof (induction p arbitrary: v rule: base64_encode.induct)
  case (1 a b c p)
  then show ?case
    using base64_triple [of v a b c] by (simp only: base64_encode.simps Let_def base64_four) simp
next
  case (2 a b)
  then show ?case
    using base64_triple [of v a b 0] base64_pad [of 1] by (simp only: base64_encode.simps Let_def base64_four) simp
next
  case (3 a)
  then show ?case
    using base64_triple [of v a 0 0] base64_pad [of 2] by (simp only: base64_encode.simps Let_def base64_four) (simp add: numeral_2_eq_2)
qed simp

text \<open>
  C29: The codecs lose nothing. Decoding the hexadecimal or the base64 text of any bytes, whatever
  their number modulo three, gives the bytes back without an error. The hexadecimal text is what
  \<^verbatim>\<open>hex\<close> returns, given memory, exactly for less than \<open>2 ^ 30\<close> bytes.
\<close>

theorem hex_base64_roundtrip:
  "unhex (hex_text p) = Inr p \<and> base64_decode (base64_encode p) = Inr p \<and>
   (result_hex (\<lambda>_. True) p = Some (Inr (hex_text p)) \<longleftrightarrow> length p < 2 ^ 30)"
  by (auto simp: unhex_hex base64_decode_def base64_loop_encode result_hex_def Let_def)

end
