(* ===== verification/Tdb_Bt_Max.thy ===== *)
theory Tdb_Bt_Max
  imports Tdb_Bt_Table
begin

text \<open>
  The greatest rowid of a table, as \<open>tdb_btree_max_rowid\<close> of \<^verbatim>\<open>src/storage/tdb_btree.c\<close> finds it:
  the last cell of the rightmost leaf. It is the greatest rowid as long as that leaf is not
  emptied, which insertion maintains and deletion may break; for an empty leaf the result is 0.
\<close>

context bt_store
begin

lemma descend_right_ok:
  assumes "tree_in z p U h t" "in_use z p U" "wf_cursor c" "L + h < TDB_MAXDEPTH"
  shows "\<exists>c' p' q. descend_rightmost all_ok z p c (root_of t) L = Some (TDB_OK, c', p') \<and> c_leaf c' = Some q \<and>
    cur_idx c' = length (last_leaf t) - 1 \<and> c_eof c' = (last_leaf t = []) \<and> q \<in> U \<and> leaf_page ps (view z p q) (last_leaf t) \<and>
    looks z U p p' \<and> pins p' = (pins p)(q := Suc (pins p q))"
  using assms
proof (induction h arbitrary: t p c L)
  case 0
  then obtain q cs where t: "t = BLeaf q cs" by (cases t) (auto elim: tree_in_node)
  note lf = tree_in_leaf [OF "0.prems"(1) [unfolded t]]
  obtain p1 where g: "tdb_pager_get all_ok z p q = (TDB_OK, p1)" "looks z U p p1" "page_data p1 q = view z p q"
    "pins p1 = (pins p)(q := Suc (pins p q))" by (rule looks_get [OF "0.prems"(2) lf(2)]) (rule that, assumption+)
  let ?c = "c\<lparr>c_page := (c_page c)[L := q], c_depth := L, c_cidx := (c_cidx c)[L := (if 0 < length cs then length cs - 1 else 0)],
    c_leaf := Some q, c_eof := (length cs = 0)\<rparr>"
  have "descend_rightmost all_ok z p c q L = Some (TDB_OK, ?c, p1)"
    using g(1,3) page_okD(4,5) [OF lf(3)] "0.prems"(4) by (subst descend_rightmost.simps) (simp add: Let_def)
  then show ?case
    using g(2,4) lf "0.prems"(3,4) by (intro exI [of _ ?c] exI [of _ p1] exI [of _ q]) (auto simp: t cur_idx_def wf_cursor_def)
next
  case (Suc h)
  then obtain q ts ks where t: "t = BNode q ts ks" by (cases t) (auto dest: tree_in_leaf(1))
  obtain n: "q \<in> U" "\<not> pg_is_leaf (view z p q)" "pg_ncell (view z p q) = length ks" "length ts = Suc (length ks)"
    "\<And>i. i < length ts \<Longrightarrow> tree_in z p U h (ts ! i)" "\<And>i. i < length ts \<Longrightarrow> child_at (view z p q) i = root_of (ts ! i)"
    using tree_in_node [OF Suc.prems(1) [unfolded t]] by (metis nat.inject)
  have ne: "ts \<noteq> []" using n(4) by auto
  then have l: "last ts = ts ! length ks" using n(4) by (simp add: last_conv_nth)
  have r: "pg_right (view z p q) = root_of (last ts)" using n(6) [of "length ks"] n(3,4) l by (simp add: child_at_def)
  obtain p1 where g: "tdb_pager_get all_ok z p q = (TDB_OK, p1)" "page_data p1 q = view z p q" "looks z U p (tdb_pager_unref p1 q)"
    "pins (tdb_pager_unref p1 q) = pins p" by (rule looks_get [OF Suc.prems(2) n(1)]) (rule that, assumption+)
  let ?p = "tdb_pager_unref p1 q" and ?c = "c\<lparr>c_page := (c_page c)[L := q], c_cidx := (c_cidx c)[L := length ks]\<rparr>"
  have step: "descend_rightmost all_ok z p c q L = descend_rightmost all_ok z ?p ?c (root_of (last ts)) (Suc L)"
    using g(1,2) n(2,3) r Suc.prems(4) by (subst descend_rightmost.simps) (simp add: Let_def)
  have v: "view z ?p = view z p" "in_use z ?p U" using g(3) by (simp_all add: looks_def)
  obtain c' p' r where d: "descend_rightmost all_ok z ?p ?c (root_of (last ts)) (Suc L) = Some (TDB_OK, c', p')" "c_leaf c' = Some r"
    "cur_idx c' = length (last_leaf (last ts)) - 1" "c_eof c' = (last_leaf (last ts) = [])" "r \<in> U"
    "leaf_page ps (view z p r) (last_leaf (last ts))" "looks z U ?p p'" "pins p' = (pins ?p)(r := Suc (pins ?p r))"
    using Suc.IH [of ?p "last ts" ?c "Suc L"] n(4,5) l tree_in_looks [OF _ g(3)] v Suc.prems(3,4) by (force simp: wf_cursor_def)
  show ?case
    by (intro exI [of _ c'] exI [of _ p'] exI [of _ r]) (use d step ne looks_trans [OF g(3) d(7)] g(4) in \<open>simp add: t\<close>)
qed

lemma max_rowid_ok:
  assumes t: "tree_in z p U h t" "h < TDB_MAXDEPTH" "in_use z p U" "root_of t = bt_root bt"
  obtains p' where "tdb_btree_max_rowid all_ok z bt p =
      Some (TDB_OK, if last_leaf t = [] then 0 else key_to_rowid (kf (last (last_leaf t))), p')" "looks z U p p'" "pins p' = pins p"
proof -
  have w: "wf_cursor (new_cursor\<lparr>c_leaf := None\<rparr>)" by (simp add: wf_cursor_def new_cursor_def)
  obtain c' p' q where d: "descend_rightmost all_ok z p (new_cursor\<lparr>c_leaf := None\<rparr>) (root_of t) 0 = Some (TDB_OK, c', p')" "c_leaf c' = Some q"
    "cur_idx c' = length (last_leaf t) - 1" "c_eof c' = (last_leaf t = [])" "q \<in> U" "leaf_page ps (view z p q) (last_leaf t)"
    "looks z U p p'" "pins p' = (pins p)(q := Suc (pins p q))"
    using descend_right_ok [OF t(1,3) w, of 0] t(2) by auto
  have "tdb_cursor_last all_ok z bt p new_cursor = Some (TDB_OK, c', p')"
    using d(1) t(4) by (simp add: tdb_cursor_last_def drop_leaf_def new_cursor_def)
  moreover have cl: "tdb_cursor_close p' c' = tdb_pager_unref p' q" by (simp add: tdb_cursor_close_def drop_leaf_def d(2))
  moreover have "tdb_cursor_rowid ps p' c' = (TDB_OK, key_to_rowid (kf (last (last_leaf t))))" if "last_leaf t \<noteq> []"
  proof -
    have "leaf_data p' c' = view z p q" using pinned_data [of p' q z] d(2,7,8) by (simp add: leaf_data_def looks_def)
    then have "read_leafcell ps (leaf_data p' c') (cur_idx c') = leafcell_at ps (last (last_leaf t))"
      using leaf_page_read(1) [OF d(6), of "length (last_leaf t) - 1"] that d(3) by (simp add: last_conv_nth)
    then show ?thesis using that d(2,4) by (simp add: tdb_cursor_rowid_def tdb_cursor_key_def leaf_key_def)
  qed
  ultimately have "tdb_btree_max_rowid all_ok z bt p =
      Some (TDB_OK, if last_leaf t = [] then 0 else key_to_rowid (kf (last (last_leaf t))), tdb_pager_unref p' q)"
    using d(4) by (simp add: tdb_btree_max_rowid_def tdb_cursor_open_def)
  moreover have "looks z U p (tdb_pager_unref p' q)" "pins (tdb_pager_unref p' q) = pins p"
    using d(7,8) unref_use [of z p' U q] by (auto simp: looks_def unref_pins)
  ultimately show thesis by (rule that)
qed

end

text \<open>The last cell of a tree is in its rightmost leaf.\<close>

lemma last_leaf_entries: "last_leaf t \<noteq> [] \<Longrightarrow> \<exists>es. entries t = es @ last_leaf t"
proof (induction t rule: last_leaf.induct)
  case (2 q ts ks)
  then have ne: "ts \<noteq> []" by auto
  then obtain es where "entries (last ts) = es @ last_leaf (last ts)" using 2 by auto
  moreover have "concat (map entries ts) = concat (map entries (butlast ts @ [last ts]))" using ne by simp
  ultimately have "concat (map entries ts) = (concat (map entries (butlast ts)) @ es) @ last_leaf (last ts)" by simp
  then show ?case using ne by auto
qed simp

text \<open>
  The greatest rowid of a table whose right edge is kept: 0 for an empty table, else the greatest.
\<close>

definition top_rowid :: "(u64 \<rightharpoonup> 'a) \<Rightarrow> u64 \<Rightarrow> bool" where
  "top_rowid f r \<longleftrightarrow> (if f = Map.empty then r = 0 else r \<in> dom f \<and> (\<forall>r' \<in> dom f. r' \<le> r))"

lemma table_max:
  assumes t: "table_in z p U root ps t" and e: "right_edge t"
  obtains r p' where "tdb_btree_max_rowid all_ok z (table_tree root ps) p = Some (TDB_OK, r, p')" "looks z U p p'" "pins p' = pins p"
    "top_rowid (map_of (table_rows ps t)) r"
proof -
  obtain h where h: "ts.tree_at root ps z p U h None None t" "in_use z p U" "root_of t = root" using t by (auto simp: ts.stored_def)
  have hd: "h < TDB_MAXDEPTH" using ts.tree_height [OF h(1,2)] by (simp add: TDB_MAXDEPTH_def)
  have ti: "ts.tree_in root ps z p U h t" using h(1) by (auto simp: ts.tree_in_def)
  define r where "r = (if last_leaf t = [] then 0 else key_to_rowid (leaf_key ps (last (last_leaf t))))"
  have rt: "root_of t = bt_root (table_tree root ps)" using h(3) by simp
  obtain p' where m0: "tdb_btree_max_rowid all_ok z (table_tree root ps) p =
      Some (TDB_OK, if last_leaf t = [] then 0 else key_to_rowid (leaf_key (bt_ps (table_tree root ps)) (last (last_leaf t))), p')"
    "looks z U p p'" "pins p' = pins p" by (rule ts.max_rowid_ok [OF ti hd h(2) rt]) (rule that, assumption+)
  have m: "tdb_btree_max_rowid all_ok z (table_tree root ps) p = Some (TDB_OK, r, p')" using m0(1) by (simp add: r_def)
  have "top_rowid (map_of (table_rows ps t)) r"
  proof (cases "last_leaf t = []")
    case True
    then have "entries t = []" using e by (cases t) (auto simp: right_edge_def)
    then show ?thesis using True by (simp add: top_rowid_def table_rows_def r_def)
  next
    case False
    obtain es where es: "entries t = es @ last_leaf t" using last_leaf_entries [OF False] by blast
    define rows where "rows = map (row_of ps) (es @ butlast (last_leaf t))"
    have tr: "table_rows ps t = rows @ [row_of ps (last (last_leaf t))]"
      unfolding table_rows_def es rows_def using append_butlast_last_id [OF False] by (metis append.assoc list.simps(8,9) map_append)
    have "sorted_wrt (<) (map fst rows @ [fst (row_of ps (last (last_leaf t)))])" using table_cells(2) [OF t] by (simp add: tr)
    moreover have "fst (row_of ps (last (last_leaf t))) = r" using False by (simp add: row_of_def r_def)
    ultimately show ?thesis by (auto simp: top_rowid_def tr dom_map_of_conv_image_fst sorted_wrt_append less_imp_le)
  qed
  then show thesis by (rule that [OF m m0(2,3)])
qed

lemma top_rowid_fresh:
  assumes "top_rowid f r" "r + 1 \<noteq> 0"
  shows "r + 1 \<notin> dom f"
proof
  assume "r + 1 \<in> dom f"
  then have "r + 1 \<le> r" using assms(1) by (auto simp: top_rowid_def split: if_splits)
  then show False using unatSuc [of r] assms(2) by (simp add: word_le_nat_alt add.commute)
qed

end
