(* ===== verification/Spec2Isabelle.thy ===== *)
theory Spec2Isabelle
  imports Tdb_Pager_Crash Tdb_Txn_Props Tdb_Bt_Props Tdb_Lex_Props Tdb_Acl Tdb_Digest_Props Tdb_Codec Tdb_Bt_Max
begin

text \<open>
  Verification of TransactionDB, an embedded transactional database in C. This theory imports the
  whole development; each component has its theories, listed here with the source they model.
  Paths are relative to \<^verbatim>\<open>src/\<close>, the root of the program's repository.

  \<^bold>\<open>The program.\<close> A database is one file of pages of equal size with a header in page 1, and a
  write-ahead log beside it. From the bottom up: the VFS reads and writes files; the log keeps the
  pages of committed batches; the pager caches pages over both, keeps the free list and runs one
  write transaction at a time with savepoints; B-trees keep rows and index keys in pages. Beside
  this stack the transaction manager hands out ids and snapshots, decides visibility of row
  versions and owns the lock table. Values are serialised by the record codec. The catalog keeps
  schema objects and grants as byte records. SQL text goes through the lexer. A set of digest and
  codec functions is offered to SQL.

  \<^bold>\<open>Conventions.\<close> C integers are words of their width and wrap; where the code computes in
  \<^verbatim>\<open>int\<close> without a possible overflow the model has \<open>nat\<close> or \<open>int\<close>. A byte array is a list of
  8-bit words, a double is its 64-bit pattern. A C function that changes objects takes the object
  and returns the new one, with the result code of type \<open>tdb_status\<close> first. \<^verbatim>\<open>malloc\<close> is an
  argument: a Boolean, or a function from request numbers to Booleans where an operation allocates
  more than once, so that every statement about all such arguments covers every pattern of
  failures. An optional result is \<open>None\<close> where the C code has no result: a walk over pages that
  never ends, or undefined behaviour such as a store outside an array. Operations under a mutex
  are atomic steps, and sequences of operations are lists of steps.

  \<^bold>\<open>Theories.\<close>
  \<^item> \<open>Tdb_Prelude\<close>: integer types, status codes (\<^verbatim>\<open>include/transactiondb.h\<close>), slices and
    patches of byte lists, the collections of rewrite rules.
  \<^item> \<open>Tdb_Util\<close> (\<^verbatim>\<open>src/common/tdb_util.c\<close>): varints, big-endian integers, CRC32C, FNV-1a. The
    varint codec is a round trip; the table-driven CRC equals the bitwise one.
  \<^item> \<open>Tdb_Buf\<close> (\<^verbatim>\<open>src/common/tdb_buf.c\<close>) and \<open>Tdb_Mem\<close> (\<^verbatim>\<open>src/common/tdb_mem.c\<close>): the growable
    buffer, C strings, and the arena allocator, whose allocations lie in their blocks and are disjoint.
  \<^item> \<open>Tdb_Value\<close> (\<^verbatim>\<open>src/value/tdb_value.c\<close>, \<^verbatim>\<open>tdb_type.c\<close>): values and their comparison, a strict
    order. \<open>Tdb_Record\<close> (\<^verbatim>\<open>src/value/tdb_record.c\<close>): the record codec, its round trip, its bounds
    on corrupt input (reads and stores outside an array are an outcome of the model) and the
    lexicographic comparison of encoded keys.
  \<^item> \<open>Tdb_File\<close> (\<^verbatim>\<open>src/storage/tdb_file.c\<close>): the in-memory VFS; the locale \<open>vfs_file\<close> is the
    contract of a file. \<open>Tdb_Compress\<close> (\<^verbatim>\<open>src/storage/tdb_compress.c\<close>): the page codec; the
    Zstandard library is an argument and its lossless round trip a hypothesis (locale
    \<open>page_codec\<close>).
  \<^item> \<open>Tdb_Wal\<close>, \<open>Tdb_Wal_Log\<close>, \<open>Tdb_Ckpt\<close> (\<^verbatim>\<open>src/storage/tdb_wal.c\<close>): the log, the list of frames
    it stands for, recovery after a crash that cuts the file anywhere, and the checkpoint. Reading
    and checkpointing are stated for logs that end with a commit frame, since the code also serves
    and copies frames after the last one.
  \<^item> \<open>Tdb_Pager\<close>, \<open>Tdb_Pager_View\<close>, \<open>Tdb_Pager_Txn\<close>, \<open>Tdb_Pager_Commit\<close>, \<open>Tdb_Pager_Props\<close>,
    \<open>Tdb_Pager_Crash\<close>, \<open>Tdb_Pager_Limits\<close>, \<open>Tdb_Freelist\<close> (\<^verbatim>\<open>src/storage/tdb_pager.c\<close>): the
    pager. \<open>view\<close> is what a client sees of each page and \<open>disk\<close> what survives a crash; every operation is characterised by
    its effect on them, cache coherence is an invariant of all sequences of operations, and the
    free list implements a stack (locale \<open>page_allocator\<close>). \<open>Tdb_Pager_Crash\<close> follows a
    crash at any point of a commit, its automatic checkpoint included, into opening the files that
    it leaves. \<open>Tdb_Pager_Limits\<close> proves two places where the pager does not do what its
    interface promises.
  \<^item> \<open>Tdb_Bt_Page\<close>, \<open>Tdb_Bt_Layout\<close>, \<open>Tdb_Bt_Cells\<close> (\<^verbatim>\<open>src/storage/tdb_btree.c\<close>): cells in a page
    (locale \<open>cell_format\<close>, for leaf and interior cells) and the search in it (locale
    \<open>key_order\<close>, for table and index keys). \<open>Tdb_Btree\<close>, \<open>Tdb_Bt_Cursor\<close>: all operations on
    trees and cursors. \<open>Tdb_Bt_Client\<close>, \<open>Tdb_Bt_Tree\<close>, \<open>Tdb_Bt_Stored\<close>, \<open>Tdb_Bt_Insert\<close>,
    \<open>Tdb_Bt_Scan\<close>, \<open>Tdb_Bt_Max\<close>, \<open>Tdb_Bt_Table\<close>, \<open>Tdb_Bt_Props\<close>: abstract trees, their storage in
    pages (locale \<open>bt_store\<close>), insertion with splits (locale \<open>bt_map\<close>), scans, the greatest rowid,
    and the refinement of a finite map by a table tree.
  \<^item> \<open>Tdb_Mvcc\<close> (\<^verbatim>\<open>src/txn/tdb_mvcc.c\<close>), \<open>Tdb_Lock\<close> (\<^verbatim>\<open>src/txn/tdb_lock.c\<close>), \<open>Tdb_Txn\<close>,
    \<open>Tdb_Txn_Props\<close> (\<^verbatim>\<open>src/txn/tdb_txn.c\<close>): visibility; mutual exclusion and absence of deadlock
    under wait-die; the manager over pager and locks (locales \<open>lock_table\<close> and \<open>xact_log\<close>),
    stability of snapshots, what a re-taken one shows, outcome of a commit, time travel, and what a
    crash does to outcomes.
  \<^item> \<open>Tdb_Schema\<close>, \<open>Tdb_Serial\<close>, \<open>Tdb_Serial_Props\<close>, \<open>Tdb_Acl\<close> (\<^verbatim>\<open>src/catalog/\<close>): schema objects,
    the byte records of tables, views and routines with their round trips, and the grants.
  \<^item> \<open>Tdb_Token\<close>, \<open>Tdb_Lexer\<close>, \<open>Tdb_Lex_Props\<close> (\<^verbatim>\<open>src/sql/tdb_lexer.c\<close>): the tokenizer; tokens
    are in bounds, the end is reached, string literals read back, integer literals have the value
    C gives them.
  \<^item> \<open>Tdb_Digest\<close>, \<open>Tdb_Digest_Props\<close>, \<open>Tdb_Codec\<close> (\<^verbatim>\<open>src/ext/tdb_crypto.c\<close>): SHA-256, SHA-1, MD5,
    HMAC, CRC-32, hexadecimal and base64, against reference definitions.

  \<^bold>\<open>Bounds and fuel.\<close> The vacuum of the pager walks the trunk pages of the free list and dropping
  a tree recurses over its pages with fuel; the page count of the file is enough, since a
  well-formed list or tree has no page twice. Walks over page chains that corrupt data could make
  endless are partial functions, and the theorems on them state that they return. The refinement
  of the table tree is for rows whose cells differ in size by at most a factor of three halves and
  take at most about a quarter of a page: then no split fails for lack of room; the tree has room
  for the height that the cursor's stack of 40 levels bounds. The properties of a commit are for
  at most 2111 dirty pages before it: with page 1, which every commit writes, they fill the array of
  2112 in the code; beyond it \<open>Tdb_Pager_Limits\<close> shows what happens instead. Atomicity across
  a crash is for pages of at most 65536 bytes, the sizes a header can express.

  \<^bold>\<open>Not modelled.\<close> The POSIX, Windows and standard-I/O back ends of the VFS, the mutexes and the
  command shell only make system calls. The SQL parser (except for string literals), the analysis
  and execution of statements, the procedural language and the API work over all components and
  their own object graph; the Lua bridge, the LLVM back ends and the parts of
  \<^verbatim>\<open>src/ext/tdb_crypto.c\<close> on OpenSSL only call libraries that are not part of the sources. The
  cache of the catalog and its persistence in a B-tree, the reader of comments and the tablespace
  records are left out as well. The row and column engines, the R-tree, the geometry functions and
  the SQL type conversions are clients of the modelled components and are left out.
\<close>

end
